(* ===== verification/Prelude.thy ===== *)
theory Prelude
  imports Main "HOL-Library.Word"
begin

text \<open>
  What every other theory of the library shares: the machine types of the C code, the
  result type of operations that can raise an Arc error or leave the defined behaviour
  of C, the collections of rules the component proofs use, and generic facts on lists
  and on bit masks.

  The interpreter is built for a 64-bit \<open>unsigned long\<close> (the type \<open>value\<close> of
  \<open>src/src/arcueid.h\<close>), a 32-bit \<open>int\<close> and a 32-bit signed \<open>Rune\<close>.
\<close>

unbundle bit_operations_syntax

type_synonym u8 = "8 word"
type_synonym u32 = "32 word"
type_synonym u64 = "64 word"

text \<open>An \<open>int32_t\<close> code point; read as signed where the code compares it.\<close>

type_synonym rune = "32 word"

text \<open>
  The ways an operation can fail to return: \<open>ArcErr msg\<close> is a call of
  \<open>arc_err_cstrfmt\<close>, which unwinds the running Arc computation, \<open>UB\<close> is a
  read or write outside the object the code holds a pointer to, and \<open>Overrun\<close> is a write of the
  code generator outside the vector of the code or of the literals.
\<close>

datatype fault = ArcErr string | UB | Overrun

type_synonym 'a res = "fault + 'a"

definition rbind :: "'a res \<Rightarrow> ('a \<Rightarrow> 'b res) \<Rightarrow> 'b res" where
  "rbind m f = (case m of Inl e \<Rightarrow> Inl e | Inr a \<Rightarrow> f a)"

named_theorems result_simps "rules that evaluate the result monad"
named_theorems wf_intros "introduction rules for the well-formedness invariants"

lemma rbind_Inr [simp, result_simps]: "rbind (Inr a) f = f a"
  by (simp add: rbind_def)

lemma rbind_Inl [simp, result_simps]: "rbind (Inl e) f = Inl e"
  by (simp add: rbind_def)

lemma rbind_eq_Inr: "rbind m f = Inr b \<longleftrightarrow> (\<exists>a. m = Inr a \<and> f a = Inr b)"
  by (cases m) auto

lemma rbind_cong: "m = m' \<Longrightarrow> (\<And>a. m' = Inr a \<Longrightarrow> f a = g a) \<Longrightarrow> rbind m f = rbind m' g"
  by (cases m') auto

subsection \<open>Checked indexing\<close>

text \<open>Reading and writing element \<open>i\<close> of a C array; outside of it is \<open>None\<close>.\<close>

definition nth_opt :: "'a list \<Rightarrow> nat \<Rightarrow> 'a option" where
  "nth_opt xs i = (if i < length xs then Some (xs ! i) else None)"

definition upd_opt :: "'a list \<Rightarrow> nat \<Rightarrow> 'a \<Rightarrow> 'a list option" where
  "upd_opt xs i x = (if i < length xs then Some (xs[i := x]) else None)"

lemma nth_opt_Some_iff: "nth_opt xs i = Some x \<longleftrightarrow> i < length xs \<and> xs ! i = x"
  by (auto simp: nth_opt_def)

lemma upd_opt_Some_iff: "upd_opt xs i x = Some ys \<longleftrightarrow> i < length xs \<and> ys = xs[i := x]"
  by (auto simp: upd_opt_def)

lemma nth_opt_lt [simp]: "i < length xs \<Longrightarrow> nth_opt xs i = Some (xs ! i)"
  by (simp add: nth_opt_def)

lemma upd_opt_lt [simp]: "i < length xs \<Longrightarrow> upd_opt xs i x = Some (xs[i := x])"
  by (simp add: upd_opt_def)

subsection \<open>Masks\<close>

text \<open>\<open>x & (2^n - 1)\<close> is the remainder: the table index computations use it.\<close>

lemma nat_and_mask: "(x::nat) AND (2 ^ n - 1) = x mod 2 ^ n"
  by (metis mask_eq_exp_minus_1 take_bit_eq_mask take_bit_eq_mod)

end
