(* ===== verification/Values.thy ===== *)
theory Values
  imports Prelude
begin

text \<open>
  Tagged words, \<open>src/src/arcueid.h\<close>: a \<open>value\<close> is one machine word that is either an
  immediate (fixnum, symbol, stack environment, or one of the constants) or the address
  of a heap cell. The macros are translated bit for bit; \<open>BTYPE\<close> reads the type byte of
  a cell and is the argument \<open>mem\<close>. The last part relates the words to the constructors
  of \<open>val\<close>, which the theories above the heap use instead of raw words.
\<close>

type_synonym arcval = u64

subsection \<open>Types\<close>

datatype arc_type =
    T_NIL | T_FIXNUM | T_BIGNUM | T_FLONUM | T_RATIONAL | T_COMPLEX | T_CHAR | T_STRING
  | T_SYMBOL | T_CONS | T_TABLE | T_TABLEVEC | T_TBUCKET | T_TAGGED | T_EXCEPTION
  | T_INPORT | T_OUTPORT | T_THREAD | T_VECTOR | T_CONT | T_CLOS | T_CODE | T_ENV
  | T_CCODE | T_CUSTOM | T_CHAN | T_TYPEDESC | T_WTABLE | T_NUM | T_INT | T_REGEXP
  | T_NONE

fun type_code :: "arc_type \<Rightarrow> nat" where
  "type_code T_NIL = 0"
| "type_code T_FIXNUM = 2"
| "type_code T_BIGNUM = 3"
| "type_code T_FLONUM = 4"
| "type_code T_RATIONAL = 5"
| "type_code T_COMPLEX = 6"
| "type_code T_CHAR = 7"
| "type_code T_STRING = 8"
| "type_code T_SYMBOL = 9"
| "type_code T_CONS = 10"
| "type_code T_TABLE = 11"
| "type_code T_TABLEVEC = 12"
| "type_code T_TBUCKET = 13"
| "type_code T_TAGGED = 14"
| "type_code T_EXCEPTION = 15"
| "type_code T_INPORT = 16"
| "type_code T_OUTPORT = 17"
| "type_code T_THREAD = 18"
| "type_code T_VECTOR = 19"
| "type_code T_CONT = 20"
| "type_code T_CLOS = 21"
| "type_code T_CODE = 22"
| "type_code T_ENV = 23"
| "type_code T_CCODE = 24"
| "type_code T_CUSTOM = 25"
| "type_code T_CHAN = 26"
| "type_code T_TYPEDESC = 27"
| "type_code T_WTABLE = 28"
| "type_code T_NUM = 29"
| "type_code T_INT = 30"
| "type_code T_REGEXP = 31"
| "type_code T_NONE = 64"

subsection \<open>Immediate values\<close>

definition SYMBOL_FLAG :: u64 where
  "SYMBOL_FLAG = 0x0e"

definition ID2SYM :: "u64 \<Rightarrow> arcval" where
  "ID2SYM x = push_bit 8 x OR SYMBOL_FLAG"

definition SYM2ID :: "arcval \<Rightarrow> u64" where
  "SYM2ID x = drop_bit 8 x"

definition SYMBOL_P :: "arcval \<Rightarrow> bool" where
  "SYMBOL_P x \<longleftrightarrow> x AND 0xff = SYMBOL_FLAG"

definition ENV_FLAG :: u64 where
  "ENV_FLAG = 0x0c"

definition ENV_P :: "arcval \<Rightarrow> bool" where
  "ENV_P x \<longleftrightarrow> x AND 0xf = ENV_FLAG"

text \<open>\<open>__arc_mkenv\<close> builds the register value of a stack environment from an offset.\<close>

definition mk_env_word :: "u64 \<Rightarrow> arcval" where
  "mk_env_word ofs = push_bit 4 ofs OR ENV_FLAG"

definition CNIL :: arcval where
  "CNIL = 0"

definition CUNDEF :: arcval where
  "CUNDEF = 4"

definition CUNBOUND :: arcval where
  "CUNBOUND = 6"

definition CLASTARG :: arcval where
  "CLASTARG = 8"

definition IMMEDIATE_P :: "arcval \<Rightarrow> bool" where
  "IMMEDIATE_P x \<longleftrightarrow> x AND 0x0f \<noteq> 0 \<or> x = CNIL \<or> x = CUNDEF \<or> x = CUNBOUND"

definition INT2FIX :: "u64 \<Rightarrow> arcval" where
  "INT2FIX i = push_bit 1 i OR 1"

text \<open>\<open>(long)(x) >> 1\<close>: the arithmetic shift of the compilers the code is built with.\<close>

definition FIX2INT :: "arcval \<Rightarrow> u64" where
  "FIX2INT x = signed_drop_bit 1 x"

definition FIXNUM_P :: "arcval \<Rightarrow> bool" where
  "FIXNUM_P x \<longleftrightarrow> x AND 1 \<noteq> 0"

definition FIXNUM_MAX :: int where
  "FIXNUM_MAX = 2 ^ 62 - 1"

definition FIXNUM_MIN :: int where
  "FIXNUM_MIN = - FIXNUM_MAX"

definition TYPE_of :: "(arcval \<Rightarrow> arc_type) \<Rightarrow> arcval \<Rightarrow> arc_type" where
  "TYPE_of mem v =
     (if FIXNUM_P v then T_FIXNUM
      else if SYMBOL_P v then T_SYMBOL
      else if ENV_P v then T_ENV
      else if v = CNIL then T_NIL
      else if v = CUNDEF \<or> v = CUNBOUND then T_NONE
      else if \<not> IMMEDIATE_P v then mem v
      else T_NONE)"

lemmas value_defs = SYMBOL_FLAG_def ID2SYM_def SYM2ID_def SYMBOL_P_def ENV_FLAG_def ENV_P_def
  mk_env_word_def CNIL_def CUNDEF_def CUNBOUND_def CLASTARG_def IMMEDIATE_P_def INT2FIX_def
  FIX2INT_def FIXNUM_P_def


subsection \<open>The tags in terms of the low bits\<close>

lemma and_ff: "(x::u64) AND 0xff = take_bit 8 x"
  by (simp add: take_bit_eq_mask mask_eq_exp_minus_1)

lemma and_f: "(x::u64) AND 0xf = take_bit 4 x"
  by (simp add: take_bit_eq_mask mask_eq_exp_minus_1)

lemma FIXNUM_P_odd: "FIXNUM_P x \<longleftrightarrow> odd x"
  by (simp add: FIXNUM_P_def and_one_eq odd_iff_mod_2_eq_one)

lemma SYMBOL_P_bits: "SYMBOL_P x \<longleftrightarrow> take_bit 8 x = 14"
  by (simp add: SYMBOL_P_def SYMBOL_FLAG_def and_ff)

lemma ENV_P_bits: "ENV_P x \<longleftrightarrow> take_bit 4 x = 12"
  by (simp add: ENV_P_def ENV_FLAG_def and_f)

lemma IMMEDIATE_P_bits: "IMMEDIATE_P x \<longleftrightarrow> take_bit 4 x \<noteq> 0 \<or> x = 0"
  by (auto simp add: IMMEDIATE_P_def CNIL_def CUNDEF_def CUNBOUND_def and_f)

lemmas tag_bits = FIXNUM_P_odd SYMBOL_P_bits ENV_P_bits IMMEDIATE_P_bits

lemma ID2SYM_bits: "take_bit 8 (ID2SYM x) = 14"
  by (simp add: ID2SYM_def SYMBOL_FLAG_def take_bit_push_bit)

lemma mk_env_word_bits: "take_bit 4 (mk_env_word x) = 12"
  by (simp add: mk_env_word_def ENV_FLAG_def take_bit_push_bit)

lemma INT2FIX_odd: "odd (INT2FIX x)"
  by (simp add: INT2FIX_def even_or_iff)

lemma symbol_low_nibble: "take_bit 8 x = 14 \<Longrightarrow> take_bit 4 x = (14::u64)"
proof -
  assume "take_bit 8 x = 14"
  then have "take_bit 4 (take_bit 8 x) = take_bit 4 (14::u64)" by simp
  then show ?thesis by simp
qed

lemma low_nibble_even: "take_bit 4 x = y \<Longrightarrow> even y \<Longrightarrow> even (x::u64)"
  by (metis even_take_bit_eq zero_neq_numeral)

lemma symbol_even: "take_bit 8 x = 14 \<Longrightarrow> even (x::u64)"
  by (rule low_nibble_even [OF symbol_low_nibble]) simp_all

subsection \<open>Fixnums\<close>

lemma bit_twice_word: "bit (i * 2 :: u64) n \<longleftrightarrow> n < 64 \<and> n \<noteq> 0 \<and> bit i (n - 1)"
  using bit_push_bit_iff [of 1 i n] by (auto simp: push_bit_eq_mult dest: bit_imp_le_length)

lemma FIX2INT_INT2FIX: "FIX2INT (INT2FIX i) = signed_take_bit 62 i"
  unfolding value_defs by (rule bit_word_eqI) (auto simp add: bit_simps bit_twice_word)

lemma signed_take_bit_62_id:
  assumes "sint (i::u64) < 2 ^ 62" and "- (2 ^ 62) \<le> sint i"
  shows "signed_take_bit 62 i = i"
proof -
  have "sint (signed_take_bit 62 i) = signed_take_bit 62 (sint i)"
    by (rule bit_eqI) (auto simp: bit_simps bit_sint_iff min_def)
  also have "\<dots> = sint i"
    using assms by (simp add: signed_take_bit_int_eq_self)
  finally show ?thesis by (metis signed_word_eqI)
qed

text \<open>
  A C integer between \<open>FIXNUM_MIN\<close> and \<open>FIXNUM_MAX\<close> survives the round trip
  through a fixnum, and the fixnum is recognised as one.
\<close>

lemma fixnum_roundtrip:
  assumes "FIXNUM_MIN \<le> sint i" and "sint i \<le> FIXNUM_MAX"
  shows "FIX2INT (INT2FIX i) = i \<and> TYPE_of mem (INT2FIX i) = T_FIXNUM"
  using assms
  by (simp add: FIX2INT_INT2FIX signed_take_bit_62_id FIXNUM_MIN_def FIXNUM_MAX_def TYPE_of_def
      FIXNUM_P_odd INT2FIX_odd)

lemma SYM2ID_ID2SYM: "SYM2ID (ID2SYM i) = take_bit 56 i"
  unfolding value_defs by (rule bit_word_eqI) (auto simp add: bit_simps)

lemma env_ofs_mk: "drop_bit 4 (mk_env_word i) = take_bit 60 i"
  unfolding value_defs by (rule bit_word_eqI) (auto simp add: bit_simps)

subsection \<open>Values as constructors\<close>

text \<open>
  The values the interpreter handles: the constants, fixnums, symbols by their index,
  stack environments by their offset from the top of the stack, and references to heap
  cells. Cells are 16-byte aligned (\<open>ALIGN_BITS\<close> in \<open>src/src/alloc.h\<close>), so the word of
  \<open>Ref a\<close> is \<open>16 * a\<close>. The theories above work with \<open>val\<close>; \<open>enc_faithful\<close> below is the
  reason they may.
\<close>

datatype val = NIL | UNDEF | UNBOUND | LASTARG | Fix int | Sym nat | StkEnv nat | Ref nat

fun enc :: "val \<Rightarrow> arcval" where
  "enc NIL = CNIL"
| "enc UNDEF = CUNDEF"
| "enc UNBOUND = CUNBOUND"
| "enc LASTARG = CLASTARG"
| "enc (Fix i) = INT2FIX (word_of_int i)"
| "enc (Sym n) = ID2SYM (word_of_nat n)"
| "enc (StkEnv n) = mk_env_word (word_of_nat n)"
| "enc (Ref a) = word_of_nat (16 * a)"

fun val_ok :: "val \<Rightarrow> bool" where
  "val_ok (Fix i) \<longleftrightarrow> FIXNUM_MIN \<le> i \<and> i \<le> FIXNUM_MAX"
| "val_ok (Sym n) \<longleftrightarrow> n < 2 ^ 56"
| "val_ok (StkEnv n) \<longleftrightarrow> n < 2 ^ 60"
| "val_ok (Ref a) \<longleftrightarrow> 0 < a \<and> a < 2 ^ 60"
| "val_ok _ \<longleftrightarrow> True"

text \<open>\<open>TYPE\<close> on constructors; the type of a cell is its type byte.\<close>

fun val_type :: "(nat \<Rightarrow> arc_type) \<Rightarrow> val \<Rightarrow> arc_type" where
  "val_type cell NIL = T_NIL"
| "val_type cell UNDEF = T_NONE"
| "val_type cell UNBOUND = T_NONE"
| "val_type cell LASTARG = T_NONE"
| "val_type cell (Fix i) = T_FIXNUM"
| "val_type cell (Sym n) = T_SYMBOL"
| "val_type cell (StkEnv n) = T_ENV"
| "val_type cell (Ref a) = cell a"

lemma word_of_nat_16_bits: "take_bit 4 (word_of_nat (16 * a) :: u64) = 0"
proof -
  have "take_bit 4 (word_of_nat (16 * a) :: u64) = take_bit 4 (push_bit 4 (word_of_nat a))"
    by (simp add: push_bit_eq_mult mult.commute)
  then show ?thesis by (simp add: take_bit_push_bit)
qed

lemma unat_ref_word: "a < 2 ^ 60 \<Longrightarrow> unat (word_of_nat (16 * a) :: u64) = 16 * a"
  by (simp add: unat_of_nat take_bit_nat_eq_self del: of_nat_mult)

lemma ref_word_nonzero: "0 < a \<Longrightarrow> a < 2 ^ 60 \<Longrightarrow> (word_of_nat (16 * a) :: u64) \<noteq> 0"
  using unat_ref_word [of a] by (metis mult_is_0 neq0_conv unat_0 zero_neq_numeral)

lemma TYPE_of_enc:
  assumes "val_ok v"
  shows "TYPE_of mem (enc v) = val_type (\<lambda>a. mem (enc (Ref a))) v"
proof (cases v)
  case (Fix i)
  then show ?thesis by (simp add: TYPE_of_def FIXNUM_P_odd INT2FIX_odd)
next
  case (Sym n)
  then show ?thesis by (simp add: TYPE_of_def tag_bits symbol_even ID2SYM_bits)
next
  case (StkEnv n)
  have "even (mk_env_word (word_of_nat n))"
    by (rule low_nibble_even [OF mk_env_word_bits]) simp
  moreover have "take_bit 8 (mk_env_word (word_of_nat n)) \<noteq> 14"
    using symbol_low_nibble mk_env_word_bits by fastforce
  ultimately show ?thesis
    using StkEnv by (simp add: TYPE_of_def tag_bits mk_env_word_bits)
next
  case (Ref a)
  let ?w = "word_of_nat (16 * a) :: u64"
  have "even ?w" by (rule low_nibble_even [OF word_of_nat_16_bits]) simp
  moreover have "take_bit 8 ?w \<noteq> 14"
    using symbol_low_nibble word_of_nat_16_bits by fastforce
  moreover have "?w \<noteq> 0"
    using assms Ref by (simp add: ref_word_nonzero del: of_nat_mult)
  moreover have "?w \<noteq> CUNDEF" "?w \<noteq> CUNBOUND"
    using word_of_nat_16_bits [of a]
    by (auto simp: CUNDEF_def CUNBOUND_def simp del: of_nat_mult)
  ultimately show ?thesis
    using Ref word_of_nat_16_bits [of a]
    by (simp add: TYPE_of_def tag_bits CNIL_def del: of_nat_mult)
qed (simp_all add: TYPE_of_def tag_bits CNIL_def CUNDEF_def CUNBOUND_def CLASTARG_def)

lemma dec_Fix:
  assumes "val_ok (Fix i)"
  shows "sint (FIX2INT (enc (Fix i))) = i"
proof -
  have "sint (word_of_int i :: u64) = i"
    using assms
    by (simp add: signed_of_int FIXNUM_MIN_def FIXNUM_MAX_def signed_take_bit_int_eq_self)
  then show ?thesis
    using assms
    by (simp add: FIX2INT_INT2FIX signed_take_bit_62_id FIXNUM_MIN_def FIXNUM_MAX_def)
qed

lemma dec_Sym: "val_ok (Sym n) \<Longrightarrow> unat (SYM2ID (enc (Sym n))) = n"
  by (simp add: SYM2ID_ID2SYM unsigned_take_bit_eq take_bit_nat_eq_self unat_of_nat)

lemma dec_StkEnv: "val_ok (StkEnv n) \<Longrightarrow> unat (drop_bit 4 (enc (StkEnv n))) = n"
  by (simp add: env_ofs_mk unsigned_take_bit_eq take_bit_nat_eq_self unat_of_nat)

text \<open>
  Property C40. The word encoding is faithful: on representable values two words are equal
  exactly when the values are, and \<open>TYPE\<close>, computed from the tag bits, is the type of the
  constructor.
\<close>

theorem enc_faithful:
  assumes "val_ok v" and "val_ok w"
  shows "(enc v = enc w \<longleftrightarrow> v = w) \<and> TYPE_of mem (enc v) = val_type (\<lambda>a. mem (enc (Ref a))) v"
proof -
  have ty: "enc v = enc w \<Longrightarrow> val_type (\<lambda>a. T_CONS) v = val_type (\<lambda>a. T_CONS) w"
    using TYPE_of_enc [OF assms(1), of "\<lambda>_. T_CONS"] TYPE_of_enc [OF assms(2), of "\<lambda>_. T_CONS"]
    by metis
  have "v = w" if e: "enc v = enc w"
  proof (cases v)
    case (Fix i)
    with ty [OF e] obtain j where "w = Fix j" by (cases w) auto
    then show ?thesis using Fix e assms dec_Fix by metis
  next
    case (Sym i)
    with ty [OF e] obtain j where "w = Sym j" by (cases w) auto
    then show ?thesis using Sym e assms dec_Sym by metis
  next
    case (StkEnv i)
    with ty [OF e] obtain j where "w = StkEnv j" by (cases w) auto
    then show ?thesis using StkEnv e assms dec_StkEnv by metis
  next
    case (Ref i)
    with ty [OF e] obtain j where "w = Ref j" by (cases w) auto
    then show ?thesis
      using Ref e assms unat_ref_word
      by (metis enc.simps(8) mult_cancel1 val_ok.simps(4) zero_neq_numeral)
  qed (use ty [OF e] e in \<open>cases w; simp add: CUNDEF_def CUNBOUND_def CLASTARG_def\<close>)+
  then show ?thesis using TYPE_of_enc [OF assms(1)] by auto
qed

theorem enc_faithful_witness:
  "(enc (Ref 3) = enc (Sym 3) \<longleftrightarrow> Ref 3 = Sym 3)
   \<and> TYPE_of (\<lambda>_. T_STRING) (enc (Ref 3)) = T_STRING"
  using enc_faithful [of "Ref 3" "Sym 3" "\<lambda>_. T_STRING"] by simp

end
