(* ===== verification/Utf.thy ===== *)
theory Utf
  imports Prelude "HOL-Library.Monad_Syntax"
begin

text \<open>
  UTF-8, \<open>src/src/utf.c\<close> and \<open>src/src/utf.h\<close>: decoding, encoding, counting and searching.
  Bytes are \<open>int\<close> between 0 and 255, as the code reads them through \<open>unsigned char\<close>; runes
  are \<open>int\<close>. A C string is the list of its bytes up to the terminating NUL; a read one past
  the list is the NUL, a read further on is outside the object (\<open>None\<close>). The intermediate
  words of the five and six byte sequences exceed 32 bits before they are masked; the mask
  keeps the low 26 or 31 bits, so unbounded integers give what the wrapping shift gives.
\<close>

type_synonym byte = int
type_synonym urune = int

subsection \<open>The constants of utf.c and utf.h\<close>

definition Tx :: int where
  "Tx = 0x80"

definition T2 :: int where
  "T2 = 0xC0"

definition T3 :: int where
  "T3 = 0xE0"

definition T4 :: int where
  "T4 = 0xF0"

definition T5 :: int where
  "T5 = 0xF8"

definition T6 :: int where
  "T6 = 0xFC"

definition T7 :: int where
  "T7 = 0xFE"

definition Rune1 :: int where
  "Rune1 = 0x7F"

definition Rune2 :: int where
  "Rune2 = 0x7FF"

definition Rune3 :: int where
  "Rune3 = 0xFFFF"

definition Rune4 :: int where
  "Rune4 = 0x1FFFFF"

definition Rune5 :: int where
  "Rune5 = 0x3FFFFFF"

definition Rune6 :: int where
  "Rune6 = 0x7FFFFFFF"

definition Maskx :: int where
  "Maskx = 0x3F"

definition Testx :: int where
  "Testx = 0xC0"

definition Runeerror :: int where
  "Runeerror = 0x80"

definition UTFmax :: nat where
  "UTFmax = 6"

definition Runesync :: int where
  "Runesync = 0x80"

definition Runeself :: int where
  "Runeself = 0x80"

lemmas utf_consts = Tx_def T2_def T3_def T4_def T5_def T6_def T7_def Rune1_def Rune2_def
  Rune3_def Rune4_def Rune5_def Rune6_def Maskx_def Testx_def Runeerror_def Runesync_def
  Runeself_def UTFmax_def

subsection \<open>Decoding\<close>

definition rd :: "byte list \<Rightarrow> nat \<Rightarrow> byte option" where
  "rd s i = (if i < length s then Some (s ! i) else if i = length s then Some 0 else None)"

definition bad_rune :: "(urune \<times> nat) option" where
  "bad_rune = Some (Runeerror, 1)"

text \<open>\<open>chartorune\<close>: the rune at the start of \<open>s\<close> and the bytes it takes.\<close>

definition chartorune :: "byte list \<Rightarrow> (urune \<times> nat) option" where
  "chartorune s = do {
     c \<leftarrow> rd s 0;
     if c < Tx then Some (c, 1) else do {
     c1 \<leftarrow> map_option (\<lambda>b. b XOR Tx) (rd s 1);
     if c1 AND Testx \<noteq> 0 then bad_rune else
     if c < T3 then
       (if c < T2 then bad_rune else
        let l = (push_bit 6 c OR c1) AND Rune2 in
        if l \<le> Rune1 then bad_rune else Some (l, 2)) else do {
     c2 \<leftarrow> map_option (\<lambda>b. b XOR Tx) (rd s 2);
     if c2 AND Testx \<noteq> 0 then bad_rune else
     if c < T4 then
       (let l = (push_bit 6 (push_bit 6 c OR c1) OR c2) AND Rune3 in
        if l \<le> Rune2 \<or> (0xd800 \<le> l \<and> l \<le> 0xdfff) then bad_rune else Some (l, 3)) else do {
     c3 \<leftarrow> map_option (\<lambda>b. b XOR Tx) (rd s 3);
     if c3 AND Testx \<noteq> 0 then bad_rune else
     if c < T5 then
       (let l = (push_bit 6 (push_bit 6 (push_bit 6 c OR c1) OR c2) OR c3) AND Rune4 in
        if l \<le> Rune3 then bad_rune else Some (l, 4)) else do {
     c4 \<leftarrow> map_option (\<lambda>b. b XOR Tx) (rd s 4);
     if c4 AND Testx \<noteq> 0 then bad_rune else
     if c < T6 then
       (let l = (push_bit 6 (push_bit 6 (push_bit 6 (push_bit 6 c OR c1) OR c2) OR c3) OR c4)
                AND Rune5 in
        if l \<le> Rune4 then bad_rune else Some (l, 5)) else do {
     c5 \<leftarrow> map_option (\<lambda>b. b XOR Tx) (rd s 5);
     if c5 AND Testx \<noteq> 0 then bad_rune else
     if c < T7 then
       (let l = (push_bit 6 (push_bit 6 (push_bit 6 (push_bit 6 (push_bit 6 c OR c1) OR c2)
                 OR c3) OR c4) OR c5) AND Rune6 in
        if l \<le> Rune5 then bad_rune else Some (l, 6))
     else bad_rune }}}}}}"

subsection \<open>Encoding\<close>

text \<open>\<open>runetochar\<close>: the bytes stored through \<open>str\<close>, truncated to a \<open>char\<close>; none for a
  rune that is too large. The four byte case is as in the source, with \<open>T3\<close>.\<close>

definition runetochar :: "urune \<Rightarrow> byte list" where
  "runetochar c =
     (if c \<le> Rune1 then [take_bit 8 c]
      else if c \<le> Rune2 then
        [take_bit 8 (T2 OR drop_bit 6 c), take_bit 8 (Tx OR (c AND Maskx))]
      else if c < Rune3 then
        [take_bit 8 (T3 OR drop_bit 12 c), take_bit 8 (Tx OR (drop_bit 6 c AND Maskx)),
         take_bit 8 (Tx OR (c AND Maskx))]
      else if c < Rune4 then
        [take_bit 8 (T3 OR drop_bit 18 c), take_bit 8 (Tx OR (drop_bit 12 c AND Maskx)),
         take_bit 8 (Tx OR (drop_bit 6 c AND Maskx)), take_bit 8 (Tx OR (c AND Maskx))]
      else if c < Rune5 then
        [take_bit 8 (T5 OR drop_bit 24 c), take_bit 8 (Tx OR (drop_bit 18 c AND Maskx)),
         take_bit 8 (Tx OR (drop_bit 12 c AND Maskx)), take_bit 8 (Tx OR (drop_bit 6 c AND Maskx)),
         take_bit 8 (Tx OR (c AND Maskx))]
      else if c < Rune6 then
        [take_bit 8 (T6 OR drop_bit 30 c), take_bit 8 (Tx OR (drop_bit 24 c AND Maskx)),
         take_bit 8 (Tx OR (drop_bit 18 c AND Maskx)), take_bit 8 (Tx OR (drop_bit 12 c AND Maskx)),
         take_bit 8 (Tx OR (drop_bit 6 c AND Maskx)), take_bit 8 (Tx OR (c AND Maskx))]
      else [])"

subsection \<open>Completeness and character classes\<close>

text \<open>\<open>fullrune\<close>: do the \<open>n\<close> bytes at \<open>s\<close> hold a whole rune?\<close>

definition fullrune :: "byte list \<Rightarrow> nat \<Rightarrow> bool" where
  "fullrune s n =
     (if 0 < n then
        let c = s ! 0 in
        if c < Tx then True
        else if (c > T5 \<and> n > 5) \<or> (c > T4 \<and> n > 4) \<or> (c > T3 \<and> n > 3) then True
        else 1 < n \<and> (c < T3 \<or> 2 < n)
      else False)"

fun utf_strchr :: "byte list \<Rightarrow> int \<Rightarrow> nat option" where
  "utf_strchr [] c = (if c = 0 then Some 0 else None)"
| "utf_strchr (b # s) c =
     (if b = c then Some 0 else if b = 0 then None else map_option Suc (utf_strchr s c))"

definition ucisspace :: "urune \<Rightarrow> bool" where
  "ucisspace cc \<longleftrightarrow> (0x0009 \<le> cc \<and> cc \<le> 0x000d) \<or> cc = 0x20 \<or> cc = 0x0085
     \<or> cc = 0x00a0 \<or> cc = 0x1680 \<or> cc = 0x180e
     \<or> (0x2000 \<le> cc \<and> cc \<le> 0x200a) \<or> cc = 0x2028
     \<or> cc = 0x2029 \<or> cc = 0x202f \<or> cc = 0x205f
     \<or> cc = 0x3000"

definition ucisnl :: "urune \<Rightarrow> bool" where
  "ucisnl cc \<longleftrightarrow> cc = 0x000d \<or> cc = 0x000a \<or> cc = 0x0085 \<or> cc = 0x000c
     \<or> cc = 0x2028 \<or> cc = 0x2029"

text \<open>\<open>isalnum\<close> of the C locale.\<close>

definition ucisalnum :: "urune \<Rightarrow> bool" where
  "ucisalnum cc \<longleftrightarrow> (if cc > 0x007f then False
     else (48 \<le> cc \<and> cc \<le> 57) \<or> (65 \<le> cc \<and> cc \<le> 90) \<or> (97 \<le> cc \<and> cc \<le> 122))"

subsection \<open>Decoding never leaves the string\<close>

lemma rd_eval: "rd (a # s) 0 = Some a" "rd (a # s) (Suc n) = rd s n"
  "rd (a # s) (numeral k) = rd s (pred_numeral k)" "rd [] 0 = Some 0"
  by (simp_all add: rd_def numeral_eq_Suc)

lemma nul_not_cont: "(0 XOR Tx) AND Testx \<noteq> 0"
  by (simp add: utf_consts)

text \<open>Past a byte that passes the continuation test there is at least the NUL to read.\<close>

lemma rd_next:
  assumes "rd s i = Some b" and "b \<noteq> 0"
  shows "i < length s \<and> (\<exists>b'. rd s (Suc i) = Some b')"
  using assms by (auto simp: rd_def split: if_splits)

lemma cont_nonzero: "(b XOR Tx) AND Testx = 0 \<Longrightarrow> b \<noteq> 0"
  using nul_not_cont by metis



definition dec_ok :: "byte list \<Rightarrow> (urune \<times> nat) option \<Rightarrow> bool" where
  "dec_ok s d \<longleftrightarrow> (\<exists>r n. d = Some (r, n) \<and> 1 \<le> n \<and> n \<le> max 1 (length s) \<and> n \<le> UTFmax)"

lemma dec_ok_Some: "1 \<le> n \<Longrightarrow> n \<le> max 1 (length s) \<Longrightarrow> n \<le> 6 \<Longrightarrow> dec_ok s (Some (r, n))"
  by (simp add: dec_ok_def UTFmax_def)

lemma dec_ok_bad: "dec_ok s bad_rune"
  by (simp add: bad_rune_def dec_ok_Some)

lemma dec_ok_step:
  assumes "i \<le> length s" and "\<And>b. i < length s \<Longrightarrow> dec_ok s (K (b XOR Tx))"
  shows "dec_ok s (do { x \<leftarrow> map_option (\<lambda>b. b XOR Tx) (rd s i);
                        if x AND Testx \<noteq> 0 then bad_rune else K x })"
proof -
  obtain b where b: "rd s i = Some b" using assms(1) by (cases "i < length s") (simp_all add: rd_def)
  show ?thesis
  proof (cases "(b XOR Tx) AND Testx = 0")
    case True
    then have "i < length s" using rd_next [OF b cont_nonzero] by simp
    with True b assms(2) show ?thesis by simp
  next
    case False
    with b dec_ok_bad show ?thesis by simp
  qed
qed

lemma dec_ok_if: "(b \<Longrightarrow> dec_ok s x) \<Longrightarrow> (\<not> b \<Longrightarrow> dec_ok s y) \<Longrightarrow> dec_ok s (if b then x else y)"
  by simp

lemma chartorune_dec_ok: "dec_ok s (chartorune s)"
proof (cases s)
  case Nil
  then show ?thesis by (simp add: chartorune_def rd_def Tx_def dec_ok_Some)
next
  case (Cons c t)
  then show ?thesis
    unfolding chartorune_def Let_def
    by (simp only: rd_eval(1) Option.bind.simps)
       (intro dec_ok_if dec_ok_step dec_ok_bad dec_ok_Some; simp add: Suc_le_eq)
qed

text \<open>
  \<open>chartorune\<close> reads only inside the NUL-terminated string, makes progress,
  and consumes no byte past the string's end.
\<close>

lemma chartorune_total:
  "\<exists>r n. chartorune s = Some (r, n) \<and> 1 \<le> n \<and> n \<le> max 1 (length s) \<and> n \<le> UTFmax"
  using chartorune_dec_ok by (simp add: dec_ok_def)

subsection \<open>Counting and searching\<close>

function utflen :: "byte list \<Rightarrow> nat option" where
  "utflen s =
     (case rd s 0 of
        None \<Rightarrow> None
      | Some c \<Rightarrow>
          if c < 0x80 then (if c = 0 then Some 0 else map_option Suc (utflen (drop 1 s)))
          else (case chartorune s of
                  None \<Rightarrow> None
                | Some (_, n) \<Rightarrow> map_option Suc (utflen (drop n s))))"
  by pat_completeness auto

lemma chartorune_progress: "chartorune s = Some (r, n) \<Longrightarrow> 0 < n"
  using chartorune_dec_ok [of s] by (simp add: dec_ok_def)

lemma rd_0_Some: "rd s 0 = Some c \<Longrightarrow> c \<noteq> 0 \<Longrightarrow> s \<noteq> []"
  by (auto simp: rd_def)

termination utflen
  by (relation "measure length") (auto dest!: rd_0_Some chartorune_progress)

function utfrune_loop :: "byte list \<Rightarrow> int \<Rightarrow> nat option option" where
  "utfrune_loop s c =
     (case rd s 0 of
        None \<Rightarrow> None
      | Some c1 \<Rightarrow>
          if c1 < Runeself then
            (if c1 = 0 then Some None
             else if c1 = c then Some (Some 0)
             else map_option (map_option ((+) 1)) (utfrune_loop (drop 1 s) c))
          else (case chartorune s of
                  None \<Rightarrow> None
                | Some (r, n) \<Rightarrow>
                    if r = c then Some (Some 0)
                    else map_option (map_option ((+) n)) (utfrune_loop (drop n s) c)))"
  by pat_completeness auto

termination utfrune_loop
  by (relation "measure (length \<circ> fst)") (auto dest!: rd_0_Some chartorune_progress simp: Runeself_def)

definition utfrune :: "byte list \<Rightarrow> int \<Rightarrow> nat option option" where
  "utfrune s c = (if c < Runesync then Some (utf_strchr s c) else utfrune_loop s c)"

declare utflen.simps [simp del] utfrune_loop.simps [simp del]


subsection \<open>Round trip\<close>

lemma T_masks: "T2 = push_bit 6 (mask 2)" "T3 = push_bit 5 (mask 3)"
   "T5 = push_bit 3 (mask 5)"  "T6 = push_bit 2 (mask 6)" "Testx = push_bit 6 (mask 2)"
   "Maskx = mask 6" "Rune2 = mask 11" "Rune3 = mask 16" "Rune4 = mask 21" "Rune5 = mask 26" "Rune6 = mask 31"
  by (simp_all add: utf_consts push_bit_eq_mult mask_eq_exp_minus_1)
lemma bit_Tx: "bit Tx n \<longleftrightarrow> n = 7"
proof -
  have "Tx = push_bit 7 1" by (simp add: Tx_def)
  show ?thesis unfolding \<open>Tx = push_bit 7 1\<close> bit_push_bit_iff_int bit_1_iff by auto
qed

lemma cont_bits: "take_bit 8 (Tx OR (x AND Maskx)) XOR Tx = take_bit 6 x"
  by (rule bit_eqI) (auto simp: T_masks bit_simps bit_Tx)
lemma cont_ok: "take_bit 6 x AND Testx = 0"
  unfolding T_masks by (rule bit_eqI) (auto simp: bit_simps)
lemma small_bits: "0 \<le> (c::int) \<Longrightarrow> c < 2 ^ k \<Longrightarrow> bit c n \<Longrightarrow> n < k"
  by (metis bit_take_bit_iff take_bit_int_eq_self)


lemma lead_or:
  assumes "0 \<le> d" "d < 2 ^ k" "k \<le> m" "m \<le> 8"
  shows "take_bit 8 (push_bit m (mask (8 - m)) OR d) = push_bit m (mask (8 - m)) OR (d::int)"
    and "push_bit m (mask (8 - m)) OR d = push_bit m (mask (8 - m)) + (d::int)"
proof -
  have db: "bit d n \<Longrightarrow> n < k" for n using small_bits assms by blast
  show "push_bit m (mask (8 - m)) OR d = push_bit m (mask (8 - m)) + d"
    using db assms by (intro disjunctive_add [symmetric]) (force simp: bit_simps)
  show "take_bit 8 (push_bit m (mask (8 - m)) OR d) = push_bit m (mask (8 - m)) OR d"
    using db assms by (intro bit_eqI) (force simp: bit_simps)
qed
lemma drop_small: "0 \<le> (c::int) \<Longrightarrow> c < 2 ^ (j + k) \<Longrightarrow> 0 \<le> drop_bit j c \<and> drop_bit j c < 2 ^ k"
  by (metis add.commute drop_bit_nonnegative_int_iff drop_bit_take_bit take_bit_int_eq_self take_bit_int_less_exp take_bit_drop_bit add_diff_cancel_left')

lemma join_step: "push_bit 6 (t OR drop_bit (k + 6) c) OR take_bit 6 (drop_bit k c) = push_bit 6 t OR drop_bit k (c::int)"
proof -
  have "push_bit 6 (drop_bit 6 (drop_bit k c)) OR take_bit 6 (drop_bit k c) = drop_bit k c"
    by (rule bit_eqI) (auto simp: bit_simps)
  then show ?thesis by (simp add: push_bit_or or.assoc add.commute)
qed
lemma join_end: "0 \<le> c \<Longrightarrow> c < 2 ^ m \<Longrightarrow> m \<le> j \<Longrightarrow> (push_bit j t OR c) AND mask m = (c::int)"
  by (simp flip: take_bit_eq_mask add: take_bit_or take_bit_push_bit take_bit_int_eq_self)
lemma enc2:
  assumes "0 \<le> c" "c < 2 ^ 11"
  shows "take_bit 8 (T2 OR drop_bit 6 c) = T2 + drop_bit 6 c" "0 \<le> drop_bit 6 c \<and> drop_bit 6 c < 32"
   "(push_bit 6 (T2 + drop_bit 6 c) OR take_bit 6 c) AND Rune2 = c"
proof -
  show d: "0 \<le> drop_bit 6 c \<and> drop_bit 6 c < 32" using drop_small [of c 6 5] assms by simp
  have o: "T2 OR drop_bit 6 c = T2 + drop_bit 6 c"
    using lead_or(2) [of "drop_bit 6 c" 5 6] d by (simp add: T_masks)
  have "take_bit 8 (T2 OR drop_bit 6 c) = T2 OR drop_bit 6 c"
    using lead_or(1) [of "drop_bit 6 c" 5 6] d by (simp add: T_masks del: take_bit_or)
  then show "take_bit 8 (T2 OR drop_bit 6 c) = T2 + drop_bit 6 c" by (simp only: o)
  show "(push_bit 6 (T2 + drop_bit 6 c) OR take_bit 6 c) AND Rune2 = c"
    using assms join_step [of T2 0 c] join_end[of c 11 12] unfolding o[symmetric]  by (simp add: T_masks)
qed
lemma enc3:
  assumes "0 \<le> c" "c < 2 ^ 16"
  shows "take_bit 8 (T3 OR drop_bit 12 c) = T3 + drop_bit 12 c" "0 \<le> drop_bit 12 c \<and> drop_bit 12 c < 16"
   "(push_bit 6 (push_bit 6 (T3 + drop_bit 12 c) OR take_bit 6 (drop_bit 6 c)) OR take_bit 6 c) AND Rune3 = c"
proof -
  show d: "0 \<le> drop_bit 12 c \<and> drop_bit 12 c < 16" using drop_small [of c 12 4] assms by simp
  have o: "T3 OR drop_bit 12 c = T3 + drop_bit 12 c"
    using lead_or(2) [of "drop_bit 12 c" 4 5] d by (simp add: T_masks)
  have "take_bit 8 (T3 OR drop_bit 12 c) = T3 OR drop_bit 12 c"
    using lead_or(1) [of "drop_bit 12 c" 4 5] d by (simp add: T_masks del: take_bit_or)
  then show "take_bit 8 (T3 OR drop_bit 12 c) = T3 + drop_bit 12 c" by (simp only: o)
  show "(push_bit 6 (push_bit 6 (T3 + drop_bit 12 c) OR take_bit 6 (drop_bit 6 c)) OR take_bit 6 c) AND Rune3 = c"
    using assms join_step [of T3 6 c] join_step [of "push_bit 6 T3" 0 c] join_end[of c 16 17] unfolding o[symmetric]  by (simp add: T_masks)
qed

lemma enc5:
  assumes "0 \<le> c" "c < 2 ^ 26"
  shows "take_bit 8 (T5 OR drop_bit 24 c) = T5 + drop_bit 24 c" "0 \<le> drop_bit 24 c \<and> drop_bit 24 c < 4"
   "(push_bit 6 (push_bit 6 (push_bit 6 (push_bit 6 (T5 + drop_bit 24 c) OR take_bit 6 (drop_bit 18 c)) OR take_bit 6 (drop_bit 12 c))
     OR take_bit 6 (drop_bit 6 c)) OR take_bit 6 c) AND Rune5 = c"
proof -
  show d: "0 \<le> drop_bit 24 c \<and> drop_bit 24 c < 4" using drop_small [of c 24 2] assms by simp
  have o: "T5 OR drop_bit 24 c = T5 + drop_bit 24 c"
    using lead_or(2) [of "drop_bit 24 c" 2 3] d by (simp add: T_masks)
  have "take_bit 8 (T5 OR drop_bit 24 c) = T5 OR drop_bit 24 c"
    using lead_or(1) [of "drop_bit 24 c" 2 3] d by (simp add: T_masks del: take_bit_or)
  then show "take_bit 8 (T5 OR drop_bit 24 c) = T5 + drop_bit 24 c" by (simp only: o)
  show "(push_bit 6 (push_bit 6 (push_bit 6 (push_bit 6 (T5 + drop_bit 24 c) OR take_bit 6 (drop_bit 18 c)) OR take_bit 6 (drop_bit 12 c))
     OR take_bit 6 (drop_bit 6 c)) OR take_bit 6 c) AND Rune5 = c"
    using assms join_step [of T5 18 c] join_step [of "push_bit 6 T5" 12 c] 
      join_step [of "push_bit 6 (push_bit 6 T5)" 6 c] join_step [of "push_bit 6 (push_bit 6 (push_bit 6 T5))" 0 c] join_end[of c 26 27] unfolding o[symmetric]  by (simp add: T_masks)
qed
lemma enc6:
  assumes "0 \<le> c" "c < 2 ^ 31"
  shows "take_bit 8 (T6 OR drop_bit 30 c) = T6 + drop_bit 30 c" "0 \<le> drop_bit 30 c \<and> drop_bit 30 c < 2"
   "(push_bit 6 (push_bit 6 (push_bit 6 (push_bit 6 (push_bit 6 (T6 + drop_bit 30 c) OR take_bit 6 (drop_bit 24 c)) OR take_bit 6 (drop_bit 18 c)) OR take_bit 6 (drop_bit 12 c))
     OR take_bit 6 (drop_bit 6 c)) OR take_bit 6 c) AND Rune6 = c"
proof -
  show d: "0 \<le> drop_bit 30 c \<and> drop_bit 30 c < 2" using drop_small [of c 30 1] assms by simp
  have o: "T6 OR drop_bit 30 c = T6 + drop_bit 30 c"
    using lead_or(2) [of "drop_bit 30 c" 1 2] d by (simp add: T_masks)
  have "take_bit 8 (T6 OR drop_bit 30 c) = T6 OR drop_bit 30 c"
    using lead_or(1) [of "drop_bit 30 c" 1 2] d by (simp add: T_masks del: take_bit_or)
  then show "take_bit 8 (T6 OR drop_bit 30 c) = T6 + drop_bit 30 c" by (simp only: o)
  show "(push_bit 6 (push_bit 6 (push_bit 6 (push_bit 6 (push_bit 6 (T6 + drop_bit 30 c) OR take_bit 6 (drop_bit 24 c)) OR take_bit 6 (drop_bit 18 c)) OR take_bit 6 (drop_bit 12 c))
     OR take_bit 6 (drop_bit 6 c)) OR take_bit 6 c) AND Rune6 = c"
    using assms join_step [of T6 24 c] join_step [of "push_bit 6 T6" 18 c] 
      join_step [of "push_bit 6 (push_bit 6 T6)" 12 c] join_step [of "push_bit 6 (push_bit 6 (push_bit 6 T6))" 6 c] 
      join_step [of "push_bit 6 (push_bit 6 (push_bit 6 (push_bit 6 T6)))" 0 c] join_end[of c 31 32] unfolding o[symmetric]  by (simp add: T_masks)
qed
lemma cont_masks: "x AND Maskx = take_bit 6 x"
  by (simp add: T_masks flip: take_bit_eq_mask)

text \<open>The code points the encoder gets right.\<close>

definition encodable :: "int \<Rightarrow> bool" where
  "encodable c \<longleftrightarrow> 0 \<le> c \<and> (c < 0xD800 \<or> (0xDFFF < c \<and> c < 0xFFFF) \<or> (0x1FFFFF < c \<and> c < 0x3FFFFFF) \<or> (0x3FFFFFF < c \<and> c < 0x7FFFFFFF))"

lemma dec2: "T2 \<le> c \<Longrightarrow> c < T3 \<Longrightarrow> ya XOR Tx = xa \<Longrightarrow> xa AND Testx = 0 \<Longrightarrow> 
   l = (push_bit 6 c OR xa) AND Rune2 \<Longrightarrow> Rune1 < l \<Longrightarrow>
   chartorune (c # ya # s) = Some (l, 2)"
  by (simp add: chartorune_def rd_eval T2_def T3_def) (simp add: Tx_def)
lemma dec3: "T3 \<le> c \<Longrightarrow> c < T4 \<Longrightarrow> ya XOR Tx = xa \<Longrightarrow> xa AND Testx = 0 \<Longrightarrow> yb XOR Tx = xb \<Longrightarrow> xb AND Testx = 0 \<Longrightarrow> 
   l = (push_bit 6 (push_bit 6 c OR xa) OR xb) AND Rune3 \<Longrightarrow> Rune2 < l \<Longrightarrow> \<not> (0xd800 \<le> l \<and> l \<le> 0xdfff) \<Longrightarrow>
   chartorune (c # ya # yb # s) = Some (l, 3)"
  by (simp add: chartorune_def rd_eval T4_def T3_def del: de_Morgan_conj) (simp add: Tx_def)
lemma dec5: "T5 \<le> c \<Longrightarrow> c < T6 \<Longrightarrow> ya XOR Tx = xa \<Longrightarrow> xa AND Testx = 0 \<Longrightarrow> yb XOR Tx = xb \<Longrightarrow> xb AND Testx = 0 \<Longrightarrow> 
   yc XOR Tx = xc \<Longrightarrow> xc AND Testx = 0 \<Longrightarrow> yd XOR Tx = xd \<Longrightarrow> xd AND Testx = 0 \<Longrightarrow> 
   l = (push_bit 6 (push_bit 6 (push_bit 6 (push_bit 6 c OR xa) OR xb) OR xc) OR xd) AND Rune5 \<Longrightarrow> Rune4 < l \<Longrightarrow>
   chartorune (c # ya # yb # yc # yd # s) = Some (l, 5)"
  by (simp add: chartorune_def rd_eval T3_def T4_def T5_def T6_def) (simp add: Tx_def)
lemma dec6: "T6 \<le> c \<Longrightarrow> c < T7 \<Longrightarrow> ya XOR Tx = xa \<Longrightarrow> xa AND Testx = 0 \<Longrightarrow> yb XOR Tx = xb \<Longrightarrow> xb AND Testx = 0 \<Longrightarrow> 
   yc XOR Tx = xc \<Longrightarrow> xc AND Testx = 0 \<Longrightarrow> yd XOR Tx = xd \<Longrightarrow> xd AND Testx = 0 \<Longrightarrow> ye XOR Tx = xe \<Longrightarrow> xe AND Testx = 0 \<Longrightarrow> 
   l = (push_bit 6 (push_bit 6 (push_bit 6 (push_bit 6 (push_bit 6 c OR xa) OR xb) OR xc) OR xd) OR xe) AND Rune6 \<Longrightarrow> Rune5 < l \<Longrightarrow>
   chartorune (c # ya # yb # yc # yd # ye # s) = Some (l, 6)"
  by (simp add: chartorune_def rd_eval T3_def T4_def T5_def T6_def T7_def) (simp add: Tx_def)

lemma runetochar2: "Rune1 < c \<Longrightarrow> c \<le> Rune2 \<Longrightarrow> runetochar c = [take_bit 8 (T2 OR drop_bit 6 c), take_bit 8 (Tx OR (c AND Maskx))]"
  by (simp add: runetochar_def)
lemma runetochar3: "Rune2 < c \<Longrightarrow> c < Rune3 \<Longrightarrow> runetochar c = [take_bit 8 (T3 OR drop_bit 12 c), take_bit 8 (Tx OR (drop_bit 6 c AND Maskx)),
         take_bit 8 (Tx OR (c AND Maskx))]"
  by (simp add: runetochar_def Rune2_def Rune1_def)
lemma runetochar5: "Rune4 < c \<Longrightarrow> c < Rune5 \<Longrightarrow> runetochar c = [take_bit 8 (T5 OR drop_bit 24 c), take_bit 8 (Tx OR (drop_bit 18 c AND Maskx)),
         take_bit 8 (Tx OR (drop_bit 12 c AND Maskx)), take_bit 8 (Tx OR (drop_bit 6 c AND Maskx)),
         take_bit 8 (Tx OR (c AND Maskx))]"
  by (simp add: runetochar_def Rune2_def Rune1_def Rune3_def Rune4_def)
lemma runetochar6: "Rune5 < c \<Longrightarrow> c < Rune6 \<Longrightarrow> runetochar c = [take_bit 8 (T6 OR drop_bit 30 c), take_bit 8 (Tx OR (drop_bit 24 c AND Maskx)),
         take_bit 8 (Tx OR (drop_bit 18 c AND Maskx)), take_bit 8 (Tx OR (drop_bit 12 c AND Maskx)),
         take_bit 8 (Tx OR (drop_bit 6 c AND Maskx)), take_bit 8 (Tx OR (c AND Maskx))]"
  by (simp add: runetochar_def Rune2_def Rune1_def Rune3_def Rune4_def Rune5_def)

lemma rune_roundtrip_all:
  assumes "encodable c"
  shows "chartorune (runetochar c @ s) = Some (c, length (runetochar c))"
proof -
  consider "0 \<le> c \<and> c \<le> 0x7F" | "0x7F < c \<and> c \<le> 0x7FF" | "0x7FF < c \<and> c < 0xFFFF \<and> (c < 0xD800 \<or> 0xDFFF < c)"
    | "0x1FFFFF < c \<and> c < 0x3FFFFFF" | "0x3FFFFFF < c \<and> c < 0x7FFFFFFF"
    using assms unfolding encodable_def by linarith
  then show ?thesis
  proof cases
    case 1
    then have "take_bit 8 c = c" by (simp add: take_bit_int_eq_self)
    with 1 show ?thesis by (simp add: runetochar_def chartorune_def rd_eval Rune1_def Tx_def)
  next
    case 2
    then have "chartorune ((T2 + drop_bit 6 c) # take_bit 8 (Tx OR (c AND Maskx)) # s) = Some (c, 2)"
      using enc2 [of c]
      by (intro dec2 [OF _ _ cont_bits cont_ok]) (simp_all add: T2_def T3_def Rune1_def)
    with 2 enc2(1) [of c] show ?thesis
      by (simp add: runetochar2 Rune1_def Rune2_def del: take_bit_or)
  next
    case 3
    then have "chartorune ((T3 + drop_bit 12 c) # take_bit 8 (Tx OR (drop_bit 6 c AND Maskx)) # take_bit 8 (Tx OR (c AND Maskx)) # s) = Some (c, 3)"
      using enc3 [of c]
      by (intro dec3 [OF _ _ cont_bits cont_ok cont_bits cont_ok]) (simp_all add: T4_def T3_def Rune2_def, linarith)
    with 3 enc3(1) [of c] show ?thesis
      by (simp add: runetochar3 Rune3_def Rune2_def del: take_bit_or)
  next
    case 4
    then have "chartorune ((T5 + drop_bit 24 c) # take_bit 8 (Tx OR (drop_bit 18 c AND Maskx)) # take_bit 8 (Tx OR (drop_bit 12 c AND Maskx)) #
         take_bit 8 (Tx OR (drop_bit 6 c AND Maskx)) # take_bit 8 (Tx OR (c AND Maskx)) # s) = Some (c, 5)"
      using enc5 [of c]
      by (intro dec5 [OF _ _ cont_bits cont_ok cont_bits cont_ok cont_bits cont_ok cont_bits cont_ok]) (simp_all add: T5_def T6_def Rune4_def)
    with 4 enc5(1) [of c] show ?thesis
      by (simp add: runetochar5 Rune5_def Rune4_def del: take_bit_or)
  next
    case 5
    then have "chartorune ((T6 + drop_bit 30 c) # take_bit 8 (Tx OR (drop_bit 24 c AND Maskx)) # take_bit 8 (Tx OR (drop_bit 18 c AND Maskx)) # take_bit 8 (Tx OR (drop_bit 12 c AND Maskx)) #
         take_bit 8 (Tx OR (drop_bit 6 c AND Maskx)) # take_bit 8 (Tx OR (c AND Maskx)) # s) = Some (c, 6)"
      using enc6 [of c]
      by (intro dec6 [OF _ _ cont_bits cont_ok cont_bits cont_ok cont_bits cont_ok cont_bits cont_ok cont_bits cont_ok]) (simp_all add: T6_def T7_def Rune5_def)
    with 5 enc6(1) [of c] show ?thesis
      by (simp add: runetochar6 Rune5_def Rune6_def del: take_bit_or)
  qed
qed

text \<open>
  Property C38. Encoding a code point and decoding the bytes gives it back, and the decoder
  consumes exactly what the encoder wrote, whatever follows: for every code point outside
  the surrogates, 0xFFFF, 0x3FFFFFF and the four byte range.
\<close>

theorem rune_roundtrip:
  assumes "encodable c"
  shows "chartorune (runetochar c @ s) = Some (c, length (runetochar c))"
  using assms by (rule rune_roundtrip_all)

theorem rune_roundtrip_witness:
  "chartorune (runetochar 0x20AC @ [65]) = Some (0x20AC, length (runetochar 0x20AC))"
  by (rule rune_roundtrip) (simp add: encodable_def)

lemma three_byte_bound:
  assumes "0xC0 \<le> c" and "c < T4" and "chartorune (c # s) = Some (r, n)"
  shows "r \<le> Rune3"
proof -
  have m: "x AND Rune3 \<le> Rune3" "x AND Rune2 \<le> Rune3" for x :: int
    using take_bit_int_less_exp [of 16 x] take_bit_int_less_exp [of 11 x]
    by (simp_all add: Rune3_def Rune2_def take_bit_eq_mask mask_eq_exp_minus_1)
  show ?thesis
    using assms(3,1,2) m
    by (auto simp add: chartorune_def rd_eval bad_rune_def Let_def Tx_def Runeerror_def Rune3_def
       simp del: take_bit_eq_mask
       split: if_splits option.splits bind_splits)
qed

text \<open>
  The four byte range: the bytes written for such a code point never decode to
  it, because the encoder writes the lead byte with the three byte tag \<open>T3\<close>.
\<close>

lemma four_byte_rune_lost:
  assumes "Rune3 < c" and "c < Rune4"
  shows "\<exists>r n. chartorune (runetochar c @ s) = Some (r, n) \<and> r \<noteq> c"
proof -
  have "0 \<le> drop_bit 18 c \<and> drop_bit 18 c < 8"
    using drop_small [of c 18 3] assms by (simp add: Rune3_def Rune4_def)
  then have lead: "take_bit 8 (T3 OR drop_bit 18 c) = T3 + drop_bit 18 c"
    using lead_or [of "drop_bit 18 c" 3 5] by (simp add: T_masks del: take_bit_or)
  have "\<exists>t. runetochar c = (T3 + drop_bit 18 c) # t"
    using assms(1,2) lead
    by (simp add: runetochar_def Rune1_def Rune2_def Rune3_def del: take_bit_or)
  then obtain t where "runetochar c = (T3 + drop_bit 18 c) # t" ..
  moreover obtain r n where rn: "chartorune (runetochar c @ s) = Some (r, n)"
    using chartorune_dec_ok [of "runetochar c @ s"] by (auto simp: dec_ok_def)
  ultimately have "r \<le> Rune3"
    using three_byte_bound [of "T3 + drop_bit 18 c" "t @ s" r n] \<open>0 \<le> _ \<and> _\<close>
    by (simp add: T3_def T4_def)
  with assms(1) rn show ?thesis by auto
qed

subsection \<open>Strings of runes\<close>

text \<open>The bytes \<open>arc_str2cstr\<close> and the writers produce: one \<open>runetochar\<close> after another.\<close>

definition utf_encode :: "urune list \<Rightarrow> byte list" where
  "utf_encode rs = concat (map runetochar rs)"

lemma utf_encode_simps [simp]:
  "utf_encode [] = []" "utf_encode (r # rs) = runetochar r @ utf_encode rs"
  by (simp_all add: utf_encode_def)

definition text_rune :: "urune \<Rightarrow> bool" where
  "text_rune c \<longleftrightarrow> encodable c \<and> c \<noteq> 0"

lemma runetochar_nonempty: "encodable c \<Longrightarrow> runetochar c \<noteq> []"
  using chartorune_progress rune_roundtrip_all by (metis length_greater_0_conv)

lemma runetochar_lead:
  assumes "encodable c" and "0x80 \<le> c"
  shows "0x80 \<le> hd (runetochar c)"
proof -
  consider "0x7F < c \<and> c \<le> 0x7FF" | "0x7FF < c \<and> c < 0xFFFF"
    | "0x1FFFFF < c \<and> c < 0x3FFFFFF" | "0x3FFFFFF < c \<and> c < 0x7FFFFFFF"
    using assms unfolding encodable_def by linarith
  then show ?thesis
    by cases (use enc2 [of c] enc3 [of c] enc5 [of c] enc6 [of c] in
      \<open>simp_all add: runetochar2 runetochar3 runetochar5 runetochar6 utf_consts del: take_bit_or\<close>)
qed

lemma runetochar_ascii: "0 \<le> c \<Longrightarrow> c < 0x80 \<Longrightarrow> runetochar c = [c]"
  by (simp add: runetochar_def Rune1_def take_bit_int_eq_self)

lemma rd_append: "xs \<noteq> [] \<Longrightarrow> rd (xs @ ys) 0 = Some (hd xs)"
  by (cases xs) (simp_all add: rd_eval)

lemma utflen_rune:
  assumes "text_rune r"
  shows "utflen (runetochar r @ s) = map_option Suc (utflen s)"
proof (cases "r < 0x80")
  case True
  with assms show ?thesis
    by (subst utflen.simps) (simp add: text_rune_def encodable_def runetochar_ascii rd_eval)
next
  case False
  with assms runetochar_lead [of r] runetochar_nonempty [of r] rune_roundtrip_all [of r s] show ?thesis
    by (subst utflen.simps) (simp add: text_rune_def rd_append)
qed

lemma utfrune_rune:
  assumes "text_rune r" and "0x80 \<le> c"
  shows "utfrune_loop (runetochar r @ s) c =
    (if r = c then Some (Some 0)
     else map_option (map_option ((+) (length (runetochar r)))) (utfrune_loop s c))"
proof (cases "r < 0x80")
  case True
  with assms show ?thesis
    by (subst utfrune_loop.simps)
      (simp add: text_rune_def encodable_def runetochar_ascii rd_eval Runeself_def)
next
  case False
  with assms runetochar_lead [of r] runetochar_nonempty [of r] rune_roundtrip_all [of r s] show ?thesis
    by (subst utfrune_loop.simps) (simp add: text_rune_def rd_append Runeself_def)
qed

text \<open>\<open>utflen\<close> counts the runes that were encoded.\<close>

lemma utflen_encode:
  assumes "\<forall>r \<in> set rs. text_rune r"
  shows "utflen (utf_encode rs) = Some (length rs)"
  using assms
  by (induction rs) (simp_all add: utflen.simps [of "[]"] rd_def utflen_rune)

text \<open>
  \<open>utfrune\<close> finds the byte offset at which the first occurrence of a non-ASCII
  rune was encoded, and nothing when it was not encoded.
\<close>

lemma utfrune_encode:
  assumes "\<forall>r \<in> set rs. text_rune r" and "0x80 \<le> c"
  shows "utfrune (utf_encode rs) c =
    Some (if c \<in> set rs then Some (length (utf_encode (takeWhile (\<lambda>r. r \<noteq> c) rs))) else None)"
proof -
  have "utfrune_loop (utf_encode rs) c =
    Some (if c \<in> set rs then Some (length (utf_encode (takeWhile (\<lambda>r. r \<noteq> c) rs))) else None)"
    using assms(1)
    by (induction rs) (simp_all add: utfrune_loop.simps [of "[]"] rd_def Runeself_def utfrune_rune assms(2))
  then show ?thesis using assms(2) by (simp add: utfrune_def Runesync_def)
qed

text \<open>\<open>fullrune\<close> asks for more bytes only below three of them.\<close>

lemma fullrune_three: "2 < n \<Longrightarrow> fullrune s n"
  by (simp add: fullrune_def Let_def)

end
