(* ===== verification/HashFn.thy ===== *)
theory HashFn
  imports Values
begin

text \<open>
  The hash functions of \<open>src/src/hash.c\<close> on a 64-bit \<open>unsigned long\<close>: the state \<open>arc_hs\<close>,
  Jenkins' mixing steps, the hash of the simple keys (\<open>arc_hash\<close> and the hashers of strings
  and characters in \<open>src/src/string.c\<close>), and the fixnum encoding of a hash state that
  \<open>arc_xhash\<close> passes between its calls.
\<close>

subsection \<open>The hash state\<close>

record arc_hs =
  hs :: "u64 list"
  hstate :: nat

definition hs_ok :: "arc_hs \<Rightarrow> bool" where
  "hs_ok h \<longleftrightarrow> length (hs h) = 3 \<and> hstate h < 3"

definition MIX :: "u64 \<Rightarrow> u64 \<Rightarrow> u64 \<Rightarrow> u64 \<times> u64 \<times> u64" where
  "MIX a b c = (
     let a = a - b; a = a - c; a = a XOR drop_bit 43 c;
         b = b - c; b = b - a; b = b XOR push_bit 9 a;
         c = c - a; c = c - b; c = c XOR drop_bit 8 b;
         a = a - b; a = a - c; a = a XOR drop_bit 38 c;
         b = b - c; b = b - a; b = b XOR push_bit 23 a;
         c = c - a; c = c - b; c = c XOR drop_bit 5 b;
         a = a - b; a = a - c; a = a XOR drop_bit 35 c;
         b = b - c; b = b - a; b = b XOR push_bit 49 a;
         c = c - a; c = c - b; c = c XOR drop_bit 11 b;
         a = a - b; a = a - c; a = a XOR drop_bit 12 c;
         b = b - c; b = b - a; b = b XOR push_bit 18 a;
         c = c - a; c = c - b; c = c XOR drop_bit 22 b
     in (a, b, c))"

definition mix_state :: "arc_hs \<Rightarrow> arc_hs" where
  "mix_state h = (case MIX (hs h ! 0) (hs h ! 1) (hs h ! 2) of
     (a, b, c) \<Rightarrow> h \<lparr> hs := (hs h) [0 := a, 1 := b, 2 := c] \<rparr>)"

definition arc_hash_init :: "u64 \<Rightarrow> arc_hs" where
  "arc_hash_init level = \<lparr> hs = [level, level, 0x9e3779b97f4a7c13], hstate = 0 \<rparr>"

definition arc_hash_update :: "arc_hs \<Rightarrow> u64 \<Rightarrow> arc_hs" where
  "arc_hash_update h v = (
     let h = h \<lparr> hs := (hs h) [hstate h := hs h ! hstate h + v] \<rparr>;
         h = h \<lparr> hstate := (hstate h + 1) mod 3 \<rparr>
     in if hstate h = 0 then mix_state h else h)"

definition arc_hash_final :: "arc_hs \<Rightarrow> u64 \<Rightarrow> u64" where
  "arc_hash_final h len = (
     let h = h \<lparr> hs := (hs h) [2 := hs h ! 2 + push_bit 3 len] \<rparr>
     in hs (mix_state h) ! 2)"

subsection \<open>Keys\<close>

text \<open>
  The content of a value used as a key. \<open>arc_is2\<close> compares immediates by identity and
  strings and characters by content, so on these keys it is equality. \<open>KCell ty\<close> is a cell
  of a type without a hash function.
\<close>

datatype key =
    KNil
  | KNone
  | KFix u64
  | KSym u64
  | KChar int
  | KStr "int list"
  | KCell arc_type

fun key_type :: "key \<Rightarrow> arc_type" where
  "key_type KNil = T_NIL"
| "key_type KNone = T_NONE"
| "key_type (KFix _) = T_FIXNUM"
| "key_type (KSym _) = T_SYMBOL"
| "key_type (KChar _) = T_CHAR"
| "key_type (KStr _) = T_STRING"
| "key_type (KCell ty) = ty"

definition string_hash :: "int list \<Rightarrow> arc_hs \<Rightarrow> u64 \<times> arc_hs" where
  "string_hash rs h = (word_of_nat (length rs),
     fold (\<lambda>r h. arc_hash_update h (word_of_int r)) rs h)"

definition char_hash :: "int \<Rightarrow> arc_hs \<Rightarrow> u64 \<times> arc_hs" where
  "char_hash r h = (1, arc_hash_update h (word_of_int r))"

fun arc_hash_increment :: "key \<Rightarrow> arc_hs \<Rightarrow> (u64 \<times> arc_hs) res" where
  "arc_hash_increment v h = (
     let h = arc_hash_update h (word_of_nat (type_code (key_type v))) in
     case v of
       KNil \<Rightarrow> Inr (1, h)
     | KFix w \<Rightarrow> Inr (1, arc_hash_update h w)
     | KNone \<Rightarrow> Inr (1, h)
     | KSym s \<Rightarrow> Inr (1, arc_hash_update h s)
     | KChar r \<Rightarrow> Inr (char_hash r h)
     | KStr rs \<Rightarrow> Inr (string_hash rs h)
     | KCell ty \<Rightarrow> Inl (ArcErr ''no type-specific hasher found for type %d''))"

definition arc_hash_level :: "key \<Rightarrow> u64 \<Rightarrow> u64 res" where
  "arc_hash_level v level = rbind (arc_hash_increment v (arc_hash_init level))
     (\<lambda>(len, h). Inr (arc_hash_final h len))"

definition arc_hash :: "key \<Rightarrow> u64 res" where
  "arc_hash v = arc_hash_level v 0"

fun simple_key :: "key \<Rightarrow> bool" where
  "simple_key (KCell _) \<longleftrightarrow> False"
| "simple_key _ \<longleftrightarrow> True"

lemma arc_hash_simple: "simple_key k \<Longrightarrow> \<exists>h. arc_hash k = Inr h"
  by (cases k) (auto simp: arc_hash_def arc_hash_level_def Let_def split: prod.splits)

text \<open>The \<open>unsigned int\<close> the table operations take from \<open>arc_hash\<close>.\<close>

definition key_hv :: "key \<Rightarrow> u32" where
  "key_hv k = (case arc_hash k of Inr h \<Rightarrow> ucast h | Inl _ \<Rightarrow> 0)"

subsection \<open>Encoding the state in fixnums\<close>

definition BITSHIFT :: nat where
  "BITSHIFT = 32"

definition HMASK :: u64 where
  "HMASK = 0xffffffff"

definition ENC_VEC_LEN :: nat where
  "ENC_VEC_LEN = 7"

definition encode_hs :: "arcval list \<Rightarrow> arc_hs \<Rightarrow> arcval list" where
  "encode_hs enc0 h =
     (fold (\<lambda>i e. let j = i div 2; shift = (if i mod 2 = 0 then 0 else BITSHIFT) in
                 e[i := INT2FIX (drop_bit shift (hs h ! j) AND HMASK)])
       [0..<6] enc0) [6 := INT2FIX (word_of_nat (hstate h))]"

definition decode_hs :: "arcval list \<Rightarrow> arc_hs" where
  "decode_hs enc0 = \<lparr>
     hs = map (\<lambda>i. (FIX2INT (enc0 ! (i * 2)) AND HMASK)
                   OR push_bit BITSHIFT (FIX2INT (enc0 ! (i * 2 + 1)) AND HMASK)) [0..<3],
     hstate = unat (FIX2INT (enc0 ! 6)) \<rparr>"

lemma mix_state_length [simp]: "length (hs (mix_state h)) = length (hs h)" "hstate (mix_state h) = hstate h"
  by (simp_all add: mix_state_def split: prod.splits)
lemma arc_hash_update_ok [wf_intros]: "hs_ok h \<Longrightarrow> hs_ok (arc_hash_update h v)"
  by (simp add: hs_ok_def arc_hash_update_def Let_def)
lemma arc_hash_init_ok [wf_intros]: "hs_ok (arc_hash_init l)"
  by (simp add: hs_ok_def arc_hash_init_def)

lemma and_HMASK: "x AND HMASK = take_bit 32 x"
  by (simp add: HMASK_def take_bit_eq_mask mask_eq_exp_minus_1)

lemma fix32: "FIX2INT (INT2FIX (take_bit 32 x)) AND HMASK = take_bit 32 x"
proof -
  have "signed_take_bit 62 (take_bit 32 x) = (take_bit 32 x :: u64)"
    by (rule bit_word_eqI) (auto simp: bit_simps)
  then show ?thesis by (simp add: FIX2INT_INT2FIX and_HMASK)
qed

lemma join32: "take_bit 32 x OR push_bit 32 (take_bit 32 (drop_bit 32 x)) = (x :: u64)"
  by (rule bit_word_eqI) (auto simp: bit_simps)

lemma fix_state: "n < 3 \<Longrightarrow> unat (FIX2INT (INT2FIX (word_of_nat n))) = n"
proof -
  assume "n < 3"
  then have "n = 0 \<or> n = 1 \<or> n = 2" by auto
  then show ?thesis by (auto simp: FIX2INT_def INT2FIX_def)
qed

lemma upt_lists: "[0..<6] = [0, 1, 2, 3, 4, 5 :: nat]" "[0..<3] = [0, 1, 2 :: nat]"
  by (simp_all add: upt_rec)

lemma length3: "length xs = 3 \<Longrightarrow> [xs ! 0, xs ! Suc 0, xs ! 2] = xs"
  by (cases xs; cases "tl xs"; cases "tl (tl xs)") auto

text \<open>
  Storing a hash state in a vector of fixnums and reading it back loses nothing:
  \<open>arc_xhash_increment\<close> resumes exactly where the previous call stopped.
\<close>

lemma hs_roundtrip:
  assumes "hs_ok h" and "length e = ENC_VEC_LEN"
  shows "decode_hs (encode_hs e h) = h"
proof -
  have "hs (decode_hs (encode_hs e h)) = [hs h ! 0, hs h ! 1, hs h ! 2]"
    using assms(2)
    by (simp add: decode_hs_def encode_hs_def BITSHIFT_def ENC_VEC_LEN_def upt_lists and_HMASK
        fix32 [unfolded and_HMASK] join32 Let_def)
  moreover have "hstate (decode_hs (encode_hs e h)) = hstate h"
    using assms by (simp add: decode_hs_def encode_hs_def hs_ok_def ENC_VEC_LEN_def fix_state upt_lists)
  ultimately show ?thesis using assms(1) length3 [of "hs h"] by (simp add: hs_ok_def)
qed

end
