(* ===== verification/HashTable.thy ===== *)
theory HashTable
  imports HashFn
begin

text \<open>
  The open-addressing hash table of \<open>src/src/hash.c\<close>. A table is the record of the four
  fields of a \<open>T_TABLE\<close> cell; a slot of its vector is \<open>CUNBOUND\<close> (never used), \<open>CUNDEF\<close>
  (deleted) or a bucket with its key, value, index and hash value. A bucket's link back to
  its vector is the vector that holds it and is not repeated in the model. Hash function
  and key comparison are arguments: \<open>arc_hash\<close> and \<open>arc_is2\<close> for the \<open>arc_hash_*\<close>
  operations. A result \<open>None\<close> is a loop that never ends; inside it the value \<open>CUNBOUND\<close>
  of a lookup is again \<open>None\<close>.
\<close>

datatype ('k, 'v) slot =
    Unbound
  | Undef
  | Bucket (BKEY: 'k) (BVALUE: 'v) (BINDEX: nat) (BHASHVAL: u32)

fun EMPTYP :: "('k, 'v) slot \<Rightarrow> bool" where
  "EMPTYP (Bucket _ _ _ _) \<longleftrightarrow> False"
| "EMPTYP _ \<longleftrightarrow> True"

record ('k, 'v) table =
  HASH_TABLE :: "('k, 'v) slot list"
  HASH_BITS :: nat
  HASH_NENTRIES :: nat
  HASH_LLIMIT :: nat

definition HASHSIZE :: "nat \<Rightarrow> nat" where
  "HASHSIZE n = push_bit n 1"

definition HASHMASK :: "nat \<Rightarrow> u32" where
  "HASHMASK n = word_of_nat (HASHSIZE n - 1)"

definition MAX_LOAD_FACTOR :: nat where
  "MAX_LOAD_FACTOR = 70"

definition llimit_of :: "nat \<Rightarrow> nat" where
  "llimit_of n = (HASHSIZE n * MAX_LOAD_FACTOR) div 100"

definition PROBE :: "u32 \<Rightarrow> u32" where
  "PROBE i = i"

definition arc_mkhash :: "nat \<Rightarrow> ('k, 'v) table" where
  "arc_mkhash hashbits = \<lparr> HASH_TABLE = replicate (HASHSIZE hashbits) Unbound,
     HASH_BITS = hashbits, HASH_NENTRIES = 0, HASH_LLIMIT = llimit_of hashbits \<rparr>"

definition arc_hash_length :: "('k, 'v) table \<Rightarrow> nat" where
  "arc_hash_length t = fold (\<lambda>e count. if EMPTYP e then count else count + 1) (HASH_TABLE t) 0"

subsection \<open>Lookup\<close>

text \<open>The loop of \<open>hash_lookup\<close>; it returns the value found, if any, and the last index.\<close>

partial_function (option) lookup_loop ::
  "('k \<Rightarrow> 'k \<Rightarrow> bool) \<Rightarrow> ('k, 'v) slot list \<Rightarrow> u32 \<Rightarrow> 'k \<Rightarrow> u32 \<Rightarrow> u32 \<Rightarrow> ('v option \<times> u32) option"
where
  "lookup_loop is2 slots tmask key index i =
     (let index = (index + PROBE i) AND tmask in
      case slots ! unat index of
        Unbound \<Rightarrow> Some (None, index)
      | Undef \<Rightarrow> lookup_loop is2 slots tmask key index (i + 1)
      | Bucket k v _ _ \<Rightarrow>
          if is2 k key then Some (Some v, index)
          else lookup_loop is2 slots tmask key index (i + 1))"

definition hash_lookup ::
  "('k \<Rightarrow> u32) \<Rightarrow> ('k \<Rightarrow> 'k \<Rightarrow> bool) \<Rightarrow> ('k, 'v) table \<Rightarrow> 'k \<Rightarrow> ('v option \<times> u32) option" where
  "hash_lookup hf is2 t key =
     (let hv = hf key; index = hv AND HASHMASK (HASH_BITS t) in
      lookup_loop is2 (HASH_TABLE t) (HASHMASK (HASH_BITS t)) key index 0)"

definition arc_hash_lookup ::
  "('k \<Rightarrow> u32) \<Rightarrow> ('k \<Rightarrow> 'k \<Rightarrow> bool) \<Rightarrow> ('k, 'v) table \<Rightarrow> 'k \<Rightarrow> 'v option option" where
  "arc_hash_lookup hf is2 t key = map_option fst (hash_lookup hf is2 t key)"

text \<open>\<open>arc_hash_lookup2\<close> returns the bucket instead of the value.\<close>

definition arc_hash_lookup2 ::
  "('k \<Rightarrow> u32) \<Rightarrow> ('k \<Rightarrow> 'k \<Rightarrow> bool) \<Rightarrow> ('k, 'v) table \<Rightarrow> 'k \<Rightarrow> ('k, 'v) slot option" where
  "arc_hash_lookup2 hf is2 t key =
     (case hash_lookup hf is2 t key of
        None \<Rightarrow> None
      | Some (None, _) \<Rightarrow> Some Unbound
      | Some (Some _, index) \<Rightarrow> Some (HASH_TABLE t ! unat index))"

subsection \<open>Insertion and growth\<close>

text \<open>
  The probe loop of \<open>arc_hash_insert\<close> and of \<open>hashtable_expand\<close>: from \<open>index\<close>, the first slot
  of the probe sequence that satisfies \<open>stop\<close>.
\<close>

partial_function (option) place_loop ::
  "(('k, 'v) slot \<Rightarrow> bool) \<Rightarrow> ('k, 'v) slot list \<Rightarrow> u32 \<Rightarrow> u32 \<Rightarrow> u32 \<Rightarrow> u32 option"
where
  "place_loop stop slots tmask index i =
     (if stop (slots ! unat index) then Some index
      else place_loop stop slots tmask ((index + PROBE i) AND tmask) (i + 1))"

definition mkhashbucket :: "'k \<Rightarrow> 'v \<Rightarrow> u32 \<Rightarrow> u32 \<Rightarrow> ('k, 'v) slot" where
  "mkhashbucket key val index hashcode = Bucket key val (unat index) hashcode"

fun expand_loop ::
  "u32 \<Rightarrow> ('k, 'v) slot list \<Rightarrow> ('k, 'v) slot list \<Rightarrow> ('k, 'v) slot list option" where
  "expand_loop tmask [] newtbl = Some newtbl"
| "expand_loop tmask (e # oldtbl) newtbl =
     (case e of
        Bucket k v _ hv \<Rightarrow>
          (case place_loop EMPTYP newtbl tmask (hv AND tmask) 0 of
             None \<Rightarrow> None
           | Some index \<Rightarrow>
               expand_loop tmask oldtbl (newtbl[unat index := Bucket k v (unat index) hv]))
      | _ \<Rightarrow> expand_loop tmask oldtbl newtbl)"

definition hashtable_expand :: "('k, 'v) table \<Rightarrow> ('k, 'v) table option" where
  "hashtable_expand t =
     (let nhashbits = HASH_BITS t + 1 in
      case expand_loop (HASHMASK nhashbits) (HASH_TABLE t)
             (replicate (HASHSIZE nhashbits) Unbound) of
        None \<Rightarrow> None
      | Some newtbl \<Rightarrow> Some (t \<lparr> HASH_BITS := nhashbits, HASH_LLIMIT := llimit_of nhashbits,
                               HASH_TABLE := newtbl \<rparr>))"

fun set_BVALUE :: "('k, 'v) slot \<Rightarrow> 'v \<Rightarrow> ('k, 'v) slot" where
  "set_BVALUE (Bucket k _ i h) v = Bucket k v i h"
| "set_BVALUE e v = e"

definition SVINDEX :: "('k, 'v) table \<Rightarrow> nat \<Rightarrow> ('k, 'v) slot \<Rightarrow> ('k, 'v) table" where
  "SVINDEX t i e = t \<lparr> HASH_TABLE := (HASH_TABLE t)[i := e] \<rparr>"

definition insert_new ::
  "('k \<Rightarrow> u32) \<Rightarrow> ('k \<Rightarrow> 'k \<Rightarrow> bool) \<Rightarrow> ('k, 'v) table \<Rightarrow> 'k \<Rightarrow> 'v \<Rightarrow> ('k, 'v) table option" where
  "insert_new hf is2 t key val =
     (let t = t \<lparr> HASH_NENTRIES := HASH_NENTRIES t + 1 \<rparr>;
          hv = hf key; tmask = HASHMASK (HASH_BITS t) in
      case place_loop (\<lambda>e. EMPTYP e \<or> is2 (BKEY e) key) (HASH_TABLE t) tmask (hv AND tmask) 0 of
        None \<Rightarrow> None
      | Some index \<Rightarrow>
          (let e = HASH_TABLE t ! unat index in
           Some (if EMPTYP e then SVINDEX t (unat index) (mkhashbucket key val index hv)
                 else SVINDEX t (unat index) (set_BVALUE e val))))"

definition arc_hash_insert ::
  "('k \<Rightarrow> u32) \<Rightarrow> ('k \<Rightarrow> 'k \<Rightarrow> bool) \<Rightarrow> ('k, 'v) table \<Rightarrow> 'k \<Rightarrow> 'v \<Rightarrow> ('k, 'v) table option" where
  "arc_hash_insert hf is2 t key val =
     (case hash_lookup hf is2 t key of
        None \<Rightarrow> None
      | Some (Some _, index) \<Rightarrow>
          Some (SVINDEX t (unat index) (set_BVALUE (HASH_TABLE t ! unat index) val))
      | Some (None, _) \<Rightarrow>
          (if HASH_NENTRIES t + 1 > HASH_LLIMIT t
           then (case hashtable_expand t of
                   None \<Rightarrow> None
                 | Some t' \<Rightarrow> insert_new hf is2 t' key val)
           else insert_new hf is2 t key val))"

subsection \<open>Deletion\<close>

definition arc_hash_delete ::
  "('k \<Rightarrow> u32) \<Rightarrow> ('k \<Rightarrow> 'k \<Rightarrow> bool) \<Rightarrow> ('k, 'v) table \<Rightarrow> 'k \<Rightarrow> ('v option \<times> ('k, 'v) table) option" where
  "arc_hash_delete hf is2 t key =
     (case hash_lookup hf is2 t key of
        None \<Rightarrow> None
      | Some (None, _) \<Rightarrow> Some (None, t)
      | Some (Some v, index) \<Rightarrow>
          Some (Some v, (SVINDEX t (unat index) Undef) \<lparr> HASH_NENTRIES := HASH_NENTRIES t - 1 \<rparr>))"

text \<open>
  The sweeper of a bucket of a weak table: the collector turns its slot into a tombstone and
  leaves the entry count as it is. Index \<open>i\<close> stands for the bucket that is swept.
\<close>

definition hb_sweeper :: "('k, 'v) table \<Rightarrow> nat \<Rightarrow> ('k, 'v) table" where
  "hb_sweeper t i = (case HASH_TABLE t ! i of
     Bucket _ _ ix _ \<Rightarrow> SVINDEX t ix Undef
   | _ \<Rightarrow> t)"

subsection \<open>Iteration\<close>

text \<open>
  \<open>arc_xhash_iter\<close>: the state is the next index and the pair last returned; \<open>None\<close> at the end.
\<close>

fun iter_from :: "('k, 'v) slot list \<Rightarrow> nat \<Rightarrow> (('k \<times> 'v) \<times> nat) option" where
  "iter_from [] index = None"
| "iter_from (e # es) index =
     (case e of
        Bucket k v _ _ \<Rightarrow> Some ((k, v), index + 1)
      | _ \<Rightarrow> iter_from es (index + 1))"

definition arc_xhash_iter :: "('k, 'v) table \<Rightarrow> nat \<Rightarrow> (('k \<times> 'v) \<times> nat) option" where
  "arc_xhash_iter t index = iter_from (drop index (HASH_TABLE t)) index"

subsection \<open>The probe sequence\<close>

fun tsum :: "nat \<Rightarrow> nat" where
  "tsum 0 = 0"
| "tsum (Suc i) = tsum i + i"

lemma tsum_double: "2 * tsum i = i * (i - 1)"
  by (induction i) (auto simp: algebra_simps diff_mult_distrib2 split: nat_diff_split)

definition pos :: "nat \<Rightarrow> u32 \<Rightarrow> nat \<Rightarrow> nat" where
  "pos b h i = (unat h + tsum i) mod 2 ^ b"

lemma pos_less [simp]: "pos b h i < 2 ^ b"
  by (simp add: pos_def)

lemma tsum_mono: "i \<le> j \<Longrightarrow> tsum i \<le> tsum j"
  by (induction j) (auto simp: le_Suc_eq)

text \<open>Triangular numbers are pairwise different modulo a power of two.\<close>

lemma odd_part:
  fixes x y :: nat
  assumes "odd (x + y)" and "2 ^ (b + 1) dvd x * y"
  shows "2 ^ (b + 1) dvd x \<or> 2 ^ (b + 1) dvd y"
proof (cases "even x")
  case True
  then have "odd y" using assms(1) by simp
  then have "coprime (2 ^ (b + 1)) y" by simp
  then show ?thesis using assms(2) by (metis coprime_dvd_mult_left_iff)
next
  case False
  then have "coprime (2 ^ (b + 1)) x" by simp
  then show ?thesis using assms(2) by (metis coprime_dvd_mult_right_iff)
qed

lemma tsum_diff: "i \<le> j \<Longrightarrow> 1 \<le> i \<Longrightarrow> 2 * (tsum j - tsum i) = (j - i) * (i + j - 1)"
proof -
  assume a: "i \<le> j" "1 \<le> i"
  then obtain d where j: "j = i + d" using le_Suc_ex by blast
  obtain i' where i: "i = Suc i'" using a(2) by (cases i) auto
  have "2 * tsum j - 2 * tsum i = j * (j - 1) - i * (i - 1)" by (simp only: tsum_double)
  also have "\<dots> = (j - i) * (i + j - 1)"
    unfolding j i by (simp add: algebra_simps)
  finally show ?thesis by (simp add: diff_mult_distrib2)
qed

lemma pos_inj:
  assumes "1 \<le> i" and "i < j" and "j \<le> 2 ^ b"
  shows "pos b h i \<noteq> pos b h j"
proof
  assume "pos b h i = pos b h j"
  then have "2 ^ b dvd (unat h + tsum j) - (unat h + tsum i)"
    unfolding pos_def by (metis mod_eq_dvd_iff_nat add_left_mono assms(2) less_imp_le tsum_mono)
  then have "2 ^ b dvd tsum j - tsum i" by simp
  then have "2 ^ (b + 1) dvd 2 * (tsum j - tsum i)" by simp
  then have d: "2 ^ (b + 1) dvd (j - i) * (i + j - 1)"
    using tsum_diff [of i j] assms by (simp del: power_Suc)
  have "(j - i) + (i + j - 1) = 2 * (j - 1) + 1" using assms by simp
  then have "odd ((j - i) + (i + j - 1))" by simp
  from odd_part [OF this d] show False
  proof
    assume "2 ^ (b + 1) dvd j - i"
    moreover have "0 < j - i" "j - i < 2 ^ (b + 1)" using assms by simp_all
    ultimately show False using nat_dvd_not_less by blast
  next
    assume "2 ^ (b + 1) dvd i + j - 1"
    moreover have "0 < i + j - 1" "i + j - 1 < 2 ^ (b + 1)" using assms by simp_all
    ultimately show False using nat_dvd_not_less by blast
  qed
qed

lemma pos_covers:
  assumes "p < 2 ^ b"
  shows "\<exists>i. 1 \<le> i \<and> i \<le> 2 ^ b \<and> pos b h i = p"
proof -
  have inj: "inj_on (pos b h) {1..2 ^ b}"
    by (rule linorder_inj_onI') (simp add: pos_inj)
  then have "card (pos b h ` {1..2 ^ b}) = 2 ^ b" by (simp add: card_image)
  moreover have "pos b h ` {1..2 ^ b} \<subseteq> {..<2 ^ b}" by auto
  ultimately have "pos b h ` {1..2 ^ b} = {..<2 ^ b}"
    by (intro card_subset_eq) simp_all
  then have "p \<in> pos b h ` {1..2 ^ b}" using assms by simp
  then show ?thesis by auto
qed

lemma HASHSIZE_eq [simp]: "HASHSIZE n = 2 ^ n"
  by (simp add: HASHSIZE_def push_bit_eq_mult)

lemma HASHMASK_mask: "b \<le> 32 \<Longrightarrow> HASHMASK b = mask b"
  by (simp add: HASHMASK_def of_nat_mask_eq flip: mask_eq_exp_minus_1)

lemma unat_and_HASHMASK: "b \<le> 32 \<Longrightarrow> unat (x AND HASHMASK b) = unat x mod 2 ^ b"
  by (metis HASHMASK_mask take_bit_eq_mask unsigned_take_bit_eq take_bit_eq_mod)

lemma unat_step:
  assumes "b \<le> 32" and "i < 2 ^ 32"
  shows "unat ((x + PROBE (word_of_nat i)) AND HASHMASK b) = (unat x + i) mod 2 ^ b"
proof -
  have "unat (x + word_of_nat i) = (unat x + i) mod 2 ^ 32"
    using assms(2) by (simp add: unat_word_ariths unat_of_nat)
  moreover have "(2::nat) ^ b dvd 2 ^ 32" using assms(1) by (rule le_imp_power_dvd)
  ultimately show ?thesis
    using assms(1) by (simp add: unat_and_HASHMASK PROBE_def mod_mod_cancel)
qed

lemma pos_Suc: "unat x = pos b h i \<Longrightarrow> b \<le> 32 \<Longrightarrow> i < 2 ^ 32 \<Longrightarrow>
  unat ((x + PROBE (word_of_nat i)) AND HASHMASK b) = pos b h (Suc i)"
  by (simp add: unat_step pos_def mod_add_left_eq add.assoc)

lemma pos_0: "b \<le> 32 \<Longrightarrow> unat (h AND HASHMASK b) = pos b h 0"
  by (simp add: unat_and_HASHMASK pos_def)

lemma pos_1: "pos b h (Suc 0) = pos b h 0"
  by (simp add: pos_def)

subsection \<open>The loops\<close>


lemma word_Suc: "word_of_nat i + 1 = (word_of_nat (Suc i) :: u32)"
  by simp

text \<open>The lookup loop stops at the first probe that is free or holds the key.\<close>

lemma lookup_loop_first:
  assumes "b \<le> 31" and "n \<le> 2 ^ b" and "i < n" and "unat index = pos b h i"
    and "\<And>j. i < j \<Longrightarrow> j < n \<Longrightarrow>
           slots ! pos b h j \<noteq> Unbound \<and> (\<forall>v ix hv. slots ! pos b h j \<noteq> Bucket key v ix hv)"
    and "slots ! pos b h n = Unbound \<or> (\<exists>v ix hv. slots ! pos b h n = Bucket key v ix hv)"
  shows "\<exists>ix. unat ix = pos b h n \<and>
    lookup_loop (=) slots (HASHMASK b) key index (word_of_nat i) =
      Some (case slots ! pos b h n of Bucket k v _ _ \<Rightarrow> Some v | _ \<Rightarrow> None, ix)"
  using assms(3-5)
proof (induction "n - i" arbitrary: i index)
  case 0
  then show ?case by simp
next
  case (Suc m)
  define index' where "index' = (index + PROBE (word_of_nat i)) AND HASHMASK b"
  have "(2::nat) ^ b \<le> 2 ^ 31" using assms(1) by (rule power_increasing) simp
  then have "i < 2 ^ 32" using Suc.prems(1) assms(2) by simp
  then have index': "unat index' = pos b h (Suc i)"
    unfolding index'_def using Suc.prems(2) assms(1) by (intro pos_Suc) simp_all
  have unf: "lookup_loop (=) slots (HASHMASK b) key index (word_of_nat i) =
      (case slots ! unat index' of
        Unbound \<Rightarrow> Some (None, index')
      | Undef \<Rightarrow> lookup_loop (=) slots (HASHMASK b) key index' (word_of_nat i + 1)
      | Bucket k v _ _ \<Rightarrow>
          if k = key then Some (Some v, index')
          else lookup_loop (=) slots (HASHMASK b) key index' (word_of_nat i + 1))"
    by (subst lookup_loop.simps) (simp only: index'_def Let_def)
  show ?case
  proof (cases "Suc i = n")
    case True
    then show ?thesis unfolding unf index' using assms(6) index' by (auto split: slot.splits)
  next
    case False
    with Suc.prems(1) have less: "Suc i < n" by simp
    have "lookup_loop (=) slots (HASHMASK b) key index (word_of_nat i) =
      lookup_loop (=) slots (HASHMASK b) key index' (word_of_nat (Suc i))"
      unfolding unf index' word_Suc using Suc.prems(3) [of "Suc i"] less by (auto split: slot.splits)
    then show ?thesis using Suc.hyps(1) [of "Suc i" index'] Suc.hyps(2) less index' Suc.prems(3) by simp
  qed
qed

lemma place_loop_first:
  assumes "b \<le> 31" and "n \<le> 2 ^ b" and "i \<le> n" and "unat index = pos b h i"
    and "\<And>j. i \<le> j \<Longrightarrow> j < n \<Longrightarrow> \<not> stop (slots ! pos b h j)"
    and "stop (slots ! pos b h n)"
  shows "\<exists>ix. unat ix = pos b h n \<and>
    place_loop stop slots (HASHMASK b) index (word_of_nat i) = Some ix"
  using assms(3-5)
proof (induction "n - i" arbitrary: i index)
  case 0
  then show ?case using assms(6) by (subst place_loop.simps) auto
next
  case (Suc m)
  define index' where "index' = (index + PROBE (word_of_nat i)) AND HASHMASK b"
  have "(2::nat) ^ b \<le> 2 ^ 31" using assms(1) by (rule power_increasing) simp
  then have "i < 2 ^ 32" using Suc.prems(1) assms(2) by simp
  then have index': "unat index' = pos b h (Suc i)"
    unfolding index'_def using Suc.prems(2) assms(1) by (intro pos_Suc) simp_all
  have "i < n" using Suc.hyps(2) by simp
  then have "place_loop stop slots (HASHMASK b) index (word_of_nat i) =
      place_loop stop slots (HASHMASK b) index' (word_of_nat (Suc i))"
    using Suc.prems(2,3) by (subst place_loop.simps) (simp add: index'_def word_Suc add.commute)
  then show ?case using Suc.hyps(1) [of "Suc i" index'] Suc.hyps(2) \<open>i < n\<close> index' Suc.prems(3) by simp
qed

subsection \<open>Contents and invariant\<close>

fun slot_kv :: "('k, 'v) slot \<Rightarrow> ('k \<times> 'v) option" where
  "slot_kv (Bucket k v _ _) = Some (k, v)"
| "slot_kv _ = None"

definition entries :: "('k, 'v) slot list \<Rightarrow> ('k \<times> 'v) list" where
  "entries slots = List.map_filter slot_kv slots"

text \<open>The map a table stands for.\<close>

definition tbl_abs :: "('k, 'v) table \<Rightarrow> 'k \<Rightarrow> 'v option" where
  "tbl_abs t = map_of (entries (HASH_TABLE t))"

text \<open>Slot \<open>p\<close> is reached from the hash value \<open>h\<close> before any slot that was never used.\<close>

definition reached :: "nat \<Rightarrow> ('k, 'v) slot list \<Rightarrow> u32 \<Rightarrow> nat \<Rightarrow> bool" where
  "reached b slots h p \<longleftrightarrow>
     (\<exists>n \<in> {1..2 ^ b}. pos b h n = p \<and> (\<forall>j \<in> {1..<n}. slots ! pos b h j \<noteq> Unbound))"

definition slot_ok :: "('k \<Rightarrow> u32) \<Rightarrow> nat \<Rightarrow> ('k, 'v) slot list \<Rightarrow> nat \<Rightarrow> bool" where
  "slot_ok hf b slots p \<longleftrightarrow>
     (case slots ! p of
        Bucket k v ix hv \<Rightarrow> ix = p \<and> hv = hf k \<and> reached b slots hv p
      | _ \<Rightarrow> True)"

definition slots_inv :: "('k \<Rightarrow> u32) \<Rightarrow> nat \<Rightarrow> ('k, 'v) slot list \<Rightarrow> bool" where
  "slots_inv hf b slots \<longleftrightarrow> length slots = 2 ^ b \<and> distinct (map fst (entries slots))
     \<and> (\<forall>p < 2 ^ b. slot_ok hf b slots p)"

definition tbl_inv :: "('k \<Rightarrow> u32) \<Rightarrow> ('k, 'v) table \<Rightarrow> bool" where
  "tbl_inv hf t \<longleftrightarrow> HASH_BITS t \<le> 31 \<and> slots_inv hf (HASH_BITS t) (HASH_TABLE t)
     \<and> HASH_LLIMIT t = llimit_of (HASH_BITS t)
     \<and> length (entries (HASH_TABLE t)) \<le> HASH_NENTRIES t \<and> HASH_NENTRIES t \<le> HASH_LLIMIT t"

text \<open>No tombstones.\<close>

definition tbl_dense :: "('k, 'v) table \<Rightarrow> bool" where
  "tbl_dense t \<longleftrightarrow> Undef \<notin> set (HASH_TABLE t)"

lemma entries_simps [simp]:
  "entries [] = []" "entries (e # es) = (case slot_kv e of None \<Rightarrow> [] | Some x \<Rightarrow> [x]) @ entries es"
  by (simp_all add: entries_def map_filter_simps split: option.splits)

lemma entries_append [simp]: "entries (xs @ ys) = entries xs @ entries ys"
  by (induction xs) simp_all

lemma entries_replicate [simp]: "entries (replicate n Unbound) = []"
  by (induction n) simp_all

lemma slot_split:
  assumes "p < length slots"
  obtains xs ys where "slots = xs @ slots ! p # ys" "length xs = p" "\<And>e. slots[p := e] = xs @ e # ys"
proof (rule that)
  show "slots = take p slots @ slots ! p # drop (Suc p) slots"
    using assms by (rule id_take_nth_drop)
  show "length (take p slots) = p" using assms by simp
  show "slots[p := e] = take p slots @ e # drop (Suc p) slots" for e
    using assms by (rule upd_conv_take_nth_drop)
qed

lemma EMPTYP_kv: "EMPTYP e \<longleftrightarrow> slot_kv e = None"
  by (cases e) simp_all

lemma entries_split:
  assumes "p < length slots"
  obtains es es' where
    "\<And>e. entries (slots[p := e]) = es @ (case slot_kv e of None \<Rightarrow> [] | Some x \<Rightarrow> [x]) @ es'"
    "entries slots = es @ (case slot_kv (slots ! p) of None \<Rightarrow> [] | Some x \<Rightarrow> [x]) @ es'"
proof -
  obtain xs ys where xs: "slots = xs @ slots ! p # ys" "\<And>e. slots[p := e] = xs @ e # ys"
    using slot_split [OF assms] by metis
  have "entries slots = entries (xs @ slots ! p # ys)" using xs(1) by (rule arg_cong)
  with xs(2) show ?thesis by (intro that [of "entries xs" "entries ys"]) simp_all
qed

lemma entries_fill:
  assumes "p < length slots" and "EMPTYP (slots ! p)"
  shows "\<exists>es es'. entries slots = es @ es' \<and> entries (slots[p := Bucket k v ix h]) = es @ (k, v) # es'"
  using assms(2) by (rule_tac entries_split [OF assms(1)]) (auto simp: EMPTYP_kv)

lemma entries_bucket:
  assumes "p < length slots" and "slots ! p = Bucket k v ix h"
  shows "\<exists>es es'. entries slots = es @ (k, v) # es' \<and> entries (slots[p := Undef]) = es @ es'
    \<and> (\<forall>v'. entries (slots[p := Bucket k v' ix h]) = es @ (k, v') # es')"
  using assms(2) by (rule_tac entries_split [OF assms(1)]) auto

lemma entries_mem: "(k, v) \<in> set (entries slots) \<longleftrightarrow> (\<exists>p < length slots. \<exists>ix h. slots ! p = Bucket k v ix h)"
proof (induction slots)
  case (Cons e es)
  then show ?case
    by (cases e) (auto simp: less_Suc_eq_0_disj nth_Cons')
qed simp

lemma bucket_unique:
  assumes "distinct (map fst (entries slots))" "p < length slots" "q < length slots"
    and "slots ! p = Bucket k v ix h" "slots ! q = Bucket k v' ix' h'"
  shows "p = q"
proof (rule ccontr)
  assume "p \<noteq> q"
  obtain es es' where e: "entries slots = es @ (k, v) # es'" "entries (slots[p := Undef]) = es @ es'"
    using entries_bucket [OF assms(2,4)] by blast
  have "(k, v') \<in> set (entries (slots[p := Undef]))"
    using assms(2,3,5) \<open>p \<noteq> q\<close> by (auto simp: entries_mem)
  then show False using assms(1) e by (auto simp: rev_image_eqI)
qed

lemma tbl_abs_Some:
  "slots_inv hf b (HASH_TABLE t) \<Longrightarrow> tbl_abs t k = Some v \<longleftrightarrow> (k, v) \<in> set (entries (HASH_TABLE t))"
  by (simp add: tbl_abs_def slots_inv_def)

lemma tbl_abs_None:
  "tbl_abs t k = None \<longleftrightarrow> k \<notin> fst ` set (entries (HASH_TABLE t))"
  by (simp add: tbl_abs_def map_of_eq_None_iff)

subsection \<open>Lookup refines the map\<close>

lemma lookup_present:
  assumes "slots_inv hf b slots" and "b \<le> 31" and "p < 2 ^ b" and "slots ! p = Bucket k v ix h"
  shows "\<exists>x. unat x = p \<and>
    lookup_loop (=) slots (HASHMASK b) k (hf k AND HASHMASK b) 0 = Some (Some v, x)"
proof -
  have ok: "slot_ok hf b slots p" and len: "length slots = 2 ^ b"
    and dist: "distinct (map fst (entries slots))"
    using assms(1,3) by (auto simp: slots_inv_def)
  then obtain n where n: "1 \<le> n" "n \<le> 2 ^ b" "pos b (hf k) n = p"
    "\<forall>j \<in> {1..<n}. slots ! pos b (hf k) j \<noteq> Unbound"
    using assms(4) by (auto simp: slot_ok_def reached_def)
  have "slots ! pos b (hf k) j \<noteq> Bucket k v' ix' h'" if "0 < j" "j < n" for j v' ix' h'
  proof
    assume "slots ! pos b (hf k) j = Bucket k v' ix' h'"
    then have "pos b (hf k) j = p"
      using bucket_unique [OF dist _ _ _ assms(4)] len assms(3) by simp
    then show False using pos_inj [of j n b "hf k"] n that by simp
  qed
  moreover have "slots ! pos b (hf k) j \<noteq> Unbound" if "0 < j" "j < n" for j
    using n(4) that by simp
  ultimately show ?thesis
    using lookup_loop_first [of b n 0 "hf k AND HASHMASK b" "hf k" slots k] n assms(2,4)
    by (simp add: pos_0)
qed

lemma lookup_stop:
  assumes "length slots = 2 ^ b" and "b \<le> 31" and "Unbound \<in> set slots"
  shows "\<exists>r. lookup_loop (=) slots (HASHMASK b) k (h AND HASHMASK b) 0 = Some r"
proof -
  let ?stop = "\<lambda>n. 1 \<le> n \<and> n \<le> 2 ^ b \<and>
    (slots ! pos b h n = Unbound \<or> (\<exists>v ix hv. slots ! pos b h n = Bucket k v ix hv))"
  obtain p where "p < 2 ^ b" "slots ! p = Unbound" using assms(1,3) by (auto simp: in_set_conv_nth)
  then have ex: "\<exists>n. ?stop n" using pos_covers [of p b h] by auto
  define n where "n = (LEAST n. ?stop n)"
  have n: "?stop n" unfolding n_def using ex by (rule LeastI_ex)
  have "\<not> ?stop j" if "j < n" for j using not_less_Least that unfolding n_def by blast
  then have "slots ! pos b h j \<noteq> Unbound \<and> (\<forall>v ix hv. slots ! pos b h j \<noteq> Bucket k v ix hv)"
    if "0 < j" "j < n" for j using that n by (metis Suc_leI One_nat_def le_trans less_imp_le)
  with n lookup_loop_first [of b n 0 "h AND HASHMASK b" h slots k] assms(2)
  show ?thesis by (auto simp: pos_0)
qed

text \<open>What the loop returned is in the slot it stopped at.\<close>

definition hit :: "('k, 'v) slot list \<Rightarrow> u32 \<Rightarrow> 'k \<Rightarrow> 'v option \<times> u32 \<Rightarrow> bool" where
  "hit slots tmask k r \<longleftrightarrow> (\<exists>x. snd r = x AND tmask) \<and>
     (case fst r of
        None \<Rightarrow> slots ! unat (snd r) = Unbound
      | Some v \<Rightarrow> \<exists>ix hv. slots ! unat (snd r) = Bucket k v ix hv)"

lemma lookup_hit:
  assumes "lookup_loop (=) slots tmask k index i = Some r"
  shows "hit slots tmask k r"
  using assms
  by (rule lookup_loop.raw_induct
      [where P = "\<lambda>is2 slots tmask k _ _ r. is2 = (=) \<longrightarrow> hit slots tmask k r", rotated, THEN mp])
     (auto simp: Let_def hit_def split: slot.splits if_splits)

lemma lookup_sound:
  assumes "tbl_inv hf t" and "hash_lookup hf (=) t k = Some (r, x)"
  shows "r = tbl_abs t k \<and> unat x < 2 ^ HASH_BITS t
    \<and> (\<forall>v. r = Some v \<longrightarrow> HASH_TABLE t ! unat x = Bucket k v (unat x) (hf k))"
proof -
  let ?b = "HASH_BITS t" and ?s = "HASH_TABLE t"
  have inv: "?b \<le> 31" "slots_inv hf ?b ?s" using assms(1) by (simp_all add: tbl_inv_def)
  then have len: "length ?s = 2 ^ ?b" by (simp add: slots_inv_def)
  have h: "hit ?s (HASHMASK ?b) k (r, x)"
    using assms(2) by (intro lookup_hit) (auto simp: hash_lookup_def Let_def)
  then have x: "unat x < 2 ^ ?b" using inv(1) by (auto simp: hit_def unat_and_HASHMASK)
  show ?thesis
  proof (cases r)
    case None
    have "tbl_abs t k = None"
    proof (rule ccontr)
      assume "tbl_abs t k \<noteq> None"
      then obtain v where "(k, v) \<in> set (entries ?s)" using tbl_abs_Some [OF inv(2)] by auto
      then obtain p ix hv where "p < 2 ^ ?b" "?s ! p = Bucket k v ix hv"
        using len by (auto simp: entries_mem)
      with lookup_present [OF inv(2,1)] assms(2) None show False
        by (fastforce simp: hash_lookup_def Let_def)
    qed
    with None x show ?thesis by simp
  next
    case (Some v)
    then obtain ix hv where e: "?s ! unat x = Bucket k v ix hv" using h by (auto simp: hit_def)
    then have "(k, v) \<in> set (entries ?s)" using x len by (auto simp: entries_mem)
    then have "tbl_abs t k = Some v" using tbl_abs_Some [OF inv(2)] by simp
    moreover have "slot_ok hf ?b ?s (unat x)" using inv(2) x by (simp add: slots_inv_def)
    ultimately show ?thesis using Some x e by (simp add: slot_ok_def)
  qed
qed

lemma lookup_returns:
  assumes "tbl_inv hf t"
  shows "(\<exists>r. hash_lookup hf (=) t k = Some r) \<longleftrightarrow> tbl_abs t k \<noteq> None \<or> Unbound \<in> set (HASH_TABLE t)"
proof -
  let ?b = "HASH_BITS t" and ?s = "HASH_TABLE t"
  have inv: "?b \<le> 31" "slots_inv hf ?b ?s" using assms(1) by (simp_all add: tbl_inv_def)
  then have len: "length ?s = 2 ^ ?b" by (simp add: slots_inv_def)
  have "Unbound \<in> set ?s" if "hash_lookup hf (=) t k = Some (None, x)" for x
  proof -
    have "hit ?s (HASHMASK ?b) k (None, x)"
      using that by (intro lookup_hit) (auto simp: hash_lookup_def Let_def)
    moreover have "unat x < 2 ^ ?b" using lookup_sound [OF assms that] by simp
    ultimately show ?thesis using len by (auto simp: hit_def) (metis nth_mem)
  qed
  moreover have "\<exists>r. hash_lookup hf (=) t k = Some r" if "tbl_abs t k = Some v" for v
  proof -
    have "(k, v) \<in> set (entries ?s)" using that tbl_abs_Some [OF inv(2)] by simp
    then obtain p ix hv where "p < 2 ^ ?b" "?s ! p = Bucket k v ix hv"
        using len by (auto simp: entries_mem)
    with lookup_present [OF inv(2,1)] show ?thesis by (fastforce simp: hash_lookup_def Let_def)
  qed
  moreover have "\<exists>r. hash_lookup hf (=) t k = Some r" if "Unbound \<in> set ?s"
    using lookup_stop [OF len inv(1) that] by (simp add: hash_lookup_def Let_def)
  ultimately show ?thesis using lookup_sound [OF assms] by (metis not_None_eq surj_pair)
qed

subsection \<open>Updates keep the invariant\<close>

lemma reached_mono:
  assumes "reached b slots h p"
    and "\<And>q. q < 2 ^ b \<Longrightarrow> slots ! q \<noteq> Unbound \<Longrightarrow> slots' ! q \<noteq> Unbound"
  shows "reached b slots' h p"
  using assms unfolding reached_def by (meson pos_less)

lemma slots_inv_fill:
  assumes "slots_inv hf b slots" and "p < 2 ^ b" and "EMPTYP (slots ! p)"
    and "reached b slots (hf k) p" and "k \<notin> fst ` set (entries slots)"
  shows "slots_inv hf b (slots[p := Bucket k v p (hf k)])"
proof -
  let ?s = "slots[p := Bucket k v p (hf k)]"
  have len: "length slots = 2 ^ b" using assms(1) by (simp add: slots_inv_def)
  have mono: "q < 2 ^ b \<Longrightarrow> slots ! q \<noteq> Unbound \<Longrightarrow> ?s ! q \<noteq> Unbound" for q
    using len by (cases "q = p") simp_all
  obtain es es' where "entries slots = es @ es'" "entries ?s = es @ (k, v) # es'"
    using entries_fill [of p slots k v p "hf k"] assms(2,3) len by auto
  then have "distinct (map fst (entries ?s))"
    using assms(1,5) by (auto simp: slots_inv_def rev_image_eqI)
  moreover have "slot_ok hf b ?s q" if "q < 2 ^ b" for q
  proof (cases "q = p")
    case True
    then show ?thesis
      using assms(2,4) len reached_mono [OF assms(4) mono] by (simp add: slot_ok_def)
  next
    case False
    have "slot_ok hf b slots q" using assms(1) that by (simp add: slots_inv_def)
    then show ?thesis using False reached_mono [OF _ mono]
      by (auto simp: slot_ok_def split: slot.splits)
  qed
  ultimately show ?thesis using len by (simp add: slots_inv_def)
qed

lemma slots_inv_upd:
  assumes "slots_inv hf b slots" and "p < 2 ^ b" and "slots ! p = Bucket k v p (hf k)"
    and "e = Undef \<or> e = Bucket k v' p (hf k)"
  shows "slots_inv hf b (slots[p := e])"
proof -
  have len: "length slots = 2 ^ b" using assms(1) by (simp add: slots_inv_def)
  have mono: "q < 2 ^ b \<Longrightarrow> slots ! q \<noteq> Unbound \<Longrightarrow> slots[p := e] ! q \<noteq> Unbound" for q
    using len assms(4) by (cases "q = p") auto
  obtain es es' where "entries slots = es @ (k, v) # es'" "entries (slots[p := Undef]) = es @ es'"
    "\<forall>v'. entries (slots[p := Bucket k v' p (hf k)]) = es @ (k, v') # es'"
    using entries_bucket [of p slots k v p "hf k"] assms(2,3) len by auto
  then have "distinct (map fst (entries (slots[p := e])))"
    using assms(1,4) by (auto simp: slots_inv_def rev_image_eqI)
  moreover have "slot_ok hf b (slots[p := e]) q" if "q < 2 ^ b" for q
  proof -
    have "slot_ok hf b slots q" using assms(1) that by (simp add: slots_inv_def)
    then show ?thesis using assms(3,4) len that reached_mono [OF _ mono]
      by (cases "q = p") (auto simp: slot_ok_def split: slot.splits)
  qed
  ultimately show ?thesis using len by (simp add: slots_inv_def)
qed

lemma empty_slot:
  "length (entries slots) < length slots \<Longrightarrow> \<exists>p < length slots. EMPTYP (slots ! p)"
proof (induction slots)
  case (Cons e es)
  then show ?case by (cases e) force+
qed simp

lemma place_ok:
  assumes "slots_inv hf b slots" and "b \<le> 31" and "k \<notin> fst ` set (entries slots)"
    and "length (entries slots) < 2 ^ b"
    and "\<And>p. p < 2 ^ b \<Longrightarrow> stop (slots ! p) \<longleftrightarrow> EMPTYP (slots ! p)"
  shows "\<exists>x. place_loop stop slots (HASHMASK b) (hf k AND HASHMASK b) 0 = Some x
    \<and> unat x < 2 ^ b \<and> EMPTYP (slots ! unat x)
    \<and> slots_inv hf b (slots[unat x := Bucket k v (unat x) (hf k)])"
proof -
  have len: "length slots = 2 ^ b" using assms(1) by (simp add: slots_inv_def)
  let ?stop = "\<lambda>n. n \<le> 2 ^ b \<and> EMPTYP (slots ! pos b (hf k) n)"
  obtain p where "p < 2 ^ b" "EMPTYP (slots ! p)" using empty_slot [of slots] assms(4) len by auto
  then have ex: "\<exists>n. ?stop n" using pos_covers [of p b "hf k"] by auto
  define n where "n = (LEAST n. ?stop n)"
  have n: "?stop n" unfolding n_def using ex by (rule LeastI_ex)
  have least: "\<not> ?stop j" if "j < n" for j using not_less_Least that unfolding n_def by blast
  then have before: "\<not> EMPTYP (slots ! pos b (hf k) j)" if "j < n" for j
    using that n by (meson le_trans less_imp_le)
  obtain x where x: "unat x = pos b (hf k) n"
    "place_loop stop slots (HASHMASK b) (hf k AND HASHMASK b) 0 = Some x"
    using place_loop_first [of b n 0 "hf k AND HASHMASK b" "hf k" stop slots] n before assms(2,5)
    by (auto simp: pos_0)
  have "reached b slots (hf k) (pos b (hf k) n)"
  proof (cases "n = 0")
    case True
    then show ?thesis unfolding reached_def by (intro bexI [of _ 1]) (simp_all add: pos_1)
  next
    case False
    then show ?thesis using n before unfolding reached_def
      by (intro bexI [of _ n]) (auto, metis EMPTYP.simps(2))
  qed
  then have "slots_inv hf b (slots[unat x := Bucket k v (unat x) (hf k)])"
    using n assms(1,3) x(1) by (intro slots_inv_fill) simp_all
  then show ?thesis using x n by simp
qed

lemma llimit_less: "llimit_of b < 2 ^ b"
  by (simp add: llimit_of_def MAX_LOAD_FACTOR_def less_mult_imp_div_less)

lemma llimit_Suc: "llimit_of b < llimit_of (Suc b)"
proof (cases b)
  case 0
  then show ?thesis by (simp add: llimit_of_def MAX_LOAD_FACTOR_def)
next
  case (Suc n)
  have "1 \<le> (2 :: nat) ^ n" and "2 ^ b = 2 * (2 :: nat) ^ n" and "2 ^ Suc b = 4 * (2 :: nat) ^ n"
    using Suc by simp_all
  then have "2 ^ b * 70 + 100 \<le> (2 :: nat) ^ Suc b * 70" by linarith
  then have "(2 ^ b * 70 + 100) div 100 \<le> (2 :: nat) ^ Suc b * 70 div 100" by (rule div_le_mono)
  then show ?thesis by (simp add: llimit_of_def MAX_LOAD_FACTOR_def)
qed

lemma entries_place:
  assumes "p < length slots" and "EMPTYP (slots ! p)"
  shows "set (entries (slots[p := Bucket k v ix h])) = insert (k, v) (set (entries slots))"
    and "length (entries (slots[p := Bucket k v ix h])) = Suc (length (entries slots))"
  using entries_fill [OF assms, of k v ix h] by auto

lemma expand_loop_ok:
  assumes "slots_inv hf b new" and "b \<le> 31" and "Undef \<notin> set new"
    and "length (entries old) + length (entries new) \<le> 2 ^ b"
    and "distinct (map fst (entries old))"
    and "fst ` set (entries old) \<inter> fst ` set (entries new) = {}"
    and "\<forall>k v ix h. Bucket k v ix h \<in> set old \<longrightarrow> h = hf k"
  shows "\<exists>new'. expand_loop (HASHMASK b) old new = Some new' \<and> slots_inv hf b new'
    \<and> set (entries new') = set (entries old) \<union> set (entries new)
    \<and> length (entries new') = length (entries old) + length (entries new) \<and> Undef \<notin> set new'"
  using assms
proof (induction old arbitrary: new)
  case Nil
  then show ?case by simp
next
  case (Cons e old)
  show ?case
  proof (cases e)
    case (Bucket k v ix h)
    then have h: "h = hf k" using Cons.prems(7) by auto
    obtain x where x: "place_loop EMPTYP new (HASHMASK b) (hf k AND HASHMASK b) 0 = Some x"
      "unat x < 2 ^ b" "EMPTYP (new ! unat x)"
      "slots_inv hf b (new[unat x := Bucket k v (unat x) (hf k)])"
      using place_ok [of hf b new k EMPTYP v] Cons.prems Bucket by auto
    let ?new = "new[unat x := Bucket k v (unat x) (hf k)]"
    have len: "length new = 2 ^ b" using Cons.prems(1) by (simp add: slots_inv_def)
    note pl = entries_place [of "unat x" new k v "unat x" "hf k", unfolded len, OF x(2,3)]
    have "Undef \<notin> set ?new" using Cons.prems(3) set_update_subset_insert [of new "unat x"] by fastforce
    moreover have "fst ` set (entries old) \<inter> fst ` set (entries ?new) = {}"
      using Cons.prems(5,6) Bucket pl by auto
    moreover have "length (entries old) + length (entries ?new) \<le> 2 ^ b"
      using Cons.prems(4) Bucket pl by simp
    moreover have "distinct (map fst (entries old))" using Cons.prems(5) Bucket by simp
    moreover have "\<forall>k v ix h. Bucket k v ix h \<in> set old \<longrightarrow> h = hf k" using Cons.prems(7) by simp
    ultimately obtain new' where "expand_loop (HASHMASK b) old ?new = Some new'" "slots_inv hf b new'"
      "set (entries new') = set (entries old) \<union> set (entries ?new)"
      "length (entries new') = length (entries old) + length (entries ?new)" "Undef \<notin> set new'"
      using Cons.IH [OF x(4) Cons.prems(2)] by blast
    then show ?thesis using Bucket x(1) pl h by simp
  qed (use Cons in auto)
qed

subsection \<open>The operations refine the map\<close>

lemma abs_fill:
  assumes "slots_inv hf b (HASH_TABLE t)" and "p < 2 ^ b" and "EMPTYP (HASH_TABLE t ! p)"
    and "tbl_abs t k = None"
  shows "tbl_abs (SVINDEX t p (Bucket k v p h)) = (tbl_abs t)(k \<mapsto> v)"
proof -
  obtain es es' where e: "entries (HASH_TABLE t) = es @ es'"
    "entries ((HASH_TABLE t)[p := Bucket k v p h]) = es @ (k, v) # es'"
    using entries_fill [of p "HASH_TABLE t" k v p h] assms(1-3) by (auto simp: slots_inv_def)
  have n: "map_of es k = None" "map_of es' k = None"
    using assms(4) e by (simp_all add: tbl_abs_None map_of_eq_None_iff image_Un)
  then show ?thesis
    using e by (auto simp: tbl_abs_def SVINDEX_def fun_eq_iff map_add_def split: option.splits)
qed

lemma abs_bucket:
  assumes "slots_inv hf b (HASH_TABLE t)" and "p < 2 ^ b" and "HASH_TABLE t ! p = Bucket k v p h"
  shows "tbl_abs (SVINDEX t p (Bucket k v' p h)) = (tbl_abs t)(k \<mapsto> v')"
    and "tbl_abs (SVINDEX t p Undef) = (tbl_abs t)(k := None)"
    and "length (entries ((HASH_TABLE t)[p := Bucket k v' p h])) = length (entries (HASH_TABLE t))"
    and "length (entries (HASH_TABLE t)) = Suc (length (entries ((HASH_TABLE t)[p := Undef])))"
proof -
  obtain es es' where e: "entries (HASH_TABLE t) = es @ (k, v) # es'"
    "entries ((HASH_TABLE t)[p := Undef]) = es @ es'"
    "\<And>v'. entries ((HASH_TABLE t)[p := Bucket k v' p h]) = es @ (k, v') # es'"
    using entries_bucket [of p "HASH_TABLE t" k v p h] assms by (auto simp: slots_inv_def)
  have d: "k \<notin> fst ` set es" "k \<notin> fst ` set es'" using assms(1) e(1) by (auto simp: slots_inv_def)
  then have n: "map_of es k = None" "map_of es' k = None" by (simp_all add: map_of_eq_None_iff)
  show "tbl_abs (SVINDEX t p (Bucket k v' p h)) = (tbl_abs t)(k \<mapsto> v')"
    "tbl_abs (SVINDEX t p Undef) = (tbl_abs t)(k := None)"
    using n by (auto simp: tbl_abs_def SVINDEX_def e fun_eq_iff map_add_def split: option.splits)
  show "length (entries ((HASH_TABLE t)[p := Bucket k v' p h])) = length (entries (HASH_TABLE t))"
    "length (entries (HASH_TABLE t)) = Suc (length (entries ((HASH_TABLE t)[p := Undef])))"
    by (simp_all add: e)
qed

lemma hashtable_expand_ok:
  assumes "tbl_inv hf t" and "HASH_BITS t < 31"
  shows "\<exists>t'. hashtable_expand t = Some t' \<and> tbl_inv hf t' \<and> tbl_abs t' = tbl_abs t
    \<and> tbl_dense t' \<and> HASH_NENTRIES t' = HASH_NENTRIES t \<and> HASH_BITS t' = Suc (HASH_BITS t)"
proof -
  let ?b = "Suc (HASH_BITS t)" and ?old = "HASH_TABLE t"
  let ?new = "replicate (2 ^ ?b) Unbound :: ('a, 'b) slot list"
  have inv: "slots_inv hf (HASH_BITS t) ?old" and ll: "HASH_LLIMIT t = llimit_of (HASH_BITS t)"
    and ne: "length (entries ?old) \<le> HASH_NENTRIES t" "HASH_NENTRIES t \<le> HASH_LLIMIT t"
    using assms(1) by (simp_all add: tbl_inv_def)
  have new: "slots_inv hf ?b ?new" by (simp add: slots_inv_def slot_ok_def del: power_Suc replicate.simps)
  have cnt: "length (entries ?old) < 2 ^ HASH_BITS t" using ne ll llimit_less [of "HASH_BITS t"] by simp
  have "h = hf k" if "Bucket k v ix h \<in> set ?old" for k v ix h
  proof -
    obtain p where "p < 2 ^ HASH_BITS t" "?old ! p = Bucket k v ix h"
      using \<open>Bucket k v ix h \<in> set ?old\<close> inv by (auto simp: in_set_conv_nth slots_inv_def)
    then show ?thesis using inv by (auto simp: slots_inv_def slot_ok_def split: slot.splits)
  qed
  moreover have "distinct (map fst (entries ?old))" using inv by (simp add: slots_inv_def)
  moreover have "length (entries ?old) \<le> 2 ^ ?b" using cnt by simp
  ultimately obtain new' where n: "expand_loop (HASHMASK ?b) ?old ?new = Some new'"
    "slots_inv hf ?b new'" "set (entries new') = set (entries ?old)"
    "length (entries new') = length (entries ?old)" "Undef \<notin> set new'"
    using expand_loop_ok [OF new, of ?old] assms(2) by (auto simp del: replicate.simps power_Suc)
  let ?t = "t \<lparr> HASH_BITS := ?b, HASH_LLIMIT := llimit_of ?b, HASH_TABLE := new' \<rparr>"
  have "tbl_abs ?t k = tbl_abs t k" for k
    using tbl_abs_Some [of hf ?b ?t k] tbl_abs_Some [OF inv, of k] n(2,3)
    by (cases "tbl_abs ?t k"; cases "tbl_abs t k") auto
  then have "tbl_abs ?t = tbl_abs t" by (rule ext)
  moreover have "tbl_inv hf ?t"
    using assms(2) n(2,4) ne ll llimit_Suc [of "HASH_BITS t"] by (simp add: tbl_inv_def)
  ultimately show ?thesis using n(1,5) by (auto simp: hashtable_expand_def tbl_dense_def)
qed

lemma dense_unbound:
  assumes "tbl_inv hf t" and "tbl_dense t"
  shows "Unbound \<in> set (HASH_TABLE t)"
proof -
  have "length (entries (HASH_TABLE t)) < length (HASH_TABLE t)"
    using assms(1) llimit_less [of "HASH_BITS t"] by (auto simp: tbl_inv_def slots_inv_def)
  then obtain p where p: "p < length (HASH_TABLE t)" "EMPTYP (HASH_TABLE t ! p)"
    using empty_slot by blast
  then have "HASH_TABLE t ! p = Unbound"
    using assms(2) nth_mem [OF p(1)] by (cases "HASH_TABLE t ! p") (auto simp: tbl_dense_def)
  then show ?thesis using nth_mem [OF p(1)] by simp
qed

lemma insert_new_ok:
  assumes "tbl_inv hf t" and "HASH_NENTRIES t + 1 \<le> HASH_LLIMIT t" and "tbl_abs t k = None"
  shows "\<exists>t'. insert_new hf (=) t k v = Some t' \<and> tbl_inv hf t' \<and> tbl_abs t' = (tbl_abs t)(k \<mapsto> v)
    \<and> (tbl_dense t \<longrightarrow> tbl_dense t') \<and> HASH_NENTRIES t' = HASH_NENTRIES t + 1
    \<and> HASH_BITS t' = HASH_BITS t"
proof -
  let ?b = "HASH_BITS t" and ?s = "HASH_TABLE t"
  have inv: "slots_inv hf ?b ?s" "?b \<le> 31" and ll: "HASH_LLIMIT t = llimit_of ?b"
    and ne: "length (entries ?s) \<le> HASH_NENTRIES t"
    using assms(1) by (simp_all add: tbl_inv_def)
  have new: "k \<notin> fst ` set (entries ?s)" using assms(3) by (simp add: tbl_abs_None)
  have "\<not> (\<not> EMPTYP (?s ! p) \<and> BKEY (?s ! p) = k)" if "p < 2 ^ ?b" for p
  proof
    assume a: "\<not> EMPTYP (?s ! p) \<and> BKEY (?s ! p) = k"
    then obtain v ix h where "?s ! p = Bucket k v ix h" by (cases "?s ! p") auto
    then have "(k, v) \<in> set (entries ?s)" using that inv(1) by (auto simp: entries_mem slots_inv_def)
    then show False using new by (auto simp: rev_image_eqI)
  qed
  then obtain x where x: "place_loop (\<lambda>e. EMPTYP e \<or> BKEY e = k) ?s (HASHMASK ?b) (hf k AND HASHMASK ?b) 0 = Some x"
    "unat x < 2 ^ ?b" "EMPTYP (?s ! unat x)" "slots_inv hf ?b (?s[unat x := Bucket k v (unat x) (hf k)])"
    using place_ok [OF inv new, of "\<lambda>e. EMPTYP e \<or> BKEY e = k" v] ne ll assms(2) llimit_less [of ?b] by auto
  let ?t = "SVINDEX (t \<lparr> HASH_NENTRIES := HASH_NENTRIES t + 1 \<rparr>) (unat x) (Bucket k v (unat x) (hf k))"
  have len: "length ?s = 2 ^ ?b" using inv(1) by (simp add: slots_inv_def)
  have "tbl_abs ?t = (tbl_abs t)(k \<mapsto> v)"
    using abs_fill [OF inv(1) x(2,3) assms(3), of v "hf k"] by (simp add: tbl_abs_def SVINDEX_def)
  moreover have "tbl_inv hf ?t"
    using inv(2) x(4) ll ne assms(2) entries_place(2) [of "unat x" ?s k v "unat x" "hf k"] x(2,3) len
    by (simp add: tbl_inv_def SVINDEX_def)
  moreover have "tbl_dense t \<longrightarrow> tbl_dense ?t"
    using set_update_subset_insert [of ?s "unat x"] by (fastforce simp: tbl_dense_def SVINDEX_def)
  ultimately show ?thesis
    using x(1,3) by (auto simp: insert_new_def Let_def mkhashbucket_def SVINDEX_def)
qed

lemma insert_ok:
  assumes "tbl_inv hf t" and "HASH_BITS t < 31" and "hash_lookup hf (=) t k = Some r"
  shows "\<exists>t'. arc_hash_insert hf (=) t k v = Some t' \<and> tbl_inv hf t'
    \<and> tbl_abs t' = (tbl_abs t)(k \<mapsto> v) \<and> (tbl_dense t \<longrightarrow> tbl_dense t')
    \<and> HASH_BITS t' \<le> Suc (HASH_BITS t)"
proof -
  obtain r' x where r: "r = (r', x)" by (cases r)
  note snd = lookup_sound [OF assms(1) assms(3) [unfolded r]]
  have inv: "slots_inv hf (HASH_BITS t) (HASH_TABLE t)"
    using assms(1) by (simp add: tbl_inv_def)
  show ?thesis
  proof (cases r')
    case (Some v0)
    let ?t = "SVINDEX t (unat x) (Bucket k v (unat x) (hf k))"
    have e: "HASH_TABLE t ! unat x = Bucket k v0 (unat x) (hf k)" and lt: "unat x < 2 ^ HASH_BITS t"
      using snd Some by simp_all
    have "slots_inv hf (HASH_BITS t) ((HASH_TABLE t)[unat x := Bucket k v (unat x) (hf k)])"
      using slots_inv_upd [OF inv lt e] by blast
    then have "tbl_inv hf ?t"
      using assms(1) abs_bucket(3) [OF inv lt e, of v] by (simp add: tbl_inv_def SVINDEX_def)
    moreover have "tbl_abs ?t = (tbl_abs t)(k \<mapsto> v)" using abs_bucket(1) [OF inv lt e] .
    moreover have "tbl_dense t \<longrightarrow> tbl_dense ?t"
      using set_update_subset_insert [of "HASH_TABLE t" "unat x"] by (fastforce simp: tbl_dense_def SVINDEX_def)
    ultimately show ?thesis using assms(3) r Some e
      by (simp add: arc_hash_insert_def SVINDEX_def)
  next
    case None
    then have abs: "tbl_abs t k = None" using snd by simp
    show ?thesis
    proof (cases "HASH_NENTRIES t + 1 > HASH_LLIMIT t")
      case True
      obtain t1 where t1: "hashtable_expand t = Some t1" "tbl_inv hf t1" "tbl_abs t1 = tbl_abs t"
        "tbl_dense t1" "HASH_NENTRIES t1 = HASH_NENTRIES t" "HASH_BITS t1 = Suc (HASH_BITS t)"
        using hashtable_expand_ok [OF assms(1,2)] by blast
      have "HASH_NENTRIES t1 + 1 \<le> HASH_LLIMIT t1"
        using t1(2,5,6) assms(1) llimit_Suc [of "HASH_BITS t"] by (simp add: tbl_inv_def)
      from insert_new_ok [OF t1(2) this, of k v] abs t1
      show ?thesis using True assms(3) r None by (auto simp add: arc_hash_insert_def)
    next
      case False
      with insert_new_ok [OF assms(1), of k v] abs assms(3) r None
      show ?thesis by (auto simp add: arc_hash_insert_def)
    qed
  qed
qed

lemma delete_ok:
  assumes "tbl_inv hf t" and "hash_lookup hf (=) t k = Some r"
  shows "\<exists>t'. arc_hash_delete hf (=) t k = Some (tbl_abs t k, t') \<and> tbl_inv hf t'
    \<and> tbl_abs t' = (tbl_abs t)(k := None)"
proof -
  obtain r' x where r: "r = (r', x)" by (cases r)
  note snd = lookup_sound [OF assms(1) assms(2) [unfolded r]]
  have inv: "slots_inv hf (HASH_BITS t) (HASH_TABLE t)" and
    ne: "length (entries (HASH_TABLE t)) \<le> HASH_NENTRIES t" "HASH_NENTRIES t \<le> HASH_LLIMIT t"
    using assms(1) by (simp_all add: tbl_inv_def)
  show ?thesis
  proof (cases r')
    case None
    then show ?thesis using assms snd r by (auto simp: arc_hash_delete_def fun_upd_idem)
  next
    case (Some v0)
    let ?t = "SVINDEX t (unat x) Undef"
    have e: "HASH_TABLE t ! unat x = Bucket k v0 (unat x) (hf k)" and lt: "unat x < 2 ^ HASH_BITS t"
      using snd Some by simp_all
    have "slots_inv hf (HASH_BITS t) ((HASH_TABLE t)[unat x := Undef])"
      using slots_inv_upd [OF inv lt e] by blast
    then have "tbl_inv hf (?t \<lparr> HASH_NENTRIES := HASH_NENTRIES t - 1 \<rparr>)"
      using assms(1) abs_bucket(4) [OF inv lt e] ne by (auto simp add: tbl_inv_def SVINDEX_def)
    moreover have "tbl_abs (?t \<lparr> HASH_NENTRIES := HASH_NENTRIES t - 1 \<rparr>) = (tbl_abs t)(k := None)"
      using abs_bucket(2) [OF inv lt e] by (simp add: tbl_abs_def SVINDEX_def)
    ultimately show ?thesis using assms(2) r Some snd by (simp add: arc_hash_delete_def)
  qed
qed

lemma sweep_ok:
  assumes "tbl_inv hf t" and "p < 2 ^ HASH_BITS t" and "HASH_TABLE t ! p = Bucket k v ix h"
  shows "tbl_inv hf (hb_sweeper t p) \<and> tbl_abs (hb_sweeper t p) = (tbl_abs t)(k := None)"
proof -
  have inv: "slots_inv hf (HASH_BITS t) (HASH_TABLE t)"
    using assms(1) by (simp add: tbl_inv_def)
  then have "slot_ok hf (HASH_BITS t) (HASH_TABLE t) p" using assms(2) by (simp add: slots_inv_def)
  then have ix: "ix = p" "h = hf k" using assms(3) by (simp_all add: slot_ok_def)
  have e: "HASH_TABLE t ! p = Bucket k v p (hf k)" using assms(3) ix by simp
  have "slots_inv hf (HASH_BITS t) ((HASH_TABLE t)[p := Undef])"
    using slots_inv_upd [OF inv assms(2) e] by blast
  then have "tbl_inv hf (SVINDEX t p Undef)"
    using assms(1) abs_bucket(4) [OF inv assms(2) e] by (simp add: tbl_inv_def SVINDEX_def)
  then show ?thesis
    using abs_bucket(2) [OF inv assms(2) e] e by (simp add: hb_sweeper_def)
qed

lemma mkhash_ok:
  assumes "b \<le> 31"
  shows "tbl_inv hf (arc_mkhash b) \<and> tbl_abs (arc_mkhash b) = Map.empty \<and> tbl_dense (arc_mkhash b)"
  using assms by (auto simp: tbl_inv_def slots_inv_def slot_ok_def arc_mkhash_def tbl_abs_def tbl_dense_def)

subsection \<open>The interface the clients use\<close>

locale dict =
  fixes inv room :: "'d \<Rightarrow> bool"
    and abs :: "'d \<Rightarrow> 'k \<Rightarrow> 'v option"
    and lookup :: "'d \<Rightarrow> 'k \<Rightarrow> 'v option option"
    and insert :: "'d \<Rightarrow> 'k \<Rightarrow> 'v \<Rightarrow> 'd option"
    and delete :: "'d \<Rightarrow> 'k \<Rightarrow> ('v option \<times> 'd) option"
  assumes lookup_law: "inv d \<Longrightarrow> lookup d k = Some r \<Longrightarrow> r = abs d k"
    and insert_law: "inv d \<Longrightarrow> room d \<Longrightarrow> insert d k v = Some d' \<Longrightarrow>
      inv d' \<and> abs d' = (abs d)(k \<mapsto> v)"
    and delete_law: "inv d \<Longrightarrow> delete d k = Some (r, d') \<Longrightarrow>
      r = abs d k \<and> inv d' \<and> abs d' = (abs d)(k := None)"
begin

lemma lookup_insert:
  "inv d \<Longrightarrow> room d \<Longrightarrow> insert d k v = Some d' \<Longrightarrow> lookup d' k' = Some r \<Longrightarrow>
    r = (if k' = k then Some v else abs d k')"
  using insert_law [of d k v d'] lookup_law [of d' k' r] by auto

lemma lookup_delete:
  "inv d \<Longrightarrow> delete d k = Some (r', d') \<Longrightarrow> lookup d' k' = Some r \<Longrightarrow>
    r = (if k' = k then None else abs d k')"
  using delete_law [of d k r' d'] lookup_law [of d' k' r] by auto

end

text \<open>A dictionary that never had a deletion always answers.\<close>

locale dict_total = dict inv room abs lookup insert delete
  for inv room :: "'d \<Rightarrow> bool" and abs :: "'d \<Rightarrow> 'k \<Rightarrow> 'v option" and lookup insert delete +
  fixes dense :: "'d \<Rightarrow> bool"
  assumes lookup_returns_law: "inv d \<Longrightarrow> dense d \<Longrightarrow> \<exists>r. lookup d k = Some r"
    and insert_returns_law: "inv d \<Longrightarrow> room d \<Longrightarrow> dense d \<Longrightarrow> \<exists>d'. insert d k v = Some d' \<and> dense d'"
begin

lemma lookup_total: "inv d \<Longrightarrow> dense d \<Longrightarrow> lookup d k = Some (abs d k)"
  using lookup_returns_law [of d k] lookup_law [of d k] by auto

lemma insert_total:
  "inv d \<Longrightarrow> room d \<Longrightarrow> dense d \<Longrightarrow>
    \<exists>d'. insert d k v = Some d' \<and> inv d' \<and> dense d' \<and> abs d' = (abs d)(k \<mapsto> v)"
  using insert_returns_law [of d k v] insert_law [of d k v] by blast

end

definition tbl_room :: "('k, 'v) table \<Rightarrow> bool" where
  "tbl_room t \<longleftrightarrow> HASH_BITS t < 31"

lemma insert_lookup_Some: "arc_hash_insert hf is2 t k v = Some t' \<Longrightarrow> \<exists>r. hash_lookup hf is2 t k = Some r"
  by (cases "hash_lookup hf is2 t k") (simp_all add: arc_hash_insert_def)

lemma delete_lookup_Some: "arc_hash_delete hf is2 t k = Some r \<Longrightarrow> \<exists>r. hash_lookup hf is2 t k = Some r"
  by (cases "hash_lookup hf is2 t k") (simp_all add: arc_hash_delete_def)

interpretation hash_dict: dict_total "tbl_inv hf" tbl_room tbl_abs "arc_hash_lookup hf (=)"
  "arc_hash_insert hf (=)" "arc_hash_delete hf (=)" tbl_dense
  for hf
proof unfold_locales
  show "r = tbl_abs t k" if "tbl_inv hf t" "arc_hash_lookup hf (=) t k = Some r" for t k r
    using that lookup_sound [OF that(1)] by (auto simp: arc_hash_lookup_def)
  show "tbl_inv hf t' \<and> tbl_abs t' = (tbl_abs t)(k \<mapsto> v)"
    if "tbl_inv hf t" "tbl_room t" "arc_hash_insert hf (=) t k v = Some t'" for t k v t'
    using that insert_ok [of hf t k _ v] insert_lookup_Some by (fastforce simp: tbl_room_def)
  show "r = tbl_abs t k \<and> tbl_inv hf t' \<and> tbl_abs t' = (tbl_abs t)(k := None)"
    if "tbl_inv hf t" "arc_hash_delete hf (=) t k = Some (r, t')" for t k r t'
    using that delete_ok [of hf t k] delete_lookup_Some by fastforce
  show "\<exists>r. arc_hash_lookup hf (=) t k = Some r" if "tbl_inv hf t" "tbl_dense t" for t k
    using that lookup_returns dense_unbound by (fastforce simp: arc_hash_lookup_def)
  show "\<exists>t'. arc_hash_insert hf (=) t k v = Some t' \<and> tbl_dense t'"
    if "tbl_inv hf t" "tbl_room t" "tbl_dense t" for t k v
    using that insert_ok [of hf t k _ v] lookup_returns dense_unbound by (fastforce simp: tbl_room_def)
qed

subsection \<open>Properties\<close>

text \<open>
  Property C20. When a lookup comes back: on a table that satisfies the invariant it returns
  exactly when the key is present or some slot was never used. The triangular probe sequence
  visits every slot of a power-of-two table, so a free slot is always found.
\<close>

theorem hash_lookup_returns_iff:
  assumes "tbl_inv hf t"
  shows "(\<exists>r. arc_hash_lookup hf (=) t k = Some r)
    \<longleftrightarrow> tbl_abs t k \<noteq> None \<or> Unbound \<in> set (HASH_TABLE t)"
  using lookup_returns [OF assms, of k] by (auto simp: arc_hash_lookup_def)

theorem hash_lookup_returns_iff_witness:
  "(\<exists>r. arc_hash_lookup word_of_nat (=) (arc_mkhash 2 :: (nat, nat) table) 5 = Some r)
    \<longleftrightarrow> tbl_abs (arc_mkhash 2 :: (nat, nat) table) 5 \<noteq> None
        \<or> Unbound \<in> set (HASH_TABLE (arc_mkhash 2 :: (nat, nat) table))"
  by (rule hash_lookup_returns_iff [OF mkhash_ok [THEN conjunct1]]) simp

text \<open>
  Property C8. Insertion into a table without tombstones returns, with or without growing the
  table, keeps the invariant and binds exactly the key: every lookup on the new table returns,
  the new value for the key and the old result for any other.
\<close>

theorem hash_insert_correct:
  assumes "tbl_inv hf t" and "tbl_room t" and "tbl_dense t"
  shows "\<exists>t'. arc_hash_insert hf (=) t k v = Some t' \<and> tbl_inv hf t' \<and> tbl_dense t'
    \<and> (\<forall>k'. arc_hash_lookup hf (=) t' k' =
         (if k' = k then Some (Some v) else arc_hash_lookup hf (=) t k'))"
  using hash_dict.insert_total [OF assms, of k v] hash_dict.lookup_total assms(1,3) by fastforce

theorem hash_insert_correct_witness:
  "\<exists>t'. arc_hash_insert word_of_nat (=) (arc_mkhash 0) (5 :: nat) (7 :: nat) = Some t'
    \<and> tbl_inv word_of_nat t' \<and> tbl_dense t'
    \<and> (\<forall>k'. arc_hash_lookup word_of_nat (=) t' k' =
         (if k' = 5 then Some (Some 7)
          else arc_hash_lookup word_of_nat (=) (arc_mkhash 0 :: (nat, nat) table) k'))"
  by (rule hash_insert_correct) (simp_all add: mkhash_ok tbl_room_def, simp add: arc_mkhash_def)

text \<open>
  The sweep of a weak table's bucket removes that binding and no other.
\<close>

lemma hb_sweeper_correct:
  assumes "tbl_inv hf t" and "p < 2 ^ HASH_BITS t" and "HASH_TABLE t ! p = Bucket k v ix h"
  shows "tbl_inv hf (hb_sweeper t p) \<and> tbl_abs (hb_sweeper t p) = (tbl_abs t)(k := None)"
  using assms by (rule sweep_ok)

definition sample_table :: "(nat, nat) table" where
  "sample_table = \<lparr> HASH_TABLE = [Unbound, Bucket 5 7 1 5], HASH_BITS = 1, HASH_NENTRIES = 1,
     HASH_LLIMIT = 1 \<rparr>"

lemma sample_table_inv: "tbl_inv word_of_nat sample_table"
proof -
  have "reached 1 [Unbound, Bucket (5 :: nat) (7 :: nat) 1 5] 5 1"
    unfolding reached_def by (rule bexI [of _ 1]) (simp_all add: pos_def)
  then have "slot_ok word_of_nat 1 [Unbound, Bucket (5 :: nat) (7 :: nat) 1 5] p" if "p < 2" for p
    using that by (cases p) (simp_all add: slot_ok_def)
  then show ?thesis
    by (simp add: sample_table_def tbl_inv_def slots_inv_def llimit_of_def MAX_LOAD_FACTOR_def)
qed

text \<open>
  Property C27. With tombstones in the table, insertion and deletion are right whenever the key
  is present or a slot was never used: both return, keep the invariant, change the contents at
  the key only, and deletion returns the value that was bound.
\<close>

theorem hash_insert_delete_correct:
  assumes "tbl_inv hf t" and "tbl_room t" and "tbl_abs t k \<noteq> None \<or> Unbound \<in> set (HASH_TABLE t)"
  shows "(\<exists>t'. arc_hash_insert hf (=) t k v = Some t' \<and> tbl_inv hf t' \<and> tbl_abs t' = (tbl_abs t)(k \<mapsto> v))
    \<and> (\<exists>t'. arc_hash_delete hf (=) t k = Some (tbl_abs t k, t') \<and> tbl_inv hf t'
         \<and> tbl_abs t' = (tbl_abs t)(k := None))"
  using insert_ok [of hf t k _ v] delete_ok [of hf t k] lookup_returns [of hf t k] assms
  by (fastforce simp: tbl_room_def)

theorem hash_insert_delete_correct_witness:
  "(\<exists>t'. arc_hash_insert word_of_nat (=) sample_table 5 8 = Some t' \<and> tbl_inv word_of_nat t'
       \<and> tbl_abs t' = (tbl_abs sample_table)(5 \<mapsto> 8))
    \<and> (\<exists>t'. arc_hash_delete word_of_nat (=) sample_table 5 = Some (tbl_abs sample_table 5, t')
         \<and> tbl_inv word_of_nat t' \<and> tbl_abs t' = (tbl_abs sample_table)(5 := None))"
  by (rule hash_insert_delete_correct [OF sample_table_inv])
     (simp_all add: sample_table_def tbl_room_def)

subsection \<open>Iteration\<close>

text \<open>Following the iteration from its start until it ends, with the fuel \<open>n\<close>.\<close>

fun iterate :: "nat \<Rightarrow> ('k, 'v) table \<Rightarrow> nat \<Rightarrow> ('k \<times> 'v) list" where
  "iterate 0 t index = []"
| "iterate (Suc n) t index =
     (case arc_xhash_iter t index of
        None \<Rightarrow> []
      | Some (kv, index') \<Rightarrow> kv # iterate n t index')"

lemma iter_from_spec:
  "case iter_from es i of
     None \<Rightarrow> entries es = []
   | Some (kv, i') \<Rightarrow> i < i' \<and> i' \<le> i + length es \<and> entries es = kv # entries (drop (i' - i) es)"
proof (induction es arbitrary: i)
  case (Cons e es)
  show ?case
  proof (cases e)
    case (Bucket k v ix h)
    then show ?thesis by simp
  qed (use Cons [of "Suc i"] in \<open>auto split: option.splits simp: Suc_diff_Suc drop_Cons' numeral_2_eq_2\<close>)
qed simp

lemma iterate_entries:
  "length (HASH_TABLE t) - i < n \<Longrightarrow> iterate n t i = entries (drop i (HASH_TABLE t))"
proof (induction n arbitrary: i)
  case (Suc n)
  show ?case
  proof (cases "iter_from (drop i (HASH_TABLE t)) i")
    case None
    then show ?thesis using iter_from_spec [of "drop i (HASH_TABLE t)" i] by (simp add: arc_xhash_iter_def)
  next
    case (Some r)
    obtain kv i' where r: "r = (kv, i')" by (cases r)
    then have s: "i < i'" "i' \<le> i + (length (HASH_TABLE t) - i)"
      "entries (drop i (HASH_TABLE t)) = kv # entries (drop i' (HASH_TABLE t))"
      using iter_from_spec [of "drop i (HASH_TABLE t)" i] Some by (simp_all add: add.commute)
    then show ?thesis using Suc Some r by (simp add: arc_xhash_iter_def)
  qed
qed simp

lemma length_fold: "fold (\<lambda>e count. if EMPTYP e then count else count + 1) es n = n + length (entries es)"
proof (induction es arbitrary: n)
  case (Cons e es)
  then show ?case by (cases e) simp_all
qed simp

text \<open>
  Iterating a table yields every binding exactly once and nothing else, and the
  number of bindings is what \<open>arc_hash_length\<close> counts.
\<close>

lemma hash_iter_complete:
  assumes "tbl_inv hf t" and "length (HASH_TABLE t) < n"
  shows "distinct (map fst (iterate n t 0)) \<and> map_of (iterate n t 0) = tbl_abs t
    \<and> length (iterate n t 0) = arc_hash_length t"
  using assms iterate_entries [of t 0 n] length_fold [of "HASH_TABLE t" 0]
  by (simp add: tbl_inv_def slots_inv_def tbl_abs_def arc_hash_length_def)

subsection \<open>Saturation by tombstones\<close>

text \<open>Insert a binding and delete it again.\<close>

fun churn :: "('k \<Rightarrow> u32) \<Rightarrow> ('k, 'v) table \<Rightarrow> 'k list \<Rightarrow> 'v \<Rightarrow> ('k, 'v) table option" where
  "churn hf t [] v = Some t"
| "churn hf t (k # ks) v =
     (case arc_hash_insert hf (=) t k v of
        None \<Rightarrow> None
      | Some t' \<Rightarrow>
          (case arc_hash_delete hf (=) t' k of
             None \<Rightarrow> None
           | Some (_, t'') \<Rightarrow> churn hf t'' ks v))"

lemma lookup_first_slot:
  assumes "b \<le> 31"
  shows "slots ! (unat h mod 2 ^ b) = Unbound \<Longrightarrow>
      lookup_loop (=) slots (HASHMASK b) k (h AND HASHMASK b) 0 = Some (None, h AND HASHMASK b)"
    and "slots ! (unat h mod 2 ^ b) = Bucket k v ix hv \<Longrightarrow>
      lookup_loop (=) slots (HASHMASK b) k (h AND HASHMASK b) 0 = Some (Some v, h AND HASHMASK b)"
  using assms by (subst lookup_loop.simps, simp add: PROBE_def unat_and_HASHMASK)+

lemma churn_step:
  assumes "HASH_BITS t \<le> 31" and "length (HASH_TABLE t) = 2 ^ HASH_BITS t" and "HASH_NENTRIES t = 0"
    and "1 \<le> HASH_LLIMIT t" and "unat (hf k) mod 2 ^ HASH_BITS t = p" and "HASH_TABLE t ! p = Unbound"
  shows "churn hf t (k # ks) v = churn hf (SVINDEX t p Undef) ks v"
proof -
  let ?b = "HASH_BITS t" and ?x = "hf k AND HASHMASK (HASH_BITS t)"
  have p: "p < 2 ^ ?b" "unat ?x = p" using assms(1,5) by (auto simp: unat_and_HASHMASK)
  let ?t = "SVINDEX (t \<lparr> HASH_NENTRIES := 1 \<rparr>) p (Bucket k v p (hf k))"
  have "hash_lookup hf (=) t k = Some (None, ?x)"
    using lookup_first_slot(1) [OF assms(1), of "HASH_TABLE t" "hf k"] assms(5,6) by (simp add: hash_lookup_def Let_def)
  moreover have "place_loop (\<lambda>e. EMPTYP e \<or> BKEY e = k) (HASH_TABLE t) (HASHMASK ?b) ?x 0 = Some ?x"
    using p assms(6) by (subst place_loop.simps) simp
  ultimately have i: "arc_hash_insert hf (=) t k v = Some ?t"
    using assms(3,4,6) p
    by (simp add: arc_hash_insert_def insert_new_def Let_def mkhashbucket_def SVINDEX_def)
  have "hash_lookup hf (=) ?t k = Some (Some v, ?x)"
    using lookup_first_slot(2) [OF assms(1), of "(HASH_TABLE t)[p := Bucket k v p (hf k)]" "hf k" k v p "hf k"]
      assms(2,5) p
    by (simp add: hash_lookup_def Let_def SVINDEX_def)
  then have "arc_hash_delete hf (=) ?t k = Some (Some v, SVINDEX t p Undef)"
    using p assms(3) by (simp add: arc_hash_delete_def SVINDEX_def)
  with i show ?thesis by simp
qed

lemma churn_fill:
  assumes "1 \<le> b" and "b \<le> 31"
  shows "length (HASH_TABLE t) = 2 ^ b \<Longrightarrow> HASH_BITS t = b \<Longrightarrow> HASH_NENTRIES t = 0 \<Longrightarrow>
    HASH_LLIMIT t = llimit_of b \<Longrightarrow> distinct (map (\<lambda>k. unat (hf k) mod 2 ^ b) ks) \<Longrightarrow>
    \<forall>k \<in> set ks. HASH_TABLE t ! (unat (hf k) mod 2 ^ b) = Unbound \<Longrightarrow>
    churn hf t ks v = Some (t \<lparr> HASH_TABLE :=
      fold (\<lambda>k s. s[unat (hf k) mod 2 ^ b := Undef]) ks (HASH_TABLE t) \<rparr>)"
proof (induction ks arbitrary: t)
  case (Cons k ks)
  let ?p = "unat (hf k) mod 2 ^ b"
  have "1 \<le> llimit_of b"
    using llimit_Suc [of "b - 1"] assms(1) by simp
  then have step: "churn hf t (k # ks) v = churn hf (SVINDEX t ?p Undef) ks v"
    using Cons.prems assms(2) by (intro churn_step) simp_all
  have "HASH_TABLE (SVINDEX t ?p Undef) ! (unat (hf k') mod 2 ^ b) = Unbound" if "k' \<in> set ks" for k'
  proof -
    have "unat (hf k') mod 2 ^ b \<noteq> ?p" using that Cons.prems(5) by (auto simp: rev_image_eqI)
    then show ?thesis using that Cons.prems(6) by (simp add: SVINDEX_def)
  qed
  then show ?case
    unfolding step using Cons.prems by (subst Cons.IH) (simp_all add: SVINDEX_def)
qed simp

lemma fold_undef_length: "length (fold (\<lambda>k s. s[f k := Undef]) ks s) = length s"
  by (induction ks arbitrary: s) simp_all

lemma fold_undef_keep:
  "p < length s \<Longrightarrow> s ! p = Undef \<Longrightarrow> fold (\<lambda>k s. s[f k := Undef]) ks s ! p = Undef"
proof (induction ks arbitrary: s)
  case (Cons k ks)
  then show ?case by (cases "p = f k") simp_all
qed simp

lemma fold_undef:
  "p < length s \<Longrightarrow> p \<in> f ` set ks \<Longrightarrow> fold (\<lambda>k s. s[f k := Undef]) ks s ! p = Undef"
proof (induction ks arbitrary: s)
  case (Cons k ks)
  then show ?case by (cases "p \<in> f ` set ks") (auto simp: fold_undef_keep)
qed simp

lemma entries_replicate_Undef [simp]: "entries (replicate n Undef) = []"
  by (induction n) simp_all

lemma undef_table_inv:
  assumes "HASH_TABLE t = replicate (2 ^ b) Undef" and "b \<le> 31" and "HASH_BITS t = b"
    and "HASH_LLIMIT t = llimit_of b" and "HASH_NENTRIES t = 0"
  shows "tbl_inv hf t \<and> tbl_abs t = Map.empty"
  using assms by (simp add: tbl_inv_def slots_inv_def slot_ok_def tbl_abs_def del: replicate.simps)

text \<open>
  Property C33. Tombstones use up the table: deleting what was inserted at every position
  leaves an empty table (no entries counted, so it never grows) in which no slot is unused,
  and no lookup of any key ever returns. The comment on \<open>EMPTYP\<close> in the source, that the load
  factor always leaves unused slots, counts live entries only.
\<close>

theorem tombstones_saturate:
  fixes hf :: "'k \<Rightarrow> u32" and v :: 'v
  assumes "1 \<le> b" and "b \<le> 31" and "map (\<lambda>k. unat (hf k) mod 2 ^ b) ks = [0..<2 ^ b]"
  shows "\<exists>t. churn hf (arc_mkhash b) ks v = Some t \<and> HASH_NENTRIES t = 0
    \<and> (\<forall>k. arc_hash_lookup hf (=) t k = None)"
proof -
  let ?f = "\<lambda>k. unat (hf k) mod 2 ^ b"
  let ?s = "fold (\<lambda>k s. s[?f k := Undef]) ks (replicate (2 ^ b) Unbound :: ('k, 'v) slot list)"
  let ?t = "(arc_mkhash b :: ('k, 'v) table) \<lparr> HASH_TABLE := ?s \<rparr>"
  have cov: "?f ` set ks = {..<2 ^ b}"
    using arg_cong [OF assms(3), of set] by (simp add: atLeast0LessThan)
  have "churn hf (arc_mkhash b) ks v = Some ?t"
    using assms by (subst churn_fill [OF assms(1,2)]) (simp_all add: arc_mkhash_def)
  moreover have "?s = replicate (2 ^ b) Undef"
    using cov by (intro nth_equalityI) (simp_all add: fold_undef fold_undef_length del: replicate.simps)
  then have "tbl_inv hf ?t \<and> tbl_abs ?t = Map.empty"
    using assms(2) by (intro undef_table_inv [where b = b]) (simp_all add: arc_mkhash_def)
  then have "arc_hash_lookup hf (=) ?t k = None" for k
    using lookup_returns [of hf ?t k] \<open>?s = _\<close>
    by (cases "hash_lookup hf (=) ?t k") (auto simp: arc_hash_lookup_def)
  ultimately show ?thesis by (auto simp: arc_mkhash_def)
qed

theorem tombstones_saturate_witness:
  "\<exists>t. churn word_of_nat (arc_mkhash 2) [0 :: nat, 1, 2, 3] (9 :: nat) = Some t \<and> HASH_NENTRIES t = 0
    \<and> (\<forall>k. arc_hash_lookup word_of_nat (=) t k = None)"
  by (rule tombstones_saturate) (simp_all add: upt_rec)

end
