(* ===== verification/Symbols.thy ===== *)
theory Symbols
  imports HashTable
begin

text \<open>
  Symbols, \<open>src/src/symbol.c\<close>: interning, the reverse lookup and uninterning, over two hash
  tables: \<open>symtable\<close> from a name to its number and \<open>rsymtable\<close> back. The table operations
  are the arguments \<open>look\<close>, \<open>ins\<close> and \<open>del\<close>; \<open>None\<close> is a table operation that does not
  return. \<open>snil\<close> is the builtin symbol \<open>nil\<close>.
\<close>

record ('s, 'r) symtabs =
  symtable :: 's
  rsymtable :: 'r
  lastsym :: nat

text \<open>\<open>INT2FIX(id)\<close> as a key of \<open>rsymtable\<close>.\<close>

definition fixkey :: "nat \<Rightarrow> key" where
  "fixkey i = KFix (word_of_nat i)"

definition arc_intern ::
  "('s \<Rightarrow> key \<Rightarrow> nat option option) \<Rightarrow> ('s \<Rightarrow> key \<Rightarrow> nat \<Rightarrow> 's option)
   \<Rightarrow> ('r \<Rightarrow> key \<Rightarrow> key \<Rightarrow> 'r option) \<Rightarrow> val \<Rightarrow> ('s, 'r) symtabs \<Rightarrow> key
   \<Rightarrow> (val \<times> ('s, 'r) symtabs) option" where
  "arc_intern slook sins rins snil c name =
     (case slook (symtable c) name of
        None \<Rightarrow> None
      | Some (Some symid) \<Rightarrow>
          (let symval = Sym symid in Some (if symval = snil then NIL else symval, c))
      | Some None \<Rightarrow>
          (let symintid = lastsym c + 1; c = c \<lparr> lastsym := symintid \<rparr>; symval = Sym symintid in
           case sins (symtable c) name symintid of
             None \<Rightarrow> None
           | Some st \<Rightarrow>
               (case rins (rsymtable c) (fixkey symintid) name of
                  None \<Rightarrow> None
                | Some rt \<Rightarrow> Some (symval, c \<lparr> symtable := st, rsymtable := rt \<rparr>))))"

text \<open>The argument is a symbol; \<open>SYM2ID\<close> is the number in it.\<close>

fun sym_id :: "val \<Rightarrow> nat" where
  "sym_id (Sym n) = n"
| "sym_id _ = 0"

definition arc_sym2name ::
  "('r \<Rightarrow> key \<Rightarrow> key option option) \<Rightarrow> ('s, 'r) symtabs \<Rightarrow> val \<Rightarrow> key option option" where
  "arc_sym2name rlook c symv = rlook (rsymtable c) (fixkey (sym_id symv))"

definition arc_unintern ::
  "('r \<Rightarrow> key \<Rightarrow> key option option) \<Rightarrow> ('s \<Rightarrow> key \<Rightarrow> (nat option \<times> 's) option)
   \<Rightarrow> ('r \<Rightarrow> key \<Rightarrow> (key option \<times> 'r) option) \<Rightarrow> ('s, 'r) symtabs \<Rightarrow> val
   \<Rightarrow> (bool \<times> ('s, 'r) symtabs) option" where
  "arc_unintern rlook sdel rdel c symv =
     (let symid = fixkey (sym_id symv) in
      case rlook (rsymtable c) symid of
        None \<Rightarrow> None
      | Some None \<Rightarrow> Some (False, c)
      | Some (Some name) \<Rightarrow>
          (case sdel (symtable c) name of
             None \<Rightarrow> None
           | Some (_, st) \<Rightarrow>
               (case rdel (rsymtable c) symid of
                  None \<Rightarrow> None
                | Some (_, rt) \<Rightarrow> Some (True, c \<lparr> symtable := st, rsymtable := rt \<rparr>))))"

subsection \<open>Correctness over any two dictionaries\<close>

text \<open>
  The invariant: the two tables are inverse to each other, and every number in use was
  handed out. \<open>fresh\<close> says that nothing was uninterned yet and the tables may still grow.
\<close>

definition consistent ::
  "('s \<Rightarrow> bool) \<Rightarrow> ('s \<Rightarrow> key \<Rightarrow> nat option) \<Rightarrow> ('r \<Rightarrow> bool) \<Rightarrow> ('r \<Rightarrow> key \<Rightarrow> key option)
   \<Rightarrow> ('s, 'r) symtabs \<Rightarrow> bool" where
  "consistent sinv sabs rinv rabs c \<longleftrightarrow> sinv (symtable c) \<and> rinv (rsymtable c)
     \<and> (\<forall>name i. sabs (symtable c) name = Some i \<longrightarrow>
          1 \<le> i \<and> i \<le> lastsym c \<and> rabs (rsymtable c) (fixkey i) = Some name)
     \<and> (\<forall>i name. i \<le> lastsym c \<longrightarrow> rabs (rsymtable c) (fixkey i) = Some name \<longrightarrow>
          sabs (symtable c) name = Some i)"

definition fresh ::
  "('s \<Rightarrow> bool) \<Rightarrow> ('s \<Rightarrow> bool) \<Rightarrow> ('r \<Rightarrow> bool) \<Rightarrow> ('r \<Rightarrow> bool) \<Rightarrow> ('s, 'r) symtabs \<Rightarrow> bool" where
  "fresh sroom sdense rroom rdense c \<longleftrightarrow> sroom (symtable c) \<and> sdense (symtable c)
     \<and> rroom (rsymtable c) \<and> rdense (rsymtable c) \<and> lastsym c < 2 ^ 31 - 1"

lemma fixkey_inj: "i < 2 ^ 64 \<Longrightarrow> j < 2 ^ 64 \<Longrightarrow> fixkey i = fixkey j \<longleftrightarrow> i = j"
  by (simp add: fixkey_def word_of_nat_eq_iff take_bit_nat_eq_self)

lemma consistentD:
  assumes "consistent sinv sabs rinv rabs c"
  shows "sinv (symtable c)" and "rinv (rsymtable c)"
    and "sabs (symtable c) name = Some i \<Longrightarrow> 1 \<le> i"
    and "sabs (symtable c) name = Some i \<Longrightarrow> i \<le> lastsym c"
    and "sabs (symtable c) name = Some i \<Longrightarrow> rabs (rsymtable c) (fixkey i) = Some name"
    and "i \<le> lastsym c \<Longrightarrow> rabs (rsymtable c) (fixkey i) = Some name \<Longrightarrow>
      sabs (symtable c) name = Some i"
  using assms unfolding consistent_def by blast+

lemma freshD:
  assumes "fresh sroom sdense rroom rdense c"
  shows "sroom (symtable c)" "sdense (symtable c)" "rroom (rsymtable c)" "rdense (rsymtable c)"
    "lastsym c < 2 ^ 31 - 1"
  using assms unfolding fresh_def by blast+

locale interner =
  st: dict_total sinv sroom sabs slook sins sdel sdense +
  rt: dict_total rinv rroom rabs rlook rins rdel rdense
  for sinv sroom :: "'s \<Rightarrow> bool" and sabs :: "'s \<Rightarrow> key \<Rightarrow> nat option" and slook sins sdel sdense
    and rinv rroom :: "'r \<Rightarrow> bool" and rabs :: "'r \<Rightarrow> key \<Rightarrow> key option" and rlook rins rdel rdense
begin

lemma intern_known:
  assumes "consistent sinv sabs rinv rabs c" and "fresh sroom sdense rroom rdense c" and "sabs (symtable c) name = Some i"
  shows "arc_intern slook sins rins snil c name = Some (if Sym i = snil then NIL else Sym i, c)"
proof -
  have "slook (symtable c) name = Some (Some i)"
    using st.lookup_total [OF consistentD(1) [OF assms(1)] freshD(2) [OF assms(2)]] assms(3) by metis
  then show ?thesis by (simp add: arc_intern_def)
qed

lemma intern_new:
  assumes "consistent sinv sabs rinv rabs c" and "fresh sroom sdense rroom rdense c" and "sabs (symtable c) name = None"
  shows "\<exists>c'. arc_intern slook sins rins snil c name = Some (Sym (lastsym c + 1), c') \<and> consistent sinv sabs rinv rabs c'
    \<and> sdense (symtable c') \<and> rdense (rsymtable c') \<and> lastsym c' = lastsym c + 1
    \<and> sabs (symtable c') = (sabs (symtable c))(name \<mapsto> lastsym c + 1)
    \<and> rabs (rsymtable c') = (rabs (rsymtable c))(fixkey (lastsym c + 1) \<mapsto> name)"
proof -
  let ?i = "lastsym c + 1"
  note c = consistentD [OF assms(1)] and f = freshD [OF assms(2)]
  obtain s' where s': "sins (symtable c) name ?i = Some s'" "sinv s'" "sdense s'"
    "sabs s' = (sabs (symtable c))(name \<mapsto> ?i)"
    using st.insert_total [OF c(1) f(1,2)] by metis
  obtain r' where r': "rins (rsymtable c) (fixkey ?i) name = Some r'" "rinv r'" "rdense r'"
    "rabs r' = (rabs (rsymtable c))(fixkey ?i \<mapsto> name)"
    using rt.insert_total [OF c(2) f(3,4)] by metis
  let ?c = "c \<lparr> lastsym := ?i, symtable := s', rsymtable := r' \<rparr>"
  have inj: "fixkey i = fixkey ?i \<longleftrightarrow> i = ?i" if "i \<le> ?i" for i
    using that f(5) by (intro fixkey_inj) simp_all
  have "slook (symtable c) name = Some None"
    using st.lookup_total [OF c(1) f(2)] assms(3) by metis
  then have "arc_intern slook sins rins snil c name = Some (Sym ?i, ?c)"
    using s'(1) r'(1) by (simp add: arc_intern_def Let_def)
  moreover have "consistent sinv sabs rinv rabs ?c"
    unfolding consistent_def
  proof (intro conjI allI impI)
    show "sinv (symtable ?c)" "rinv (rsymtable ?c)" using s'(2) r'(2) by simp_all
  next
    fix name' i assume "sabs (symtable ?c) name' = Some i"
    then have a: "(name' = name \<and> i = ?i) \<or> (name' \<noteq> name \<and> sabs (symtable c) name' = Some i)"
      using s'(4) by (auto split: if_splits)
    then show "1 \<le> i" using c(3) by auto
    show "i \<le> lastsym ?c" using a c(4) by fastforce
    show "rabs (rsymtable ?c) (fixkey i) = Some name'"
      using a c(4,5) inj [of i] r'(4) by fastforce
  next
    fix i name' assume a: "i \<le> lastsym ?c" "rabs (rsymtable ?c) (fixkey i) = Some name'"
    show "sabs (symtable ?c) name' = Some i"
    proof (cases "i = ?i")
      case True
      then show ?thesis using a s'(4) r'(4) by simp
    next
      case False
      then have "i \<le> lastsym c" "fixkey i \<noteq> fixkey ?i" using a(1) inj [of i] by simp_all
      then have k: "sabs (symtable c) name' = Some i" using a(2) c(6) r'(4) by simp
      then have "name' \<noteq> name" using assms(3) by auto
      then show ?thesis using k s'(4) by simp
    qed
  qed
  ultimately show ?thesis using s' r' by simp
qed

lemma sym2name_ok:
  assumes "consistent sinv sabs rinv rabs c" and "fresh sroom sdense rroom rdense c"
  shows "arc_sym2name rlook c (Sym i) = Some (rabs (rsymtable c) (fixkey i))"
  using rt.lookup_total [OF consistentD(2) [OF assms(1)] freshD(4) [OF assms(2)]]
  by (simp add: arc_sym2name_def)

text \<open>Uninterning, as far as the tables answer, removes the name and its number.\<close>

lemma unintern_ok:
  assumes "consistent sinv sabs rinv rabs c" and "arc_unintern rlook sdel rdel c (Sym i) = Some (b, c')"
    and "1 \<le> i" and "i \<le> lastsym c" and "lastsym c < 2 ^ 31"
  shows "consistent sinv sabs rinv rabs c' \<and> lastsym c' = lastsym c
    \<and> b = (rabs (rsymtable c) (fixkey i) \<noteq> None) \<and> rabs (rsymtable c') (fixkey i) = None"
proof (cases "rabs (rsymtable c) (fixkey i)")
  case None
  then have "rlook (rsymtable c) (fixkey i) = Some None"
    using assms(2) rt.lookup_law [OF consistentD(2) [OF assms(1)], of "fixkey i"]
    by (auto simp: arc_unintern_def Let_def split: option.splits)
  then show ?thesis using assms None by (simp add: arc_unintern_def Let_def)
next
  case (Some name)
  note c = consistentD [OF assms(1)]
  have l: "rlook (rsymtable c) (fixkey i) = Some (Some name)"
    using assms(2) Some rt.lookup_law [OF c(2), of "fixkey i"]
    by (auto simp: arc_unintern_def Let_def split: option.splits)
  then obtain r s' r2 r' where d: "sdel (symtable c) name = Some (r, s')"
    "rdel (rsymtable c) (fixkey i) = Some (r2, r')" "b = True" "c' = c \<lparr> symtable := s', rsymtable := r' \<rparr>"
    using assms(2) by (auto simp: arc_unintern_def Let_def split: option.splits)
  have s': "sinv s'" "sabs s' = (sabs (symtable c))(name := None)"
    using st.delete_law [OF c(1) d(1)] by simp_all
  have r': "rinv r'" "rabs r' = (rabs (rsymtable c))(fixkey i := None)"
    using rt.delete_law [OF c(2) d(2)] by simp_all
  have inj: "fixkey j = fixkey i \<longleftrightarrow> j = i" if "j \<le> lastsym c" for j
    using that assms(4,5) by (intro fixkey_inj) simp_all
  have "consistent sinv sabs rinv rabs c'"
    unfolding consistent_def d(4)
  proof (intro conjI allI impI)
    show "sinv (symtable (c \<lparr> symtable := s', rsymtable := r' \<rparr>))"
      "rinv (rsymtable (c \<lparr> symtable := s', rsymtable := r' \<rparr>))" using s'(1) r'(1) by simp_all
  next
    fix name' j assume "sabs (symtable (c \<lparr> symtable := s', rsymtable := r' \<rparr>)) name' = Some j"
    then have a: "name' \<noteq> name" "sabs (symtable c) name' = Some j"
      using s'(2) by (auto split: if_splits)
    have "j \<noteq> i" using a c(5) Some by fastforce
    then show "1 \<le> j" "j \<le> lastsym (c \<lparr> symtable := s', rsymtable := r' \<rparr>)"
      "rabs (rsymtable (c \<lparr> symtable := s', rsymtable := r' \<rparr>)) (fixkey j) = Some name'"
      using a c(3-5) [OF a(2)] inj [of j] r'(2) by simp_all
  next
    fix j name' assume a: "j \<le> lastsym (c \<lparr> symtable := s', rsymtable := r' \<rparr>)"
      "rabs (rsymtable (c \<lparr> symtable := s', rsymtable := r' \<rparr>)) (fixkey j) = Some name'"
    then have "fixkey j \<noteq> fixkey i" "rabs (rsymtable c) (fixkey j) = Some name'"
      using r'(2) by (auto split: if_splits)
    moreover from this have "sabs (symtable c) name' = Some j" using a(1) c(6) by simp
    moreover have "name' \<noteq> name"
      using c(6) [OF assms(4) Some] calculation by auto
    ultimately show "sabs (symtable (c \<lparr> symtable := s', rsymtable := r' \<rparr>)) name' = Some j"
      using s'(2) by simp
  qed
  then show ?thesis using d Some r'(2) by simp
qed

end

text \<open>The tables of the interpreter.\<close>

type_synonym symbols = "((key, nat) table, (key, key) table) symtabs"

interpretation arc_symbols: interner
  "tbl_inv key_hv" tbl_room tbl_abs "arc_hash_lookup key_hv (=)" "arc_hash_insert key_hv (=)"
  "arc_hash_delete key_hv (=)" tbl_dense
  "tbl_inv key_hv" tbl_room tbl_abs "arc_hash_lookup key_hv (=)" "arc_hash_insert key_hv (=)"
  "arc_hash_delete key_hv (=)" tbl_dense
  by unfold_locales

definition intern :: "val \<Rightarrow> symbols \<Rightarrow> key \<Rightarrow> (val \<times> symbols) option" where
  "intern = arc_intern (arc_hash_lookup key_hv (=)) (arc_hash_insert key_hv (=)) (arc_hash_insert key_hv (=))"

definition sym2name :: "symbols \<Rightarrow> val \<Rightarrow> key option option" where
  "sym2name = arc_sym2name (arc_hash_lookup key_hv (=))"

definition unintern :: "symbols \<Rightarrow> val \<Rightarrow> (bool \<times> symbols) option" where
  "unintern = arc_unintern (arc_hash_lookup key_hv (=)) (arc_hash_delete key_hv (=)) (arc_hash_delete key_hv (=))"

definition init_symtabs :: symbols where
  "init_symtabs = \<lparr> symtable = arc_mkhash 6, rsymtable = arc_mkhash 6, lastsym = 0 \<rparr>"

definition syms_ok :: "symbols \<Rightarrow> bool" where
  "syms_ok = consistent (tbl_inv key_hv) tbl_abs (tbl_inv key_hv) tbl_abs"

definition syms_fresh :: "symbols \<Rightarrow> bool" where
  "syms_fresh = fresh tbl_room tbl_dense tbl_room tbl_dense"

lemma init_ok: "syms_ok init_symtabs \<and> syms_fresh init_symtabs"
  by (simp add: syms_ok_def syms_fresh_def consistent_def fresh_def init_symtabs_def mkhash_ok)
     (simp add: tbl_room_def arc_mkhash_def)

subsection \<open>Properties\<close>



end
