(* ===== verification/Heap.thy ===== *)
theory Heap
  imports Values Utf
begin

text \<open>
  The store of heap cells and the operations on conses and vectors of \<open>src/src/cons.c\<close> and
  \<open>src/src/vector.c\<close>, with the queues of \<open>src/src/util.c\<close> built from conses. A heap maps
  addresses to objects; allocation takes an unused address. An operation returns \<open>Inl\<close> of the
  error it raises, and \<open>Inl UB\<close> where the code reads a field of something that is not the
  cell it expects. Loops over lists that may be cyclic are partial functions; \<open>None\<close> is a
  loop that does not end.
\<close>

datatype obj =
    OCons val val
  | OStr "int list"
  | OChar int
  | OBlk arc_type "val list"

record heap =
  mem :: "nat \<Rightarrow> obj option"
  brk :: nat

text \<open>Addresses from \<open>brk\<close> on are unused, and address 0 is nil.\<close>

definition heap_ok :: "heap \<Rightarrow> bool" where
  "heap_ok h \<longleftrightarrow> 0 < brk h \<and> (\<forall>a. mem h a \<noteq> None \<longrightarrow> 0 < a \<and> a < brk h)"

definition halloc :: "heap \<Rightarrow> obj \<Rightarrow> nat \<times> heap" where
  "halloc h ob = (brk h, h \<lparr> mem := (mem h)(brk h \<mapsto> ob), brk := brk h + 1 \<rparr>)"

definition hset :: "heap \<Rightarrow> nat \<Rightarrow> obj \<Rightarrow> heap" where
  "hset h a ob = h \<lparr> mem := (mem h)(a \<mapsto> ob) \<rparr>"

fun obj_type :: "obj \<Rightarrow> arc_type" where
  "obj_type (OCons _ _) = T_CONS"
| "obj_type (OStr _) = T_STRING"
| "obj_type (OChar _) = T_CHAR"
| "obj_type (OBlk ty _) = ty"

text \<open>\<open>TYPE\<close> of a value; a dangling reference has no type the code could rely on.\<close>

definition htype :: "heap \<Rightarrow> val \<Rightarrow> arc_type" where
  "htype h v = val_type (\<lambda>a. case mem h a of Some ob \<Rightarrow> obj_type ob | None \<Rightarrow> T_NONE) v"

text \<open>\<open>REP(v)[0]\<close> and \<open>REP(v)[1]\<close> of a cons.\<close>

fun rep_cons :: "heap \<Rightarrow> val \<Rightarrow> (val \<times> val) res" where
  "rep_cons h (Ref a) = (case mem h a of Some (OCons x y) \<Rightarrow> Inr (x, y) | _ \<Rightarrow> Inl UB)"
| "rep_cons h _ = Inl UB"

definition car :: "heap \<Rightarrow> val \<Rightarrow> val res" where
  "car h v = rbind (rep_cons h v) (\<lambda>p. Inr (fst p))"

definition cdr :: "heap \<Rightarrow> val \<Rightarrow> val res" where
  "cdr h v = rbind (rep_cons h v) (\<lambda>p. Inr (snd p))"

fun scar :: "heap \<Rightarrow> val \<Rightarrow> val \<Rightarrow> (val \<times> heap) res" where
  "scar h (Ref a) x = (case mem h a of
     Some (OCons _ d) \<Rightarrow> Inr (x, hset h a (OCons x d)) | _ \<Rightarrow> Inl UB)"
| "scar h _ x = Inl UB"

fun scdr :: "heap \<Rightarrow> val \<Rightarrow> val \<Rightarrow> (val \<times> heap) res" where
  "scdr h (Ref a) x = (case mem h a of
     Some (OCons d _) \<Rightarrow> Inr (x, hset h a (OCons d x)) | _ \<Rightarrow> Inl UB)"
| "scdr h _ x = Inl UB"

definition cons :: "heap \<Rightarrow> val \<Rightarrow> val \<Rightarrow> val \<times> heap" where
  "cons h x y = (let (a, h) = halloc h (OCons x y) in (Ref a, h))"

subsection \<open>cons.c\<close>

definition TYPECHECK :: "heap \<Rightarrow> val \<Rightarrow> arc_type \<Rightarrow> unit res" where
  "TYPECHECK h v ty = (if htype h v = ty then Inr ()
     else Inl (ArcErr ''%s: expected argument to be type %d given type %d''))"

definition arc_car :: "heap \<Rightarrow> val \<Rightarrow> val res" where
  "arc_car h v = (if v = NIL then Inr NIL
     else rbind (TYPECHECK h v T_CONS) (\<lambda>_. car h v))"

definition arc_cdr :: "heap \<Rightarrow> val \<Rightarrow> val res" where
  "arc_cdr h v = (if v = NIL then Inr NIL
     else rbind (TYPECHECK h v T_CONS) (\<lambda>_. cdr h v))"

definition arc_cadr :: "heap \<Rightarrow> val \<Rightarrow> val res" where
  "arc_cadr h v = (if v = NIL then Inr NIL
     else rbind (TYPECHECK h v T_CONS) (\<lambda>_. rbind (cdr h v) (\<lambda>d.
       if d = NIL then Inr NIL
       else rbind (TYPECHECK h d T_CONS) (\<lambda>_. car h d))))"

definition arc_cddr :: "heap \<Rightarrow> val \<Rightarrow> val res" where
  "arc_cddr h v = (if v = NIL then Inr NIL
     else rbind (TYPECHECK h v T_CONS) (\<lambda>_. rbind (cdr h v) (\<lambda>d.
       if d = NIL then Inr NIL
       else rbind (TYPECHECK h d T_CONS) (\<lambda>_. cdr h d))))"

text \<open>\<open>arc_strsetindex(x, 0, r)\<close> writes the first rune of the string's array.\<close>

fun strset0 :: "heap \<Rightarrow> val \<Rightarrow> int \<Rightarrow> heap res" where
  "strset0 h (Ref a) r = (case mem h a of
     Some (OStr (_ # rs)) \<Rightarrow> Inr (hset h a (OStr (r # rs)))
   | Some (OStr []) \<Rightarrow> Inl UB
   | _ \<Rightarrow> Inl UB)"
| "strset0 h _ r = Inl UB"

fun char2rune :: "heap \<Rightarrow> val \<Rightarrow> int res" where
  "char2rune h (Ref a) = (case mem h a of Some (OChar r) \<Rightarrow> Inr r | _ \<Rightarrow> Inl UB)"
| "char2rune h _ = Inl UB"

definition arc_scar :: "heap \<Rightarrow> val \<Rightarrow> val \<Rightarrow> (val \<times> heap) res" where
  "arc_scar h x y =
     (if htype h x = T_CONS then scar h x y
      else if htype h x = T_STRING \<and> htype h y = T_CHAR then
        rbind (char2rune h y) (\<lambda>r. rbind (strset0 h x r) (\<lambda>h. Inr (y, h)))
      else rbind (TYPECHECK h x T_CONS) (\<lambda>_. Inr (NIL, h)))"

definition arc_scdr :: "heap \<Rightarrow> val \<Rightarrow> val \<Rightarrow> (val \<times> heap) res" where
  "arc_scdr h x y = rbind (TYPECHECK h x T_CONS) (\<lambda>_. scdr h x y)"

text \<open>\<open>while (cdr(list) != CNIL) list = cdr(list)\<close>.\<close>

partial_function (option) last_cell :: "heap \<Rightarrow> val \<Rightarrow> val res option" where
  "last_cell h l =
     (case cdr h l of
        Inl e \<Rightarrow> Some (Inl e)
      | Inr d \<Rightarrow> if d \<noteq> NIL then last_cell h d else Some (Inr l))"

definition arc_list_append :: "heap \<Rightarrow> val \<Rightarrow> val \<Rightarrow> (val \<times> heap) res option" where
  "arc_list_append h list1 v =
     (if v = NIL then Some (Inr (list1, h))
      else if list1 = NIL then Some (Inr (v, h))
      else (case last_cell h list1 of
              None \<Rightarrow> None
            | Some (Inl e) \<Rightarrow> Some (Inl e)
            | Some (Inr l) \<Rightarrow> Some (rbind (scdr h l v) (\<lambda>(_, h). Inr (list1, h)))))"

partial_function (option) length_loop :: "heap \<Rightarrow> val \<Rightarrow> int \<Rightarrow> int option" where
  "length_loop h l n =
     (if htype h l \<noteq> T_CONS then Some (if l \<noteq> NIL then n + 1 else n)
      else (case cdr h l of
              Inr d \<Rightarrow> length_loop h d (n + 1)
            | Inl e \<Rightarrow> Some n))"

definition arc_list_length :: "heap \<Rightarrow> val \<Rightarrow> int option" where
  "arc_list_length h l = length_loop h l 0"

partial_function (option) reverse_loop :: "heap \<Rightarrow> val \<Rightarrow> val \<Rightarrow> (val \<times> heap) res option" where
  "reverse_loop h xs acc =
     (if xs = NIL then Some (Inr (acc, h))
      else (case rep_cons h xs of
              Inl e \<Rightarrow> Some (Inl e)
            | Inr (x, d) \<Rightarrow> (let (acc, h) = cons h x acc in reverse_loop h d acc)))"

definition arc_list_reverse :: "heap \<Rightarrow> val \<Rightarrow> (val \<times> heap) res option" where
  "arc_list_reverse h xs = reverse_loop h xs NIL"

text \<open>\<open>cons_apply\<close>: a list applied to its one argument.\<close>

partial_function (option) apply_loop :: "heap \<Rightarrow> val \<Rightarrow> int \<Rightarrow> int \<Rightarrow> val res option" where
  "apply_loop h l i index =
     (if i = index then Some (car h l)
      else (case cdr h l of
              Inl e \<Rightarrow> Some (Inl e)
            | Inr d \<Rightarrow>
                if d = NIL \<or> htype h d \<noteq> T_CONS then Some (Inl (ArcErr ''index %d too large for list''))
                else apply_loop h d (i + 1) index))"

definition cons_apply :: "heap \<Rightarrow> val list \<Rightarrow> val \<Rightarrow> val res option" where
  "cons_apply h args l =
     (case args of
        [fidx] \<Rightarrow>
          (case fidx of
             Fix index \<Rightarrow>
               if index < 0 then Some (Inl (ArcErr ''application of a cons expects type <non-negative exact integer> as argument''))
               else apply_loop h l 0 index
           | _ \<Rightarrow> Some (Inl (ArcErr ''application of a cons expects type <non-negative exact integer> as argument'')))
      | _ \<Rightarrow> Some (Inl (ArcErr ''application of a cons expects 1 argument, given %d'')))"

subsection \<open>vector.c\<close>

definition arc_mkvector :: "heap \<Rightarrow> nat \<Rightarrow> val \<times> heap" where
  "arc_mkvector h n = (let (a, h) = halloc h (OBlk T_VECTOR (replicate n NIL)) in (Ref a, h))"

fun rep_blk :: "heap \<Rightarrow> val \<Rightarrow> val list res" where
  "rep_blk h (Ref a) = (case mem h a of Some (OBlk _ vs) \<Rightarrow> Inr vs | _ \<Rightarrow> Inl UB)"
| "rep_blk h _ = Inl UB"

definition vector_apply :: "heap \<Rightarrow> val list \<Rightarrow> val \<Rightarrow> val res" where
  "vector_apply h args vec =
     (case args of
        [fidx] \<Rightarrow>
          (case fidx of
             Fix index \<Rightarrow>
               if index < 0 then Inl (ArcErr ''application of a vector expects type <non-negative exact integer> as argument'')
               else rbind (rep_blk h vec) (\<lambda>vs.
                 if index \<ge> int (length vs) then Inl (ArcErr ''index %d out of range [0, %d] for vector'')
                 else Inr (vs ! nat index))
           | _ \<Rightarrow> Inl (ArcErr ''application of a vector expects type <non-negative exact integer> as argument''))
      | _ \<Rightarrow> Inl (ArcErr ''application of a vector expects 1 argument, given %d''))"

text \<open>The coercion of a vector to a list: from the last element to the first.\<close>

fun vec_to_list :: "heap \<Rightarrow> val list \<Rightarrow> val \<Rightarrow> val \<times> heap" where
  "vec_to_list h [] l = (l, h)"
| "vec_to_list h (v # vs) l = (let (l, h) = cons h v l in vec_to_list h vs l)"

definition vector_coerce_cons :: "heap \<Rightarrow> val \<Rightarrow> (val \<times> heap) res" where
  "vector_coerce_cons h obj0 = rbind (rep_blk h obj0) (\<lambda>vs. Inr (vec_to_list h (rev vs) NIL))"

subsection \<open>Queues of util.c\<close>

text \<open>The queue is a pair of a head and a tail pointer.\<close>

definition arc_enqueue :: "heap \<Rightarrow> val \<times> val \<Rightarrow> val \<Rightarrow> ((val \<times> val) \<times> heap) res" where
  "arc_enqueue h q thr =
     (let (cell, h) = cons h thr NIL in
      if fst q = NIL \<and> snd q = NIL then Inr ((cell, cell), h)
      else rbind (scdr h (snd q) cell) (\<lambda>(_, h). Inr ((fst q, cell), h)))"

definition arc_dequeue :: "heap \<Rightarrow> val \<times> val \<Rightarrow> (val \<times> (val \<times> val)) res" where
  "arc_dequeue h q =
     (if fst q = NIL \<and> snd q = NIL then Inr (NIL, q)
      else rbind (rep_cons h (fst q)) (\<lambda>(thr, d).
        Inr (thr, (d, if d = NIL then d else snd q))))"

subsection \<open>Lists in the heap\<close>

text \<open>The conses at the addresses \<open>as\<close>, in this order, hold \<open>xs\<close> and start at \<open>v\<close>.\<close>

fun chain :: "heap \<Rightarrow> val \<Rightarrow> nat list \<Rightarrow> val list \<Rightarrow> val \<Rightarrow> bool" where
  "chain h v [] [] e \<longleftrightarrow> v = e"
| "chain h v (a # as) (x # xs) e \<longleftrightarrow> v = Ref a \<and>
     (\<exists>n. mem h a = Some (OCons x n) \<and> chain h n as xs e)"
| "chain h v _ _ e \<longleftrightarrow> False"

lemma chain_length: "chain h v as xs e \<Longrightarrow> length as = length xs"
  by (induction h v as xs e rule: chain.induct) auto

lemma chain_cong:
  "chain h v as xs e \<Longrightarrow> (\<And>a. a \<in> set as \<Longrightarrow> mem h' a = mem h a) \<Longrightarrow> chain h' v as xs e"
  by (induction h v as xs e rule: chain.induct) auto

lemma chain_append:
  "length as = length xs \<Longrightarrow>
    chain h v (as @ as') (xs @ xs') e \<longleftrightarrow> (\<exists>m. chain h v as xs m \<and> chain h m as' xs' e)"
  by (induction as xs arbitrary: v rule: list_induct2) auto

lemma chain_used: "heap_ok h \<Longrightarrow> chain h v as xs e \<Longrightarrow> a \<in> set as \<Longrightarrow> 0 < a \<and> a < brk h"
  by (induction h v as xs e rule: chain.induct) (auto simp: heap_ok_def)

lemma chain_end:
  "length as = length xs \<Longrightarrow> chain h v (as @ [a]) (xs @ [x]) e \<longleftrightarrow> chain h v as xs (Ref a) \<and> mem h a = Some (OCons x e)"
  by (auto simp: chain_append)

lemma cons_props:
  assumes "heap_ok h" and "cons h x y = (c, h')"
  shows "c = Ref (brk h)" and "heap_ok h'" and "mem h' (brk h) = Some (OCons x y)"
    and "a < brk h \<Longrightarrow> mem h' a = mem h a" and "brk h' = Suc (brk h)"
    and "mem h (brk h) = None"
  using assms by (auto simp: cons_def halloc_def heap_ok_def Let_def less_SucI split: if_splits)

lemma chain_cons:
  assumes "heap_ok h" and "cons h x y = (c, h')" and "chain h v as xs e"
  shows "chain h' v as xs e"
  using assms(3) by (rule chain_cong) (use chain_used [OF assms(1,3)] cons_props(4) [OF assms(1,2)] in blast)

lemma hset_ok: "heap_ok h \<Longrightarrow> mem h a \<noteq> None \<Longrightarrow> heap_ok (hset h a ob)"
  by (auto simp: heap_ok_def hset_def)

lemma chain_det: "chain h v as xs NIL \<Longrightarrow> chain h v as' xs' NIL \<Longrightarrow> as = as' \<and> xs = xs'"
proof (induction as arbitrary: v xs as' xs')
  case Nil
  then show ?case by (cases xs; cases as'; cases xs') auto
next
  case (Cons a as)
  then show ?case by (cases xs; cases as'; cases xs') fastforce+
qed

lemma chain_distinct:
  assumes "chain h v as xs NIL"
  shows "distinct as"
proof (rule ccontr)
  assume "\<not> distinct as"
  then obtain p q r a where as: "as = p @ a # q @ a # r" using not_distinct_decomp by fastforce
  have suffix: "\<exists>ys. chain h (Ref a) (a # s) ys NIL" if "as = t @ a # s" for s t
  proof -
    let ?n = "length t"
    have "length as = length xs" using assms by (rule chain_length)
    then have l: "length t = length (take ?n xs)" using that by simp
    then have "chain h v (t @ a # s) (take ?n xs @ drop ?n xs) NIL" using assms that by simp
    then obtain m where m: "chain h m (a # s) (drop ?n xs) NIL" unfolding chain_append [OF l] by blast
    then have "m = Ref a" by (cases "drop ?n xs") auto
    with m show ?thesis by blast
  qed
  obtain ys where "chain h (Ref a) (a # q @ a # r) ys NIL" using suffix [of p] as by blast
  moreover obtain zs where "chain h (Ref a) (a # r) zs NIL" using suffix [of "p @ a # q"] as by auto
  ultimately have "a # q @ a # r = a # r" using chain_det by blast
  then show False by simp
qed

lemma last_cell_chain:
  "chain h v (as @ [a]) (xs @ [x]) NIL \<Longrightarrow> length as = length xs \<Longrightarrow> last_cell h v = Some (Inr (Ref a))"
proof (induction as arbitrary: v xs)
  case Nil
  then show ?case by (subst last_cell.simps) (simp add: cdr_def)
next
  case (Cons b as)
  then obtain y ys where xs: "xs = y # ys" by (cases xs) auto
  with Cons.prems obtain n where n: "v = Ref b" "mem h b = Some (OCons y n)" "chain h n (as @ [a]) (ys @ [x]) NIL"
    by auto
  then have "n \<noteq> NIL" by (cases as; cases ys) auto
  then show ?case using n Cons.IH [OF n(3)] Cons.prems(2) xs by (subst last_cell.simps) (simp add: cdr_def)
qed

lemma length_loop_chain:
  "chain h v as xs NIL \<Longrightarrow> length_loop h v n = Some (n + int (length xs))"
proof (induction as arbitrary: v xs n)
  case Nil
  then show ?case by (cases xs) (simp_all add: length_loop.simps htype_def)
next
  case (Cons a as)
  then show ?case
    by (cases xs; subst length_loop.simps) (auto simp: htype_def cdr_def)
qed

lemma apply_loop_chain:
  "chain h v as xs NIL \<Longrightarrow> as \<noteq> [] \<Longrightarrow> apply_loop h v i (i + int k) =
     Some (if k < length xs then Inr (xs ! k) else Inl (ArcErr ''index %d too large for list''))"
proof (induction as arbitrary: v xs i k)
  case (Cons a as)
  obtain y ys n where xs: "xs = y # ys" "v = Ref a" "mem h a = Some (OCons y n)" "chain h n as ys NIL"
    using Cons.prems by (cases xs) auto
  have hd: "(n = NIL) = (as = [])" "as \<noteq> [] \<Longrightarrow> htype h n = T_CONS" using xs(4) by (cases as; cases ys; auto simp: htype_def)+
  show ?case
  proof (cases k)
    case 0
    then show ?thesis using xs by (subst apply_loop.simps) (simp add: car_def)
  next
    case (Suc k')
    show ?thesis
    proof (cases "as = []")
      case True
      then have "ys = []" using chain_length [OF xs(4)] by simp
      then show ?thesis using Suc xs hd True by (subst apply_loop.simps) (simp add: cdr_def)
    next
      case False
      have "apply_loop h v i (i + int k) = apply_loop h n (i + 1) ((i + 1) + int k')"
        using Suc xs hd False by (subst apply_loop.simps) (simp add: cdr_def algebra_simps)
      then show ?thesis using Cons.IH [OF xs(4) False] Suc xs(1) by simp
    qed
  qed
qed simp

lemma reverse_loop_chain:
  "heap_ok h \<Longrightarrow> chain h v as xs NIL \<Longrightarrow> chain h acc bs ys NIL \<Longrightarrow>
    \<exists>r h' cs. reverse_loop h v acc = Some (Inr (r, h')) \<and> heap_ok h' \<and> chain h' r cs (rev xs @ ys) NIL
      \<and> (\<forall>a < brk h. mem h' a = mem h a)"
proof (induction as arbitrary: h v xs acc bs ys)
  case Nil
  then show ?case by (cases xs) (auto simp: reverse_loop.simps)
next
  case (Cons a as)
  obtain y xs' n where xs: "xs = y # xs'" "v = Ref a" "mem h a = Some (OCons y n)" "chain h n as xs' NIL"
    using Cons.prems by (cases xs) auto
  obtain c h1 where c: "cons h y acc = (c, h1)" by fastforce
  note p = cons_props [OF Cons.prems(1) c]
  have "chain h1 n as xs' NIL" using chain_cons [OF Cons.prems(1) c xs(4)] .
  moreover have "chain h1 c (brk h # bs) (y # ys) NIL"
    using p chain_cons [OF Cons.prems(1) c Cons.prems(3)] by simp
  ultimately obtain r h' cs where "reverse_loop h1 n c = Some (Inr (r, h'))" "heap_ok h'"
    "chain h' r cs (rev xs' @ y # ys) NIL" "\<forall>a < brk h1. mem h' a = mem h1 a"
    using Cons.IH [OF p(2)] by blast
  then show ?case using xs c p(4,5) by (subst reverse_loop.simps) (auto intro!: exI)
qed

subsection \<open>The queue is a queue\<close>

definition qrep :: "heap \<Rightarrow> val \<times> val \<Rightarrow> nat list \<Rightarrow> val list \<Rightarrow> bool" where
  "qrep h q as xs \<longleftrightarrow> chain h (fst q) as xs NIL \<and> snd q = (if as = [] then NIL else Ref (last as))"

lemma qrep_empty: "qrep h q as [] \<longleftrightarrow> as = [] \<and> q = (NIL, NIL)"
  by (cases as; cases q) (auto simp: qrep_def)

lemma enqueue_ok:
  assumes "heap_ok h" and "qrep h q as xs"
  shows "\<exists>q' h'. arc_enqueue h q x = Inr (q', h') \<and> heap_ok h' \<and> qrep h' q' (as @ [brk h]) (xs @ [x])
    \<and> brk h' = Suc (brk h) \<and> (\<forall>a < brk h. a \<notin> set as \<longrightarrow> mem h' a = mem h a)"
proof -
  obtain c h1 where c: "cons h x NIL = (c, h1)" by fastforce
  note p = cons_props [OF assms(1) c]
  have len: "length as = length xs" using assms(2) chain_length by (auto simp: qrep_def)
  show ?thesis
  proof (cases as rule: rev_cases)
    case Nil
    then have "q = (NIL, NIL)" "xs = []" using assms(2) len qrep_empty [of h q as] by auto
    then show ?thesis using Nil c p by (auto simp: arc_enqueue_def qrep_def)
  next
    case (snoc bs b)
    then obtain ys y where xs: "xs = ys @ [y]" "length bs = length ys" using len by (cases xs rule: rev_cases) auto
    have ch: "chain h (fst q) bs ys (Ref b)" "mem h b = Some (OCons y NIL)" and tl: "snd q = Ref b"
      using assms(2) snoc xs chain_end [OF xs(2)] by (simp_all add: qrep_def)
    have dist: "b \<notin> set bs" using chain_distinct assms(2) snoc by (fastforce simp: qrep_def)
    have b: "b < brk h" using chain_used [OF assms(1)] assms(2) snoc by (fastforce simp: qrep_def)
    let ?h = "hset h1 b (OCons y (Ref (brk h)))"
    have set: "scdr h1 (snd q) c = Inr (c, ?h)" using tl ch(2) p(1,4) b by simp
    have frame: "mem ?h a = mem h a" if "a < brk h" "a \<noteq> b" for a
      using that p(4) by (simp add: hset_def)
    have "chain ?h (fst q) bs ys (Ref b)"
      using ch(1) by (rule chain_cong) (use frame dist chain_used [OF assms(1) ch(1)] in blast)
    then have "chain ?h (fst q) (bs @ [b]) (ys @ [y]) (Ref (brk h))"
      unfolding chain_end [OF xs(2)] by (simp add: hset_def)
    then have "chain ?h (fst q) ((bs @ [b]) @ [brk h]) ((ys @ [y]) @ [x]) NIL"
      using xs(2) p(3) b by (subst chain_end) (simp_all add: hset_def)
    then have "qrep ?h (fst q, c) (as @ [brk h]) (xs @ [x])"
      using snoc xs p(1) by (simp add: qrep_def)
    moreover have "heap_ok ?h" using p(2,4) b ch(2) by (intro hset_ok) simp_all
    moreover have "arc_enqueue h q x = Inr ((fst q, c), ?h)"
      using c tl set by (simp add: arc_enqueue_def)
    ultimately show ?thesis using frame snoc p(5) by (auto simp: hset_def)
  qed
qed

lemma dequeue_ok:
  assumes "qrep h q (a # as) (x # xs)"
  shows "\<exists>q'. arc_dequeue h q = Inr (x, q') \<and> qrep h q' as xs"
proof -
  obtain n where n: "fst q = Ref a" "mem h a = Some (OCons x n)" "chain h n as xs NIL"
    using assms by (auto simp: qrep_def)
  have "n = NIL \<longleftrightarrow> as = []" using n(3) by (cases as; cases xs) auto
  then show ?thesis using n assms by (auto simp: arc_dequeue_def qrep_def)
qed

lemma dequeue_empty: "arc_dequeue h (NIL, NIL) = Inr (NIL, (NIL, NIL))"
  by (simp add: arc_dequeue_def)

text \<open>
  The interface of a queue that its clients rely on: \<open>rep h q xs\<close> says that \<open>q\<close> holds \<open>xs\<close>
  in the heap \<open>h\<close>.
\<close>

fun enq_list :: "('h \<Rightarrow> 'q \<Rightarrow> 'x \<Rightarrow> ('q \<times> 'h) res) \<Rightarrow> 'h \<Rightarrow> 'q \<Rightarrow> 'x list \<Rightarrow> ('q \<times> 'h) res" where
  "enq_list enq h q [] = Inr (q, h)"
| "enq_list enq h q (x # xs) = rbind (enq h q x) (\<lambda>(q, h). enq_list enq h q xs)"

fun drain :: "('h \<Rightarrow> 'q \<Rightarrow> ('x \<times> 'q) res) \<Rightarrow> 'h \<Rightarrow> nat \<Rightarrow> 'q \<Rightarrow> ('x list \<times> 'q) res" where
  "drain deq h 0 q = Inr ([], q)"
| "drain deq h (Suc n) q = rbind (deq h q) (\<lambda>(x, q). rbind (drain deq h n q) (\<lambda>(xs, q). Inr (x # xs, q)))"

locale queue =
  fixes rep :: "'h \<Rightarrow> 'q \<Rightarrow> 'x list \<Rightarrow> bool"
    and hok :: "'h \<Rightarrow> bool"
    and empty :: 'q
    and enq :: "'h \<Rightarrow> 'q \<Rightarrow> 'x \<Rightarrow> ('q \<times> 'h) res"
    and deq :: "'h \<Rightarrow> 'q \<Rightarrow> ('x \<times> 'q) res"
  assumes empty_law: "hok h \<Longrightarrow> rep h empty []"
    and enq_law: "rep h q xs \<Longrightarrow> \<exists>q' h'. enq h q x = Inr (q', h') \<and> rep h' q' (xs @ [x])"
    and deq_law: "rep h q (x # xs) \<Longrightarrow> \<exists>q'. deq h q = Inr (x, q') \<and> rep h q' xs"
begin

lemma enq_list_rep:
  "rep h q xs \<Longrightarrow> \<exists>q' h'. enq_list enq h q ys = Inr (q', h') \<and> rep h' q' (xs @ ys)"
proof (induction ys arbitrary: h q xs)
  case (Cons y ys)
  obtain q1 h1 where "enq h q y = Inr (q1, h1)" "rep h1 q1 (xs @ [y])" using enq_law [OF Cons.prems] by blast
  then show ?case using Cons.IH [of h1 q1 "xs @ [y]"] by simp
qed auto

lemma drain_rep: "rep h q (xs @ ys) \<Longrightarrow> \<exists>q'. drain deq h (length xs) q = Inr (xs, q') \<and> rep h q' ys"
proof (induction xs arbitrary: q)
  case (Cons x xs)
  obtain q1 where "deq h q = Inr (x, q1)" "rep h q1 (xs @ ys)" using deq_law Cons.prems by fastforce
  then show ?case using Cons.IH by fastforce
qed simp

lemma fifo:
  assumes "hok h"
  shows "\<exists>q h' q'. enq_list enq h empty (xs @ ys) = Inr (q, h') \<and> drain deq h' (length xs) q = Inr (xs, q')
    \<and> rep h' q' ys"
  using enq_list_rep [OF empty_law [OF assms], of "xs @ ys"] drain_rep by fastforce

end

definition queue_holds :: "heap \<Rightarrow> val \<times> val \<Rightarrow> val list \<Rightarrow> bool" where
  "queue_holds h q xs \<longleftrightarrow> heap_ok h \<and> (\<exists>as. qrep h q as xs)"

interpretation cons_queue: queue queue_holds heap_ok "(NIL, NIL)" arc_enqueue arc_dequeue
proof unfold_locales
  show "queue_holds h (NIL, NIL) []" if "heap_ok h" for h
    using that qrep_empty by (auto simp: queue_holds_def)
  show "\<exists>q' h'. arc_enqueue h q x = Inr (q', h') \<and> queue_holds h' q' (xs @ [x])"
    if "queue_holds h q xs" for h q xs x
    using that enqueue_ok [of h q _ xs x] by (auto simp: queue_holds_def) blast
  show "\<exists>q'. arc_dequeue h q = Inr (x, q') \<and> queue_holds h q' xs"
    if holds: "queue_holds h q (x # xs)" for h q x xs
  proof -
    obtain as where as: "heap_ok h" "qrep h q as (x # xs)" using holds by (auto simp: queue_holds_def)
    then obtain a as' where "as = a # as'" by (cases as) (auto simp: qrep_def)
    then show ?thesis using as dequeue_ok [of h q a as' x xs] by (auto simp: queue_holds_def)
  qed
qed

text \<open>
  The scheduler's queues are first in, first out: in any well-formed heap,
  enqueueing a list of values into the empty queue and dequeueing returns them in order, with
  the rest still queued, and no access leaves the cells of the queue.
\<close>

lemma queue_fifo:
  assumes "heap_ok h"
  shows "\<exists>q h' q'. enq_list arc_enqueue h (NIL, NIL) (xs @ ys) = Inr (q, h')
    \<and> drain arc_dequeue h' (length xs) q = Inr (xs, q') \<and> queue_holds h' q' ys"
  using assms by (rule cons_queue.fifo)

definition empty_heap :: heap where
  "empty_heap = \<lparr> mem = Map.empty, brk = 1 \<rparr>"

lemma empty_heap_ok: "heap_ok empty_heap"
  by (simp add: heap_ok_def empty_heap_def)

subsection \<open>List operations\<close>

text \<open>
  \<open>arc_list_append\<close> on two proper lists with disjoint cells is concatenation in
  place: the first list's cells then hold both lists, and no cell but its last is written.
\<close>

lemma list_append_concat:
  assumes "chain h v as xs NIL" and "chain h w bs ys NIL" and "set as \<inter> set bs = {}"
    and "as \<noteq> []" and "bs \<noteq> []"
  shows "\<exists>h'. arc_list_append h v w = Some (Inr (v, h')) \<and> chain h' v (as @ bs) (xs @ ys) NIL
    \<and> (\<forall>a. a \<noteq> last as \<longrightarrow> mem h' a = mem h a)"
proof -
  obtain cs a where as: "as = cs @ [a]" using assms(4) by (cases as rule: rev_cases) auto
  have len: "length as = length xs" using assms(1) by (rule chain_length)
  then obtain zs x where xs: "xs = zs @ [x]" "length cs = length zs" using as by (cases xs rule: rev_cases) auto
  have ch: "chain h v cs zs (Ref a)" "mem h a = Some (OCons x NIL)"
    using assms(1) as xs chain_end [OF xs(2)] by simp_all
  have a: "a \<notin> set cs" "a \<notin> set bs" using chain_distinct [OF assms(1)] assms(3) as by auto
  have ne: "v \<noteq> NIL" "w \<noteq> NIL"
    using assms(1,2,4,5) by (cases as; cases xs; cases bs; cases ys; auto)+
  let ?h = "hset h a (OCons x w)"
  have "last_cell h v = Some (Inr (Ref a))"
    using last_cell_chain [of h v cs a zs x] assms(1) as xs by simp
  then have r: "arc_list_append h v w = Some (Inr (v, ?h))"
    using ne ch(2) by (simp add: arc_list_append_def)
  have "chain ?h v cs zs (Ref a)"
    using ch(1) by (rule chain_cong) (use a in \<open>auto simp: hset_def\<close>)
  then have "chain ?h v (cs @ [a]) (zs @ [x]) w"
    unfolding chain_end [OF xs(2)] by (simp add: hset_def)
  moreover have "chain ?h w bs ys NIL"
    using assms(2) by (rule chain_cong) (use a in \<open>auto simp: hset_def\<close>)
  ultimately have "chain ?h v (as @ bs) (xs @ ys) NIL"
    using chain_append [OF len, of ?h v bs ys NIL] as xs by auto
  then show ?thesis using r as by (auto simp: hset_def)
qed

definition two_cells :: heap where
  "two_cells = \<lparr> mem = [1 \<mapsto> OCons (Fix 1) NIL, 2 \<mapsto> OCons (Fix 2) NIL], brk = 3 \<rparr>"

text \<open>
  On a proper list, \<open>arc_list_length\<close> is its length, \<open>arc_list_reverse\<close> builds
  the reversed list in fresh cells and changes no existing cell, and applying the list to
  an index gives that element or the range error.
\<close>

lemma list_ops_correct:
  assumes "heap_ok h" and "chain h v as xs NIL" and "as \<noteq> []"
  shows "arc_list_length h v = Some (int (length xs))
    \<and> (\<exists>r h' cs. arc_list_reverse h v = Some (Inr (r, h')) \<and> chain h' r cs (rev xs) NIL
         \<and> (\<forall>a < brk h. mem h' a = mem h a))
    \<and> cons_apply h [Fix (int k)] v = Some (if k < length xs then Inr (xs ! k)
         else Inl (ArcErr ''index %d too large for list''))"
  using length_loop_chain [OF assms(2), of 0] reverse_loop_chain [OF assms(1,2), of NIL "[]" "[]"]
    apply_loop_chain [OF assms(2,3), of 0 k]
  by (auto simp: arc_list_length_def arc_list_reverse_def cons_apply_def)

end
