(* ===== verification/Builtins.thy ===== *)
theory Builtins
  imports Symbols Heap
begin

text \<open>
  The builtin symbols of \<open>src/src/builtins.h\<close> and the types of values as Arc sees them
  (\<open>arc_type\<close>, \<open>arc_rep\<close> and \<open>arc_annotate\<close> of \<open>src/src/arcueid.c\<close>). A tagged object is a
  block of its type and its representation.
\<close>

datatype bsym =
    S_FN | S_US | S_QUOTE | S_QQUOTE | S_UNQUOTE | S_UNQUOTESP | S_COMPOSE | S_COMPLEMENT | S_T | S_NIL
  | S_NO | S_ANDF | S_GET | S_SYM | S_FIXNUM | S_BIGNUM | S_FLONUM | S_RATIONAL | S_COMPLEX | S_CHAR
  | S_STRING | S_CONS | S_TABLE | S_INPUT | S_OUTPUT | S_EXCEPTION | S_PORT | S_THREAD | S_VECTOR
  | S_CONTINUATION | S_CLOSURE | S_CODE | S_ENVIRONMENT | S_VMCODE | S_CCODE | S_CUSTOM | S_INT
  | S_UNKNOWN | S_RE | S_IM | S_NUM | S_SIG | S_STDIN_FD | S_STDOUT_FD | S_STDERR_FD | S_MAC | S_IF
  | S_ASSIGN | S_O | S_DOT | S_CAR | S_CDR | S_SCAR | S_SCDR | S_IS | S_PLUS | S_MINUS | S_TIMES | S_DIV
  | S_AND | S_APPLY | S_CHAN | S_AF_UNIX | S_AF_INET | S_AF_INET6 | S_SOCK_STREAM | S_SOCK_DGRAM
  | S_SOCK_RAW | S_BINARY | S_TEXT | S_APPEND | S_ATSTRINGS | S_LNDATA | S_DLIST | S_EVAL | S_SEEK_SET
  | S_SEEK_CUR | S_SEEK_END | S_LOADPATH | S_RXMATCH

definition builtin_syms :: "bsym list" where
  "builtin_syms =
    [S_FN, S_US, S_QUOTE, S_QQUOTE, S_UNQUOTE, S_UNQUOTESP, S_COMPOSE, S_COMPLEMENT, S_T, S_NIL,
     S_NO, S_ANDF, S_GET, S_SYM, S_FIXNUM, S_BIGNUM, S_FLONUM, S_RATIONAL, S_COMPLEX, S_CHAR,
     S_STRING, S_CONS, S_TABLE, S_INPUT, S_OUTPUT, S_EXCEPTION, S_PORT, S_THREAD, S_VECTOR,
     S_CONTINUATION, S_CLOSURE, S_CODE, S_ENVIRONMENT, S_VMCODE, S_CCODE, S_CUSTOM, S_INT,
     S_UNKNOWN, S_RE, S_IM, S_NUM, S_SIG, S_STDIN_FD, S_STDOUT_FD, S_STDERR_FD, S_MAC, S_IF,
     S_ASSIGN, S_O, S_DOT, S_CAR, S_CDR, S_SCAR, S_SCDR, S_IS, S_PLUS, S_MINUS, S_TIMES, S_DIV,
     S_AND, S_APPLY, S_CHAN, S_AF_UNIX, S_AF_INET, S_AF_INET6, S_SOCK_STREAM, S_SOCK_DGRAM,
     S_SOCK_RAW, S_BINARY, S_TEXT, S_APPEND, S_ATSTRINGS, S_LNDATA, S_DLIST, S_EVAL, S_SEEK_SET,
     S_SEEK_CUR, S_SEEK_END, S_LOADPATH, S_RXMATCH]"

text \<open>The array \<open>syms\<close> of names.\<close>

definition sym_names :: "string list" where
  "sym_names =
    [''fn'', ''_'', ''quote'', ''quasiquote'', ''unquote'', ''unquote-splicing'', ''compose'',
     ''complement'', ''t'', ''nil'', ''no'', ''andf'', ''get'', ''sym'', ''fixnum'', ''bignum'',
     ''flonum'', ''rational'', ''complex'', ''char'', ''string'', ''cons'', ''table'', ''input'',
     ''output'', ''exception'', ''port'', ''thread'', ''vector'', ''continuation'', ''closure'',
     ''code'', ''environment'', ''vmcode'', ''ccode'', ''custom'', ''int'', ''unknown'', ''re'',
     ''im'', ''num'', ''sig'', ''stdin-fd'', ''stdout-fd'', ''stderr-fd'', ''mac'', ''if'',
     ''assign'', ''o'', ''.'', ''car'', ''cdr'', ''scar'', ''scdr'', ''is'', ''+'', ''-'', ''*'',
     ''/'', ''and'', ''apply'', ''chan'', ''AF_UNIX'', ''AF_INET'', ''AF_INET6'', ''SOCK_STREAM'',
     ''SOCK_DGRAM'', ''SOCK_RAW'', ''binary'', ''text'', ''append'', ''atstrings'', ''lndata'',
     ''dlist'', ''eval'', ''SEEK_SET'', ''SEEK_CUR'', ''SEEK_END'', ''loadpath*'', ''=~'']"

text \<open>
  They are the first names interned, so the symbols get the numbers 1, 2, \<open>\<dots>\<close> in the order
  of the enumeration, which must be that of the names.
\<close>

fun index_in :: "'a list \<Rightarrow> 'a \<Rightarrow> nat" where
  "index_in [] x = 0"
| "index_in (y # ys) x = (if y = x then 0 else Suc (index_in ys x))"

definition ARC_BUILTIN :: "bsym \<Rightarrow> val" where
  "ARC_BUILTIN s = Sym (Suc (index_in builtin_syms s))"

abbreviation CTRUE :: val where
  "CTRUE \<equiv> ARC_BUILTIN S_T"

definition arc_type_of :: "heap \<Rightarrow> val \<Rightarrow> val res" where
  "arc_type_of h obj =
     (case htype h obj of
        T_NIL \<Rightarrow> Inr (ARC_BUILTIN S_SYM)
      | T_SYMBOL \<Rightarrow> Inr (ARC_BUILTIN S_SYM)
      | T_FIXNUM \<Rightarrow> Inr (ARC_BUILTIN S_FIXNUM)
      | T_BIGNUM \<Rightarrow> Inr (ARC_BUILTIN S_BIGNUM)
      | T_FLONUM \<Rightarrow> Inr (ARC_BUILTIN S_FLONUM)
      | T_RATIONAL \<Rightarrow> Inr (ARC_BUILTIN S_RATIONAL)
      | T_COMPLEX \<Rightarrow> Inr (ARC_BUILTIN S_COMPLEX)
      | T_CHAR \<Rightarrow> Inr (ARC_BUILTIN S_CHAR)
      | T_STRING \<Rightarrow> Inr (ARC_BUILTIN S_STRING)
      | T_CONS \<Rightarrow> Inr (ARC_BUILTIN S_CONS)
      | T_TABLE \<Rightarrow> Inr (ARC_BUILTIN S_TABLE)
      | T_TAGGED \<Rightarrow> rbind (rep_blk h obj) (\<lambda>vs. case vs of [ty, _] \<Rightarrow> Inr ty | _ \<Rightarrow> Inl UB)
      | T_INPORT \<Rightarrow> Inr (ARC_BUILTIN S_INPUT)
      | T_OUTPORT \<Rightarrow> Inr (ARC_BUILTIN S_OUTPUT)
      | T_EXCEPTION \<Rightarrow> Inr (ARC_BUILTIN S_EXCEPTION)
      | T_THREAD \<Rightarrow> Inr (ARC_BUILTIN S_THREAD)
      | T_VECTOR \<Rightarrow> Inr (ARC_BUILTIN S_VECTOR)
      | T_CONT \<Rightarrow> Inr (ARC_BUILTIN S_CONTINUATION)
      | T_CLOS \<Rightarrow> Inr (ARC_BUILTIN S_FN)
      | T_CODE \<Rightarrow> Inr (ARC_BUILTIN S_CODE)
      | T_ENV \<Rightarrow> Inr (ARC_BUILTIN S_ENVIRONMENT)
      | T_CCODE \<Rightarrow> Inr (ARC_BUILTIN S_CCODE)
      | T_CUSTOM \<Rightarrow> Inr (ARC_BUILTIN S_CUSTOM)
      | T_CHAN \<Rightarrow> Inr (ARC_BUILTIN S_CHAN)
      | _ \<Rightarrow> Inr (ARC_BUILTIN S_UNKNOWN))"

definition arc_rep :: "heap \<Rightarrow> val \<Rightarrow> val res" where
  "arc_rep h obj =
     (if htype h obj \<noteq> T_TAGGED then Inr obj
      else rbind (rep_blk h obj) (\<lambda>vs. case vs of [_, r] \<Rightarrow> Inr r | _ \<Rightarrow> Inl UB))"

text \<open>The comparison of types is \<open>arc_is2\<close>, which is identity on the symbols used as types.\<close>

definition arc_annotate :: "(heap \<Rightarrow> val \<Rightarrow> val \<Rightarrow> bool) \<Rightarrow> heap \<Rightarrow> val \<Rightarrow> val \<Rightarrow> (val \<times> heap) res" where
  "arc_annotate is2 h typesym obj =
     rbind (if htype h obj = T_TAGGED then rbind (arc_type_of h obj) (\<lambda>ty. Inr (is2 h ty typesym)) else Inr False)
       (\<lambda>same. if same then Inr (obj, h)
               else let (a, h) = halloc h (OBlk T_TAGGED [typesym, obj]) in Inr (Ref a, h))"

text \<open>\<open>LITERAL_P\<close>.\<close>

definition LITERAL_P :: "heap \<Rightarrow> val \<Rightarrow> bool" where
  "LITERAL_P h x \<longleftrightarrow> x = ARC_BUILTIN S_T \<or> x = ARC_BUILTIN S_NIL \<or> x = NIL
     \<or> htype h x \<in> {T_CHAR, T_STRING, T_FIXNUM, T_BIGNUM, T_FLONUM, T_RATIONAL, T_COMPLEX, T_REGEXP}"

subsection \<open>The numbers are those the symbol table hands out\<close>

lemma index_nth: "distinct xs \<Longrightarrow> i < length xs \<Longrightarrow> index_in xs (xs ! i) = i"
proof (induction xs arbitrary: i)
  case (Cons x xs)
  show ?case
  proof (cases i)
    case (Suc j)
    then have "j < length xs" "distinct xs" "x \<notin> set xs" using Cons.prems by simp_all
    then have "xs ! j \<noteq> x" using nth_mem [of j xs] by metis
    then show ?thesis using Cons.IH [OF \<open>distinct xs\<close> \<open>j < length xs\<close>] Suc by simp
  qed simp
qed simp

lemma index_inj: "x \<in> set xs \<Longrightarrow> y \<in> set xs \<Longrightarrow> index_in xs x = index_in xs y \<longleftrightarrow> x = y"
  by (induction xs) auto

lemma sym_names_sync: "length sym_names = length builtin_syms \<and> distinct sym_names \<and> distinct builtin_syms"
  by (simp add: sym_names_def builtin_syms_def)

lemma builtin_all: "s \<in> set builtin_syms"
  by (cases s) (simp_all add: builtin_syms_def)

lemma builtin_inj [simp]: "ARC_BUILTIN s = ARC_BUILTIN s' \<longleftrightarrow> s = s'"
  using index_inj [OF builtin_all builtin_all] by (simp add: ARC_BUILTIN_def)

lemma builtin_neq [simp]: "ARC_BUILTIN s \<noteq> NIL" "NIL \<noteq> ARC_BUILTIN s" "ARC_BUILTIN s \<noteq> UNBOUND" "ARC_BUILTIN s \<noteq> Ref a"
  "ARC_BUILTIN s \<noteq> Fix i"
  by (simp_all add: ARC_BUILTIN_def)

lemma htype_builtin [simp]: "htype h (ARC_BUILTIN s) = T_SYMBOL"
  by (simp add: ARC_BUILTIN_def htype_def)

end
