(* ===== verification/Strings.thy ===== *)
theory Strings
  imports Heap
begin

text \<open>
  Strings, \<open>src/src/string.c\<close>: a string is the list of its runes. \<open>arc_strindex\<close> accepts the
  index one past the end; the rune it then reads is whatever follows the string in memory
  and is the argument \<open>pad\<close>. \<open>None\<close> is a loop that does not end.
\<close>

type_synonym rstr = "int list"

definition arc_strlen :: "rstr \<Rightarrow> nat" where
  "arc_strlen s = length s"

definition arc_strindex :: "int \<Rightarrow> rstr \<Rightarrow> nat \<Rightarrow> int" where
  "arc_strindex pad s index =
     (if index > length s then Runeerror else if index = length s then pad else s ! index)"

definition arc_strsetindex :: "rstr \<Rightarrow> nat \<Rightarrow> int \<Rightarrow> (int \<times> rstr) res" where
  "arc_strsetindex s index ch = (if index < length s then Inr (ch, s[index := ch]) else Inl UB)"

definition arc_newstring :: "int \<Rightarrow> int option \<Rightarrow> rstr" where
  "arc_newstring len ch = replicate (nat len) (case ch of Some r \<Rightarrow> r | None \<Rightarrow> 0)"

definition arc_mkstring :: "rstr \<Rightarrow> nat \<Rightarrow> rstr res" where
  "arc_mkstring buf len = (if len \<le> length buf then Inr (take len buf) else Inl UB)"

definition arc_strcatc :: "rstr \<Rightarrow> int \<Rightarrow> rstr" where
  "arc_strcatc v1 ch = v1 @ [ch]"

definition arc_strcat :: "rstr \<Rightarrow> rstr \<Rightarrow> rstr" where
  "arc_strcat v1 v2 = v1 @ v2"

definition arc_substr :: "rstr \<Rightarrow> int \<Rightarrow> int \<Rightarrow> rstr res" where
  "arc_substr s sidx eidx =
     (let len = int (length s); eidx = (if eidx > len then len else eidx); nlen = eidx - sidx in
      if 0 \<le> sidx \<and> 0 \<le> nlen then Inr (take (nat nlen) (drop (nat sidx) s)) else Inl UB)"

subsection \<open>Comparison and search\<close>

fun strcmp_loop :: "rstr \<Rightarrow> rstr \<Rightarrow> nat \<Rightarrow> int option" where
  "strcmp_loop (r1 # s1) (r2 # s2) (Suc n) =
     (if r1 > r2 then Some 1 else if r1 < r2 then Some (- 1) else strcmp_loop s1 s2 n)"
| "strcmp_loop _ _ _ = None"

definition arc_strcmp :: "rstr \<Rightarrow> rstr \<Rightarrow> int" where
  "arc_strcmp v1 v2 =
     (let len1 = length v1; len2 = length v2; len = (if len1 > len2 then len2 else len1) in
      case strcmp_loop v1 v2 len of
        Some r \<Rightarrow> r
      | None \<Rightarrow> if len1 > len2 then 1 else if len1 < len2 then - 1 else 0)"

definition string_iscmp :: "rstr \<Rightarrow> rstr \<Rightarrow> bool" where
  "string_iscmp v1 v2 \<longleftrightarrow> arc_strcmp v1 v2 = 0"

fun strchr_loop :: "rstr \<Rightarrow> nat \<Rightarrow> int \<Rightarrow> val" where
  "strchr_loop [] i ch = NIL"
| "strchr_loop (r # s) i ch = (if r = ch then Fix (int i) else strchr_loop s (i + 1) ch)"

definition arc_strchr :: "rstr \<Rightarrow> int \<Rightarrow> val" where
  "arc_strchr s ch = strchr_loop s 0 ch"

text \<open>\<open>string_apply\<close>: the arguments on the stack and the string; the result is a character.\<close>

definition string_apply :: "int \<Rightarrow> val list \<Rightarrow> rstr \<Rightarrow> int res" where
  "string_apply pad args s =
     (case args of
        [fidx] \<Rightarrow>
          (case fidx of
             Fix index \<Rightarrow>
               if index < 0 then Inl (ArcErr ''application of a string expects type <non-negative exact integer> as argument'')
               else if index \<ge> int (arc_strlen s) then Inl (ArcErr ''string index %d out of range [0, %d] for string'')
               else Inr (arc_strindex pad s (nat index))
           | _ \<Rightarrow> Inl (ArcErr ''application of a string expects type <non-negative exact integer> as argument''))
      | _ \<Rightarrow> Inl (ArcErr ''application of a string expects 1 argument, given %d''))"

subsection \<open>Conversion from and to C strings\<close>

function mkstringc_loop :: "byte list \<Rightarrow> rstr option" where
  "mkstringc_loop s =
     (case rd s 0 of
        None \<Rightarrow> None
      | Some ch \<Rightarrow>
          if ch = 0 then Some []
          else (case chartorune s of
                  None \<Rightarrow> None
                | Some (r, n) \<Rightarrow> map_option ((#) r) (mkstringc_loop (drop n s))))"
  by pat_completeness auto

termination mkstringc_loop
  by (relation "measure length") (auto dest!: rd_0_Some chartorune_progress)

declare mkstringc_loop.simps [simp del]

text \<open>The runes are written to an object sized by \<open>utflen\<close>; writing more would leave it.\<close>

definition arc_mkstringc :: "byte list \<Rightarrow> rstr res" where
  "arc_mkstringc s =
     (case (utflen s, mkstringc_loop s) of
        (Some len, Some rs) \<Rightarrow> if length rs \<le> len then Inr rs else Inl UB
      | _ \<Rightarrow> Inl UB)"

definition arc_strutflen :: "rstr \<Rightarrow> nat" where
  "arc_strutflen s = fold (\<lambda>r count. count + length (runetochar r)) s 0"

text \<open>The bytes written through \<open>ptr\<close>, the terminator included.\<close>

definition arc_str2cstr :: "rstr \<Rightarrow> byte list" where
  "arc_str2cstr s = fold (\<lambda>r p. p @ runetochar r) s [] @ [0]"

subsection \<open>Printing\<close>

text \<open>
  \<open>escape_lookup\<close>, byte for byte. There is no comma after the entry for 15, so the compiler
  joins it with the next one: the array has 31 initialisers and its last element is NULL.
\<close>

definition esc_u :: "int \<Rightarrow> int \<Rightarrow> byte list" where
  "esc_u h l = [92, 117, 48, 48, h, l]"

definition escape_lookup :: "byte list option list" where
  "escape_lookup =
     map Some [esc_u 48 48, esc_u 48 49, esc_u 48 50, esc_u 48 51, esc_u 48 52, esc_u 48 53,
       esc_u 48 54, [92, 97], [92, 98], [92, 116], [92, 110], [92, 118], [92, 102], [92, 114],
       esc_u 48 69, esc_u 48 70 @ esc_u 49 48, esc_u 49 49, esc_u 49 50, esc_u 49 51,
       esc_u 49 52, esc_u 49 53, esc_u 49 54, esc_u 49 55, esc_u 49 56, esc_u 49 57,
       esc_u 49 65, [92, 101], esc_u 49 67, esc_u 49 68, esc_u 49 69, esc_u 49 70] @ [None]"

text \<open>The loop that writes an escape sequence stops at the first rune that is 0.\<close>

partial_function (option) esc_loop :: "int \<Rightarrow> rstr \<Rightarrow> nat \<Rightarrow> rstr option" where
  "esc_loop pad os j =
     (if arc_strindex pad os j \<noteq> 0
      then Option.bind (esc_loop pad os (j + 1)) (\<lambda>out. Some (arc_strindex pad os j # out))
      else Some [])"

fun pprint_loop :: "int \<Rightarrow> bool \<Rightarrow> rstr \<Rightarrow> rstr res option" where
  "pprint_loop pad disp [] = Some (Inr [])"
| "pprint_loop pad disp (ch # s) =
     (if ch < 32 \<and> \<not> disp then
        (if ch < 0 then Some (Inl UB)
         else (case escape_lookup ! nat ch of
                 None \<Rightarrow> Some (Inl UB)
               | Some e \<Rightarrow>
                   (case arc_mkstringc e of
                      Inl f \<Rightarrow> Some (Inl f)
                    | Inr os \<Rightarrow>
                        (case esc_loop pad os 0 of
                           None \<Rightarrow> None
                         | Some out \<Rightarrow> map_option (\<lambda>r. rbind r (\<lambda>o2. Inr (out @ o2))) (pprint_loop pad disp s)))))
      else map_option (\<lambda>r. rbind r (\<lambda>o2. Inr (ch # o2))) (pprint_loop pad disp s))"

definition string_pprint :: "int \<Rightarrow> bool \<Rightarrow> rstr \<Rightarrow> rstr res option" where
  "string_pprint pad disp s =
     map_option (\<lambda>r. rbind r (\<lambda>out. Inr (if disp then out else [34] @ out @ [34]))) (pprint_loop pad disp s)"

lemma strcmp_loop_lex:
  "arc_strcmp (r1 # s1) (r2 # s2) = (if r1 > r2 then 1 else if r1 < r2 then - 1 else arc_strcmp s1 s2)"
  by (simp add: arc_strcmp_def Let_def)

text \<open>
  \<open>arc_strcmp\<close> is the three-way lexicographic comparison by code point: it is 0
  exactly on equal strings, and otherwise its sign is the lexicographic order.
\<close>

lemma strcmp_lexicographic:
  "arc_strcmp s t = (if s = t then 0 else if ord_class.lexordp s t then - 1 else 1)"
proof (induction s arbitrary: t)
  case Nil
  then show ?case by (cases t) (simp_all add: arc_strcmp_def)
next
  case (Cons r s)
  show ?case
  proof (cases t)
    case Nil
    then show ?thesis by (simp add: arc_strcmp_def)
  next
    case (Cons r2 s2)
    then show ?thesis using Cons.IH [of s2] by (auto simp: strcmp_loop_lex)
  qed
qed

text \<open>
  Applying a string to an index yields the rune at that index when it is in range
  and an error otherwise, and never reads outside the string.
\<close>

lemma string_apply_correct:
  "string_apply pad args s =
     (case args of
        [Fix i] \<Rightarrow> if i < 0 then Inl (ArcErr ''application of a string expects type <non-negative exact integer> as argument'')
                   else if nat i < length s then Inr (s ! nat i)
                   else Inl (ArcErr ''string index %d out of range [0, %d] for string'')
      | [_] \<Rightarrow> Inl (ArcErr ''application of a string expects type <non-negative exact integer> as argument'')
      | _ \<Rightarrow> Inl (ArcErr ''application of a string expects 1 argument, given %d''))"
  by (auto simp: string_apply_def arc_strlen_def arc_strindex_def nat_less_iff split: list.splits val.splits)

lemma mkstringc_utflen: "map_option length (mkstringc_loop s) = utflen s"
proof (induction s rule: mkstringc_loop.induct)
  case (1 s)
  show ?case
  proof (cases "rd s 0")
    case None
    then show ?thesis by (simp add: mkstringc_loop.simps utflen.simps)
  next
    case (Some ch)
    show ?thesis
    proof (cases "ch = 0")
      case True
      then show ?thesis using Some by (simp add: mkstringc_loop.simps [of s] utflen.simps [of s])
    next
      case False
      obtain r n where rn: "chartorune s = Some (r, n)"
        using chartorune_dec_ok [of s] by (auto simp: dec_ok_def)
      have ih: "map_option length (mkstringc_loop (drop n s)) = utflen (drop n s)"
        using 1 Some False rn by auto
      have "n = 1" if "ch < 0x80"
        using that rn Some by (simp add: chartorune_def Tx_def)
      then have "utflen s = map_option Suc (utflen (drop n s))"
        using Some False rn by (subst utflen.simps) auto
      moreover have "mkstringc_loop s = map_option ((#) r) (mkstringc_loop (drop n s))"
        using Some False rn by (subst mkstringc_loop.simps) simp
      ultimately show ?thesis using ih
        by (cases "mkstringc_loop (drop n s)"; cases "utflen (drop n s)") simp_all
    qed
  qed
qed

lemma mkstringc_total: "\<exists>rs. mkstringc_loop s = Some rs"
proof (induction s rule: mkstringc_loop.induct)
  case (1 s)
  obtain r n where rn: "chartorune s = Some (r, n)"
    using chartorune_dec_ok [of s] by (auto simp: dec_ok_def)
  obtain ch where "rd s 0 = Some ch" by (cases s) (simp_all add: rd_def)
  with 1 rn show ?case by (subst mkstringc_loop.simps) auto
qed

text \<open>
  \<open>arc_mkstringc\<close> never writes past the string it allocated: for every byte
  string, valid UTF-8 or not, it decodes exactly as many runes as \<open>utflen\<close> counted.
\<close>

lemma mkstringc_fits: "\<exists>rs. arc_mkstringc s = Inr rs \<and> utflen s = Some (length rs)"
proof -
  obtain rs where "mkstringc_loop s = Some rs" using mkstringc_total by blast
  moreover from this have "utflen s = Some (length rs)" using mkstringc_utflen [of s] by simp
  ultimately show ?thesis by (simp add: arc_mkstringc_def)
qed

lemma str2cstr_encode: "arc_str2cstr s = utf_encode s @ [0]"
proof -
  have "fold (\<lambda>r p. p @ runetochar r) s p = p @ utf_encode s" for p
    by (induction s arbitrary: p) simp_all
  then show ?thesis by (simp add: arc_str2cstr_def)
qed

lemma strutflen_encode: "arc_strutflen s = length (utf_encode s)"
proof -
  have "fold (\<lambda>r count. count + length (runetochar r)) s n = n + length (utf_encode s)" for n
    by (induction s arbitrary: n) simp_all
  then show ?thesis by (simp add: arc_strutflen_def)
qed

lemma mkstringc_rune:
  assumes "text_rune r"
  shows "mkstringc_loop (runetochar r @ s) = map_option ((#) r) (mkstringc_loop s)"
proof -
  have "runetochar r \<noteq> []" using assms runetochar_nonempty by (simp add: text_rune_def)
  moreover have "hd (runetochar r) \<noteq> 0"
  proof (cases "r < 0x80")
    case True
    then show ?thesis using assms by (simp add: text_rune_def encodable_def runetochar_ascii)
  next
    case False
    then show ?thesis using assms runetochar_lead [of r] by (auto simp: text_rune_def)
  qed
  ultimately show ?thesis
    using assms rune_roundtrip_all [of r s]
    by (subst mkstringc_loop.simps) (simp add: text_rune_def rd_append)
qed

text \<open>
  A string survives the conversion to a C string and back, and \<open>arc_str2cstr\<close>
  writes one byte more than \<open>arc_strutflen\<close> counts.
\<close>

lemma cstr_roundtrip:
  assumes "\<forall>r \<in> set s. text_rune r"
  shows "arc_mkstringc (arc_str2cstr s) = Inr s \<and> length (arc_str2cstr s) = arc_strutflen s + 1"
proof -
  have "mkstringc_loop (utf_encode s @ [0]) = Some s"
    using assms by (induction s) (simp_all add: mkstringc_loop.simps [of "[0]"] rd_def mkstringc_rune)
  moreover from this have "utflen (utf_encode s @ [0]) = Some (length s)"
    using mkstringc_utflen [of "utf_encode s @ [0]"] by simp
  ultimately show ?thesis by (simp add: arc_mkstringc_def str2cstr_encode strutflen_encode)
qed

subsection \<open>Escape sequences\<close>

lemma esc_loop_diverges:
  assumes "pad \<noteq> 0" and "0 \<notin> set os"
  shows "esc_loop pad os j = None"
proof -
  have "pad \<noteq> 0 \<longrightarrow> 0 \<notin> set os \<longrightarrow> False" if "esc_loop pad os j = Some out" for out
    using that
    by (rule esc_loop.raw_induct [where P = "\<lambda>pad os j _. pad \<noteq> 0 \<longrightarrow> 0 \<notin> set os \<longrightarrow> False", rotated])
       (auto simp: arc_strindex_def Runeerror_def split: if_splits bind_splits,
        metis nat_neq_iff nth_mem)
  then show ?thesis using assms by (cases "esc_loop pad os j") auto
qed

lemma mkstringc_ascii:
  assumes "\<forall>b \<in> set e. 0 < b \<and> b < 0x80"
  shows "arc_mkstringc e = Inr e"
proof -
  have "mkstringc_loop e = Some e"
    using assms
  proof (induction e)
    case (Cons b e)
    then have "mkstringc_loop (runetochar b @ e) = map_option ((#) b) (mkstringc_loop e)"
      by (intro mkstringc_rune) (simp add: text_rune_def encodable_def)
    with Cons show ?case by (simp add: runetochar_ascii)
  qed (simp add: mkstringc_loop.simps rd_def)
  moreover from this have "utflen e = Some (length e)" using mkstringc_utflen [of e] by simp
  ultimately show ?thesis by (simp add: arc_mkstringc_def)
qed

lemma escape_ascii:
  assumes "n < 31"
  shows "\<exists>e. escape_lookup ! n = Some e \<and> (\<forall>b \<in> set e. 0 < b \<and> b < 0x80)"
proof -
  have "list_all (\<lambda>oe. case oe of None \<Rightarrow> False | Some e \<Rightarrow> list_all (\<lambda>b. 0 < b \<and> b < 0x80) e)
    (take 31 escape_lookup)"
    by (simp add: escape_lookup_def esc_u_def)
  moreover have "length (take 31 escape_lookup) = 31" by (simp add: escape_lookup_def)
  ultimately have "case take 31 escape_lookup ! n of None \<Rightarrow> False
      | Some e \<Rightarrow> list_all (\<lambda>b. 0 < b \<and> b < 0x80) e"
    using assms by (auto simp: list_all_length)
  then show ?thesis using assms by (auto simp: list_all_iff split: option.splits)
qed

text \<open>
  Writing a string without control characters puts it between double quotes and
  changes nothing in it: double quotes and backslashes inside are not escaped.
\<close>

lemma pprint_plain:
  assumes "\<forall>ch \<in> set s. 32 \<le> ch"
  shows "string_pprint pad disp s = Some (Inr (if disp then s else [34] @ s @ [34]))"
proof -
  have "pprint_loop pad disp s = Some (Inr s)"
    using assms by (induction s) (auto simp: not_less)
  then show ?thesis by (simp add: string_pprint_def)
qed

text \<open>
  Writing a string that holds a control character loops forever unless the memory
  after the escape sequence happens to be 0: the loop over the sequence ends only on a rune
  that is 0, and \<open>arc_strindex\<close> returns the rune after the string and then \<open>Runeerror\<close>.
\<close>

lemma pprint_control_diverges:
  assumes "pad \<noteq> 0" and "\<forall>ch \<in> set s. 0 \<le> ch \<and> ch \<noteq> 31" and "\<exists>ch \<in> set s. ch < 32"
  shows "string_pprint pad False s = None"
proof -
  have "pprint_loop pad False s = None"
    using assms(2,3)
  proof (induction s)
    case (Cons ch s)
    show ?case
    proof (cases "ch < 32")
      case True
      then have "nat ch < 31" using Cons.prems by auto
      then obtain e where "escape_lookup ! nat ch = Some e" "\<forall>b \<in> set e. 0 < b \<and> b < 0x80"
        using escape_ascii by blast
      moreover from this have "esc_loop pad e 0 = None"
        using assms(1) by (intro esc_loop_diverges) auto
      ultimately show ?thesis using True Cons.prems mkstringc_ascii [of e] by simp
    qed (use Cons in auto)
  qed simp
  then show ?thesis by (simp add: string_pprint_def)
qed

lemma esc_loop_end: "pad = 0 \<Longrightarrow> j = length os \<Longrightarrow> esc_loop pad os j = Some []"
  by (subst esc_loop.simps) (simp add: arc_strindex_def)

lemma esc_loop_out:
  "0 \<notin> set os \<Longrightarrow> j \<le> length os \<Longrightarrow> esc_loop 0 os j = Some (drop j os)"
proof (induction "length os - j" arbitrary: j)
  case 0
  then show ?case by (simp add: esc_loop_end)
next
  case (Suc n)
  then have "j < length os" by simp
  moreover have "os ! j \<noteq> 0" using Suc.prems(1) \<open>j < length os\<close> by (metis nth_mem)
  ultimately show ?case using Suc.hyps(1) [of "Suc j"] Suc
    by (subst esc_loop.simps) (simp add: arc_strindex_def Cons_nth_drop_Suc)
qed

text \<open>
  The escape table is shifted from 16 on: 15 prints two sequences, 16 prints the
  sequence of 17, and 31 dereferences a null pointer.
\<close>

lemma escape_table_shifted:
  "string_pprint 0 False [15] = Some (Inr ([34] @ esc_u 48 70 @ esc_u 49 48 @ [34]))
    \<and> string_pprint 0 False [16] = Some (Inr ([34] @ esc_u 49 49 @ [34]))
    \<and> string_pprint 0 False [31] = Some (Inl UB)"
  by (simp add: string_pprint_def escape_lookup_def mkstringc_ascii esc_loop_out esc_u_def)

end
