(* ===== verification/Codegen.thy ===== *)
theory Codegen
  imports HashTable "HOL-Library.Monad_Syntax"
begin

text \<open>
  Code generation buffers, \<open>src/src/codegen.c\<close>: a compilation context holds the code and the
  literals emitted so far in vectors that double when they are full, and is turned into a
  code object at the end. The line table is a hash table from a code offset to a line. An
  operation is \<open>None\<close> when it writes outside a vector or its table insertion does not return.
\<close>

record cctx =
  VCPTR :: val
  VCODE :: "val list option"
  LPTR :: val
  LITS :: "val list option"
  SRC :: "(key, val) table option"

text \<open>\<open>FIX2INT\<close> of a slot that holds a fixnum or was never set, and the word itself.\<close>

fun fixnat :: "val \<Rightarrow> nat" where
  "fixnat (Fix i) = nat i"
| "fixnat _ = 0"

fun raw_word :: "val \<Rightarrow> nat" where
  "raw_word (Fix i) = nat (2 * i + 1)"
| "raw_word _ = 0"

text \<open>The fields are vectors filled with nil; \<open>LPTR\<close> keeps that nil.\<close>

definition arc_mkcctx :: cctx where
  "arc_mkcctx = \<lparr> VCPTR = Fix 0, VCODE = None, LPTR = NIL, LITS = None, SRC = None \<rparr>"

definition arc_cctx_mksrc :: "cctx \<Rightarrow> cctx" where
  "arc_cctx_mksrc c = c \<lparr> SRC := Some (arc_mkhash 6) \<rparr>"

text \<open>A new vector of \<open>sz\<close> elements with the first \<open>n\<close> copied from the old one.\<close>

definition grow :: "val list option \<Rightarrow> nat \<Rightarrow> nat \<Rightarrow> val list option" where
  "grow old n sz =
     (if n \<le> (case old of None \<Rightarrow> 0 | Some v \<Rightarrow> length v) \<and> n \<le> sz
      then Some (take n (case old of None \<Rightarrow> [] | Some v \<Rightarrow> v) @ replicate (sz - n) NIL)
      else None)"

definition resize_vmcode :: "cctx \<Rightarrow> cctx option" where
  "resize_vmcode c =
     (let vptr = fixnat (VCPTR c);
          sz = (case VCODE c of None \<Rightarrow> 16 | Some v \<Rightarrow> 2 * length v) in
      map_option (\<lambda>v. c \<lparr> VCODE := Some v \<rparr>) (grow (VCODE c) vptr sz))"

definition resize_literals :: "cctx \<Rightarrow> cctx option" where
  "resize_literals c =
     (let lp = fixnat (LPTR c);
          sz = (case LITS c of None \<Rightarrow> 16 | Some v \<Rightarrow> 2 * length v) in
      if sz = 0 then None
      else map_option (\<lambda>v. c \<lparr> LITS := Some v \<rparr>) (grow (LITS c) lp sz))"

text \<open>The code offset as a key of the line table.\<close>

definition vptr_key :: "val \<Rightarrow> key" where
  "vptr_key v = KFix (word_of_nat (fixnat v))"

definition add_lninfo :: "cctx \<Rightarrow> val \<Rightarrow> cctx option" where
  "add_lninfo c lineno =
     (case SRC c of
        None \<Rightarrow> Some c
      | Some t \<Rightarrow>
          if lineno = UNBOUND \<or> lineno = NIL then Some c
          else map_option (\<lambda>t'. c \<lparr> SRC := Some t' \<rparr>)
                 (arc_hash_insert key_hv (=) t (vptr_key (VCPTR c)) lineno))"

text \<open>\<open>SVINDEX(vcode, vptr++, x)\<close> for each operand in turn.\<close>

fun put_words :: "val list \<Rightarrow> nat \<Rightarrow> val list \<Rightarrow> (val list \<times> nat) option" where
  "put_words v vptr [] = Some (v, vptr)"
| "put_words v vptr (w # ws) = do { v' \<leftarrow> upd_opt v vptr w; put_words v' (vptr + 1) ws }"

definition full_for :: "cctx \<Rightarrow> nat \<Rightarrow> bool" where
  "full_for c k \<longleftrightarrow> (case VCODE c of None \<Rightarrow> True | Some v \<Rightarrow> fixnat (VCPTR c) + k \<ge> length v)"

definition store_code :: "cctx \<Rightarrow> val list \<Rightarrow> cctx option" where
  "store_code c ws = do {
     v \<leftarrow> VCODE c;
     (v', vptr) \<leftarrow> put_words v (fixnat (VCPTR c)) ws;
     Some (c \<lparr> VCODE := Some v', VCPTR := Fix (int vptr) \<rparr>) }"

definition arc_emit :: "cctx \<Rightarrow> int \<Rightarrow> val \<Rightarrow> cctx option" where
  "arc_emit c inst fl = do {
     c \<leftarrow> add_lninfo c fl;
     c \<leftarrow> (if full_for c 0 then resize_vmcode c else Some c);
     store_code c [Fix inst] }"

definition arc_emit1 :: "cctx \<Rightarrow> int \<Rightarrow> val \<Rightarrow> val \<Rightarrow> cctx option" where
  "arc_emit1 c inst arg fl = do {
     c \<leftarrow> add_lninfo c fl;
     c \<leftarrow> (if full_for c 1 then resize_vmcode c else Some c);
     store_code c [Fix inst, arg] }"

definition arc_emit2 :: "cctx \<Rightarrow> int \<Rightarrow> val \<Rightarrow> val \<Rightarrow> val \<Rightarrow> cctx option" where
  "arc_emit2 c inst arg1 arg2 fl = do {
     c \<leftarrow> add_lninfo c fl;
     c \<leftarrow> (if full_for c 2 then resize_vmcode c else Some c);
     store_code c [Fix inst, arg1, arg2] }"

definition arc_emit3 :: "cctx \<Rightarrow> int \<Rightarrow> val \<Rightarrow> val \<Rightarrow> val \<Rightarrow> val \<Rightarrow> cctx option" where
  "arc_emit3 c inst arg1 arg2 arg3 fl = do {
     c \<leftarrow> add_lninfo c fl;
     c \<leftarrow> (if full_for c 3 then resize_vmcode c else Some c);
     store_code c [Fix inst, arg1, arg2, arg3] }"

definition arc_jmpoffset :: "cctx \<Rightarrow> nat \<Rightarrow> nat \<Rightarrow> cctx option" where
  "arc_jmpoffset c jmpinst destoffset = do {
     v \<leftarrow> VCODE c;
     v' \<leftarrow> upd_opt v (jmpinst + 1) (Fix (int destoffset - int jmpinst));
     Some (c \<lparr> VCODE := Some v' \<rparr>) }"

definition arc_literal :: "cctx \<Rightarrow> val \<Rightarrow> (nat \<times> cctx) option" where
  "arc_literal c literal = do {
     let lp = fixnat (LPTR c);
     c \<leftarrow> (if (case LITS c of None \<Rightarrow> True | Some v \<Rightarrow> lp \<ge> length v) then resize_literals c else Some c);
     v \<leftarrow> LITS c;
     v' \<leftarrow> upd_opt v lp literal;
     Some (lp, c \<lparr> LITS := Some v', LPTR := Fix (int (lp + 1)) \<rparr>) }"

subsection \<open>Code objects\<close>

record codeobj =
  CODE_CODE :: "val list"
  CODE_SRC :: "(key, val) table option"
  CODE_LITERALS :: "val list"

definition arc_mkcode :: "nat \<Rightarrow> nat \<Rightarrow> codeobj" where
  "arc_mkcode ncodes nlits = \<lparr> CODE_CODE = replicate ncodes NIL, CODE_SRC = None,
     CODE_LITERALS = replicate nlits NIL \<rparr>"

definition arc_code_setsrc :: "codeobj \<Rightarrow> (key, val) table option \<Rightarrow> codeobj" where
  "arc_code_setsrc code s = code \<lparr> CODE_SRC := s \<rparr>"

text \<open>\<open>memcpy\<close> of the first \<open>n\<close> elements of \<open>from\<close> over those of \<open>to\<close>.\<close>

definition copy_over :: "val list \<Rightarrow> val list option \<Rightarrow> nat \<Rightarrow> val list option" where
  "copy_over dst src n =
     (let s = (case src of None \<Rightarrow> [] | Some v \<Rightarrow> v) in
      if n \<le> length s \<and> n \<le> length dst then Some (take n s @ drop n dst) else None)"

text \<open>The counts are passed on as they are, still tagged.\<close>

definition arc_cctx2code :: "cctx \<Rightarrow> codeobj option" where
  "arc_cctx2code c = do {
     let func = arc_mkcode (raw_word (VCPTR c)) (raw_word (LPTR c));
     code \<leftarrow> copy_over (CODE_CODE func) (VCODE c) (fixnat (VCPTR c));
     ls \<leftarrow> copy_over (CODE_LITERALS func) (LITS c) (fixnat (LPTR c));
     Some (func \<lparr> CODE_CODE := code, CODE_LITERALS := ls, CODE_SRC := SRC c \<rparr>) }"

subsection \<open>The buffers never overflow\<close>

text \<open>What has been emitted so far.\<close>

definition code_of :: "cctx \<Rightarrow> val list" where
  "code_of c = take (fixnat (VCPTR c)) (case VCODE c of None \<Rightarrow> [] | Some v \<Rightarrow> v)"

definition lits_of :: "cctx \<Rightarrow> val list" where
  "lits_of c = take (fixnat (LPTR c)) (case LITS c of None \<Rightarrow> [] | Some v \<Rightarrow> v)"

definition buf_ok :: "val list option \<Rightarrow> val \<Rightarrow> bool" where
  "buf_ok b p \<longleftrightarrow> (case b of None \<Rightarrow> fixnat p = 0 | Some v \<Rightarrow> 16 \<le> length v \<and> fixnat p \<le> length v)
     \<and> (p = NIL \<or> (\<exists>n. p = Fix (int n)))"

definition cctx_ok :: "cctx \<Rightarrow> bool" where
  "cctx_ok c \<longleftrightarrow> buf_ok (VCODE c) (VCPTR c) \<and> buf_ok (LITS c) (LPTR c)"

definition src_ok :: "cctx \<Rightarrow> bool" where
  "src_ok c \<longleftrightarrow> (case SRC c of None \<Rightarrow> True | Some t \<Rightarrow> tbl_inv key_hv t \<and> tbl_dense t \<and> tbl_room t)"

lemma put_words_ok:
  "vptr + length ws \<le> length v \<Longrightarrow>
    put_words v vptr ws = Some (take vptr v @ ws @ drop (vptr + length ws) v, vptr + length ws)"
proof (induction ws arbitrary: v vptr)
  case (Cons w ws)
  then have "put_words v vptr (w # ws) = put_words (v[vptr := w]) (Suc vptr) ws" by simp
  also have "\<dots> = Some (take (Suc vptr) (v[vptr := w]) @ ws @ drop (Suc vptr + length ws) (v[vptr := w]), Suc vptr + length ws)"
    using Cons.prems by (intro Cons.IH) simp
  also have "take (Suc vptr) (v[vptr := w]) = take vptr v @ [w]"
    using Cons.prems by (simp add: take_Suc_conv_app_nth)
  finally show ?case using Cons.prems by simp
qed simp

lemma resize_vmcode_ok:
  assumes "buf_ok (VCODE c) (VCPTR c)"
  shows "\<exists>v. resize_vmcode c = Some (c \<lparr> VCODE := Some v \<rparr>) \<and> fixnat (VCPTR c) + 16 \<le> length v
    \<and> take (fixnat (VCPTR c)) v = code_of c"
  using assms by (auto simp: resize_vmcode_def grow_def buf_ok_def code_of_def Let_def split: option.splits)

lemma resize_literals_ok:
  assumes "buf_ok (LITS c) (LPTR c)"
  shows "\<exists>v. resize_literals c = Some (c \<lparr> LITS := Some v \<rparr>) \<and> fixnat (LPTR c) + 16 \<le> length v
    \<and> take (fixnat (LPTR c)) v = lits_of c"
  using assms by (auto simp: resize_literals_def grow_def buf_ok_def lits_of_def Let_def split: option.splits)

lemma lninfo_ok:
  assumes "src_ok c"
  shows "\<exists>s. add_lninfo c fl = Some (c \<lparr> SRC := s \<rparr>)"
proof (cases "SRC c")
  case None
  then show ?thesis by (intro exI [of _ None]) (simp add: add_lninfo_def)
next
  case (Some t)
  then obtain t' where t': "arc_hash_insert key_hv (=) t (vptr_key (VCPTR c)) fl = Some t'"
    using assms hash_dict.insert_total [of key_hv t "vptr_key (VCPTR c)" fl] by (auto simp: src_ok_def)
  show ?thesis
  proof (cases "fl = UNBOUND \<or> fl = NIL")
    case True
    then show ?thesis using Some by (intro exI [of _ "SRC c"]) (auto simp add: add_lninfo_def)
  next
    case False
    then show ?thesis using Some t' by (auto simp add: add_lninfo_def)
  qed
qed

lemma store_code_ok:
  assumes "VCODE c = Some v" and "fixnat (VCPTR c) + length ws \<le> length v" and "16 \<le> length v"
  shows "\<exists>c'. store_code c ws = Some c' \<and> buf_ok (VCODE c') (VCPTR c')
    \<and> code_of c' = code_of c @ ws \<and> LITS c' = LITS c \<and> LPTR c' = LPTR c"
  using assms put_words_ok [OF assms(2)]
  by (auto simp: store_code_def buf_ok_def code_of_def) (metis of_nat_add)

lemma emit_words_ok:
  assumes "buf_ok (VCODE c) (VCPTR c)" and "length ws = Suc k" and "k < 16"
  shows "\<exists>c'. (if full_for c k then resize_vmcode c else Some c) \<bind> (\<lambda>c. store_code c ws) = Some c'
    \<and> buf_ok (VCODE c') (VCPTR c') \<and> code_of c' = code_of c @ ws \<and> LITS c' = LITS c \<and> LPTR c' = LPTR c"
proof (cases "full_for c k")
  case True
  obtain v where v: "resize_vmcode c = Some (c \<lparr> VCODE := Some v \<rparr>)" "fixnat (VCPTR c) + 16 \<le> length v"
    "take (fixnat (VCPTR c)) v = code_of c"
    using resize_vmcode_ok [OF assms(1)] by blast
  then show ?thesis
    using True store_code_ok [of "c \<lparr> VCODE := Some v \<rparr>" v ws] assms(2,3) by (auto simp: code_of_def)
next
  case False
  then obtain v where "VCODE c = Some v" "fixnat (VCPTR c) + k < length v"
    by (auto simp: full_for_def not_le split: option.splits)
  then show ?thesis
    using False store_code_ok [of c v ws] assms by (auto simp: buf_ok_def)
qed

lemma emit_ok:
  assumes "cctx_ok c" and "src_ok c" and "length ws = Suc k" and "k < 16"
  shows "\<exists>c'. (add_lninfo c fl \<bind> (\<lambda>c. (if full_for c k then resize_vmcode c else Some c) \<bind> (\<lambda>c. store_code c ws))) = Some c'
    \<and> cctx_ok c' \<and> code_of c' = code_of c @ ws \<and> lits_of c' = lits_of c"
proof -
  obtain s where s: "add_lninfo c fl = Some (c \<lparr> SRC := s \<rparr>)" using lninfo_ok [OF assms(2)] by blast
  have "buf_ok (VCODE (c \<lparr> SRC := s \<rparr>)) (VCPTR (c \<lparr> SRC := s \<rparr>))" using assms(1) by (simp add: cctx_ok_def)
  from emit_words_ok [OF this assms(3,4)] s assms(1) show ?thesis
    by (auto simp: cctx_ok_def lits_of_def code_of_def)
qed

text \<open>
  Property C39. Emitting never writes outside the code vector: for every well-formed context it
  succeeds, appends exactly the instruction and its operands to the code emitted so far, and
  leaves the literals alone.
\<close>

theorem emit_appends:
  assumes "cctx_ok c" and "src_ok c"
  shows "(\<exists>c'. arc_emit c i fl = Some c' \<and> cctx_ok c' \<and> code_of c' = code_of c @ [Fix i] \<and> lits_of c' = lits_of c)
    \<and> (\<exists>c'. arc_emit1 c i a fl = Some c' \<and> cctx_ok c' \<and> code_of c' = code_of c @ [Fix i, a] \<and> lits_of c' = lits_of c)
    \<and> (\<exists>c'. arc_emit2 c i a b fl = Some c' \<and> cctx_ok c' \<and> code_of c' = code_of c @ [Fix i, a, b] \<and> lits_of c' = lits_of c)
    \<and> (\<exists>c'. arc_emit3 c i a b d fl = Some c' \<and> cctx_ok c' \<and> code_of c' = code_of c @ [Fix i, a, b, d]
         \<and> lits_of c' = lits_of c)"
  unfolding arc_emit_def arc_emit1_def arc_emit2_def arc_emit3_def
  using assms by (intro conjI emit_ok) simp_all

lemma mkcctx_ok: "cctx_ok arc_mkcctx \<and> src_ok arc_mkcctx"
  by (simp add: cctx_ok_def src_ok_def buf_ok_def arc_mkcctx_def)

theorem emit_appends_witness:
  "(\<exists>c'. arc_emit arc_mkcctx 1 NIL = Some c' \<and> cctx_ok c' \<and> code_of c' = code_of arc_mkcctx @ [Fix 1] \<and> lits_of c' = lits_of arc_mkcctx)
    \<and> (\<exists>c'. arc_emit1 arc_mkcctx 1 (Fix 2) NIL = Some c' \<and> cctx_ok c' \<and> code_of c' = code_of arc_mkcctx @ [Fix 1, Fix 2] \<and> lits_of c' = lits_of arc_mkcctx)
    \<and> (\<exists>c'. arc_emit2 arc_mkcctx 1 (Fix 2) (Fix 3) NIL = Some c' \<and> cctx_ok c' \<and> code_of c' = code_of arc_mkcctx @ [Fix 1, Fix 2, Fix 3] \<and> lits_of c' = lits_of arc_mkcctx)
    \<and> (\<exists>c'. arc_emit3 arc_mkcctx 1 (Fix 2) (Fix 3) (Fix 4) NIL = Some c' \<and> cctx_ok c'
         \<and> code_of c' = code_of arc_mkcctx @ [Fix 1, Fix 2, Fix 3, Fix 4] \<and> lits_of c' = lits_of arc_mkcctx)"
  using mkcctx_ok by (intro emit_appends) simp_all

text \<open>Adding a literal returns its index, appends it and leaves the code alone.\<close>

lemma literal_ok:
  assumes "cctx_ok c"
  shows "\<exists>c'. arc_literal c l = Some (length (lits_of c), c') \<and> cctx_ok c'
    \<and> lits_of c' = lits_of c @ [l] \<and> code_of c' = code_of c"
proof -
  let ?p = "fixnat (LPTR c)"
  have buf: "buf_ok (LITS c) (LPTR c)" using assms by (simp add: cctx_ok_def)
  have len: "length (lits_of c) = ?p" using buf by (auto simp: lits_of_def buf_ok_def split: option.splits)
  have fin: "\<exists>c'. (LITS d \<bind> (\<lambda>v. upd_opt v ?p l \<bind> (\<lambda>v'. Some (?p, d \<lparr> LITS := Some v', LPTR := Fix (int (?p + 1)) \<rparr>))))
       = Some (length (lits_of c), c') \<and> cctx_ok c' \<and> lits_of c' = lits_of c @ [l] \<and> code_of c' = code_of c"
    if d: "d = c \<lparr> LITS := Some v \<rparr>" "?p < length v" "16 \<le> length v" "take ?p v = lits_of c" for d v
  proof -
    let ?d = "d \<lparr> LITS := Some (v[?p := l]), LPTR := Fix (int (?p + 1)) \<rparr>"
    have "buf_ok (LITS ?d) (LPTR ?d)"
      using d(2,3) by (auto simp: buf_ok_def simp del: of_nat_Suc intro!: exI [of _ "Suc ?p"])
    then have "cctx_ok ?d" using assms d(1) by (simp add: cctx_ok_def)
    moreover have "lits_of ?d = lits_of c @ [l]"
      using d(2,4) by (simp add: lits_of_def nat_add_distrib take_Suc_conv_app_nth)
    moreover have "code_of ?d = code_of c" using d(1) by (simp add: code_of_def)
    moreover have "(LITS d \<bind> (\<lambda>v. upd_opt v ?p l \<bind> (\<lambda>v'. Some (?p, d \<lparr> LITS := Some v', LPTR := Fix (int (?p + 1)) \<rparr>))))
       = Some (length (lits_of c), ?d)"
      using d len by simp
    ultimately show ?thesis by blast
  qed
  show ?thesis
  proof (cases "case LITS c of None \<Rightarrow> True | Some v \<Rightarrow> ?p \<ge> length v")
    case True
    then obtain v where "resize_literals c = Some (c \<lparr> LITS := Some v \<rparr>)" "?p < length v" "16 \<le> length v" "take ?p v = lits_of c"
      using resize_literals_ok [OF buf] by auto
    then show ?thesis using fin [OF refl, of v] True by (simp add: arc_literal_def Let_def len)
  next
    case False
    then obtain v where v: "LITS c = Some v" "?p < length v" by (auto split: option.splits)
    then have "c = c \<lparr> LITS := Some v \<rparr>" by simp
    then show ?thesis using fin [of c v] v False buf by (simp add: arc_literal_def buf_ok_def lits_of_def Let_def)
  qed
qed

lemma raw_word_int [simp]: "raw_word (Fix (int n)) = Suc (2 * n)"
  by (simp add: nat_add_distrib nat_mult_distrib)

declare raw_word.simps(1) [simp del]

text \<open>
  The code object holds exactly the code and literals of the context as prefixes of
  its vectors. The counts are passed still tagged, so the vectors have \<open>2n + 1\<close> slots for \<open>n\<close>
  entries.
\<close>

lemma cctx2code_prefix:
  assumes "cctx_ok c" and "VCPTR c \<noteq> NIL"
  shows "\<exists>f. arc_cctx2code c = Some f \<and> take (length (code_of c)) (CODE_CODE f) = code_of c
    \<and> take (length (lits_of c)) (CODE_LITERALS f) = lits_of c \<and> CODE_SRC f = SRC c
    \<and> length (CODE_CODE f) = 2 * length (code_of c) + 1"
proof -
  obtain n where n: "VCPTR c = Fix (int n)" using assms by (auto simp: cctx_ok_def buf_ok_def)
  have lp: "fixnat (LPTR c) \<le> raw_word (LPTR c)"
    using assms(1) by (auto simp: cctx_ok_def buf_ok_def)
  have l1: "length (code_of c) = n" "n \<le> length (case VCODE c of None \<Rightarrow> [] | Some v \<Rightarrow> v)"
    using assms(1) n by (auto simp: cctx_ok_def buf_ok_def code_of_def split: option.splits)
  have l2: "length (lits_of c) = fixnat (LPTR c)" "fixnat (LPTR c) \<le> length (case LITS c of None \<Rightarrow> [] | Some v \<Rightarrow> v)"
    using assms(1) by (auto simp: cctx_ok_def buf_ok_def lits_of_def split: option.splits)
  show ?thesis
    using n lp l1 l2 by (simp add: arc_cctx2code_def copy_over_def arc_mkcode_def code_of_def lits_of_def Let_def)
qed

lemma jmpoffset_patches:
  assumes "cctx_ok c" and "j + 1 < length (code_of c)"
  shows "\<exists>c'. arc_jmpoffset c j d = Some c' \<and> cctx_ok c'
    \<and> code_of c' = (code_of c)[j + 1 := Fix (int d - int j)] \<and> lits_of c' = lits_of c"
proof -
  obtain v where v: "VCODE c = Some v" "j + 1 < length v"
    using assms(2) by (auto simp: code_of_def split: option.splits)
  let ?c = "c \<lparr> VCODE := Some (v[j + 1 := Fix (int d - int j)]) \<rparr>"
  have "arc_jmpoffset c j d = Some ?c" using v by (simp add: arc_jmpoffset_def)
  moreover have "cctx_ok ?c" using assms(1) v(1) by (simp add: cctx_ok_def buf_ok_def)
  moreover have "code_of ?c = (code_of c)[j + 1 := Fix (int d - int j)]"
    using v(1) by (simp add: code_of_def take_update_swap)
  ultimately show ?thesis by (auto simp: lits_of_def)
qed

end
