(* ===== verification/Alloc.thy ===== *)
theory Alloc
  imports Values
begin

text \<open>
  The block allocator and the incremental collector of \<open>src/src/alloc.c\<close> and
  \<open>src/src/alloc.h\<close>. A block is named by the address of its header; the linked lists through
  \<open>_next\<close> (the list of allocated blocks, the free list of each size, the pages of each size)
  are lists of addresses. The words of a header are modelled twice: bit by bit in the first
  section, and as the functions \<open>bsize\<close>, \<open>ballocp\<close> and \<open>bcolour\<close> of the state in the rest.
  Memory obtained from the system is an argument.
\<close>

subsection \<open>Header words\<close>

definition BSSIZE :: "u64 \<Rightarrow> u64 \<Rightarrow> u64" where
  "BSSIZE w sz = (w AND 0x03) OR push_bit 3 sz"

definition BSIZE :: "u64 \<Rightarrow> u64" where
  "BSIZE w = drop_bit 3 w"

definition BALLOC :: "u64 \<Rightarrow> u64" where
  "BALLOC w = w OR 0x1"

definition BFREE :: "u64 \<Rightarrow> u64" where
  "BFREE w = w AND NOT 0x1"

definition BALLOCP :: "u64 \<Rightarrow> bool" where
  "BALLOCP w \<longleftrightarrow> w AND 0x1 = 0x1"

definition BSCOLOUR :: "u64 \<Rightarrow> u64 \<Rightarrow> u64" where
  "BSCOLOUR w colour = (w AND NOT 0x06) OR push_bit 1 colour"

definition BCOLOUR :: "u64 \<Rightarrow> u64" where
  "BCOLOUR w = drop_bit 1 w AND 0x03"

definition ALIGN_SIZE :: "nat \<Rightarrow> nat" where
  "ALIGN_SIZE sz = (sz + 15) div 16 * 16"

definition MAX_BIBOP :: nat where
  "MAX_BIBOP = 512"

definition BIBOP_PAGE_SIZE :: nat where
  "BIBOP_PAGE_SIZE = 64"

definition GCQUANTA :: int where
  "GCQUANTA = 64"

definition GCMAXQUANTA :: int where
  "GCMAXQUANTA = GCQUANTA * 64"

definition PROPAGATOR :: nat where
  "PROPAGATOR = 3"

definition MAX_MARK_RECURSION :: int where
  "MAX_MARK_RECURSION = 16"

subsection \<open>State\<close>

record mm_ctx =
  bsize :: "nat \<Rightarrow> nat"
  ballocp :: "nat \<Rightarrow> bool"
  bcolour :: "nat \<Rightarrow> nat"
  bibop_fl :: "nat \<Rightarrow> nat list"
  bibop_pages :: "nat \<Rightarrow> nat list list"
  alloc_head :: "nat list"
  usedmem :: int
  gcquantum :: int
  gcepochs :: nat
  gccolour :: nat
  gcptr :: "nat option"
  gcpptr :: "nat option"
  visit :: int
  gce :: int
  gct :: int
  nprop :: bool
  mutator :: nat
  marker :: nat
  sweeper :: nat
  released :: "nat list"

definition arc_init_memmgr :: mm_ctx where
  "arc_init_memmgr = \<lparr> bsize = (\<lambda>_. 0), ballocp = (\<lambda>_. False), bcolour = (\<lambda>_. 0),
     bibop_fl = (\<lambda>_. []), bibop_pages = (\<lambda>_. []), alloc_head = [], usedmem = 0,
     gcquantum = GCQUANTA, gcepochs = 0, gccolour = 3, gcptr = None, gcpptr = None,
     visit = 0, gce = 0, gct = 1, nprop = False, mutator = 0, marker = 1, sweeper = 2,
     released = [] \<rparr>"

definition set_size :: "nat \<Rightarrow> nat \<Rightarrow> mm_ctx \<Rightarrow> mm_ctx" where
  "set_size h sz c = c \<lparr> bsize := (bsize c)(h := sz) \<rparr>"

definition set_alloc :: "nat \<Rightarrow> bool \<Rightarrow> mm_ctx \<Rightarrow> mm_ctx" where
  "set_alloc h b c = c \<lparr> ballocp := (ballocp c)(h := b) \<rparr>"

definition set_colour :: "nat \<Rightarrow> nat \<Rightarrow> mm_ctx \<Rightarrow> mm_ctx" where
  "set_colour h col c = c \<lparr> bcolour := (bcolour c)(h := col) \<rparr>"

subsection \<open>Allocation\<close>

text \<open>One block of a new page: sized, marked free and pushed on the free list.\<close>

definition page_block :: "nat \<Rightarrow> nat \<Rightarrow> mm_ctx \<Rightarrow> mm_ctx" where
  "page_block osize h c =
     (let c = set_size h osize c; c = set_alloc h False c in
      c \<lparr> bibop_fl := (bibop_fl c)(osize := h # bibop_fl c osize) \<rparr>)"

text \<open>A new page; \<open>pg\<close> are the addresses of its blocks.\<close>

definition new_page :: "nat \<Rightarrow> nat list \<Rightarrow> mm_ctx \<Rightarrow> mm_ctx" where
  "new_page osize pg c =
     fold (page_block osize) pg
       (c \<lparr> bibop_pages := (bibop_pages c)(osize := pg # bibop_pages c osize) \<rparr>)"

text \<open>The common end of both allocators: colour, flag and link the block.\<close>

definition link_block :: "nat \<Rightarrow> nat \<Rightarrow> mm_ctx \<Rightarrow> nat \<times> mm_ctx" where
  "link_block osize h c =
     (let c = c \<lparr> usedmem := usedmem c + int osize \<rparr>;
          c = set_size h osize c; c = set_alloc h True c; c = set_colour h (mutator c) c in
      (h, c \<lparr> alloc_head := h # alloc_head c \<rparr>))"

definition bibop_alloc :: "nat \<Rightarrow> nat list \<Rightarrow> mm_ctx \<Rightarrow> (nat \<times> mm_ctx) option" where
  "bibop_alloc osize pg c =
     (let c = (if bibop_fl c osize = [] then new_page osize pg c else c) in
      case bibop_fl c osize of
        [] \<Rightarrow> None
      | h # t \<Rightarrow> Some (link_block osize h (c \<lparr> bibop_fl := (bibop_fl c)(osize := t) \<rparr>)))"

text \<open>\<open>sys\<close> is the memory from the system: the blocks of a page, or the one large block.\<close>

definition arc_alloc :: "nat \<Rightarrow> nat list \<Rightarrow> mm_ctx \<Rightarrow> (nat \<times> mm_ctx) option" where
  "arc_alloc osize sys c =
     (if osize \<le> MAX_BIBOP then bibop_alloc osize sys c
      else (case sys of [] \<Rightarrow> None | h # _ \<Rightarrow> Some (link_block osize h c)))"

text \<open>\<open>B2NB(h)\<close>: the list after \<open>h\<close>.\<close>

fun after :: "nat \<Rightarrow> nat list \<Rightarrow> nat list" where
  "after h [] = []"
| "after h (x # xs) = (if x = h then xs else after h xs)"

text \<open>\<open>p->_next = B2NB(h)\<close>: the list up to \<open>p\<close>, then the list after \<open>h\<close>.\<close>

fun relink :: "nat \<Rightarrow> nat list \<Rightarrow> nat list \<Rightarrow> nat list" where
  "relink p [] rest = []"
| "relink p (x # xs) rest = (if x = p then x # rest else x # relink p xs rest)"

definition free_block :: "nat \<Rightarrow> nat option \<Rightarrow> mm_ctx \<Rightarrow> mm_ctx" where
  "free_block h prevblk c =
     (let rest = after h (alloc_head c);
          c = (case prevblk of
                 None \<Rightarrow> c \<lparr> alloc_head := rest \<rparr>
               | Some p \<Rightarrow> c \<lparr> alloc_head := relink p (alloc_head c) rest \<rparr>);
          c = c \<lparr> usedmem := usedmem c - int (bsize c h) \<rparr> in
      if bsize c h \<le> MAX_BIBOP then
        (let c = set_alloc h False c in
         c \<lparr> bibop_fl := (bibop_fl c)(bsize c h := h # bibop_fl c (bsize c h)) \<rparr>)
      else c \<lparr> released := h # released c \<rparr>)"

subsection \<open>Marking\<close>

definition SETMARK :: "nat \<Rightarrow> mm_ctx \<Rightarrow> mm_ctx" where
  "SETMARK b c = (if bcolour c b \<noteq> mutator c
     then (set_colour b PROPAGATOR c) \<lparr> nprop := True \<rparr> else c)"

text \<open>
  Marking a block. \<open>kids\<close> are the blocks its type's marker visits, in order, those of the two
  symbol-table buckets in place of a symbol.
\<close>

function mark :: "(nat \<Rightarrow> nat list) \<Rightarrow> nat \<Rightarrow> int \<Rightarrow> mm_ctx \<Rightarrow> mm_ctx" where
  "mark kids h depth c =
     (if depth < 0 then set_colour h (mutator c) (c \<lparr> visit := visit c - 1 \<rparr>)
      else
        (let c = SETMARK h c; c = c \<lparr> visit := visit c - 1 \<rparr> in
         if visit c \<ge> 0 \<and> depth < MAX_MARK_RECURSION then
           (let c = c \<lparr> gce := gce c - 1 \<rparr>; c = set_colour h (mutator c) c in
            fold (\<lambda>k c. mark kids k (depth + 1) c) (kids h) c)
         else c))"
  by pat_completeness auto

termination mark
  by (relation "measure (\<lambda>(_, _, d, _). nat (MAX_MARK_RECURSION - d))") (auto simp: MAX_MARK_RECURSION_def)

declare mark.simps [simp del]

subsection \<open>The collector\<close>

text \<open>
  The loop of \<open>gc\<close> over the allocated blocks that are left; \<open>kids\<close> as above. A swept block's
  own sweeper (which clears its slot in a weak table) is modelled in the theory of tables.
\<close>

fun gc_loop :: "(nat \<Rightarrow> nat list) \<Rightarrow> nat list \<Rightarrow> mm_ctx \<Rightarrow> mm_ctx" where
  "gc_loop kids [] c = c \<lparr> gcptr := None \<rparr>"
| "gc_loop kids (b # rest) c =
     (if visit c \<le> 0 then c \<lparr> gcptr := Some b \<rparr>
      else if bcolour c b = PROPAGATOR then
        gc_loop kids rest ((mark kids b 0 (c \<lparr> gce := gce c - 1 \<rparr>)) \<lparr> gcpptr := Some b \<rparr>)
      else if bcolour c b = sweeper c then
        gc_loop kids rest (free_block b (gcpptr c) (c \<lparr> gce := gce c + 1 \<rparr>))
      else gc_loop kids rest (c \<lparr> gct := gct c + 1, gcpptr := Some b \<rparr>))"

text \<open>C division truncates towards zero.\<close>

definition cdiv :: "int \<Rightarrow> int \<Rightarrow> int" where
  "cdiv a b = sgn a * sgn b * (\<bar>a\<bar> div \<bar>b\<bar>)"

definition next_quantum :: "mm_ctx \<Rightarrow> int" where
  "next_quantum c =
     (let q = cdiv (GCMAXQUANTA - GCQUANTA) 2
              + cdiv (cdiv (GCMAXQUANTA - GCQUANTA) 20 * 100 * gce c) (gct c);
          q = (if q < GCQUANTA then GCQUANTA else q) in
      if q > GCMAXQUANTA then GCMAXQUANTA else q)"

text \<open>One page of \<open>free_unused_bibop\<close>: is it empty, and its free blocks up to the first one in use.\<close>

fun scan_page :: "(nat \<Rightarrow> bool) \<Rightarrow> nat list \<Rightarrow> nat list \<Rightarrow> bool \<times> nat list" where
  "scan_page used [] pfl = (True, pfl)"
| "scan_page used (h # pg) pfl = (if used h then (False, pfl) else scan_page used pg (h # pfl))"

fun free_pages :: "(nat \<Rightarrow> bool) \<Rightarrow> nat list list \<Rightarrow> nat list \<Rightarrow> nat list list \<times> nat list" where
  "free_pages used [] nfl = ([], nfl)"
| "free_pages used (pg # pgs) nfl =
     (case scan_page used pg [] of
        (True, _) \<Rightarrow> free_pages used pgs nfl
      | (False, pfl) \<Rightarrow>
          (let (keep, nfl') = free_pages used pgs (pfl @ nfl) in (pg # keep, nfl')))"

definition free_unused_bibop :: "mm_ctx \<Rightarrow> mm_ctx" where
  "free_unused_bibop c =
     c \<lparr> bibop_pages := (\<lambda>i. if i \<le> MAX_BIBOP
                              then fst (free_pages (ballocp c) (bibop_pages c i) []) else bibop_pages c i),
         bibop_fl := (\<lambda>i. if i \<le> MAX_BIBOP
                              then snd (free_pages (ballocp c) (bibop_pages c i) []) else bibop_fl c i) \<rparr>"

text \<open>\<open>MARKPROP\<close> of each root.\<close>

definition markroots :: "nat list \<Rightarrow> mm_ctx \<Rightarrow> mm_ctx" where
  "markroots roots c = fold SETMARK roots c"

definition new_epoch :: "nat list \<Rightarrow> mm_ctx \<Rightarrow> mm_ctx" where
  "new_epoch roots c =
     (let c = c \<lparr> gcepochs := gcepochs c + 1, gccolour := gccolour c + 1 \<rparr>;
          c = c \<lparr> mutator := gccolour c mod 3, marker := (gccolour c - 1) mod 3,
                  sweeper := (gccolour c - 2) mod 3, gce := 0, gct := 1 \<rparr> in
      free_unused_bibop (markroots roots c))"

text \<open>One call of the collector; the result is its return value and the new state.\<close>

definition gc :: "(nat \<Rightarrow> nat list) \<Rightarrow> nat list \<Rightarrow> mm_ctx \<Rightarrow> bool \<times> mm_ctx" where
  "gc kids roots c =
     (let (rest, c) = (case gcptr c of
            None \<Rightarrow> (alloc_head c, c \<lparr> gcpptr := None \<rparr>)
          | Some b \<Rightarrow> (b # after b (alloc_head c), c));
          c = gc_loop kids rest (c \<lparr> visit := gcquantum c \<rparr>);
          c = c \<lparr> gcquantum := next_quantum c \<rparr> in
      if gcptr c \<noteq> None then (False, c)
      else if \<not> nprop c then (gccolour c mod 3 = 0, (new_epoch roots c) \<lparr> nprop := False \<rparr>)
      else (False, c \<lparr> nprop := False \<rparr>))"

subsection \<open>Header words keep their parts apart\<close>

lemma BALLOCP_bit: "BALLOCP w \<longleftrightarrow> bit w 0"
  by (simp add: BALLOCP_def and_one_eq bit_0 odd_iff_mod_2_eq_one)

lemma BCOLOUR_bits: "BCOLOUR w = take_bit 2 (drop_bit 1 w)"
proof -
  have "(3 :: u64) = mask 2" by (simp add: mask_eq_exp_minus_1)
  then show ?thesis unfolding BCOLOUR_def by (simp add: take_bit_eq_mask)
qed

lemma bit_6: "bit (6 :: u64) n \<longleftrightarrow> n = 1 \<or> n = 2"
proof -
  have "(6 :: u64) = push_bit 1 (mask 2)" by (simp add: mask_eq_exp_minus_1)
  then show ?thesis by (auto simp only: bit_push_bit_iff bit_mask_iff possible_bit_word) auto
qed

lemma bit_3: "bit (3 :: u64) n \<longleftrightarrow> n < 2"
proof -
  have "(3 :: u64) = mask 2" by (simp add: mask_eq_exp_minus_1)
  then show ?thesis by (auto simp only: bit_mask_iff possible_bit_word) auto
qed

lemma small_bit: "(x :: u64) < 2 ^ k \<Longrightarrow> bit x n \<Longrightarrow> k < 64 \<Longrightarrow> n < k"
  by (metis bit_take_bit_iff less_mask_eq take_bit_eq_mask)

lemma bit_BSCOLOUR:
  assumes "col \<le> 3"
  shows "bit (BSCOLOUR w col) n \<longleftrightarrow> (if n = 1 \<or> n = 2 then bit col (n - 1) else bit w n)"
proof -
  have col: "bit col n \<Longrightarrow> n < 2" for n
    using assms by (intro small_bit [of col 2]) (simp_all add: word_le_nat_alt word_less_nat_alt)
  have "bit (push_bit 1 col) n \<longleftrightarrow> 1 \<le> n \<and> n < 64 \<and> bit col (n - 1)"
    by (auto simp only: bit_push_bit_iff possible_bit_word) auto
  moreover have "bit col (n - 1) \<Longrightarrow> n = 0 \<or> n = 1 \<or> n = 2" using col [of "n - 1"] by auto
  ultimately have "bit (push_bit 1 col) n \<longleftrightarrow> (n = 1 \<or> n = 2) \<and> bit col (n - 1)" by auto
  then show ?thesis
    unfolding BSCOLOUR_def bit_or_iff bit_and_iff bit_not_iff bit_6
    by (auto dest: bit_imp_le_length)
qed

lemma bit_BALLOC: "bit (BALLOC w) n \<longleftrightarrow> n = 0 \<or> bit w n"
  by (auto simp: BALLOC_def bit_or_iff bit_1_iff)

lemma bit_BFREE: "bit (BFREE w) n \<longleftrightarrow> n \<noteq> 0 \<and> bit w n"
  unfolding BFREE_def bit_and_iff bit_not_iff by (auto simp: bit_1_iff dest: bit_imp_le_length)

lemma bit_BSSIZE:
  assumes "sz < 2 ^ 61"
  shows "bit (BSSIZE w sz) n \<longleftrightarrow> (if n < 2 then bit w n else 3 \<le> n \<and> bit sz (n - 3))"
proof -
  have sz: "bit sz n \<Longrightarrow> n < 61" for n
    using assms by (intro small_bit [of sz 61]) simp_all
  have "bit (push_bit 3 sz) n \<longleftrightarrow> 3 \<le> n \<and> bit sz (n - 3)"
    using sz [of "n - 3"] by (auto simp only: bit_push_bit_iff possible_bit_word) auto
  then show ?thesis unfolding BSSIZE_def bit_or_iff bit_and_iff bit_3 by auto
qed

lemma bit_BSIZE: "bit (BSIZE w) n \<longleftrightarrow> bit w (3 + n)"
  by (simp add: BSIZE_def bit_drop_bit_eq)

lemma bit_BCOLOUR: "bit (BCOLOUR w) n \<longleftrightarrow> n < 2 \<and> bit w (1 + n)"
  by (simp add: BCOLOUR_bits bit_take_bit_iff bit_drop_bit_eq)

text \<open>
  The flag, the colour and the size of a header are independent: setting one leaves
  the others, except that \<open>BSSIZE\<close> keeps only the low bit of the colour.
\<close>

lemma header_fields:
  assumes "col \<le> 3" and "sz < 2 ^ 61"
  shows "BSIZE (BSCOLOUR w col) = BSIZE w \<and> BALLOCP (BSCOLOUR w col) = BALLOCP w \<and> BCOLOUR (BSCOLOUR w col) = col
    \<and> BSIZE (BALLOC w) = BSIZE w \<and> BCOLOUR (BALLOC w) = BCOLOUR w \<and> BALLOCP (BALLOC w)
    \<and> BSIZE (BFREE w) = BSIZE w \<and> BCOLOUR (BFREE w) = BCOLOUR w \<and> \<not> BALLOCP (BFREE w)
    \<and> BSIZE (BSSIZE w sz) = sz \<and> BALLOCP (BSSIZE w sz) = BALLOCP w \<and> BCOLOUR (BSSIZE w sz) = BCOLOUR w AND 1"
proof -
  note bits = bit_BSCOLOUR [OF assms(1)] bit_BSSIZE [OF assms(2)] bit_BALLOC bit_BFREE bit_BSIZE bit_BCOLOUR
  have col: "bit col n \<Longrightarrow> n < 2" for n
    using assms(1) by (intro small_bit [of col 2]) (simp_all add: word_le_nat_alt word_less_nat_alt)
  have "BSIZE (BSCOLOUR w col) = BSIZE w" "BSIZE (BALLOC w) = BSIZE w" "BSIZE (BFREE w) = BSIZE w"
    "BSIZE (BSSIZE w sz) = sz"
    by (rule bit_word_eqI; simp add: bits)+
  moreover have "BCOLOUR (BSCOLOUR w col) = col"
    by (rule bit_word_eqI) (auto simp add: bits dest: col)
  moreover have "BCOLOUR (BALLOC w) = BCOLOUR w" "BCOLOUR (BFREE w) = BCOLOUR w"
    "BCOLOUR (BSSIZE w sz) = BCOLOUR w AND 1"
    by (rule bit_word_eqI; auto simp add: bits bit_and_iff bit_1_iff)+
  ultimately show ?thesis by (simp add: BALLOCP_bit bits)
qed

subsection \<open>Marking\<close>

definition grey_black :: "mm_ctx \<Rightarrow> nat \<Rightarrow> bool" where
  "grey_black c b \<longleftrightarrow> bcolour c b = mutator c \<or> bcolour c b = PROPAGATOR"

text \<open>
  From \<open>c\<close> to \<open>c'\<close> blocks only became marked or propagators, and what became marked has its
  children marked or propagators, except for the blocks in \<open>X\<close>.
\<close>

definition mext :: "(nat \<Rightarrow> nat list) \<Rightarrow> nat set \<Rightarrow> mm_ctx \<Rightarrow> mm_ctx \<Rightarrow> bool" where
  "mext kids X c c' \<longleftrightarrow>
     c' = c \<lparr> bcolour := bcolour c', visit := visit c', gce := gce c', nprop := nprop c' \<rparr>
     \<and> (nprop c \<longrightarrow> nprop c')
     \<and> (\<forall>b. bcolour c b = mutator c \<longrightarrow> bcolour c' b = mutator c)
     \<and> (\<forall>b. bcolour c' b = bcolour c b \<or> grey_black c' b)
     \<and> (\<forall>b. bcolour c' b = mutator c \<longrightarrow> bcolour c b = mutator c \<or> (\<forall>k \<in> set (kids b). grey_black c' k) \<or> b \<in> X)"

lemma mext_frame:
  assumes "mext kids X c c'"
  shows "mutator c' = mutator c" "alloc_head c' = alloc_head c" "bsize c' = bsize c" "ballocp c' = ballocp c"
    "sweeper c' = sweeper c" "marker c' = marker c" "bibop_fl c' = bibop_fl c" "bibop_pages c' = bibop_pages c"
    "gcptr c' = gcptr c" "gcpptr c' = gcpptr c" "gccolour c' = gccolour c" "gct c' = gct c" "gcquantum c' = gcquantum c"
    "usedmem c' = usedmem c" "released c' = released c" "gcepochs c' = gcepochs c"
proof -
  have "c' = c \<lparr> bcolour := bcolour c', visit := visit c', gce := gce c', nprop := nprop c' \<rparr>"
    using assms by (simp add: mext_def)
  then obtain x y z w where "c' = c \<lparr> bcolour := x, visit := y, gce := z, nprop := w \<rparr>" by blast
  then show "mutator c' = mutator c" "alloc_head c' = alloc_head c" "bsize c' = bsize c" "ballocp c' = ballocp c"
    "sweeper c' = sweeper c" "marker c' = marker c" "bibop_fl c' = bibop_fl c" "bibop_pages c' = bibop_pages c"
    "gcptr c' = gcptr c" "gcpptr c' = gcpptr c" "gccolour c' = gccolour c" "gct c' = gct c" "gcquantum c' = gcquantum c"
    "usedmem c' = usedmem c" "released c' = released c" "gcepochs c' = gcepochs c"
    by simp_all
qed

lemma mext_grey: "mext kids X c c' \<Longrightarrow> grey_black c b \<Longrightarrow> grey_black c' b"
proof -
  assume e: "mext kids X c c'" and g: "grey_black c b"
  have "bcolour c' b = bcolour c b \<or> grey_black c' b" using e unfolding mext_def by blast
  moreover have "bcolour c b = mutator c \<Longrightarrow> bcolour c' b = mutator c" using e unfolding mext_def by blast
  ultimately show ?thesis using g mext_frame(1) [OF e] by (auto simp: grey_black_def)
qed

lemma mext_refl: "mext kids {} c c"
proof -
  have "c = c \<lparr> bcolour := bcolour c, visit := visit c, gce := gce c, nprop := nprop c \<rparr>" by simp
  then show ?thesis unfolding mext_def by blast
qed

lemma mext_trans:
  assumes "mext kids X c c'" and "mext kids {} c' c''" and "\<And>b k. b \<in> X \<Longrightarrow> k \<in> set (kids b) \<Longrightarrow> grey_black c'' k"
  shows "mext kids {} c c''"
proof -
  have m: "mutator c' = mutator c" "mutator c'' = mutator c" using mext_frame(1) assms(1,2) by metis+
  have f: "c' = c \<lparr> bcolour := bcolour c', visit := visit c', gce := gce c', nprop := nprop c' \<rparr>"
     "c'' = c' \<lparr> bcolour := bcolour c'', visit := visit c'', gce := gce c'', nprop := nprop c'' \<rparr>"
    using assms(1,2) unfolding mext_def by blast+
  have "c'' = c \<lparr> bcolour := bcolour c'', visit := visit c'', gce := gce c'', nprop := nprop c'' \<rparr>"
    by (subst f(2), subst f(1)) simp
  moreover have "nprop c \<longrightarrow> nprop c''" using assms(1,2) unfolding mext_def by blast
  moreover have "\<forall>b. bcolour c b = mutator c \<longrightarrow> bcolour c'' b = mutator c"
    using assms(1,2) m unfolding mext_def by metis
  moreover have "bcolour c'' b = bcolour c b \<or> grey_black c'' b" for b
  proof -
    have "bcolour c'' b = bcolour c' b \<or> grey_black c'' b" using assms(2) unfolding mext_def by blast
    moreover have "bcolour c' b = bcolour c b \<or> grey_black c' b" using assms(1) unfolding mext_def by blast
    ultimately show ?thesis using mext_grey [OF assms(2)] by metis
  qed
  moreover have "bcolour c b = mutator c \<or> (\<forall>k \<in> set (kids b). grey_black c'' k)" if "bcolour c'' b = mutator c" for b
  proof -
    have "bcolour c'' b = mutator c'" using that m by simp
    then have "bcolour c' b = mutator c' \<or> (\<forall>k \<in> set (kids b). grey_black c'' k)"
      using assms(2) unfolding mext_def by blast
    then consider "bcolour c' b = mutator c" | "\<forall>k \<in> set (kids b). grey_black c'' k"
      using m(1) by auto
    then show ?thesis
    proof cases
      case 1
      then have "bcolour c b = mutator c \<or> (\<forall>k \<in> set (kids b). grey_black c' k) \<or> b \<in> X"
        using assms(1) unfolding mext_def by blast
      then show ?thesis using mext_grey [OF assms(2)] assms(3) by blast
    qed blast
  qed
  ultimately show ?thesis unfolding mext_def by blast
qed

lemma mext_fold:
  assumes "\<And>k c. mutator c < 3 \<Longrightarrow> mext kids {} c (f k c) \<and> grey_black (f k c) k"
  shows "mutator c < 3 \<Longrightarrow> mext kids {} c (fold f ks c) \<and> (\<forall>k \<in> set ks. grey_black (fold f ks c) k)"
proof (induction ks arbitrary: c)
  case (Cons k ks)
  note k = assms [OF Cons.prems, of k]
  have "mutator (f k c) < 3" using mext_frame(1) k Cons.prems by metis
  note r = Cons.IH [OF this]
  have "mext kids {} c (fold f ks (f k c))" using k r mext_trans [of kids "{}" c "f k c"] by blast
  moreover have "grey_black (fold f ks (f k c)) k" using k r mext_grey by blast
  ultimately show ?case using r by simp
qed (simp add: mext_refl)

lemma mark_mext:
  "0 \<le> d \<Longrightarrow> mutator c < 3 \<Longrightarrow> mext kids {} c (mark kids h d c) \<and> grey_black (mark kids h d c) h"
proof (induction "nat (MAX_MARK_RECURSION - d)" arbitrary: h d c rule: less_induct)
  case less
  define c1 where "c1 = (SETMARK h c) \<lparr> visit := visit (SETMARK h c) - 1 \<rparr>"
  have m1: "mutator c1 = mutator c" by (simp add: c1_def SETMARK_def set_colour_def)
  have g1: "grey_black c1 h" by (simp add: c1_def SETMARK_def set_colour_def grey_black_def)
  have e1: "mext kids {} c c1"
    using less.prems(2) by (auto simp: c1_def mext_def SETMARK_def set_colour_def grey_black_def PROPAGATOR_def)
  show ?case
  proof (cases "visit c1 \<ge> 0 \<and> d < MAX_MARK_RECURSION")
    case False
    then have "mark kids h d c = c1"
      using less.prems(1) by (subst mark.simps) (auto simp add: c1_def Let_def)
    then show ?thesis using e1 g1 by simp
  next
    case True
    define c2 where "c2 = set_colour h (mutator c1) (c1 \<lparr> gce := gce c1 - 1 \<rparr>)"
    define c3 where "c3 = fold (\<lambda>k c. mark kids k (d + 1) c) (kids h) c2"
    have mk: "mark kids h d c = c3"
      using less.prems(1) True by (subst mark.simps) (simp add: c1_def c2_def c3_def Let_def)
    have m2: "mutator c2 = mutator c" by (simp add: c2_def set_colour_def m1)
    have e2: "mext kids {h} c c2"
    proof -
      have "mext kids {h} c1 c2" using less.prems(2) by (auto simp: mext_def c2_def set_colour_def grey_black_def)
      then show ?thesis using e1 less.prems(2) m1
        unfolding mext_def c1_def c2_def by (auto simp: SETMARK_def set_colour_def grey_black_def)
    qed
    have "mext kids {} c2 c3 \<and> (\<forall>k \<in> set (kids h). grey_black c3 k)"
      unfolding c3_def using less.prems True m2 by (intro mext_fold less.hyps) auto
    then show ?thesis
      unfolding mk using e2 mext_trans [of kids "{h}" c c2 c3] mext_grey [of kids "{}" c2 c3 h]
      by (auto simp: grey_black_def c2_def set_colour_def)
  qed
qed

subsection \<open>The collector keeps what is reachable\<close>

text \<open>The blocks reachable from the roots through \<open>kids\<close>.\<close>

inductive reach :: "(nat \<Rightarrow> nat list) \<Rightarrow> nat list \<Rightarrow> nat \<Rightarrow> bool" for kids roots where
  reach_root: "r \<in> set roots \<Longrightarrow> reach kids roots r"
| reach_kid: "reach kids roots b \<Longrightarrow> k \<in> set (kids b) \<Longrightarrow> reach kids roots k"

definition colours_ok :: "mm_ctx \<Rightarrow> bool" where
  "colours_ok c \<longleftrightarrow> mutator c = gccolour c mod 3 \<and> 1 \<le> gccolour c \<and> sweeper c < 3 \<and> sweeper c \<noteq> mutator c
     \<and> (sweeper c = (gccolour c + 1) mod 3 \<or> (\<forall>b \<in> set (alloc_head c). grey_black c b))"

definition swept :: "mm_ctx \<Rightarrow> nat list \<Rightarrow> bool" where
  "swept c pre \<longleftrightarrow> (\<forall>x \<in> set pre. bcolour c x \<noteq> sweeper c \<and> (\<not> nprop c \<longrightarrow> bcolour c x \<noteq> PROPAGATOR))"

definition lastopt :: "nat list \<Rightarrow> nat option" where
  "lastopt pre = (if pre = [] then None else Some (last pre))"

text \<open>The invariant during a pass: \<open>pre\<close> has been visited, \<open>rest\<close> has not.\<close>

definition pass_inv :: "(nat \<Rightarrow> nat list) \<Rightarrow> nat list \<Rightarrow> nat list \<Rightarrow> nat list \<Rightarrow> mm_ctx \<Rightarrow> bool" where
  "pass_inv kids roots pre rest c \<longleftrightarrow>
     alloc_head c = pre @ rest \<and> distinct (pre @ rest) \<and> colours_ok c \<and> swept c pre \<and> gcpptr c = lastopt pre
     \<and> (\<forall>b. reach kids roots b \<longrightarrow> b \<in> set (alloc_head c) \<and> bcolour c b \<noteq> sweeper c)
     \<and> (\<forall>r \<in> set roots. grey_black c r)
     \<and> (\<forall>b \<in> set (alloc_head c). bcolour c b = mutator c \<longrightarrow> (\<forall>k \<in> set (kids b). grey_black c k))"

lemma pass_inv_cong:
  assumes "alloc_head c' = alloc_head c" "bcolour c' = bcolour c" "mutator c' = mutator c" "sweeper c' = sweeper c"
    "gccolour c' = gccolour c" "gcpptr c' = gcpptr c" "nprop c' = nprop c"
  shows "pass_inv kids roots pre rest c' = pass_inv kids roots pre rest c"
  unfolding pass_inv_def colours_ok_def swept_def grey_black_def assms ..

lemma mutator_lt: "colours_ok c \<Longrightarrow> mutator c < 3"
  by (simp add: colours_ok_def)

lemma mark_nprop:
  assumes "0 \<le> d" and "mutator c < 3" and "bcolour c b = PROPAGATOR"
  shows "nprop (mark kids b d c)"
proof -
  have "nprop (SETMARK b c)" using assms(2,3) by (simp add: SETMARK_def PROPAGATOR_def)
  define c2 where "c2 = set_colour b (mutator (SETMARK b c)) ((SETMARK b c) \<lparr> visit := visit (SETMARK b c) - 1, gce := gce (SETMARK b c) - 1 \<rparr>)"
  have m2: "mutator c2 = mutator c" "nprop c2" using \<open>nprop (SETMARK b c)\<close> by (simp_all add: c2_def set_colour_def SETMARK_def)
  have "mext kids {} c2 (fold (\<lambda>k c. mark kids k (d + 1) c) (kids b) c2)"
    using m2(1) assms(1,2) mark_mext by (intro mext_fold [THEN conjunct1]) auto
  then have "nprop (fold (\<lambda>k c. mark kids k (d + 1) c) (kids b) c2)" using m2(2) by (auto simp: mext_def)
  then show ?thesis
    using assms(1) \<open>nprop (SETMARK b c)\<close> by (subst mark.simps) (auto simp: Let_def c2_def)
qed

lemma mext_inv:
  assumes "pass_inv kids roots pre (b # rest) c" and "mext kids {} c c'" and "nprop c'" and "grey_black c' b"
  shows "pass_inv kids roots (pre @ [b]) rest (c' \<lparr> gcpptr := Some b \<rparr>)"
proof -
  note p = assms(1) [unfolded pass_inv_def] and f = mext_frame [OF assms(2)]
  have colok: "mutator c < 3" "sweeper c < 3" "sweeper c \<noteq> mutator c" using p by (auto simp: colours_ok_def)
  have gb: "grey_black c' x \<Longrightarrow> bcolour c' x \<noteq> sweeper c" for x
    using colok f(1) by (auto simp: grey_black_def PROPAGATOR_def)
  have keep: "bcolour c x \<noteq> sweeper c \<Longrightarrow> bcolour c' x \<noteq> sweeper c" for x
    using assms(2) gb [of x] unfolding mext_def by metis
  have "colours_ok c'"
    using p f mext_grey [OF assms(2)] unfolding colours_ok_def by auto
  moreover have "swept c' (pre @ [b])"
    using p keep gb [OF assms(4)] assms(3) f(5) by (auto simp: swept_def)
  moreover have "grey_black c' k" if "x \<in> set (alloc_head c)" "bcolour c' x = mutator c" "k \<in> set (kids x)" for x k
  proof -
    have "bcolour c x = mutator c \<or> (\<forall>k \<in> set (kids x). grey_black c' k)"
      using assms(2) that(2) unfolding mext_def by blast
    then show ?thesis using p that mext_grey [OF assms(2)] by blast
  qed
  moreover have "\<forall>r \<in> set roots. grey_black c' r" using p mext_grey [OF assms(2)] by blast
  moreover have "\<forall>b. reach kids roots b \<longrightarrow> b \<in> set (alloc_head c') \<and> bcolour c' b \<noteq> sweeper c"
    using p keep f(2) by auto
  ultimately show ?thesis
    using p f unfolding pass_inv_def colours_ok_def swept_def grey_black_def lastopt_def by simp
qed

lemma after_mid: "x \<notin> set xs \<Longrightarrow> after x (xs @ x # ys) = ys"
  by (induction xs) auto

lemma relink_mid: "x \<notin> set xs \<Longrightarrow> relink x (xs @ x # ys) zs = xs @ x # zs"
  by (induction xs) auto

lemma free_block_unlinks:
  assumes "alloc_head c = pre @ b # rest" and "distinct (pre @ b # rest)" and "gcpptr c = lastopt pre"
  shows "alloc_head (free_block b (gcpptr c) c) = pre @ rest"
proof (cases pre rule: rev_cases)
  case Nil
  then show ?thesis using assms by (simp add: free_block_def Let_def lastopt_def set_alloc_def)
next
  case (snoc xs x)
  then have "after b (alloc_head c) = rest" "relink x (alloc_head c) rest = pre @ rest"
    using assms after_mid [of b pre rest] relink_mid [of x xs "b # rest" rest] by auto
  then show ?thesis
    using assms(3) snoc by (simp add: free_block_def Let_def lastopt_def set_alloc_def)
qed

lemma free_block_frame:
  "bcolour (free_block b p c) = bcolour c" "mutator (free_block b p c) = mutator c" "sweeper (free_block b p c) = sweeper c"
  "gccolour (free_block b p c) = gccolour c" "gcpptr (free_block b p c) = gcpptr c" "nprop (free_block b p c) = nprop c"
  "visit (free_block b p c) = visit c" "gcptr (free_block b p c) = gcptr c" "gcquantum (free_block b p c) = gcquantum c"
  by (simp_all add: free_block_def Let_def set_alloc_def split: option.splits)

lemma sweep_inv:
  assumes "pass_inv kids roots pre (b # rest) c" and "bcolour c b = sweeper c"
  shows "pass_inv kids roots pre rest (free_block b (gcpptr c) c)"
proof -
  note p = assms(1) [unfolded pass_inv_def]
  have al: "alloc_head (free_block b (gcpptr c) c) = pre @ rest"
    using p by (intro free_block_unlinks) simp_all
  have "\<forall>x. reach kids roots x \<longrightarrow> x \<in> set (pre @ rest)" using p assms(2) by fastforce
  then show ?thesis
    using p unfolding pass_inv_def colours_ok_def swept_def grey_black_def free_block_frame al
    by (intro conjI; (elim conjE)?) (assumption | simp | blast)+
qed

lemma upd_simps [simp]:
  "colours_ok (c \<lparr> gct := x \<rparr>) = colours_ok c" "colours_ok (c \<lparr> gcpptr := y \<rparr>) = colours_ok c"
  "swept (c \<lparr> gct := x \<rparr>) pre = swept c pre" "swept (c \<lparr> gcpptr := y \<rparr>) pre = swept c pre"
  "grey_black (c \<lparr> gct := x \<rparr>) b = grey_black c b" "grey_black (c \<lparr> gcpptr := y \<rparr>) b = grey_black c b"
  by (simp_all add: colours_ok_def swept_def grey_black_def)

lemma skip_inv:
  assumes "pass_inv kids roots pre (b # rest) c" and "bcolour c b \<noteq> sweeper c" and "bcolour c b \<noteq> PROPAGATOR"
  shows "pass_inv kids roots (pre @ [b]) rest (c \<lparr> gct := gct c + 1, gcpptr := Some b \<rparr>)"
proof -
  note p = assms(1) [unfolded pass_inv_def]
  have "swept c (pre @ [b])" using p assms(2,3) by (simp add: swept_def)
  moreover have "alloc_head c = pre @ b # rest" using p by blast
  moreover from this have "\<forall>x. reach kids roots x \<longrightarrow> x \<in> set (pre @ b # rest)" using p by metis
  ultimately show ?thesis using p by (simp add: pass_inv_def lastopt_def)
qed

lemma inv_gce: "pass_inv kids roots pre rest (c \<lparr> gce := x \<rparr>) = pass_inv kids roots pre rest c"
  by (rule pass_inv_cong) simp_all

text \<open>The loop: it stops at the end of the list or, having visited something, at a block.\<close>

lemma gc_loop_inv:
  assumes "pass_inv kids roots pre rest c" and "pre = [] \<Longrightarrow> 0 < visit c"
  shows "\<exists>pre' rest'. pass_inv kids roots pre' rest' (gc_loop kids rest c)
    \<and> gcptr (gc_loop kids rest c) = (case rest' of [] \<Rightarrow> None | b # _ \<Rightarrow> Some b) \<and> (rest' = [] \<or> pre' \<noteq> [])
    \<and> gcquantum (gc_loop kids rest c) = gcquantum c \<and> gccolour (gc_loop kids rest c) = gccolour c"
  using assms
proof (induction rest arbitrary: pre c)
  case Nil
  then have "pass_inv kids roots pre [] (c \<lparr> gcptr := None \<rparr>)"
    using pass_inv_cong [of "c \<lparr> gcptr := None \<rparr>" c] by simp
  then show ?case by (intro exI [of _ pre] exI [of _ "[]"]) simp
next
  case (Cons b rest)
  note p = Cons.prems(1) [unfolded pass_inv_def]
  show ?case
  proof (cases "visit c \<le> 0")
    case True
    then have "pass_inv kids roots pre (b # rest) (c \<lparr> gcptr := Some b \<rparr>)"
      using Cons.prems(1) pass_inv_cong [of "c \<lparr> gcptr := Some b \<rparr>" c] by simp
    moreover have "gc_loop kids (b # rest) c = c \<lparr> gcptr := Some b \<rparr>" using True by simp
    moreover have "pre \<noteq> []" using True Cons.prems(2) by auto
    ultimately show ?thesis
      by (intro exI [of "\<lambda>p. \<exists>q. P p q" pre for P] exI [of _ "b # rest"]) simp
  next
    case visit: False
    show ?thesis
    proof (cases "bcolour c b = PROPAGATOR")
      case True
      let ?c = "mark kids b 0 (c \<lparr> gce := gce c - 1 \<rparr>)"
      have inv: "pass_inv kids roots pre (b # rest) (c \<lparr> gce := gce c - 1 \<rparr>)" using Cons.prems(1) by (simp add: inv_gce)
      have m: "mutator (c \<lparr> gce := gce c - 1 \<rparr>) < 3" using p mutator_lt by auto
      note e = mark_mext [OF order_refl m, of kids b]
      have np: "nprop ?c" using True m by (intro mark_nprop) simp_all
      from mext_inv [OF inv e [THEN conjunct1] np e [THEN conjunct2]]
      have "pass_inv kids roots (pre @ [b]) rest (?c \<lparr> gcpptr := Some b \<rparr>)" .
      from Cons.IH [OF this] show ?thesis using True visit mext_frame [OF e [THEN conjunct1]] by simp
    next
      case nprop: False
      show ?thesis
      proof (cases "bcolour c b = sweeper c")
        case True
        have "pass_inv kids roots pre rest (free_block b (gcpptr c) (c \<lparr> gce := gce c + 1 \<rparr>))"
          using sweep_inv [of kids roots pre b rest "c \<lparr> gce := gce c + 1 \<rparr>"] Cons.prems(1) True by (simp add: inv_gce)
        from Cons.IH [OF this] show ?thesis
          using True nprop visit by (simp add: free_block_frame)
      next
        case False
        from Cons.IH [OF skip_inv [OF Cons.prems(1) False nprop]] show ?thesis
          using False nprop visit by simp
      qed
    qed
  qed
qed

lemma next_quantum_bounds: "GCQUANTA \<le> next_quantum c \<and> next_quantum c \<le> GCMAXQUANTA"
  by (simp add: next_quantum_def Let_def GCMAXQUANTA_def GCQUANTA_def)

lemma setmark_fold:
  assumes "mutator c < 3"
  shows "bcolour (fold SETMARK rs c) b =
      (if b \<in> set rs \<and> bcolour c b \<noteq> mutator c then PROPAGATOR else bcolour c b)
    \<and> fold SETMARK rs c = c \<lparr> bcolour := bcolour (fold SETMARK rs c), nprop := nprop (fold SETMARK rs c) \<rparr>"
  using assms
proof (induction rs arbitrary: c)
  case (Cons r rs)
  have m: "mutator (SETMARK r c) = mutator c" by (simp add: SETMARK_def set_colour_def)
  have f: "SETMARK r c = c \<lparr> bcolour := bcolour (SETMARK r c), nprop := nprop (SETMARK r c) \<rparr>"
    by (simp add: SETMARK_def set_colour_def)
  note ih = Cons.IH [of "SETMARK r c", unfolded m, OF Cons.prems]
  have bc: "bcolour (SETMARK r c) b = (if b = r \<and> bcolour c b \<noteq> mutator c then PROPAGATOR else bcolour c b)"
    by (auto simp add: SETMARK_def set_colour_def)
  obtain x y where xy: "fold SETMARK (r # rs) c = (SETMARK r c) \<lparr> bcolour := x, nprop := y \<rparr>"
    using ih by auto
  obtain x' y' where "SETMARK r c = c \<lparr> bcolour := x', nprop := y' \<rparr>" using f by blast
  with xy have "fold SETMARK (r # rs) c = c \<lparr> bcolour := bcolour (fold SETMARK (r # rs) c), nprop := nprop (fold SETMARK (r # rs) c) \<rparr>"
    by simp
  moreover note ih bc
  ultimately show ?case using Cons.prems by (auto simp: PROPAGATOR_def)
qed simp

lemma setmark_other:
  "d = e \<lparr> bcolour := x, nprop := y \<rparr> \<Longrightarrow> gcptr d = gcptr e \<and> gcquantum d = gcquantum e"
  by simp

lemma epoch_black:
  assumes "pass_inv kids roots pre [] c" and "\<not> nprop c" and "reach kids roots b"
  shows "bcolour c b = mutator c"
  using assms(3)
proof induction
  note p = assms(1) [unfolded pass_inv_def]
  have live: "x \<in> set pre" if "reach kids roots x" for x
    using p that by auto
  have np: "bcolour c x \<noteq> PROPAGATOR" if "reach kids roots x" for x
    using p live [OF that] assms(2) by (auto simp: swept_def)
  {
    case (reach_root r)
    then show ?case using p np [OF reach.reach_root [OF reach_root]] by (auto simp: grey_black_def)
  next
    case (reach_kid b k)
    have "b \<in> set (alloc_head c)" using p reach_kid.hyps(1) by blast
    then have "grey_black c k" using p reach_kid by blast
    then show ?case using np [OF reach.reach_kid [OF reach_kid.hyps]] by (auto simp: grey_black_def)
  }
qed

lemma epoch_colours: "1 \<le> (g :: nat) \<Longrightarrow> g mod 3 \<noteq> (g + 1) mod 3 \<and> g mod 3 \<noteq> (g - 1) mod 3 \<and> (g - 1) mod 3 = (g + 2) mod 3"
  by (cases g) (auto simp: mod_Suc)

lemma epoch_distinct: "1 \<le> (g :: nat) \<Longrightarrow> (g + 1) mod 3 \<noteq> (g - 1) mod 3"
  by (cases g) (auto simp: mod_Suc)

lemma new_epoch_inv:
  assumes "pass_inv kids roots pre [] c" and "\<not> nprop c"
  shows "pass_inv kids roots [] (alloc_head c) ((new_epoch roots c) \<lparr> nprop := False, gcpptr := None \<rparr>)"
proof -
  note p = assms(1) [unfolded pass_inv_def]
  let ?g = "gccolour c"
  let ?c0 = "c \<lparr> gcepochs := gcepochs c + 1, gccolour := ?g + 1, mutator := (?g + 1) mod 3, marker := ?g mod 3,
     sweeper := (?g - 1) mod 3, gce := 0, gct := 1 \<rparr>"
  let ?c' = "(new_epoch roots c) \<lparr> nprop := False, gcpptr := None \<rparr>"
  have c0: "colours_ok c" "swept c pre" "alloc_head c = pre" using p by simp_all
  then have g: "mutator c = ?g mod 3" "1 \<le> ?g" by (simp_all add: colours_ok_def)
  note mods = epoch_colours [OF g(2)]
  have old: "bcolour c b \<noteq> (?g + 1) mod 3" if "b \<in> set pre" for b
  proof -
    have s: "bcolour c b \<noteq> sweeper c" "bcolour c b \<noteq> PROPAGATOR" using c0(2) that assms(2) by (auto simp: swept_def)
    have "sweeper c = (?g + 1) mod 3 \<or> (\<forall>b \<in> set pre. grey_black c b)" using c0 by (simp add: colours_ok_def)
    then show ?thesis using s that g mods by (auto simp: grey_black_def)
  qed
  have roots: "set roots \<subseteq> set pre" using p reach.reach_root by fastforce
  have "new_epoch roots c = free_unused_bibop (fold SETMARK roots ?c0)"
    by (simp add: new_epoch_def markroots_def Let_def numeral_2_eq_2)
  moreover have "bcolour (fold SETMARK roots ?c0) b = (if b \<in> set roots then PROPAGATOR else bcolour c b)" for b
    using setmark_fold [of ?c0 roots b] old roots by auto
  moreover have "fold SETMARK roots ?c0 = ?c0 \<lparr> bcolour := bcolour (fold SETMARK roots ?c0), nprop := nprop (fold SETMARK roots ?c0) \<rparr>"
    using setmark_fold [of ?c0 roots] by simp
  then obtain x y where "fold SETMARK roots ?c0 = ?c0 \<lparr> bcolour := x, nprop := y \<rparr>" by blast
  ultimately have f: "bcolour ?c' b = (if b \<in> set roots then PROPAGATOR else bcolour c b)"
    "mutator ?c' = (?g + 1) mod 3" "sweeper ?c' = (?g - 1) mod 3" "gccolour ?c' = ?g + 1" "alloc_head ?c' = pre"
    "gcpptr ?c' = None" for b
    using c0(3) by (simp_all add: free_unused_bibop_def)
  have "(?g + 1) mod 3 \<noteq> (?g - 1) mod 3" and "(?g - 1) mod 3 = (?g + 1 + 1) mod 3"
    using epoch_distinct [OF g(2)] mods by simp_all
  then have "colours_ok ?c'"
    unfolding colours_ok_def f by simp
  moreover have "\<forall>b. reach kids roots b \<longrightarrow> b \<in> set (alloc_head ?c') \<and> bcolour ?c' b \<noteq> sweeper ?c'"
    unfolding f using epoch_black [OF assms] g mods p c0(3) by (auto simp: PROPAGATOR_def)
  moreover have "\<forall>b \<in> set (alloc_head ?c'). bcolour ?c' b = mutator ?c' \<longrightarrow> (\<forall>k \<in> set (kids b). grey_black ?c' k)"
    unfolding f using old by (auto simp: PROPAGATOR_def split: if_splits)
  moreover have "\<forall>r \<in> set roots. grey_black ?c' r" unfolding grey_black_def f by simp
  moreover have "distinct (alloc_head ?c')" using p f(5) c0(3) by simp
  ultimately show ?thesis
    unfolding pass_inv_def using f(5,6) c0(3) by (simp add: swept_def lastopt_def)
qed

text \<open>The state between two calls of the collector.\<close>

definition gc_inv :: "(nat \<Rightarrow> nat list) \<Rightarrow> nat list \<Rightarrow> mm_ctx \<Rightarrow> bool" where
  "gc_inv kids roots c \<longleftrightarrow> 0 < gcquantum c \<and>
     (case gcptr c of
        None \<Rightarrow> pass_inv kids roots [] (alloc_head c) (c \<lparr> gcpptr := None \<rparr>)
      | Some b \<Rightarrow> \<exists>pre rest. pre \<noteq> [] \<and> pass_inv kids roots pre (b # rest) c)"

lemma pass_live: "pass_inv kids roots pre rest c \<Longrightarrow> reach kids roots b \<Longrightarrow> b \<in> set (alloc_head c)"
  unfolding pass_inv_def by blast

lemma restart_inv:
  assumes "pass_inv kids roots pre [] c"
  shows "pass_inv kids roots [] (alloc_head c) (c \<lparr> nprop := False, gcpptr := None \<rparr>)"
proof -
  note p = assms [unfolded pass_inv_def]
  have s: "colours_ok (c \<lparr> nprop := False, gcpptr := None \<rparr>)" "grey_black (c \<lparr> nprop := False, gcpptr := None \<rparr>) = grey_black c"
    using p by (auto simp: colours_ok_def grey_black_def fun_eq_iff)
  have "alloc_head c = pre" using p by simp
  moreover from this have "\<forall>b. reach kids roots b \<longrightarrow> b \<in> set pre" using p by metis
  ultimately show ?thesis unfolding pass_inv_def s(2) using p s(1) by (simp add: swept_def lastopt_def)
qed

lemma gc_start:
  assumes "gc_inv kids roots c"
  shows "\<exists>pre rest c0. pass_inv kids roots pre rest (c0 \<lparr> visit := gcquantum c0 \<rparr>) \<and> gcquantum c0 = gcquantum c
    \<and> (case gcptr c of None \<Rightarrow> (alloc_head c, c \<lparr> gcpptr := None \<rparr>)
         | Some b \<Rightarrow> (b # after b (alloc_head c), c)) = (rest, c0)"
proof (cases "gcptr c")
  case None
  let ?c0 = "c \<lparr> gcpptr := None \<rparr>"
  have "pass_inv kids roots [] (alloc_head c) (?c0 \<lparr> visit := gcquantum ?c0 \<rparr>)"
    using assms None pass_inv_cong [of "?c0 \<lparr> visit := gcquantum ?c0 \<rparr>" ?c0] by (simp add: gc_inv_def)
  then show ?thesis using None
    by (intro exI [of "\<lambda>p. \<exists>q r. P p q r" "[]" for P] exI [of "\<lambda>q. \<exists>r. Q q r" "alloc_head c" for Q] exI [of _ ?c0]) simp
next
  case (Some b)
  then obtain pre rest where pr: "pass_inv kids roots pre (b # rest) c" using assms by (auto simp: gc_inv_def)
  then have "pass_inv kids roots pre (b # rest) (c \<lparr> visit := gcquantum c \<rparr>)"
    using pass_inv_cong [of "c \<lparr> visit := gcquantum c \<rparr>" c] by simp
  moreover have "after b (alloc_head c) = rest"
    using pr after_mid [of b pre rest] by (simp add: pass_inv_def)
  ultimately show ?thesis using Some
    by (intro exI [of "\<lambda>p. \<exists>q r. P p q r" pre for P] exI [of "\<lambda>q. \<exists>r. Q q r" "b # rest" for Q] exI [of _ c]) simp
qed


text \<open>A state in the middle of an epoch: 10 is a root, 11 hangs on it, 12 is garbage.\<close>

definition demo_ctx :: mm_ctx where
  "demo_ctx = arc_init_memmgr \<lparr> gccolour := 4, mutator := 1, marker := 0, sweeper := 2,
     alloc_head := [12, 10, 11], bcolour := (\<lambda>_. 0)(10 := 3, 12 := 2) \<rparr>"

lemma demo_reach: "reach ((\<lambda>_. [])(10 := [11])) [10] b \<Longrightarrow> b = 10 \<or> b = 11"
  by (induction rule: reach.induct) (auto split: if_splits)

lemma demo_inv: "gc_inv ((\<lambda>_. [])(10 := [11])) [10] demo_ctx"
proof -
  have "colours_ok (demo_ctx \<lparr> gcpptr := None \<rparr>)" by (simp add: colours_ok_def demo_ctx_def)
  moreover have "\<forall>b. reach ((\<lambda>_. [])(10 := [11])) [10] b \<longrightarrow> b \<in> {10, 11}" using demo_reach by blast
  ultimately show ?thesis
    by (auto simp: gc_inv_def pass_inv_def swept_def lastopt_def grey_black_def PROPAGATOR_def demo_ctx_def
        arc_init_memmgr_def GCQUANTA_def)
qed


subsection \<open>Allocating keeps the invariant\<close>

text \<open>A fresh block takes the mutator's colour, and has no block below it yet.\<close>

lemma link_block_fields:
  "fst (link_block sz h c) = h"
  "alloc_head (snd (link_block sz h c)) = h # alloc_head c"
  "bcolour (snd (link_block sz h c)) = (bcolour c)(h := mutator c)"
  "bsize (snd (link_block sz h c)) = (bsize c)(h := sz)"
  "ballocp (snd (link_block sz h c)) = (ballocp c)(h := True)"
  "bibop_fl (snd (link_block sz h c)) = bibop_fl c" "bibop_pages (snd (link_block sz h c)) = bibop_pages c"
  "mutator (snd (link_block sz h c)) = mutator c" "sweeper (snd (link_block sz h c)) = sweeper c"
  "gccolour (snd (link_block sz h c)) = gccolour c" "gcptr (snd (link_block sz h c)) = gcptr c"
  "gcpptr (snd (link_block sz h c)) = gcpptr c" "nprop (snd (link_block sz h c)) = nprop c"
  "gcquantum (snd (link_block sz h c)) = gcquantum c"
  by (simp_all add: link_block_def Let_def set_size_def set_alloc_def set_colour_def)

lemma link_block_pass:
  assumes "pass_inv kids roots pre rest c" and "h \<notin> set (alloc_head c)" and "kids h = []"
  shows "pre \<noteq> [] \<Longrightarrow> pass_inv kids roots (h # pre) rest (snd (link_block sz h c))"
    and "pre = [] \<Longrightarrow> pass_inv kids roots [] (h # rest) (snd (link_block sz h c))"
proof -
  let ?c = "snd (link_block sz h c)"
  note p = assms(1) [unfolded pass_inv_def] and f = link_block_fields [of sz h c]
  have gb: "grey_black c x \<Longrightarrow> grey_black ?c x" for x by (simp add: grey_black_def f)
  have cok: "colours_ok c" using p by blast
  have "colours_ok ?c" using cok unfolding colours_ok_def f by (auto simp: grey_black_def f)
  moreover have "swept c pre" using p by blast
  then have sw: "swept ?c pre" "swept ?c (h # pre)" using cok by (auto simp: swept_def f PROPAGATOR_def colours_ok_def)
  moreover have "reach kids roots b \<Longrightarrow> b \<in> set (alloc_head ?c) \<and> bcolour ?c b \<noteq> sweeper ?c" for b
    using p cok by (auto simp: f colours_ok_def)
  moreover have "grey_black ?c r" if "r \<in> set roots" for r using p that gb by blast
  moreover have "grey_black ?c k" if "b \<in> set (alloc_head ?c)" "bcolour ?c b = mutator ?c" "k \<in> set (kids b)" for b k
  proof -
    have "b \<noteq> h" using that(3) assms(3) by auto
    then have "grey_black c k" using p that by (auto simp add: f)
    then show ?thesis by (rule gb)
  qed
  moreover have "alloc_head c = pre @ rest" "distinct (pre @ rest)" "gcpptr c = lastopt pre" using p by simp_all
  ultimately have core: "alloc_head ?c = h # pre @ rest" "distinct (h # pre @ rest)" "gcpptr ?c = lastopt pre"
    "colours_ok ?c" "swept ?c pre" "swept ?c (h # pre)"
    "\<forall>b. reach kids roots b \<longrightarrow> b \<in> set (alloc_head ?c) \<and> bcolour ?c b \<noteq> sweeper ?c"
    "\<forall>r \<in> set roots. grey_black ?c r"
    "\<forall>b \<in> set (alloc_head ?c). bcolour ?c b = mutator ?c \<longrightarrow> (\<forall>k \<in> set (kids b). grey_black ?c k)"
    using assms(2) f(2,12) by simp_all
  show "pre \<noteq> [] \<Longrightarrow> pass_inv kids roots (h # pre) rest ?c"
    unfolding pass_inv_def using core(1-4,6-) by (intro conjI) (simp_all add: lastopt_def)
  show "pre = [] \<Longrightarrow> pass_inv kids roots [] (h # rest) ?c"
    unfolding pass_inv_def using core by (intro conjI) simp_all
qed

lemma link_block_gc_inv:
  assumes "gc_inv kids roots c" and "h \<notin> set (alloc_head c)" and "kids h = []"
  shows "gc_inv kids roots (snd (link_block sz h c))"
proof (cases "gcptr c")
  case None
  then have "pass_inv kids roots [] (alloc_head c) (c \<lparr> gcpptr := None \<rparr>)" using assms(1) by (simp add: gc_inv_def)
  from link_block_pass(2) [OF this] have "pass_inv kids roots [] (h # alloc_head c) (snd (link_block sz h (c \<lparr> gcpptr := None \<rparr>)))"
    using assms by simp
  then have "pass_inv kids roots [] (h # alloc_head c) ((snd (link_block sz h c)) \<lparr> gcpptr := None \<rparr>)"
    by (subst pass_inv_cong) (simp_all add: link_block_fields)
  then show ?thesis
    using None assms(1) by (simp add: gc_inv_def link_block_fields)
next
  case (Some b)
  then obtain pre rest where "pre \<noteq> []" "pass_inv kids roots pre (b # rest) c" "0 < gcquantum c"
    using assms(1) by (auto simp: gc_inv_def)
  then have "pass_inv kids roots (h # pre) (b # rest) (snd (link_block sz h c))" using link_block_pass(1) assms by blast
  then have "\<exists>pre rest. pre \<noteq> [] \<and> pass_inv kids roots pre (b # rest) (snd (link_block sz h c))" by blast
  then show ?thesis using Some \<open>0 < gcquantum c\<close> by (simp add: gc_inv_def link_block_fields)
qed

text \<open>
  The allocator's invariant: pages share no block, the free list of a size holds free blocks of
  the pages of that size, and an allocated block is in use and, when small, lies in a page of
  its size.
\<close>

definition pblocks :: "mm_ctx \<Rightarrow> nat \<Rightarrow> nat set" where
  "pblocks c i = set (concat (bibop_pages c i))"

definition alloc_ok :: "mm_ctx \<Rightarrow> bool" where
  "alloc_ok c \<longleftrightarrow> (\<forall>i. distinct (concat (bibop_pages c i))) \<and> (\<forall>i j. i \<noteq> j \<longrightarrow> pblocks c i \<inter> pblocks c j = {})
     \<and> (\<forall>i. distinct (bibop_fl c i) \<and> set (bibop_fl c i) \<subseteq> {h \<in> pblocks c i. \<not> ballocp c h})
     \<and> distinct (alloc_head c)
     \<and> (\<forall>h \<in> set (alloc_head c). ballocp c h \<and>
          (if bsize c h \<le> MAX_BIBOP then h \<in> pblocks c (bsize c h) else \<forall>i. h \<notin> pblocks c i))"

text \<open>Memory from the system is disjoint from everything in use.\<close>

definition fresh_mem :: "mm_ctx \<Rightarrow> nat list \<Rightarrow> bool" where
  "fresh_mem c sys \<longleftrightarrow> sys \<noteq> [] \<and> distinct sys \<and> set sys \<inter> set (alloc_head c) = {} \<and> (\<forall>i. set sys \<inter> pblocks c i = {})"

lemma page_blocks:
  "fold (page_block sz) pg c =
     c \<lparr> bsize := (\<lambda>h. if h \<in> set pg then sz else bsize c h), ballocp := (\<lambda>h. h \<notin> set pg \<and> ballocp c h),
         bibop_fl := (bibop_fl c)(sz := rev pg @ bibop_fl c sz) \<rparr>"
  by (induction pg arbitrary: c) (auto simp: page_block_def Let_def set_size_def set_alloc_def fun_eq_iff)

lemma new_page_ok:
  assumes "alloc_ok c" and "fresh_mem c pg" and "bibop_fl c sz = []" and "sz \<le> MAX_BIBOP"
  shows "alloc_ok (new_page sz pg c)" and "bibop_fl (new_page sz pg c) sz = rev pg"
proof -
  let ?c = "new_page sz pg c"
  have f: "bsize ?c = (\<lambda>h. if h \<in> set pg then sz else bsize c h)" "ballocp ?c = (\<lambda>h. h \<notin> set pg \<and> ballocp c h)"
    "bibop_fl ?c = (bibop_fl c)(sz := rev pg)" "alloc_head ?c = alloc_head c"
    "bibop_pages ?c = (bibop_pages c)(sz := pg # bibop_pages c sz)"
    using assms(3) by (simp_all add: new_page_def page_blocks fun_eq_iff)
  have pb: "pblocks ?c i = (if i = sz then set pg \<union> pblocks c sz else pblocks c i)" for i
    by (simp add: pblocks_def f)
  have a: "set pg \<inter> set (alloc_head c) = {}" "\<And>i. set pg \<inter> pblocks c i = {}" "distinct pg"
    using assms(2) by (auto simp: fresh_mem_def)
  note ok = assms(1) [unfolded alloc_ok_def]
  have "distinct (concat (bibop_pages ?c i))" for i
    using ok a by (auto simp: f pblocks_def)
  moreover have "\<forall>i j. i \<noteq> j \<longrightarrow> pblocks ?c i \<inter> pblocks ?c j = {}"
    using ok a(2) by (simp add: pb) blast
  moreover have "distinct (bibop_fl ?c i) \<and> set (bibop_fl ?c i) \<subseteq> {h \<in> pblocks ?c i. \<not> ballocp ?c h}" for i
    using ok a(3) by (auto simp: f pb)
  moreover have "\<forall>h \<in> set (alloc_head ?c). ballocp ?c h \<and>
      (if bsize ?c h \<le> MAX_BIBOP then h \<in> pblocks ?c (bsize ?c h) else \<forall>i. h \<notin> pblocks ?c i)"
  proof
    fix h assume "h \<in> set (alloc_head ?c)"
    then have "h \<in> set (alloc_head c)" "h \<notin> set pg" using f(4) a(1) by auto
    then show "ballocp ?c h \<and> (if bsize ?c h \<le> MAX_BIBOP then h \<in> pblocks ?c (bsize ?c h) else \<forall>i. h \<notin> pblocks ?c i)"
      using ok by (auto simp: f(1,2) pb split: if_splits)
  qed
  ultimately show "alloc_ok ?c" unfolding alloc_ok_def using ok f(4) by simp
  show "bibop_fl ?c sz = rev pg" using f by simp
qed

lemma link_block_ok:
  assumes "alloc_ok c" and "h \<notin> set (alloc_head c)" and "\<forall>i. h \<notin> set (bibop_fl c i)"
    and "if sz \<le> MAX_BIBOP then h \<in> pblocks c sz else \<forall>i. h \<notin> pblocks c i"
  shows "alloc_ok (snd (link_block sz h c))"
proof -
  have "pblocks (snd (link_block sz h c)) = pblocks c" by (simp add: pblocks_def fun_eq_iff link_block_fields)
  then show ?thesis
    using assms unfolding alloc_ok_def link_block_fields by auto
qed

lemma fl_upd_ok:
  assumes "alloc_ok c" and "bibop_fl c sz = h # t"
  shows "alloc_ok (c \<lparr> bibop_fl := (bibop_fl c)(sz := t) \<rparr>)" and "h \<in> pblocks c sz" and "\<not> ballocp c h"
    and "\<forall>i. h \<notin> set (((bibop_fl c)(sz := t)) i)" and "h \<notin> set (alloc_head c)"
proof -
  note ok = assms(1) [unfolded alloc_ok_def]
  have pb: "pblocks (c \<lparr> bibop_fl := x \<rparr>) = pblocks c" for x by (simp add: pblocks_def fun_eq_iff)
  have fl: "distinct (bibop_fl c i) \<and> set (bibop_fl c i) \<subseteq> {h \<in> pblocks c i. \<not> ballocp c h}" for i using ok by blast
  show h: "h \<in> pblocks c sz" "\<not> ballocp c h" using fl [of sz] assms(2) by auto
  show "h \<notin> set (alloc_head c)" using h(2) ok by blast
  have "h \<notin> set (bibop_fl c i)" if "i \<noteq> sz" for i
    using fl [of i] h(1) ok that by blast
  then show "\<forall>i. h \<notin> set (((bibop_fl c)(sz := t)) i)" using fl [of sz] assms(2) by auto
  have "distinct t \<and> set t \<subseteq> {h \<in> pblocks c sz. \<not> ballocp c h}" using fl [of sz] assms(2) by simp
  then show "alloc_ok (c \<lparr> bibop_fl := (bibop_fl c)(sz := t) \<rparr>)"
    using ok unfolding alloc_ok_def pb by simp
qed


lemma arc_init_ok: "alloc_ok arc_init_memmgr"
  by (simp add: alloc_ok_def arc_init_memmgr_def pblocks_def)


subsection \<open>Collecting keeps the allocator's invariant\<close>

text \<open>What the allocator's invariant looks at.\<close>

definition aparts :: "mm_ctx \<Rightarrow> (nat \<Rightarrow> nat) \<times> (nat \<Rightarrow> bool) \<times> (nat \<Rightarrow> nat list) \<times> (nat \<Rightarrow> nat list list) \<times> nat list" where
  "aparts c = (bsize c, ballocp c, bibop_fl c, bibop_pages c, alloc_head c)"

lemma aparts_ok: "aparts c' = aparts c \<Longrightarrow> alloc_ok c' = alloc_ok c"
  by (simp add: aparts_def alloc_ok_def pblocks_def)

lemma setmark_aparts: "aparts (SETMARK h c) = aparts c"
  by (simp add: SETMARK_def set_colour_def aparts_def)

lemma fold_aparts: "(\<And>k c. k \<in> set ks \<Longrightarrow> aparts (f k c) = aparts c) \<Longrightarrow> aparts (fold f ks c) = aparts c"
  by (induction ks arbitrary: c) auto

lemma aparts_upd [simp]:
  "aparts (c \<lparr> visit := v \<rparr>) = aparts c" "aparts (c \<lparr> gce := x \<rparr>) = aparts c" "aparts (set_colour h col c) = aparts c"
  "aparts (c \<lparr> gcptr := p \<rparr>) = aparts c" "aparts (c \<lparr> gcpptr := p \<rparr>) = aparts c" "aparts (c \<lparr> gct := x \<rparr>) = aparts c"
  "aparts (c \<lparr> gcquantum := x \<rparr>) = aparts c" "aparts (c \<lparr> nprop := b \<rparr>) = aparts c"
  by (simp_all add: aparts_def set_colour_def)

lemma mark_aparts: "aparts (mark kids h d c) = aparts c"
proof (induction kids h d c rule: mark.induct)
  case (1 kids h d c)
  define c1 where "c1 = (SETMARK h c) \<lparr> visit := visit (SETMARK h c) - 1 \<rparr>"
  define c2 where "c2 = set_colour h (mutator c1) (c1 \<lparr> gce := gce c1 - 1 \<rparr>)"
  have a: "aparts c1 = aparts c" "aparts c2 = aparts c1" by (simp_all add: c1_def c2_def setmark_aparts)
  show ?case
  proof (cases "\<not> d < 0 \<and> visit c1 \<ge> 0 \<and> d < MAX_MARK_RECURSION")
    case True
    then have "mark kids h d c = fold (\<lambda>k c. mark kids k (d + 1) c) (kids h) c2"
      by (subst mark.simps) (simp add: c1_def c2_def Let_def)
    moreover have "aparts (fold (\<lambda>k c. mark kids k (d + 1) c) (kids h) c2) = aparts c2"
      using 1 True by (intro fold_aparts) (simp add: c1_def)
    ultimately show ?thesis using a by simp
  next
    case False
    then have "mark kids h d c = (if d < 0 then set_colour h (mutator c) (c \<lparr> visit := visit c - 1 \<rparr>) else c1)"
      by (subst mark.simps) (auto simp: c1_def Let_def)
    then show ?thesis using a by simp
  qed
qed

lemma free_block_ok:
  assumes "alloc_ok c" and "alloc_head c = pre @ b # rest" and "gcpptr c = lastopt pre"
  shows "alloc_ok (free_block b (gcpptr c) c)"
proof -
  note ok = assms(1) [unfolded alloc_ok_def]
  let ?d = "free_block b (gcpptr c) c"
  have al: "alloc_head ?d = pre @ rest" using ok assms(2,3) by (intro free_block_unlinks) simp_all
  have f: "bsize ?d = bsize c" "bibop_pages ?d = bibop_pages c"
    "ballocp ?d = (if bsize c b \<le> MAX_BIBOP then (ballocp c)(b := False) else ballocp c)"
    "bibop_fl ?d = (if bsize c b \<le> MAX_BIBOP then (bibop_fl c)(bsize c b := b # bibop_fl c (bsize c b)) else bibop_fl c)"
    by (simp_all add: free_block_def Let_def set_alloc_def split: option.splits)
  have pb: "pblocks ?d = pblocks c" by (simp add: pblocks_def f fun_eq_iff)
  have b: "ballocp c b" "bsize c b \<le> MAX_BIBOP \<Longrightarrow> b \<in> pblocks c (bsize c b)" "b \<notin> set (pre @ rest)"
    using ok assms(2) by auto
  have fl: "distinct (bibop_fl c i)" "set (bibop_fl c i) \<subseteq> {h \<in> pblocks c i. \<not> ballocp c h}" for i using ok by blast+
  have "distinct (bibop_fl ?d i) \<and> set (bibop_fl ?d i) \<subseteq> {h \<in> pblocks ?d i. \<not> ballocp ?d h}" for i
    unfolding pb f using fl [of i] fl(2) [of "bsize c b"] b(1,2) by auto
  moreover have "\<forall>h \<in> set (alloc_head ?d). ballocp ?d h \<and>
      (if bsize ?d h \<le> MAX_BIBOP then h \<in> pblocks ?d (bsize ?d h) else \<forall>i. h \<notin> pblocks ?d i)"
  proof
    fix h assume "h \<in> set (alloc_head ?d)"
    then have "h \<noteq> b" "h \<in> set (alloc_head c)" using b(3) al assms(2) by auto
    then show "ballocp ?d h \<and> (if bsize ?d h \<le> MAX_BIBOP then h \<in> pblocks ?d (bsize ?d h) else \<forall>i. h \<notin> pblocks ?d i)"
      unfolding pb f using ok by simp
  qed
  moreover have "distinct (alloc_head ?d)" using ok assms(2) al by simp
  moreover have "\<forall>i. distinct (concat (bibop_pages ?d i))" "\<forall>i j. i \<noteq> j \<longrightarrow> pblocks ?d i \<inter> pblocks ?d j = {}"
    using ok pb f(2) by simp_all
  ultimately show ?thesis unfolding alloc_ok_def by blast
qed

lemma gc_loop_ok:
  assumes "alloc_ok c" and "alloc_head c = pre @ rest" and "gcpptr c = lastopt pre"
  shows "alloc_ok (gc_loop kids rest c)"
  using assms
proof (induction rest arbitrary: pre c)
  case (Cons b rest)
  let ?m = "(mark kids b 0 (c \<lparr> gce := gce c - 1 \<rparr>)) \<lparr> gcpptr := Some b \<rparr>"
  let ?s = "c \<lparr> gct := gct c + 1, gcpptr := Some b \<rparr>"
  let ?f = "free_block b (gcpptr c) (c \<lparr> gce := gce c + 1 \<rparr>)"
  have m: "aparts ?m = aparts c" by (simp add: mark_aparts)
  have s: "aparts ?s = aparts c" by simp
  have 1: "alloc_ok (gc_loop kids rest ?m)"
    using Cons.prems m aparts_ok [OF m] by (intro Cons.IH [of _ "pre @ [b]"]) (simp_all add: aparts_def lastopt_def)
  have 2: "alloc_ok (gc_loop kids rest ?s)"
    using Cons.prems aparts_ok [OF s] by (intro Cons.IH [of _ "pre @ [b]"]) (simp_all add: lastopt_def)
  have g: "alloc_ok (c \<lparr> gce := gce c + 1 \<rparr>)" using Cons.prems(1) aparts_ok [of "c \<lparr> gce := gce c + 1 \<rparr>" c] by simp
  have "alloc_head ?f = pre @ rest" using free_block_unlinks [of "c \<lparr> gce := gce c + 1 \<rparr>" pre b rest] Cons.prems
    by (simp add: alloc_ok_def)
  then have 3: "alloc_ok (gc_loop kids rest ?f)"
    using Cons.prems g free_block_ok [OF g, of pre b rest] by (intro Cons.IH [of _ pre]) (simp_all add: free_block_frame)
  show ?case using 1 2 3 Cons.prems(1) aparts_ok [of "c \<lparr> gcptr := Some b \<rparr>" c] by simp
next
  case Nil
  then show ?case using aparts_ok [of "c \<lparr> gcptr := None \<rparr>" c] by simp
qed

subsection \<open>Rebuilding the free lists\<close>

lemma scan_page_eq:
  "scan_page used pg pfl = (list_all (\<lambda>h. \<not> used h) pg, rev (takeWhile (\<lambda>h. \<not> used h) pg) @ pfl)"
  by (induction pg arbitrary: pfl) auto

lemma free_pages_step:
  "free_pages used (pg # pgs) nfl =
     (if list_ex used pg
      then (pg # fst (free_pages used pgs (rev (takeWhile (\<lambda>h. \<not> used h) pg) @ nfl)),
            snd (free_pages used pgs (rev (takeWhile (\<lambda>h. \<not> used h) pg) @ nfl)))
      else free_pages used pgs nfl)"
  by (auto simp: scan_page_eq list_ex_iff list_all_iff split: bool.splits prod.splits)

lemma free_pages_keep: "fst (free_pages used pgs nfl) = filter (\<lambda>pg. list_ex used pg) pgs"
  by (induction pgs arbitrary: nfl) (simp_all add: free_pages_step del: free_pages.simps(2))

lemma free_pages_list:
  "snd (free_pages used pgs nfl) =
     concat (rev (map (\<lambda>pg. rev (takeWhile (\<lambda>h. \<not> used h) pg)) (filter (\<lambda>pg. list_ex used pg) pgs))) @ nfl"
  by (induction pgs arbitrary: nfl) (simp_all add: free_pages_step del: free_pages.simps(2))

lemma free_unused_ok:
  assumes "alloc_ok c"
  shows "alloc_ok (free_unused_bibop c)"
proof -
  note ok = assms [unfolded alloc_ok_def]
  let ?d = "free_unused_bibop c"
  have pg: "bibop_pages ?d i = (if i \<le> MAX_BIBOP then filter (\<lambda>pg. list_ex (ballocp c) pg) (bibop_pages c i) else bibop_pages c i)" for i
    by (simp add: free_unused_bibop_def free_pages_keep)
  have sub: "set (concat (filter P xs)) \<subseteq> set (concat xs)" for P and xs :: "nat list list" by auto
  have dc: "distinct (concat xs) \<Longrightarrow> distinct (concat (filter P xs))" for P and xs :: "nat list list"
    by (induction xs) auto
  have pb: "pblocks ?d i \<subseteq> pblocks c i" for i using sub unfolding pblocks_def pg by (cases "i \<le> MAX_BIBOP") auto
  have keep: "h \<in> pblocks ?d i" if "h \<in> pblocks c i" "ballocp c h" for h i
    using that unfolding pblocks_def pg by (auto simp: list_ex_iff)
  have rd: "distinct (concat (rev (map (\<lambda>pg. rev (takeWhile P pg)) xs)))" if "distinct (concat xs)" for P and xs :: "nat list list"
    using that by (induction xs) (auto dest: set_takeWhileD)
  have "distinct (bibop_fl ?d i) \<and> set (bibop_fl ?d i) \<subseteq> {h \<in> pblocks ?d i. \<not> ballocp ?d h}" for i
  proof (cases "i \<le> MAX_BIBOP")
    case True
    then have fl: "bibop_fl ?d i = concat (rev (map (\<lambda>pg. rev (takeWhile (\<lambda>h. \<not> ballocp c h) pg)) (bibop_pages ?d i)))"
      by (simp add: free_unused_bibop_def free_pages_list free_pages_keep)
    have "distinct (concat (bibop_pages ?d i))" using ok dc by (simp add: pg)
    then have "distinct (bibop_fl ?d i)" using rd fl by simp
    moreover have "set (bibop_fl ?d i) \<subseteq> {h \<in> pblocks ?d i. \<not> ballocp c h}"
      unfolding fl pblocks_def by (auto dest: set_takeWhileD)
    ultimately show ?thesis by (simp add: free_unused_bibop_def)
  next
    case False
    have "bibop_fl ?d i = bibop_fl c i" "pblocks ?d i = pblocks c i" "ballocp ?d = ballocp c"
      using False by (simp_all add: free_unused_bibop_def pblocks_def)
    then show ?thesis using ok by simp
  qed
  moreover have "\<forall>i. distinct (concat (bibop_pages ?d i))" using ok dc by (simp add: pg)
  moreover have "\<forall>i j. i \<noteq> j \<longrightarrow> pblocks ?d i \<inter> pblocks ?d j = {}" using ok pb by blast
  moreover have "alloc_head ?d = alloc_head c" "ballocp ?d = ballocp c" "bsize ?d = bsize c"
    by (simp_all add: free_unused_bibop_def)
  ultimately show ?thesis using ok keep pb unfolding alloc_ok_def by (simp split: if_splits) blast
qed

text \<open>
  The allocator's invariant survives a call of the collector that starts in a state
  satisfying the collector's own: no block ends up in two pages, on two free lists, or both
  allocated and free, whatever the call marked, swept or released.
\<close>

lemma gc_keeps_alloc_ok:
  assumes "alloc_ok c" and "gc_inv kids roots c"
  shows "alloc_ok (snd (gc kids roots c))"
proof -
  have np: "alloc_ok (d \<lparr> nprop := x \<rparr>) = alloc_ok d" "alloc_ok (d \<lparr> gcquantum := q \<rparr>) = alloc_ok d"
    "alloc_ok (d \<lparr> visit := v \<rparr>) = alloc_ok d" "alloc_ok (d \<lparr> gcpptr := p \<rparr>) = alloc_ok d" for d x q v p
    by (intro aparts_ok, simp)+
  obtain pre rest c0 where s: "pass_inv kids roots pre rest (c0 \<lparr> visit := gcquantum c0 \<rparr>)"
    "(case gcptr c of None \<Rightarrow> (alloc_head c, c \<lparr> gcpptr := None \<rparr>) | Some b \<Rightarrow> (b # after b (alloc_head c), c)) = (rest, c0)"
    using gc_start [OF assms(2)] by blast
  have "alloc_ok c0" using s(2) assms(1) np by (auto split: option.splits)
  moreover have "alloc_head c0 = pre @ rest" "gcpptr c0 = lastopt pre" using s(1) by (simp_all add: pass_inv_def)
  ultimately have l: "alloc_ok (gc_loop kids rest (c0 \<lparr> visit := gcquantum c0 \<rparr>))"
    using np by (intro gc_loop_ok) simp_all
  have e: "alloc_ok (new_epoch roots d)" if "alloc_ok d" for d
  proof -
    define d' where "d' = d \<lparr> gcepochs := gcepochs d + 1, gccolour := gccolour d + 1, mutator := (gccolour d + 1) mod 3,
      marker := gccolour d mod 3, sweeper := (gccolour d - 1) mod 3, gce := 0, gct := 1 \<rparr>"
    have "aparts d' = aparts d" by (simp add: d'_def aparts_def)
    then have "aparts (fold SETMARK roots d') = aparts d" by (simp add: fold_aparts setmark_aparts)
    then have "alloc_ok (fold SETMARK roots d')" using that aparts_ok by blast
    moreover have "new_epoch roots d = free_unused_bibop (fold SETMARK roots d')"
      by (simp add: new_epoch_def d'_def markroots_def Let_def numeral_2_eq_2)
    ultimately show ?thesis by (simp add: free_unused_ok)
  qed
  show ?thesis using l e s(2) by (simp add: gc_def Let_def np)
qed

lemma demo_ok: "alloc_ok (snd (link_block 1000 7 arc_init_memmgr))"
  by (intro link_block_ok arc_init_ok) (simp_all add: arc_init_memmgr_def pblocks_def MAX_BIBOP_def)

lemma gc_keeps_alloc_ok_witness: "alloc_ok (snd (gc (\<lambda>_. []) [] (snd (link_block 1000 7 arc_init_memmgr))))"
proof -
  have "gc_inv (\<lambda>_. []) [] arc_init_memmgr"
    by (auto simp: gc_inv_def pass_inv_def colours_ok_def swept_def lastopt_def arc_init_memmgr_def GCQUANTA_def
        elim: reach.induct)
  then have "gc_inv (\<lambda>_. []) [] (snd (link_block 1000 7 arc_init_memmgr))"
    by (intro link_block_gc_inv) (simp_all add: arc_init_memmgr_def)
  then show ?thesis by (intro gc_keeps_alloc_ok demo_ok)
qed

text \<open>
  What the rebuilt list leaves out: in a page that stays, the free blocks after the first block
  in use. Here the page holds 2 (in use) and 1 and 3 (free); only 1 is on the new list.
\<close>

lemma free_unused_drops: "free_pages (\<lambda>h. h = 2) [[1, 2, 3]] [] = ([[1, 2, 3]], [1])"
  by simp

end
