(* ===== verification/Machine.thy ===== *)
theory Machine
  imports Heap
begin

text \<open>
  The stack of a thread of the virtual machine: the environments of \<open>src/src/env.c\<close>, the
  continuations of \<open>src/src/cont.c\<close>, the growing of the stack of \<open>src/src/thread.c\<close> and the
  closures of \<open>src/src/clos.c\<close>. The registers of a thread are the fields of a record; its
  stack is the list of the slots of the stack vector, and stack pointers are indexes into it
  (\<open>TSBASE\<close> is 0, \<open>TSTOP\<close> the last index). Environments and continuations live on the stack,
  as offsets from its top, or in the heap. Write barriers only colour cells and are left out.
\<close>

subsection \<open>The thread\<close>

text \<open>\<open>ipptr\<close> is a place in a code vector; a foreign function has a line number there.\<close>

datatype ip = IPP val int | AFFLINE int

datatype threadstate = Talt | Tsend | Trecv | Tiowait | Tsleep | Tready | Tcritical | Trelease | Tbroken

text \<open>
  \<open>STALE\<close> says that the stack pointer still points into a stack vector that has been replaced;
  using it is outside of what the code may do.
\<close>

record machine =
  FUNR :: val
  ENVR :: val
  VALR :: val
  CONR :: val
  STK :: "val list"
  SP :: nat
  SFN :: nat
  STALE :: bool
  IP :: ip
  ARGC :: int
  STATE :: threadstate
  QUANTA :: u64
  HP :: heap
  GENV :: "val \<Rightarrow> val option"

type_synonym 'a run = "'a res option"

text \<open>A computation that may also not return.\<close>

definition rthen :: "'a run \<Rightarrow> ('a \<Rightarrow> 'b run) \<Rightarrow> 'b run" where
  "rthen r f = (case r of None \<Rightarrow> None | Some (Inl e) \<Rightarrow> Some (Inl e) | Some (Inr a) \<Rightarrow> f a)"

abbreviation ret :: "'a \<Rightarrow> 'a run" where
  "ret a \<equiv> Some (Inr a)"

abbreviation fail :: "fault \<Rightarrow> 'a run" where
  "fail e \<equiv> Some (Inl e)"

lemma rthen_simps [simp, result_simps]:
  "rthen (Some (Inr a)) f = f a" "rthen (Some (Inl e)) f = Some (Inl e)" "rthen None f = None"
  by (simp_all add: rthen_def)

lemma rthen_ret: "rthen r f = ret b \<longleftrightarrow> (\<exists>a. r = ret a \<and> f a = ret b)"
  by (auto simp: rthen_def split: option.splits sum.splits)

definition STOP :: "machine \<Rightarrow> int" where
  "STOP m = int (length (STK m)) - 1"

definition stk_get :: "machine \<Rightarrow> int \<Rightarrow> val res" where
  "stk_get m i = (if 0 \<le> i \<and> i < int (length (STK m)) then Inr (STK m ! nat i) else Inl UB)"

definition stk_set :: "machine \<Rightarrow> int \<Rightarrow> val \<Rightarrow> machine res" where
  "stk_set m i v = (if 0 \<le> i \<and> i < int (length (STK m)) then Inr (m \<lparr> STK := (STK m)[nat i := v] \<rparr>) else Inl UB)"

text \<open>\<open>FIX2INT\<close> of a slot that must hold a fixnum.\<close>

fun fix2int :: "val \<Rightarrow> int res" where
  "fix2int (Fix i) = Inr i"
| "fix2int _ = Inl UB"

text \<open>Element \<open>i\<close> of a block of the heap, and its update.\<close>

definition blk_get :: "heap \<Rightarrow> val \<Rightarrow> int \<Rightarrow> val res" where
  "blk_get h v i = rbind (rep_blk h v) (\<lambda>vs. if 0 \<le> i \<and> i < int (length vs) then Inr (vs ! nat i) else Inl UB)"

fun blk_set :: "heap \<Rightarrow> val \<Rightarrow> int \<Rightarrow> val \<Rightarrow> heap res" where
  "blk_set h (Ref a) i x = (case mem h a of
     Some (OBlk ty vs) \<Rightarrow> if 0 \<le> i \<and> i < int (length vs) then Inr (hset h a (OBlk ty (vs[nat i := x]))) else Inl UB
   | _ \<Rightarrow> Inl UB)"
| "blk_set h _ i x = Inl UB"

text \<open>A pointer to a slot.\<close>

datatype loc = StkLoc int | BlkLoc val int

fun load :: "machine \<Rightarrow> loc \<Rightarrow> val res" where
  "load m (StkLoc i) = stk_get m i"
| "load m (BlkLoc b i) = blk_get (HP m) b i"

fun store :: "machine \<Rightarrow> loc \<Rightarrow> val \<Rightarrow> machine res" where
  "store m (StkLoc i) v = stk_set m i v"
| "store m (BlkLoc b i) v = rbind (blk_set (HP m) b i v) (\<lambda>h. Inr (m \<lparr> HP := h \<rparr>))"

subsection \<open>Environments\<close>

text \<open>\<open>SENV_PTR\<close>.\<close>

fun senv_ptr :: "machine \<Rightarrow> val \<Rightarrow> int res" where
  "senv_ptr m (StkEnv ofs) = Inr (STOP m - int ofs)"
| "senv_ptr m _ = Inl UB"

definition senv_count :: "machine \<Rightarrow> int \<Rightarrow> int res" where
  "senv_count m base = rbind (stk_get m (base + 1)) fix2int"

definition nextenv :: "machine \<Rightarrow> val \<Rightarrow> val res" where
  "nextenv m env =
     (if env = NIL then Inr NIL
      else if htype (HP m) env = T_VECTOR then blk_get (HP m) env 0
      else rbind (senv_ptr m env) (stk_get m))"

text \<open>The environment \<open>depth\<close> levels up, or nil.\<close>

fun walk_env :: "machine \<Rightarrow> val \<Rightarrow> nat \<Rightarrow> val res" where
  "walk_env m env 0 = Inr env"
| "walk_env m env (Suc depth) = (if env = NIL then Inr NIL else rbind (nextenv m env) (\<lambda>e. walk_env m e depth))"

text \<open>For a nil environment the code returns a null pointer, which every caller dereferences.\<close>

definition envval :: "machine \<Rightarrow> nat \<Rightarrow> int \<Rightarrow> loc res" where
  "envval m depth index =
     rbind (walk_env m (ENVR m) depth) (\<lambda>env.
       if env = NIL then Inl UB
       else if htype (HP m) env = T_VECTOR then Inr (BlkLoc env (index + 1))
       else rbind (senv_ptr m env) (\<lambda>senv.
            rbind (senv_count m senv) (\<lambda>count.
            Inr (StkLoc (senv + count + 1 - index)))))"

definition arc_getenv :: "machine \<Rightarrow> nat \<Rightarrow> int \<Rightarrow> val res" where
  "arc_getenv m depth index = rbind (envval m depth index) (load m)"

definition arc_putenv :: "machine \<Rightarrow> nat \<Rightarrow> int \<Rightarrow> val \<Rightarrow> machine res" where
  "arc_putenv m depth index v = rbind (envval m depth index) (\<lambda>p. store m p v)"

definition env0_loc :: "machine \<Rightarrow> int \<Rightarrow> loc res" where
  "env0_loc m iindx =
     (case ENVR m of
        StkEnv ofs \<Rightarrow>
          rbind (senv_count m (STOP m - int ofs)) (\<lambda>count. Inr (StkLoc (STOP m - int ofs + count + 1 - iindx)))
      | e \<Rightarrow> Inr (BlkLoc e (iindx + 1)))"

definition arc_getenv0 :: "machine \<Rightarrow> int \<Rightarrow> val res" where
  "arc_getenv0 m iindx = rbind (env0_loc m iindx) (load m)"

definition arc_putenv0 :: "machine \<Rightarrow> int \<Rightarrow> val \<Rightarrow> machine res" where
  "arc_putenv0 m iindx v = rbind (env0_loc m iindx) (\<lambda>p. store m p v)"

text \<open>\<open>*(senvstart - i)\<close> for \<open>i\<close> below \<open>count\<close>.\<close>

fun read_down :: "machine \<Rightarrow> int \<Rightarrow> nat \<Rightarrow> val list res" where
  "read_down m p 0 = Inr []"
| "read_down m p (Suc n) = rbind (stk_get m p) (\<lambda>v. rbind (read_down m (p - 1) n) (\<lambda>vs. Inr (v # vs)))"

definition heap_env :: "machine \<Rightarrow> val \<Rightarrow> (val \<times> machine) res" where
  "heap_env m env =
     rbind (senv_ptr m env) (\<lambda>senv.
     rbind (senv_count m senv) (\<lambda>count.
     rbind (read_down m (senv + count + 1) (nat count)) (\<lambda>vs.
     rbind (nextenv m env) (\<lambda>next.
       let (a, h) = halloc (HP m) (OBlk T_VECTOR (next # vs)) in
       Inr (Ref a, m \<lparr> HP := h \<rparr>)))))"

subsection \<open>Walking continuations\<close>

definition nextcont :: "machine \<Rightarrow> val \<Rightarrow> val res" where
  "nextcont m cont = (case cont of Fix k \<Rightarrow> stk_get m (STOP m - k + 1) | _ \<Rightarrow> blk_get (HP m) cont 4)"

definition contenv :: "machine \<Rightarrow> val \<Rightarrow> loc" where
  "contenv m cont = (case cont of Fix k \<Rightarrow> StkLoc (STOP m - k + 4) | _ \<Rightarrow> BlkLoc cont 2)"

text \<open>One continuation: its environment is replaced when it is the old one.\<close>

definition update_cont :: "machine \<Rightarrow> val \<Rightarrow> val \<Rightarrow> val \<Rightarrow> machine res" where
  "update_cont m cont oldenv nenv =
     rbind (load m (contenv m cont)) (\<lambda>ce. if ce = oldenv then store m (contenv m cont) nenv else Inr m)"

partial_function (option) update_conts_from :: "machine \<Rightarrow> val \<Rightarrow> val \<Rightarrow> val \<Rightarrow> machine run" where
  "update_conts_from m cont oldenv nenv =
     (if cont = NIL then ret m
      else (case update_cont m cont oldenv nenv of
              Inl e \<Rightarrow> fail e
            | Inr m \<Rightarrow> (case nextcont m cont of
                Inl e \<Rightarrow> fail e
              | Inr next \<Rightarrow> update_conts_from m next oldenv nenv)))"

definition arc_update_cont_envs :: "machine \<Rightarrow> val \<Rightarrow> val \<Rightarrow> machine run" where
  "arc_update_cont_envs m oldenv nenv = update_conts_from m (CONR m) oldenv nenv"

text \<open>The loop of \<open>__arc_env2heap\<close>; \<open>env\<close> is the result so far.\<close>

partial_function (option) env2heap_loop :: "machine \<Rightarrow> val \<Rightarrow> val \<Rightarrow> (val \<times> machine) run" where
  "env2heap_loop m nenv env =
     (if nenv = NIL then ret (env, m)
      else (case (if htype (HP m) nenv = T_VECTOR then Inr (nenv, m) else heap_env m nenv) of
              Inl e \<Rightarrow> fail e
            | Inr r \<Rightarrow>
                Option.bind (arc_update_cont_envs (snd r) nenv (fst r)) (\<lambda>u.
                  case u of
                    Inl e \<Rightarrow> fail e
                  | Inr m \<Rightarrow> (case nextenv m (fst r) of
                      Inl e \<Rightarrow> fail e
                    | Inr next \<Rightarrow> env2heap_loop m next (if env = NIL then fst r else env)))))"

definition arc_env2heap :: "machine \<Rightarrow> val \<Rightarrow> (val \<times> machine) run" where
  "arc_env2heap m env = env2heap_loop m env NIL"

subsection \<open>Moving continuations to the heap\<close>

definition heap_cont :: "machine \<Rightarrow> val \<Rightarrow> (val \<times> machine) run" where
  "heap_cont m cont =
     (if htype (HP m) cont = T_CONT then ret (cont, m)
      else
        let (a, h) = halloc (HP m) (OBlk T_CONT (replicate 6 NIL)); m = m \<lparr> HP := h \<rparr> in
        rthen (Some (fix2int cont)) (\<lambda>k. let sp = STOP m - k in
        rthen (Some (stk_get m (sp + 1))) (\<lambda>conr.
        rthen (Some (stk_get m (sp + 2))) (\<lambda>argc.
        rthen (Some (stk_get m (sp + 3))) (\<lambda>funr.
        rthen (Some (stk_get m (sp + 4))) (\<lambda>env0.
        rthen (arc_env2heap m env0) (\<lambda>(env, m).
        rthen (Some (stk_get m (sp + 4))) (\<lambda>slot.
        let m = (if ENVR m = slot then m \<lparr> ENVR := env \<rparr> else m) in
        rthen (Some (stk_get m (sp + 5))) (\<lambda>ofs.
        rthen (Some (rbind (stk_get m (sp + 6)) fix2int)) (\<lambda>fn.
        let tsfn = STOP m - fn; sslen = tsfn - (sp + 6) in
        rthen (Some (if sslen < 0 then Inl UB else read_down m tsfn (nat sslen))) (\<lambda>saved.
        let (s, h) = halloc (HP m) (OBlk T_VECTOR saved);
            h = hset h a (OBlk T_CONT [ofs, funr, env, argc, conr, Ref s]) in
        ret (Ref a, m \<lparr> HP := h \<rparr>))))))))))))"

partial_function (option) cont2heap_loop :: "machine \<Rightarrow> val \<Rightarrow> val \<Rightarrow> val \<Rightarrow> (val \<times> machine) run" where
  "cont2heap_loop m cont oldcont initcont =
     (if cont = NIL then ret (initcont, m)
      else Option.bind (heap_cont m cont) (\<lambda>u.
        case u of
          Inl e \<Rightarrow> fail e
        | Inr r \<Rightarrow>
            (case (if oldcont = NIL then Inr (HP (snd r)) else blk_set (HP (snd r)) oldcont 4 (fst r)) of
               Inl e \<Rightarrow> fail e
             | Inr h \<Rightarrow> (case nextcont ((snd r) \<lparr> HP := h \<rparr>) (fst r) of
                 Inl e \<Rightarrow> fail e
               | Inr next \<Rightarrow> cont2heap_loop ((snd r) \<lparr> HP := h \<rparr>) next (fst r) (if initcont = NIL then fst r else initcont)))))"

definition arc_cont2heap :: "machine \<Rightarrow> val \<Rightarrow> (val \<times> machine) run" where
  "arc_cont2heap m cont = cont2heap_loop m cont NIL NIL"

subsection \<open>The stack\<close>

text \<open>\<open>vector_doubledown\<close>: the old elements in the upper half of a vector of twice the size.\<close>

definition vector_doubledown :: "val list \<Rightarrow> val list" where
  "vector_doubledown old = replicate (length old) NIL @ old"

text \<open>The stack pointer is not adjusted: it keeps pointing into the old vector.\<close>

definition grow_stack :: "machine \<Rightarrow> machine" where
  "grow_stack m =
     (let tsfnofs = STOP m - int (SFN m);
          m = m \<lparr> STK := vector_doubledown (STK m), STALE := True \<rparr> in
      m \<lparr> SFN := nat (STOP m - tsfnofs) \<rparr>)"

text \<open>\<open>memmove\<close> of \<open>n\<close> slots.\<close>

definition stk_move :: "machine \<Rightarrow> int \<Rightarrow> int \<Rightarrow> int \<Rightarrow> machine res" where
  "stk_move m dest src n =
     (if n = 0 then Inr m
      else if n < 0 \<or> dest < 0 \<or> src < 0 \<or> dest + n > int (length (STK m)) \<or> src + n > int (length (STK m)) then Inl UB
      else Inr (m \<lparr> STK := take (nat dest) (STK m) @ take (nat n) (drop (nat src) (STK m))
                          @ drop (nat (dest + n)) (STK m) \<rparr>))"

text \<open>
  The test before \<open>grow_stack\<close> guards an empty statement, so the stack is always grown once it
  is full.
\<close>

definition arc_stackcheck :: "machine \<Rightarrow> machine run" where
  "arc_stackcheck m =
     (if SP m > 0 then ret m
      else
        rthen (arc_cont2heap m (CONR m)) (\<lambda>(cont, m). let m = m \<lparr> CONR := cont \<rparr> in
        rthen (arc_env2heap m (ENVR m)) (\<lambda>(env, m). let m = m \<lparr> ENVR := env \<rparr>;
            mvcount = int (SFN m) - int (SP m) in
        rthen (Some (stk_move m (STOP m - mvcount) (int (SP m)) mvcount)) (\<lambda>m.
        let m = m \<lparr> SP := nat (STOP m - mvcount) \<rparr> in
        ret (grow_stack m)))))"

definition CPUSH :: "val \<Rightarrow> machine \<Rightarrow> machine run" where
  "CPUSH v m =
     rthen (if SP m = 0 then arc_stackcheck m else ret m) (\<lambda>m.
       if STALE m \<or> SP m = 0 \<or> SP m \<ge> length (STK m) then fail UB
       else ret (m \<lparr> STK := (STK m)[SP m := v], SP := SP m - 1 \<rparr>))"

definition CPOP :: "machine \<Rightarrow> (val \<times> machine) run" where
  "CPOP m =
     (if STALE m \<or> SP m + 1 \<ge> length (STK m) then fail UB
      else ret (STK m ! (SP m + 1), m \<lparr> SP := SP m + 1 \<rparr>))"

fun push_all :: "val list \<Rightarrow> machine \<Rightarrow> machine run" where
  "push_all [] m = ret m"
| "push_all (v # vs) m = rthen (CPUSH v m) (push_all vs)"

subsection \<open>Making and entering environments and continuations\<close>

text \<open>\<open>prevsize\<close> values are on the stack; \<open>extrasize\<close> unbound ones are added.\<close>

definition arc_mkenv :: "nat \<Rightarrow> nat \<Rightarrow> machine \<Rightarrow> machine run" where
  "arc_mkenv prevsize extrasize m =
     rthen (push_all (replicate extrasize UNBOUND) m) (\<lambda>m.
     rthen (CPUSH (Fix (int (prevsize + extrasize))) m) (\<lambda>m. let envstart = int (SP m) in
     rthen (CPUSH (ENVR m) m) (\<lambda>m.
     ret (m \<lparr> SFN := SP m, ENVR := StkEnv (nat (STOP m - envstart)) \<rparr>))))"

text \<open>
  A tail call: the \<open>n\<close> values on top of the stack replace the current environment when that is
  on the stack.
\<close>

definition arc_menv :: "nat \<Rightarrow> machine \<Rightarrow> machine run" where
  "arc_menv n m =
     (if ENVR m = NIL then ret m
      else
        rthen (Some (nextenv m (ENVR m))) (\<lambda>parentenv.
        rthen (if htype (HP m) (ENVR m) = T_ENV
               then rthen (Some (envval m 0 (int n - 1))) (\<lambda>dest.
                      case dest of
                        StkLoc d \<Rightarrow> rthen (Some (stk_move m d (int (SP m) + 1) (int n))) (\<lambda>m.
                                       if d < 1 then fail UB else ret (m \<lparr> SP := nat (d - 1) \<rparr>))
                      | BlkLoc _ _ \<Rightarrow> fail UB)
               else ret m) (\<lambda>m.
        ret (m \<lparr> ENVR := parentenv \<rparr>))))"

definition arc_mkcont :: "int \<Rightarrow> machine \<Rightarrow> (val \<times> machine) run" where
  "arc_mkcont offset m =
     (let tsfn = Fix (STOP m - int (SFN m)) in
      rthen (CPUSH tsfn m) (\<lambda>m.
      rthen (CPUSH (Fix offset) m) (\<lambda>m.
      rthen (CPUSH (ENVR m) m) (\<lambda>m.
      rthen (CPUSH (FUNR m) m) (\<lambda>m.
      rthen (CPUSH (Fix (ARGC m)) m) (\<lambda>m.
      rthen (CPUSH (CONR m) m) (\<lambda>m.
      ret (Fix (STOP m - int (SP m)), m))))))))"

text \<open>Where execution goes on in the function: a line of a foreign function or a place in its code.\<close>

definition set_ip :: "int \<Rightarrow> machine \<Rightarrow> machine run" where
  "set_ip offset m =
     (if htype (HP m) (FUNR m) = T_CCODE then ret (m \<lparr> IP := AFFLINE offset \<rparr>)
      else rthen (Some (rbind (blk_get (HP m) (FUNR m) 0) (\<lambda>code. blk_get (HP m) code 0))) (\<lambda>words.
           ret (m \<lparr> IP := IPP words offset \<rparr>)))"

definition restore_stk_cont :: "int \<Rightarrow> machine \<Rightarrow> (int \<times> machine) run" where
  "restore_stk_cont k m =
     (let sp = STOP m - k in
      if sp < 0 then fail UB else
      rthen (CPOP (m \<lparr> SP := nat sp \<rparr>)) (\<lambda>(conr, m). let m = m \<lparr> CONR := conr \<rparr> in
      rthen (CPOP m) (\<lambda>(argc, m). rthen (Some (fix2int argc)) (\<lambda>argc. let m = m \<lparr> ARGC := argc \<rparr> in
      rthen (CPOP m) (\<lambda>(funr, m). let m = m \<lparr> FUNR := funr \<rparr> in
      rthen (CPOP m) (\<lambda>(envr, m). let m = m \<lparr> ENVR := envr \<rparr> in
      rthen (CPOP m) (\<lambda>(ofs, m). rthen (Some (fix2int ofs)) (\<lambda>offset.
      rthen (CPOP m) (\<lambda>(fn, m). rthen (Some (fix2int fn)) (\<lambda>fn.
      if STOP m - fn < 0 then fail UB else
      ret (offset, m \<lparr> SFN := nat (STOP m - fn) \<rparr>)))))))))))"

definition restore_heap_cont :: "val \<Rightarrow> machine \<Rightarrow> (int \<times> machine) run" where
  "restore_heap_cont cont m =
     rthen (Some (blk_get (HP m) cont 1)) (\<lambda>funr.
     rthen (Some (blk_get (HP m) cont 2)) (\<lambda>envr.
     rthen (Some (rbind (blk_get (HP m) cont 3) fix2int)) (\<lambda>argc.
     rthen (Some (blk_get (HP m) cont 4)) (\<lambda>conr.
     rthen (Some (blk_get (HP m) cont 5)) (\<lambda>stk.
     let m = m \<lparr> FUNR := funr, ENVR := envr, ARGC := argc, CONR := conr, SFN := SP m \<rparr> in
     rthen (if htype (HP m) stk = T_VECTOR
            then rthen (Some (rep_blk (HP m) stk)) (\<lambda>vs. push_all vs m) else ret m) (\<lambda>m.
     rthen (Some (rbind (blk_get (HP m) cont 0) fix2int)) (\<lambda>offset. ret (offset, m))))))))"

definition arc_restorecont :: "val \<Rightarrow> machine \<Rightarrow> machine run" where
  "arc_restorecont cont m =
     rthen (case cont of Fix k \<Rightarrow> restore_stk_cont k m | _ \<Rightarrow> restore_heap_cont cont m)
       (\<lambda>(offset, m). set_ip offset m)"

subsection \<open>Closures\<close>

definition arc_mkclos :: "val \<Rightarrow> val \<Rightarrow> machine \<Rightarrow> val \<times> machine" where
  "arc_mkclos code env m = (let (a, h) = halloc (HP m) (OBlk T_CLOS [code, env]) in (Ref a, m \<lparr> HP := h \<rparr>))"

text \<open>\<open>__arc_clos_env2heap\<close>.\<close>

definition arc_clos_env2heap :: "val \<Rightarrow> machine \<Rightarrow> machine run" where
  "arc_clos_env2heap clos m =
     rthen (Some (blk_get (HP m) clos 1)) (\<lambda>oldenv.
     rthen (case oldenv of
              StkEnv _ \<Rightarrow> rthen (arc_env2heap m oldenv) (\<lambda>(env, m).
                rthen (Some (blk_set (HP m) clos 1 env)) (\<lambda>h. ret (m \<lparr> HP := h \<rparr>)))
            | _ \<Rightarrow> ret m) (\<lambda>m.
     if ENVR m = oldenv then rthen (Some (blk_get (HP m) clos 1)) (\<lambda>e. ret (m \<lparr> ENVR := e \<rparr>)) else ret m))"

subsection \<open>Chains of environments\<close>

text \<open>A frame on the stack at offset \<open>ofs\<close>, above index \<open>lo\<close>: the values, their count, the parent.\<close>

definition sbase :: "machine \<Rightarrow> nat \<Rightarrow> nat" where
  "sbase m ofs = length (STK m) - Suc ofs"

definition stk_frame :: "machine \<Rightarrow> nat \<Rightarrow> nat \<Rightarrow> val \<Rightarrow> val list \<Rightarrow> bool" where
  "stk_frame m lo ofs e f \<longleftrightarrow>
     ofs < length (STK m) \<and> lo < sbase m ofs \<and> sbase m ofs + 1 + length f < length (STK m)
     \<and> STK m ! sbase m ofs = e \<and> STK m ! (sbase m ofs + 1) = Fix (int (length f))
     \<and> (\<forall>i < length f. STK m ! (sbase m ofs + 1 + length f - i) = f ! i)"

text \<open>
  \<open>env_rep m lo S v fs\<close>: the environment \<open>v\<close> is the chain of frames with the values \<open>fs\<close>,
  innermost first; frames on the stack lie above \<open>lo\<close>, each above the one it extends, frames
  in the heap are not in \<open>S\<close> and are all different.
\<close>

fun env_rep :: "machine \<Rightarrow> nat \<Rightarrow> nat set \<Rightarrow> val \<Rightarrow> val list list \<Rightarrow> bool" where
  "env_rep m lo S v [] \<longleftrightarrow> v = NIL"
| "env_rep m lo S v (f # fs) \<longleftrightarrow>
     (\<exists>e. case v of
        Ref a \<Rightarrow> a \<notin> S \<and> mem (HP m) a = Some (OBlk T_VECTOR (e # f)) \<and> env_rep m lo (insert a S) e fs
      | StkEnv ofs \<Rightarrow> stk_frame m lo ofs e f \<and> env_rep m (sbase m ofs + 1 + length f) S e fs
      | _ \<Rightarrow> False)"

lemma env_rep_cases:
  assumes "env_rep m lo S v (f # fs)"
  obtains (heap) a e where "v = Ref a" "a \<notin> S" "mem (HP m) a = Some (OBlk T_VECTOR (e # f))" "env_rep m lo (insert a S) e fs"
  | (stack) ofs e where "v = StkEnv ofs" "stk_frame m lo ofs e f" "env_rep m (sbase m ofs + 1 + length f) S e fs"
  using assms by (cases v) auto

lemma htype_simps [simp]:
  "htype h NIL = T_NIL" "htype h (StkEnv n) = T_ENV" "htype h (Fix i) = T_FIXNUM"
  "mem h a = Some ob \<Longrightarrow> htype h (Ref a) = obj_type ob"
  by (simp_all add: htype_def)

lemma sbase_int: "ofs < length (STK m) \<Longrightarrow> STOP m - int ofs = int (sbase m ofs)"
  by (simp add: STOP_def sbase_def)

lemma stk_get_nat [simp]: "stk_get m (int i) = (if i < length (STK m) then Inr (STK m ! i) else Inl UB)"
  by (simp add: stk_get_def)

lemma stk_set_nat [simp]:
  "stk_set m (int i) v = (if i < length (STK m) then Inr (m \<lparr> STK := (STK m)[i := v] \<rparr>) else Inl UB)"
  by (simp add: stk_set_def)

lemma stk_frame_cong:
  assumes "stk_frame m lo ofs e f" and "length (STK m') = length (STK m)"
    and "\<And>i. lo < i \<Longrightarrow> i < length (STK m) \<Longrightarrow> STK m' ! i = STK m ! i"
  shows "stk_frame m' lo ofs e f"
proof -
  have s: "sbase m' ofs = sbase m ofs" using assms(2) by (simp add: sbase_def)
  have "STK m' ! (sbase m ofs + 1 + length f - i) = STK m ! (sbase m ofs + 1 + length f - i)" if "i < length f" for i
    using assms(1) that by (intro assms(3)) (auto simp: stk_frame_def)
  then show ?thesis using assms(1) assms(2,3) unfolding stk_frame_def s by auto
qed

lemma env_rep_cong:
  assumes "env_rep m lo S v fs" and "length (STK m') = length (STK m)"
    and "\<And>i. lo < i \<Longrightarrow> i < length (STK m) \<Longrightarrow> STK m' ! i = STK m ! i"
    and "\<And>a. a \<notin> S \<Longrightarrow> mem (HP m) a \<noteq> None \<Longrightarrow> mem (HP m') a = mem (HP m) a"
  shows "env_rep m' lo S v fs"
  using assms
proof (induction fs arbitrary: lo S v)
  case (Cons f fs)
  from Cons.prems(1) show ?case
  proof (cases rule: env_rep_cases)
    case (heap a e)
    then have "mem (HP m') a = mem (HP m) a" using Cons.prems(4) by simp
    moreover have "env_rep m' lo (insert a S) e fs"
      using Cons.IH [OF heap(4) Cons.prems(2)] Cons.prems(3,4) by blast
    ultimately show ?thesis using heap by simp
  next
    case (stack ofs e)
    let ?lo = "sbase m ofs + 1 + length f"
    have s: "sbase m' ofs = sbase m ofs" using Cons.prems(2) by (simp add: sbase_def)
    have "lo < ?lo" using stack(2) by (simp add: stk_frame_def)
    then have "env_rep m' ?lo S e fs"
      using Cons.IH [OF stack(3) Cons.prems(2)] Cons.prems(3,4) by (meson less_trans)
    then show ?thesis using stack stk_frame_cong [OF stack(2) Cons.prems(2,3)] by (auto simp: s)
  qed
qed simp

lemma env_rep_lower: "env_rep m lo S v fs \<Longrightarrow> lo' \<le> lo \<Longrightarrow> S' \<subseteq> S \<Longrightarrow> env_rep m lo' S' v fs"
proof (induction fs arbitrary: lo S v lo' S')
  case (Cons f fs)
  from Cons.prems(1) show ?case
  proof (cases rule: env_rep_cases)
    case (heap a e)
    then show ?thesis using Cons.IH [OF heap(4) Cons.prems(2), of "insert a S'"] Cons.prems(3) by auto
  next
    case (stack ofs e)
    have "stk_frame m lo' ofs e f" using stack(2) Cons.prems(2) by (auto simp: stk_frame_def)
    then show ?thesis using stack Cons.IH [OF stack(3) order_refl Cons.prems(3)] by auto
  qed
qed simp

lemma frame_next:
  "stk_frame m lo ofs e f \<Longrightarrow> nextenv m (StkEnv ofs) = Inr e"
  "mem (HP m) a = Some (OBlk T_VECTOR (e # f)) \<Longrightarrow> nextenv m (Ref a) = Inr e"
  by (simp_all add: stk_frame_def nextenv_def blk_get_def sbase_int)

text \<open>\<open>envval\<close> started at any environment.\<close>

definition envval_from :: "machine \<Rightarrow> val \<Rightarrow> nat \<Rightarrow> int \<Rightarrow> loc res" where
  "envval_from m v depth index =
     rbind (walk_env m v depth) (\<lambda>env.
       if env = NIL then Inl UB
       else if htype (HP m) env = T_VECTOR then Inr (BlkLoc env (index + 1))
       else rbind (senv_ptr m env) (\<lambda>senv. rbind (senv_count m senv) (\<lambda>count.
            Inr (StkLoc (senv + count + 1 - index)))))"

lemma envval_eq: "envval m depth index = envval_from m (ENVR m) depth index"
  by (simp add: envval_def envval_from_def)

lemma envval_from_Suc:
  "v \<noteq> NIL \<Longrightarrow> nextenv m v = Inr e \<Longrightarrow> envval_from m v (Suc d) i = envval_from m e d i"
  by (simp add: envval_from_def)

lemma slot_int: "i \<le> b + 1 + n \<Longrightarrow> int b + int n + 1 - int i = int (b + 1 + n - i)"
  by simp

lemma senv_count_frame: "stk_frame m lo ofs e f \<Longrightarrow> senv_count m (int (sbase m ofs)) = Inr (int (length f))"
  unfolding senv_count_def using stk_get_nat [of m "sbase m ofs + 1"] by (simp add: stk_frame_def add.commute)

lemma envval_from_0:
  "mem (HP m) a = Some (OBlk T_VECTOR vs) \<Longrightarrow> envval_from m (Ref a) 0 i = Inr (BlkLoc (Ref a) (i + 1))"
  "stk_frame m lo ofs e f \<Longrightarrow> k < length f \<Longrightarrow> envval_from m (StkEnv ofs) 0 (int k) = Inr (StkLoc (int (sbase m ofs + 1 + length f - k)))"
proof -
  assume f: "stk_frame m lo ofs e f" "k < length f"
  then have "ofs < length (STK m)" by (simp add: stk_frame_def)
  then show "envval_from m (StkEnv ofs) 0 (int k) = Inr (StkLoc (int (sbase m ofs + 1 + length f - k)))"
    using f(2) by (simp add: envval_from_def senv_count_frame [OF f(1)] sbase_int)
qed (simp add: envval_from_def)

text \<open>Reading and writing a variable through the chain.\<close>

lemma store_head:
  assumes "env_rep m lo S v (f # fs)" and "i < length f"
  shows "\<exists>p m'. envval_from m v 0 (int i) = Inr p \<and> load m p = Inr (f ! i) \<and> store m p x = Inr m'
    \<and> env_rep m' lo S v (f[i := x] # fs) \<and> length (STK m') = length (STK m)
    \<and> (\<forall>j \<le> lo. STK m' ! j = STK m ! j) \<and> (\<forall>a \<in> S. mem (HP m') a = mem (HP m) a)
    \<and> m' \<lparr> STK := STK m, HP := HP m \<rparr> = m"
  using assms(1)
proof (cases rule: env_rep_cases)
  case (heap a e)
  let ?m = "m \<lparr> HP := hset (HP m) a (OBlk T_VECTOR (e # f[i := x])) \<rparr>"
  have "env_rep ?m lo (insert a S) e fs"
    by (rule env_rep_cong [OF heap(4)]) (auto simp: hset_def)
  then show ?thesis
    using heap assms(2) envval_from_0(1) [OF heap(3), of "int i"]
    by (intro exI [of "\<lambda>p. \<exists>m'. P p m'" "BlkLoc (Ref a) (int i + 1)" for P] exI [of _ ?m])
      (auto simp: blk_get_def hset_def nat_add_distrib)
next
  case (stack ofs e)
  let ?b = "sbase m ofs"
  define k where "k = ?b + 1 + length f - i"
  let ?m = "m \<lparr> STK := (STK m)[k := x] \<rparr>"
  note fr = stack(2) [unfolded stk_frame_def]
  have s: "sbase ?m ofs = ?b" by (simp add: sbase_def)
  have k: "k < length (STK m)" "?b + 1 < k" "k \<le> ?b + 1 + length f" "lo < k"
    using fr assms(2) unfolding k_def by linarith+
  have e: "env_rep ?m (?b + 1 + length f) S e fs"
    by (rule env_rep_cong [OF stack(3)]) (use k in auto)
  have "(STK m)[k := x] ! (?b + 1 + length f - j) = f[i := x] ! j" if "j < length f" for j
  proof (cases "j = i")
    case True
    then show ?thesis using k(1) assms(2) by (simp add: k_def)
  next
    case False
    then have "?b + 1 + length f - j \<noteq> k" unfolding k_def using that assms(2) by linarith
    then show ?thesis using fr that False by simp
  qed
  then have "stk_frame ?m lo ofs e (f[i := x])"
    unfolding stk_frame_def s using fr k(2) by simp
  then have "env_rep ?m lo S v (f[i := x] # fs)" using e stack(1) s by auto
  moreover have "load m (StkLoc (int k)) = Inr (f ! i)" "store m (StkLoc (int k)) x = Inr ?m"
    using fr assms(2) k(1) stk_get_nat [of m k] stk_set_nat [of m k x] unfolding k_def by simp_all
  moreover have "envval_from m v 0 (int i) = Inr (StkLoc (int k))"
    using envval_from_0(2) [OF stack(2) assms(2)] stack(1) by (simp add: k_def)
  ultimately show ?thesis using k(4)
    by (intro exI [of "\<lambda>p. \<exists>m'. P p m'" "StkLoc (int k)" for P] exI [of _ ?m]) auto
qed

lemma store_chain:
  assumes "env_rep m lo S v fs" and "d < length fs" and "i < length (fs ! d)"
  shows "\<exists>p m'. envval_from m v d (int i) = Inr p \<and> load m p = Inr (fs ! d ! i) \<and> store m p x = Inr m'
    \<and> env_rep m' lo S v (fs[d := (fs ! d)[i := x]]) \<and> length (STK m') = length (STK m)
    \<and> (\<forall>j \<le> lo. STK m' ! j = STK m ! j) \<and> (\<forall>a \<in> S. mem (HP m') a = mem (HP m) a)
    \<and> m' \<lparr> STK := STK m, HP := HP m \<rparr> = m"
  using assms
proof (induction fs arbitrary: lo S v d)
  case (Cons f fs)
  show ?case
  proof (cases d)
    case 0
    then show ?thesis using store_head [OF Cons.prems(1), of i x] Cons.prems(3) by simp
  next
    case (Suc d')
    from Cons.prems(1) show ?thesis
    proof (cases rule: env_rep_cases)
      case (heap a e)
      obtain p m' where r: "envval_from m e d' (int i) = Inr p" "load m p = Inr (fs ! d' ! i)" "store m p x = Inr m'"
        "env_rep m' lo (insert a S) e (fs[d' := (fs ! d')[i := x]])" "length (STK m') = length (STK m)"
        "\<forall>j \<le> lo. STK m' ! j = STK m ! j" "\<forall>a \<in> insert a S. mem (HP m') a = mem (HP m) a"
        "m' \<lparr> STK := STK m, HP := HP m \<rparr> = m"
        using Cons.IH [OF heap(4), of d'] Cons.prems(2,3) Suc by auto
      have "envval_from m v d (int i) = Inr p"
        using r(1) envval_from_Suc [OF _ frame_next(2) [OF heap(3)]] heap(1) Suc by simp
      then show ?thesis using r heap Suc
        by (intro exI [of "\<lambda>p. \<exists>m'. P p m'" p for P] exI [of _ m']) auto
    next
      case (stack ofs e)
      let ?lo = "sbase m ofs + 1 + length f"
      obtain p m' where r: "envval_from m e d' (int i) = Inr p" "load m p = Inr (fs ! d' ! i)" "store m p x = Inr m'"
        "env_rep m' ?lo S e (fs[d' := (fs ! d')[i := x]])" "length (STK m') = length (STK m)"
        "\<forall>j \<le> ?lo. STK m' ! j = STK m ! j" "\<forall>a \<in> S. mem (HP m') a = mem (HP m) a"
        "m' \<lparr> STK := STK m, HP := HP m \<rparr> = m"
        using Cons.IH [OF stack(3), of d'] Cons.prems(2,3) Suc by auto
      have "envval_from m v d (int i) = Inr p"
        using r(1) envval_from_Suc [OF _ frame_next(1) [OF stack(2)]] stack(1) Suc by simp
      moreover have s: "sbase m' ofs = sbase m ofs" using r(5) by (simp add: sbase_def)
      moreover have "stk_frame m' lo ofs e f"
        using stack(2) r(5,6) unfolding stk_frame_def s by auto
      moreover have "lo < ?lo" using stack(2) by (simp add: stk_frame_def)
      ultimately show ?thesis using r stack Suc
        by (intro exI [of "\<lambda>p. \<exists>m'. P p m'" p for P] exI [of _ m']) auto
    qed
  qed
qed simp

text \<open>
  Property C5. Variable access is lexical addressing: in a chain of environments, whether its
  frames are on the stack, in the heap or both, reading variable \<open>i\<close> at depth \<open>d\<close> gives element
  \<open>i\<close> of frame \<open>d\<close>, and writing it changes that element and nothing else that any variable of
  the chain reads; all other registers keep their values.
\<close>

theorem env_access:
  assumes "env_rep m lo {} (ENVR m) fs" and "d < length fs" and "i < length (fs ! d)"
  shows "arc_getenv m d (int i) = Inr (fs ! d ! i)
    \<and> (\<exists>m'. arc_putenv m d (int i) x = Inr m' \<and> env_rep m' lo {} (ENVR m') (fs[d := (fs ! d)[i := x]])
        \<and> m' \<lparr> STK := STK m, HP := HP m \<rparr> = m)"
proof -
  obtain p m' where p: "envval m d (int i) = Inr p" "load m p = Inr (fs ! d ! i)" "store m p x = Inr m'"
    "env_rep m' lo {} (ENVR m) (fs[d := (fs ! d)[i := x]])" "m' \<lparr> STK := STK m, HP := HP m \<rparr> = m"
    using store_chain [OF assms, of x] unfolding envval_eq by blast
  have "ENVR m' = ENVR (m' \<lparr> STK := STK m, HP := HP m \<rparr>)" by simp
  then have "ENVR m' = ENVR m" unfolding p(5) .
  then show ?thesis using p by (simp add: arc_getenv_def arc_putenv_def)
qed

text \<open>The short forms for depth 0 agree with the general ones.\<close>

lemma env0_eq:
  assumes "env_rep m lo S (ENVR m) (f # fs)" and "i < length f"
  shows "arc_getenv0 m (int i) = arc_getenv m 0 (int i)" "arc_putenv0 m (int i) x = arc_putenv m 0 (int i) x"
proof -
  have "env0_loc m (int i) = envval m 0 (int i)"
    using assms(1)
  proof (cases rule: env_rep_cases)
    case (heap a e)
    then show ?thesis using envval_from_0(1) [OF heap(3)] by (simp add: env0_loc_def envval_eq)
  next
    case (stack ofs e)
    then have "ofs < length (STK m)" by (simp add: stk_frame_def)
    then show ?thesis
      using envval_from_0(2) [OF stack(2) assms(2)] stack senv_count_frame [OF stack(2)]
      using slot_int [of i "sbase m ofs" "length f"] assms(2) by (simp add: env0_loc_def envval_eq sbase_int)
  qed
  then show "arc_getenv0 m (int i) = arc_getenv m 0 (int i)" "arc_putenv0 m (int i) x = arc_putenv m 0 (int i) x"
    by (simp_all add: arc_getenv0_def arc_getenv_def arc_putenv0_def arc_putenv_def)
qed

subsection \<open>Pushing and popping\<close>

lemma CPUSH_room:
  "0 < SP m \<Longrightarrow> SP m < length (STK m) \<Longrightarrow> \<not> STALE m \<Longrightarrow>
    CPUSH v m = ret (m \<lparr> STK := (STK m)[SP m := v], SP := SP m - 1 \<rparr>)"
  by (simp add: CPUSH_def)

lemma CPOP_room:
  "SP m + 1 < length (STK m) \<Longrightarrow> \<not> STALE m \<Longrightarrow> CPOP m = ret (STK m ! (SP m + 1), m \<lparr> SP := SP m + 1 \<rparr>)"
  by (simp add: CPOP_def)

text \<open>The values on top of the stack, first pushed first.\<close>

definition stk_args :: "machine \<Rightarrow> val list \<Rightarrow> bool" where
  "stk_args m args \<longleftrightarrow> SP m + length args < length (STK m) \<and> \<not> STALE m
     \<and> (\<forall>i < length args. STK m ! (SP m + length args - i) = args ! i)"

text \<open>What pushing changes: the stack up to the old stack pointer and the stack pointer.\<close>

definition below :: "machine \<Rightarrow> machine \<Rightarrow> bool" where
  "below m m' \<longleftrightarrow> (\<exists>s p. m' = m \<lparr> STK := s, SP := p \<rparr> \<and> length s = length (STK m) \<and> p \<le> SP m
     \<and> (\<forall>i > SP m. s ! i = STK m ! i))"

lemma belowD:
  assumes "below m m'"
  shows "length (STK m') = length (STK m)" "SP m < i \<Longrightarrow> STK m' ! i = STK m ! i" "FUNR m' = FUNR m" "ENVR m' = ENVR m"
    "VALR m' = VALR m" "CONR m' = CONR m" "SFN m' = SFN m" "STALE m' = STALE m" "IP m' = IP m" "ARGC m' = ARGC m"
    "STATE m' = STATE m" "QUANTA m' = QUANTA m" "HP m' = HP m" "GENV m' = GENV m" "STOP m' = STOP m" "SP m' \<le> SP m"
  using assms by (auto simp: below_def STOP_def)

lemma below_refl: "below m m"
  unfolding below_def by (intro exI [of _ "STK m"] exI [of _ "SP m"]) simp

lemma below_trans: "below m m' \<Longrightarrow> below m' m'' \<Longrightarrow> below m m''"
  unfolding below_def by force

lemma stk_args_snoc: "stk_args m (args @ [v]) \<longleftrightarrow>
    stk_args (m \<lparr> SP := SP m + 1 \<rparr>) args \<and> STK m ! (SP m + 1) = v"
  by (auto simp: stk_args_def nth_append less_Suc_eq)

lemma CPUSH_args:
  assumes "0 < SP m" and "stk_args m args"
  shows "\<exists>m'. CPUSH v m = ret m' \<and> stk_args m' (args @ [v]) \<and> SP m' = SP m - 1 \<and> below m m'"
proof -
  let ?m = "m \<lparr> STK := (STK m)[SP m := v], SP := SP m - 1 \<rparr>"
  have "SP m < length (STK m)" "\<not> STALE m" using assms(2) by (auto simp: stk_args_def)
  then have "CPUSH v m = ret ?m" using assms(1) by (simp add: CPUSH_room)
  moreover have "stk_args ?m (args @ [v])" using assms by (auto simp: stk_args_def nth_append less_Suc_eq)
  moreover have "below m ?m" unfolding below_def by (intro exI [of _ "(STK m)[SP m := v]"] exI [of _ "SP m - 1"]) simp
  ultimately show ?thesis by auto
qed

lemma push_all_args:
  assumes "length vs \<le> SP m" and "stk_args m args"
  shows "\<exists>m'. push_all vs m = ret m' \<and> stk_args m' (args @ vs) \<and> SP m' = SP m - length vs \<and> below m m'"
  using assms
proof (induction vs arbitrary: m args)
  case Nil
  then show ?case by (simp add: below_refl)
next
  case (Cons v vs)
  then obtain m1 where m1: "CPUSH v m = ret m1" "stk_args m1 (args @ [v])" "SP m1 = SP m - 1" "below m m1"
    using CPUSH_args [of m args v] by auto
  then obtain m2 where "push_all vs m1 = ret m2" "stk_args m2 (args @ v # vs)" "SP m2 = SP m1 - length vs" "below m1 m2"
    using Cons.IH [OF _ m1(2)] Cons.prems(1) m1(3) by force
  then show ?case using m1 below_trans [OF m1(4)] by auto
qed

lemma stk_args_frame:
  assumes "stk_args m (vs @ [Fix (int (length vs)), e])"
  shows "stk_frame m (SP m) (length (STK m) - SP m - 2) e vs"
    and "sbase m (length (STK m) - SP m - 2) = SP m + 1"
proof -
  let ?l = "vs @ [Fix (int (length vs)), e]"
  have a: "SP m + length vs + 2 < length (STK m)" using assms by (simp add: stk_args_def)
  have nth: "i < length vs + 2 \<Longrightarrow> STK m ! (SP m + length vs + 2 - i) = ?l ! i" for i
    using assms by (simp add: stk_args_def)
  show b: "sbase m (length (STK m) - SP m - 2) = SP m + 1" using a by (simp add: sbase_def)
  have "STK m ! (SP m + 1) = e" "STK m ! (SP m + 2) = Fix (int (length vs))"
    using nth [of "length vs + 1"] nth [of "length vs"] by (simp_all add: nth_append)
  moreover have "STK m ! (SP m + 1 + 1 + length vs - i) = vs ! i" if "i < length vs" for i
    using nth [of i] that by (simp add: nth_append)
  ultimately show "stk_frame m (SP m) (length (STK m) - SP m - 2) e vs"
    unfolding stk_frame_def b using a by simp
qed

lemma env_rep_below: "env_rep m lo S v fs \<Longrightarrow> below m m' \<Longrightarrow> SP m \<le> lo \<Longrightarrow> env_rep m' lo S v fs"
  using belowD(1,2,13) [of m m'] by (elim env_rep_cong) auto

lemma env_rep_regs:
  "env_rep (m \<lparr> SP := p \<rparr>) lo S v fs = env_rep m lo S v fs" "env_rep (m \<lparr> ENVR := e \<rparr>) lo S v fs = env_rep m lo S v fs"
  "env_rep (m \<lparr> SFN := q \<rparr>) lo S v fs = env_rep m lo S v fs" "env_rep (m \<lparr> CONR := k \<rparr>) lo S v fs = env_rep m lo S v fs"
  "env_rep (m \<lparr> VALR := k \<rparr>) lo S v fs = env_rep m lo S v fs" "env_rep (m \<lparr> FUNR := k \<rparr>) lo S v fs = env_rep m lo S v fs"
  "env_rep (m \<lparr> ARGC := n \<rparr>) lo S v fs = env_rep m lo S v fs" "env_rep (m \<lparr> IP := ii \<rparr>) lo S v fs = env_rep m lo S v fs"
  by (rule iffI; erule env_rep_cong; simp)+

text \<open>
  Entering a function: with the arguments on top of the stack and room for the
  rest, \<open>__arc_mkenv\<close> makes a new innermost frame that holds the arguments in order followed by
  the extra variables, unbound, in front of the frames of the environment the function was
  closed over; it uses exactly two more slots than there are extra variables.
\<close>

lemma mkenv_frame:
  assumes "stk_args m args" and "extra + 2 \<le> SP m" and "env_rep m (SP m + length args) S (ENVR m) fs"
  shows "\<exists>m'. arc_mkenv (length args) extra m = ret m' \<and> env_rep m' (SP m') S (ENVR m') ((args @ replicate extra UNBOUND) # fs)
    \<and> SP m' = SP m - (extra + 2) \<and> SFN m' = SP m' \<and> HP m' = HP m \<and> CONR m' = CONR m \<and> length (STK m') = length (STK m)
    \<and> \<not> STALE m' \<and> (\<forall>i > SP m. STK m' ! i = STK m ! i) \<and> IP m' = IP m \<and> FUNR m' = FUNR m \<and> ARGC m' = ARGC m"
proof -
  let ?vs = "args @ replicate extra UNBOUND"
  obtain m1 where m1: "push_all (replicate extra UNBOUND) m = ret m1" "stk_args m1 ?vs" "SP m1 = SP m - extra" "below m m1"
    using push_all_args [of "replicate extra UNBOUND" m args] assms(1,2) by auto
  obtain m2 where m2: "CPUSH (Fix (int (length ?vs))) m1 = ret m2" "stk_args m2 (?vs @ [Fix (int (length ?vs))])" "SP m2 = SP m1 - 1"
    "below m1 m2"
    using CPUSH_args [OF _ m1(2)] m1(3) assms(2) by auto
  obtain m3 where m3: "CPUSH (ENVR m2) m2 = ret m3" "stk_args m3 (?vs @ [Fix (int (length ?vs)), ENVR m])" "SP m3 = SP m2 - 1"
    "below m2 m3"
    using CPUSH_args [OF _ m2(2), of "ENVR m2"] m1(3) m2(3) assms(2) belowD(4) [OF m1(4)] belowD(4) [OF m2(4)] by auto
  note b = below_trans [OF below_trans [OF m1(4) m2(4)] m3(4)]
  let ?o = "length (STK m3) - SP m3 - 2"
  note f = stk_args_frame [OF m3(2)]
  have sp: "SP m2 = SP m3 + 1" "SP m3 = SP m - (extra + 2)" "SP m3 + length ?vs + 2 = SP m + length args"
    using m1(3) m2(3) m3(3) assms(2) by auto
  have "nat (STOP m3 - int (SP m2)) = ?o" using m3(2) sp(1) by (simp add: STOP_def stk_args_def)
  then have r: "arc_mkenv (length args) extra m = ret (m3 \<lparr> SFN := SP m3, ENVR := StkEnv ?o \<rparr>)"
    using m1(1) m2(1) m3(1) by (simp add: arc_mkenv_def)
  have "env_rep m3 (SP m + length args) S (ENVR m) fs" using env_rep_below [OF assms(3) b] by simp
  moreover have "sbase m3 ?o + 1 + length ?vs = SP m + length args" using f(2) sp(3) by simp
  ultimately have "stk_frame m3 (SP m3) ?o (ENVR m) ?vs \<and> env_rep m3 (sbase m3 ?o + 1 + length ?vs) S (ENVR m) fs"
    using f(1) by metis
  then have "env_rep m3 (SP m3) S (StkEnv ?o) (?vs # fs)" by (simp only: env_rep.simps val.case) blast
  moreover have "\<not> STALE m3" using m3(2) by (simp add: stk_args_def)
  ultimately show ?thesis
    using r sp(2) belowD [OF b] by (intro exI [of _ "m3 \<lparr> SFN := SP m3, ENVR := StkEnv ?o \<rparr>"]) (simp add: env_rep_regs del: env_rep.simps)
qed

lemma stk_move_nat:
  assumes "dest + n \<le> length (STK m)" and "src + n \<le> length (STK m)"
  shows "stk_move m (int dest) (int src) (int n) =
    Inr (m \<lparr> STK := take dest (STK m) @ take n (drop src (STK m)) @ drop (dest + n) (STK m) \<rparr>)"
  using assms by (cases "n = 0") (simp_all add: stk_move_def nat_add_distrib)

lemma nth_move:
  assumes "i < length xs" and "dest + n \<le> length xs" and "src + n \<le> length xs"
  shows "(take dest xs @ take n (drop src xs) @ drop (dest + n) xs) ! i =
    (if dest \<le> i \<and> i < dest + n then xs ! (src + (i - dest)) else xs ! i)"
proof -
  consider "i < dest" | "dest \<le> i" "i < dest + n" | "dest + n \<le> i" by linarith
  then show ?thesis
  proof cases
    case 2
    then have "i - dest < n" "min (length xs - src) n = n" "min (length xs) dest = dest" using assms by auto
    then show ?thesis using 2 assms by (simp add: nth_append)
  next
    case 3
    then have "\<not> i - dest < n" "min (length xs - src) n = n" "min (length xs) dest = dest" using assms by auto
    then show ?thesis using 3 assms by (simp add: nth_append)
  qed (use assms in \<open>simp add: nth_append\<close>)
qed

text \<open>
  Property C34. A tail call runs in the frame of its caller: when the caller's environment is on
  the stack, \<open>__arc_menv\<close> puts the new arguments where that frame begins, drops the frame and
  makes its parent the current environment, so the arguments end at the same slot however many
  tail calls have been made.
\<close>

theorem menv_reuses_frame:
  assumes "stk_args m args" and "ENVR m = StkEnv ofs" and "stk_frame m (SP m + length args) ofs e f"
    and "env_rep m (sbase m ofs + 1 + length f) S e fs"
  shows "\<exists>m'. arc_menv (length args) m = ret m' \<and> stk_args m' args \<and> ENVR m' = e
    \<and> SP m' + length args = sbase m ofs + 1 + length f \<and> env_rep m' (SP m' + length args) S (ENVR m') fs
    \<and> m' \<lparr> STK := STK m, SP := SP m, ENVR := ENVR m \<rparr> = m"
proof -
  let ?n = "length args" and ?t = "sbase m ofs + 1 + length f"
  note fr = assms(3) [unfolded stk_frame_def]
  have t: "SP m + ?n < ?t" "?t < length (STK m)" using fr by auto
  define d where "d = ?t + 1 - ?n"
  have d: "d + ?n = ?t + 1" "1 < d" "SP m + 1 < d" using t by (auto simp: d_def)
  define s where "s = take d (STK m) @ take ?n (drop (SP m + 1) (STK m)) @ drop (d + ?n) (STK m)"
  have "envval m 0 (int ?n - 1) = Inr (StkLoc (int d))"
  proof -
    have "envval m 0 (int ?n - 1) = Inr (StkLoc (int (sbase m ofs) + int (length f) + 1 - (int ?n - 1)))"
      using assms(2) fr senv_count_frame [OF assms(3)] by (simp add: envval_def sbase_int)
    then show ?thesis using d(1) by simp
  qed
  moreover have "stk_move m (int d) (int (SP m) + 1) (int ?n) = Inr (m \<lparr> STK := s \<rparr>)"
    using stk_move_nat [of d ?n m "SP m + 1"] d t by (simp add: s_def add.commute)
  ultimately have r: "arc_menv ?n m = ret (m \<lparr> STK := s, SP := d - 1, ENVR := e \<rparr>)"
    using d(2) frame_next(1) [OF assms(3)] assms(2) by (simp add: arc_menv_def nat_diff_distrib)
  have nth: "s ! i = (if d \<le> i \<and> i < d + ?n then STK m ! (SP m + 1 + (i - d)) else STK m ! i)" if "i < length (STK m)" for i
    unfolding s_def using d t that by (intro nth_move) auto
  have ls: "length s = length (STK m)" using d t by (simp add: s_def)
  have "stk_args (m \<lparr> STK := s, SP := d - 1, ENVR := e \<rparr>) args"
  proof -
    have "s ! (d - 1 + ?n - i) = args ! i" if "i < ?n" for i
    proof -
      have "d \<le> d - 1 + ?n - i" "d - 1 + ?n - i < d + ?n" "SP m + 1 + (d - 1 + ?n - i - d) = SP m + ?n - i"
        using that d(2) by auto
      moreover have "d - 1 + ?n - i < length (STK m)" using d t(2) by linarith
      ultimately have "s ! (d - 1 + ?n - i) = STK m ! (SP m + ?n - i)" using nth by (simp only: if_True simp_thms)
      then show ?thesis using assms(1) that by (simp only: stk_args_def)
    qed
    then show ?thesis using assms(1) d t ls by (simp add: stk_args_def)
  qed
  moreover have "env_rep (m \<lparr> STK := s, SP := d - 1, ENVR := e \<rparr>) ?t S e fs"
    by (rule env_rep_cong [OF assms(4)]) (use ls nth d(1) in simp_all)
  moreover have "d - 1 + ?n = ?t" using d by simp
  ultimately show ?thesis using r
    by (intro exI [of _ "m \<lparr> STK := s, SP := d - 1, ENVR := e \<rparr>"]) simp
qed

subsection \<open>Chains of continuations\<close>

text \<open>What a continuation holds, wherever it is: the last component is the saved stack.\<close>

record acont =
  kofs :: val
  kfun :: val
  kenv :: val
  kargc :: val
  ksaved :: "val list"

text \<open>
  A continuation on the stack at offset \<open>ofs\<close>, with its six slots above index \<open>lo\<close>, and the saved
  stack between them and the index \<open>t\<close>.
\<close>

definition stk_cont :: "machine \<Rightarrow> nat \<Rightarrow> nat \<Rightarrow> acont \<Rightarrow> val \<Rightarrow> nat \<Rightarrow> bool" where
  "stk_cont m lo ofs k nx t \<longleftrightarrow>
     ofs < length (STK m) \<and> lo \<le> sbase m ofs \<and> sbase m ofs + 6 \<le> t \<and> t < length (STK m)
     \<and> STK m ! (sbase m ofs + 1) = nx \<and> STK m ! (sbase m ofs + 2) = kargc k \<and> STK m ! (sbase m ofs + 3) = kfun k
     \<and> STK m ! (sbase m ofs + 4) = kenv k \<and> STK m ! (sbase m ofs + 5) = kofs k
     \<and> STK m ! (sbase m ofs + 6) = Fix (int (length (STK m) - Suc t))
     \<and> ksaved k = map (\<lambda>i. STK m ! (t - i)) [0..<t - (sbase m ofs + 6)]"

definition heap_kont :: "heap \<Rightarrow> nat \<Rightarrow> acont \<Rightarrow> val \<Rightarrow> bool" where
  "heap_kont h a k nx \<longleftrightarrow> (\<exists>s. mem h a = Some (OBlk T_CONT [kofs k, kfun k, kenv k, kargc k, nx, Ref s])
     \<and> mem h s = Some (OBlk T_VECTOR (ksaved k)))"

fun cont_rep :: "machine \<Rightarrow> nat \<Rightarrow> nat set \<Rightarrow> val \<Rightarrow> acont list \<Rightarrow> bool" where
  "cont_rep m lo S v [] \<longleftrightarrow> v = NIL"
| "cont_rep m lo S v (k # ks) \<longleftrightarrow>
     (\<exists>nx. case v of
        Ref a \<Rightarrow> a \<notin> S \<and> heap_kont (HP m) a k nx \<and> cont_rep m lo (insert a S) nx ks
      | Fix i \<Rightarrow> 0 \<le> i \<and> (\<exists>t. stk_cont m lo (nat i) k nx t \<and> cont_rep m t S nx ks)
      | _ \<Rightarrow> False)"

lemma cont_rep_cases:
  assumes "cont_rep m lo S v (k # ks)"
  obtains (heap) a nx where "v = Ref a" "a \<notin> S" "heap_kont (HP m) a k nx" "cont_rep m lo (insert a S) nx ks"
  | (stack) ofs t nx where "v = Fix (int ofs)" "stk_cont m lo ofs k nx t" "cont_rep m t S nx ks"
  using assms by (cases v) (auto, metis nat_0_le)

lemma cont_rep_stack: "stk_cont m lo ofs k nx t \<Longrightarrow> cont_rep m t S nx ks \<Longrightarrow> cont_rep m lo S (Fix (int ofs)) (k # ks)"
  by auto

lemma stk_cont_cong:
  assumes "stk_cont m lo ofs k nx t" and "length (STK m') = length (STK m)"
    and "\<And>i. lo < i \<Longrightarrow> i < length (STK m) \<Longrightarrow> STK m' ! i = STK m ! i"
  shows "stk_cont m' lo ofs k nx t"
proof -
  have s: "sbase m' ofs = sbase m ofs" using assms(2) by (simp add: sbase_def)
  note c = assms(1) [unfolded stk_cont_def]
  have "map (\<lambda>i. STK m' ! (t - i)) [0..<t - (sbase m ofs + 6)] = map (\<lambda>i. STK m ! (t - i)) [0..<t - (sbase m ofs + 6)]"
    using c assms(3) by auto
  then show ?thesis using c assms(2,3) unfolding stk_cont_def s by simp
qed

text \<open>What may change without touching a chain that avoids \<open>S\<close> and the stack up to \<open>lo\<close>.\<close>

lemma cont_rep_cong:
  assumes "cont_rep m lo S v ks" and "length (STK m') = length (STK m)"
    and "\<And>i. lo < i \<Longrightarrow> i < length (STK m) \<Longrightarrow> STK m' ! i = STK m ! i"
    and "\<And>a ob. mem (HP m) a = Some ob \<Longrightarrow> a \<notin> S \<or> obj_type ob \<noteq> T_CONT \<Longrightarrow> mem (HP m') a = Some ob"
  shows "cont_rep m' lo S v ks"
  using assms
proof (induction ks arbitrary: lo S v)
  case (Cons k ks)
  from Cons.prems(1) show ?case
  proof (cases rule: cont_rep_cases)
    case (heap a nx)
    then have "heap_kont (HP m') a k nx" using Cons.prems(4) unfolding heap_kont_def by fastforce
    moreover have "cont_rep m' lo (insert a S) nx ks"
      using Cons.IH [OF heap(4) Cons.prems(2,3)] Cons.prems(4) by blast
    ultimately show ?thesis using heap by auto
  next
    case (stack ofs t nx)
    have "lo < t" using stack(2) by (simp add: stk_cont_def)
    then have "cont_rep m' t S nx ks"
      using Cons.IH [OF stack(3) Cons.prems(2)] Cons.prems(3,4) by (meson less_trans)
    then show ?thesis using stack stk_cont_cong [OF stack(2) Cons.prems(2,3)] cont_rep_stack by blast
  qed
qed simp

lemma cont_rep_next:
  "stk_cont m lo ofs k nx t \<Longrightarrow> nextcont m (Fix (int ofs)) = Inr nx"
  "heap_kont (HP m) a k nx \<Longrightarrow> nextcont m (Ref a) = Inr nx"
proof -
  assume c: "stk_cont m lo ofs k nx t"
  then have "STOP m - int ofs + 1 = int (sbase m ofs + 1)" "sbase m ofs + 1 < length (STK m)"
    using sbase_int [of ofs m] by (auto simp: stk_cont_def)
  then show "nextcont m (Fix (int ofs)) = Inr nx"
    using c stk_get_nat [of m "sbase m ofs + 1"] by (simp add: nextcont_def stk_cont_def add.commute)
qed (auto simp: nextcont_def heap_kont_def blk_get_def)

lemma stk_contenv:
  assumes "stk_cont m lo ofs k nx t"
  shows "contenv m (Fix (int ofs)) = StkLoc (int (sbase m ofs + 4))"
  using assms sbase_int [of ofs m] by (simp add: contenv_def stk_cont_def)

text \<open>One continuation updated.\<close>

definition upd_env :: "val \<Rightarrow> val \<Rightarrow> acont \<Rightarrow> acont" where
  "upd_env old new k = (if kenv k = old then k \<lparr> kenv := new \<rparr> else k)"

text \<open>What replacing an environment by another changes.\<close>

definition env_swapped :: "val \<Rightarrow> val \<Rightarrow> nat \<Rightarrow> nat set \<Rightarrow> machine \<Rightarrow> machine \<Rightarrow> bool" where
  "env_swapped old new lo S m m' \<longleftrightarrow>
     (\<exists>s h. m' = m \<lparr> STK := s, HP := h \<rparr> \<and> length s = length (STK m) \<and> (\<forall>i \<le> lo. s ! i = STK m ! i)
       \<and> (\<forall>i. s ! i = STK m ! i \<or> STK m ! i = old \<and> s ! i = new)
       \<and> (\<forall>a ob. mem (HP m) a = Some ob \<longrightarrow> a \<in> S \<or> obj_type ob \<noteq> T_CONT \<longrightarrow> mem h a = Some ob)
       \<and> (\<forall>a. mem (HP m) a = None \<longrightarrow> mem h a = None) \<and> brk h = brk (HP m)
       \<and> (\<forall>a ob. mem (HP m) a = Some ob \<longrightarrow> (\<exists>ob'. mem h a = Some ob' \<and> obj_type ob' = obj_type ob)))"

lemma env_swapped_refl: "env_swapped old new lo S m m"
  unfolding env_swapped_def by (intro exI [of _ "STK m"] exI [of _ "HP m"]) simp

lemma update_cont_rep:
  assumes "cont_rep m lo S v (k # ks)"
  shows "\<exists>m'. update_cont m v old new = Inr m' \<and> cont_rep m' lo S v (upd_env old new k # ks) \<and> env_swapped old new lo S m m'
    \<and> (old = new \<longrightarrow> m' = m)"
  using assms
proof (cases rule: cont_rep_cases)
  case (heap a nx)
  then obtain s where s: "mem (HP m) a = Some (OBlk T_CONT [kofs k, kfun k, kenv k, kargc k, nx, Ref s])"
    "mem (HP m) s = Some (OBlk T_VECTOR (ksaved k))" by (auto simp: heap_kont_def)
  have ld: "load m (contenv m v) = Inr (kenv k)" using s heap(1) by (simp add: contenv_def blk_get_def)
  show ?thesis
  proof (cases "kenv k = old")
    case False
    then show ?thesis using ld assms by (intro exI [of _ m]) (simp add: update_cont_def upd_env_def env_swapped_refl del: cont_rep.simps)
  next
    case True
    let ?h = "hset (HP m) a (OBlk T_CONT [kofs k, kfun k, new, kargc k, nx, Ref s])"
    let ?m = "m \<lparr> HP := ?h \<rparr>"
    have "update_cont m v old new = Inr ?m"
      using ld True heap(1) s(1) by (simp add: update_cont_def contenv_def)
    moreover have "heap_kont ?h a (upd_env old new k) nx" using s True by (auto simp: heap_kont_def hset_def upd_env_def)
    moreover have "cont_rep ?m lo (insert a S) nx ks"
      by (rule cont_rep_cong [OF heap(4)]) (use s in \<open>auto simp: hset_def\<close>)
    moreover have "env_swapped old new lo S m ?m"
      unfolding env_swapped_def using s heap(2)
      by (intro exI [of "\<lambda>s. \<exists>h. P s h" "STK m" for P] exI [of _ ?h]) (auto simp: hset_def)
    moreover have "old = new \<longrightarrow> ?m = m" using True s by (auto simp: hset_def fun_upd_idem)
    ultimately show ?thesis using heap(1,2) by (intro exI [of _ ?m]) auto
  qed
next
  case (stack ofs t nx)
  note c = stack(2) [unfolded stk_cont_def]
  let ?j = "sbase m ofs + 4"
  have ld: "load m (contenv m v) = Inr (kenv k)"
    using c stk_contenv [OF stack(2)] stack(1) stk_get_nat [of m ?j] by simp
  show ?thesis
  proof (cases "kenv k = old")
    case False
    then show ?thesis using ld assms by (intro exI [of _ m]) (simp add: update_cont_def upd_env_def env_swapped_refl del: cont_rep.simps)
  next
    case True
    let ?s = "(STK m)[?j := new]"
    let ?m = "m \<lparr> STK := ?s \<rparr>"
    have "update_cont m v old new = Inr ?m"
      using ld True stack(1) stk_contenv [OF stack(2)] stk_set_nat [of m ?j new] c by (simp add: update_cont_def)
    moreover have b: "sbase ?m ofs = sbase m ofs" by (simp add: sbase_def)
    have "stk_cont ?m lo ofs (upd_env old new k) nx t"
      unfolding stk_cont_def b using c True by (simp add: upd_env_def)
    moreover have "cont_rep ?m t S nx ks"
      by (rule cont_rep_cong [OF stack(3)]) (use c in auto)
    moreover have "env_swapped old new lo S m ?m"
      unfolding env_swapped_def using c True
      by (intro exI [of "\<lambda>s. \<exists>h. P s h" ?s for P] exI [of _ "HP m"]) (auto simp: nth_list_update)
    moreover have "old = new \<longrightarrow> ?m = m" using True c by (metis list_update_id machine.surjective machine.update_convs(5))
    ultimately show ?thesis using cont_rep_stack stack(1) by (intro exI [of _ ?m]) blast
  qed
qed

lemma env_swapped_trans:
  assumes "env_swapped old new lo S m m1" and "env_swapped old new lo' S' m1 m2" and "lo \<le> lo'" and "S \<subseteq> S'"
  shows "env_swapped old new lo S m m2"
proof -
  obtain s h where 1: "m1 = m \<lparr> STK := s, HP := h \<rparr>" "length s = length (STK m)" "\<forall>i \<le> lo. s ! i = STK m ! i"
    "\<forall>i. s ! i = STK m ! i \<or> STK m ! i = old \<and> s ! i = new"
    "\<forall>a ob. mem (HP m) a = Some ob \<longrightarrow> a \<in> S \<or> obj_type ob \<noteq> T_CONT \<longrightarrow> mem h a = Some ob"
    "\<forall>a. mem (HP m) a = None \<longrightarrow> mem h a = None" "brk h = brk (HP m)"
    "(\<forall>a ob. mem (HP m) a = Some ob \<longrightarrow> (\<exists>ob'. mem h a = Some ob' \<and> obj_type ob' = obj_type ob))"
    using assms(1) unfolding env_swapped_def by blast
  obtain s' h' where 2: "m2 = m1 \<lparr> STK := s', HP := h' \<rparr>" "length s' = length s" "\<forall>i \<le> lo'. s' ! i = s ! i"
    "\<forall>i. s' ! i = s ! i \<or> s ! i = old \<and> s' ! i = new"
    "\<forall>a ob. mem h a = Some ob \<longrightarrow> a \<in> S' \<or> obj_type ob \<noteq> T_CONT \<longrightarrow> mem h' a = Some ob"
    "\<forall>a. mem h a = None \<longrightarrow> mem h' a = None" "brk h' = brk h"
    "(\<forall>a ob. mem h a = Some ob \<longrightarrow> (\<exists>ob'. mem h' a = Some ob' \<and> obj_type ob' = obj_type ob))"
    using assms(2) 1(1) unfolding env_swapped_def by auto
  have "m2 = m \<lparr> STK := s', HP := h' \<rparr>" using 1(1) 2(1) by simp
  moreover have "\<forall>i \<le> lo. s' ! i = STK m ! i" using 1(3) 2(3) assms(3) by simp
  moreover have "\<forall>i. s' ! i = STK m ! i \<or> STK m ! i = old \<and> s' ! i = new" using 1(4) 2(4) by metis
  moreover have "\<forall>a ob. mem (HP m) a = Some ob \<longrightarrow> a \<in> S \<or> obj_type ob \<noteq> T_CONT \<longrightarrow> mem h' a = Some ob"
    using 1(5) 2(5) assms(4) by blast
  moreover have "length s' = length (STK m)" "\<forall>a. mem (HP m) a = None \<longrightarrow> mem h' a = None" "brk h' = brk (HP m)"
    using 1(2,6,7) 2(2,6,7) by simp_all
  moreover have "(\<forall>a ob. mem (HP m) a = Some ob \<longrightarrow> (\<exists>ob'. mem h' a = Some ob' \<and> obj_type ob' = obj_type ob))"
    using 1(8) 2(8) by metis
  ultimately show ?thesis
    unfolding env_swapped_def by (intro exI [of "\<lambda>s. \<exists>h. P s h" s' for P] exI [of _ h'] conjI)
qed

lemma cont_rep_swapped:
  assumes "cont_rep m lo S v ks" and "env_swapped old new lo' S' m m'"
    and "\<And>i. lo < i \<Longrightarrow> i < length (STK m) \<Longrightarrow> i \<le> lo'" and "\<And>a. a \<notin> S \<Longrightarrow> a \<in> S'"
  shows "cont_rep m' lo S v ks"
  by (rule cont_rep_cong [OF assms(1)]) (use assms(2-4) in \<open>auto simp: env_swapped_def\<close>)

text \<open>The head of the chain is out of reach of what updating the rest may change.\<close>

lemma heap_kont_swapped:
  assumes "heap_kont (HP m) a k nx" and "env_swapped old new lo (insert a S) m m'"
  shows "heap_kont (HP m') a k nx"
  using assms unfolding heap_kont_def env_swapped_def by fastforce

lemma stk_cont_swapped:
  assumes "stk_cont m lo ofs k nx t" and "env_swapped old new t S m m'"
  shows "stk_cont m' lo ofs k nx t"
proof -
  obtain s h where s: "m' = m \<lparr> STK := s, HP := h \<rparr>" "length s = length (STK m)" "\<forall>i \<le> t. s ! i = STK m ! i"
    using assms(2) unfolding env_swapped_def by blast
  have b: "sbase m' ofs = sbase m ofs" using s by (simp add: sbase_def)
  have "map (\<lambda>i. s ! (t - i)) [0..<n] = map (\<lambda>i. STK m ! (t - i)) [0..<n]" for n using s(3) by simp
  then show ?thesis using assms(1) s unfolding stk_cont_def b by simp
qed

lemma update_conts_rep:
  assumes "cont_rep m lo S v ks"
  shows "\<exists>m'. update_conts_from m v old new = ret m' \<and> cont_rep m' lo S v (map (upd_env old new) ks)
    \<and> env_swapped old new lo S m m' \<and> (old = new \<longrightarrow> m' = m)"
  using assms
proof (induction ks arbitrary: m lo S v)
  case Nil
  then show ?case using env_swapped_refl by (auto simp: update_conts_from.simps [of m NIL])
next
  case (Cons k ks)
  obtain m1 where m1: "update_cont m v old new = Inr m1" "cont_rep m1 lo S v (upd_env old new k # ks)"
    "env_swapped old new lo S m m1" "old = new \<longrightarrow> m1 = m"
    using update_cont_rep [OF Cons.prems] by blast
  have v: "v \<noteq> NIL" using Cons.prems by (auto elim: cont_rep_cases)
  from m1(2) show ?case
  proof (cases rule: cont_rep_cases)
    case (heap a nx)
    from Cons.IH [OF heap(4)] obtain m2 where m2: "update_conts_from m1 nx old new = ret m2"
      "cont_rep m2 lo (insert a S) nx (map (upd_env old new) ks)" "env_swapped old new lo (insert a S) m1 m2" "old = new \<longrightarrow> m2 = m1"
      by blast
    have "update_conts_from m v old new = ret m2"
      using v m1(1) m2(1) heap(1) cont_rep_next(2) [OF heap(3)] by (subst update_conts_from.simps) simp
    moreover have "cont_rep m2 lo S v (map (upd_env old new) (k # ks))"
      using heap(1,2) m2(2) heap_kont_swapped [OF heap(3) m2(3)] by auto
    moreover have "env_swapped old new lo S m m2" using env_swapped_trans [OF m1(3) m2(3)] by auto
    ultimately show ?thesis using m1(4) m2(4) by blast
  next
    case (stack ofs t nx)
    from Cons.IH [OF stack(3)] obtain m2 where m2: "update_conts_from m1 nx old new = ret m2"
      "cont_rep m2 t S nx (map (upd_env old new) ks)" "env_swapped old new t S m1 m2" "old = new \<longrightarrow> m2 = m1"
      by blast
    have "update_conts_from m v old new = ret m2"
      using v m1(1) m2(1) stack(1) cont_rep_next(1) [OF stack(2)] by (subst update_conts_from.simps) simp
    moreover have "cont_rep m2 lo S v (map (upd_env old new) (k # ks))"
      using cont_rep_stack [OF stk_cont_swapped [OF stack(2) m2(3)] m2(2)] stack(1) by simp
    moreover have "env_swapped old new lo S m m2"
      using env_swapped_trans [OF m1(3) m2(3)] stack(2) by (auto simp: stk_cont_def)
    ultimately show ?thesis using m1(4) m2(4) by blast
  qed
qed

subsection \<open>Moving an environment to the heap\<close>

text \<open>A chain of frames that are all in the heap.\<close>

fun henv :: "heap \<Rightarrow> nat set \<Rightarrow> val \<Rightarrow> val list list \<Rightarrow> bool" where
  "henv h S v [] \<longleftrightarrow> v = NIL"
| "henv h S v (f # fs) \<longleftrightarrow> (\<exists>a e. v = Ref a \<and> a \<notin> S \<and> mem h a = Some (OBlk T_VECTOR (e # f)) \<and> henv h (insert a S) e fs)"

lemma henv_rep: "henv (HP m) S v fs \<Longrightarrow> env_rep m lo S v fs"
  by (induction fs arbitrary: S v) auto

lemma henv_mono:
  "henv h S v fs \<Longrightarrow> (\<And>a e f. a \<notin> S \<Longrightarrow> mem h a = Some (OBlk T_VECTOR (e # f)) \<Longrightarrow> mem h' a = Some (OBlk T_VECTOR (e # f)) \<and> a \<notin> S' )
    \<Longrightarrow> henv h' S' v fs"
proof (induction fs arbitrary: S S' v)
  case (Cons f fs)
  then obtain a e where a: "v = Ref a" "a \<notin> S" "mem h a = Some (OBlk T_VECTOR (e # f))" "henv h (insert a S) e fs" by auto
  moreover have "henv h' (insert a S') e fs" using Cons.prems(2) a(2) by (intro Cons.IH [OF a(4)]) auto
  ultimately show ?case using Cons.prems(2) by auto
qed simp

text \<open>On a chain in the heap the loop only walks to its end.\<close>

lemma env2heap_walk:
  assumes "henv (HP m) S v fs" and "cont_rep m lo T (CONR m) ks"
  shows "env2heap_loop m v env = ret (if env = NIL then v else env, m)"
  using assms
proof (induction fs arbitrary: S v env)
  case Nil
  then show ?case by (subst env2heap_loop.simps) simp
next
  case (Cons f fs)
  then obtain a e where a: "v = Ref a" "mem (HP m) a = Some (OBlk T_VECTOR (e # f))" "henv (HP m) (insert a S) e fs" by auto
  have "arc_update_cont_envs m v v = ret m"
    using update_conts_rep [OF Cons.prems(2), of v v] by (auto simp: arc_update_cont_envs_def)
  moreover have "nextenv m v = Inr e" using frame_next(2) a by simp
  ultimately show ?case
    using a Cons.IH [OF a(3) Cons.prems(2)] by (subst env2heap_loop.simps) simp
qed

lemma read_down_frame:
  "stk_frame m lo ofs e f \<Longrightarrow> read_down m (int (sbase m ofs + 1 + length f)) (length f) = Inr f"
proof -
  assume s: "stk_frame m lo ofs e f"
  have "read_down m (int t) n = Inr (map (\<lambda>i. STK m ! (t - i)) [0..<n])" if "n \<le> t" "t < length (STK m)" for t n
    using that
  proof (induction n arbitrary: t)
    case (Suc n)
    then have "int t - 1 = int (t - 1)" by simp
    then have "read_down m (int t - 1) n = Inr (map (\<lambda>i. STK m ! (t - 1 - i)) [0..<n])"
      using Suc.IH [of "t - 1"] Suc.prems by simp
    moreover have "map (\<lambda>i. STK m ! (t - i)) [0..<Suc n] = STK m ! t # map (\<lambda>i. STK m ! (t - 1 - i)) [0..<n]"
      by (subst upt_conv_Cons) (simp_all add: map_Suc_upt [symmetric] comp_def del: map_Suc_upt upt_Suc)
    ultimately show ?case using Suc.prems by simp
  qed simp
  from this [of "length f" "sbase m ofs + 1 + length f"]
  have "read_down m (int (sbase m ofs + 1 + length f)) (length f) =
      Inr (map (\<lambda>i. STK m ! (sbase m ofs + 1 + length f - i)) [0..<length f])"
    using s by (simp add: stk_frame_def)
  also have "map (\<lambda>i. STK m ! (sbase m ofs + 1 + length f - i)) [0..<length f] = f"
    using s by (intro nth_equalityI) (auto simp: stk_frame_def)
  finally show ?thesis .
qed

lemma heap_env_frame:
  assumes "stk_frame m lo ofs e f"
  shows "heap_env m (StkEnv ofs) =
    Inr (Ref (brk (HP m)), m \<lparr> HP := snd (halloc (HP m) (OBlk T_VECTOR (e # f))) \<rparr>)"
  using read_down_frame [OF assms] senv_count_frame [OF assms] frame_next(1) [OF assms] assms
  by (simp add: heap_env_def sbase_int stk_frame_def halloc_def add.commute add.left_commute)

lemma env2heap_frames:
  assumes "stk_frame m lo ofs e f" and "henv (HP m) {} e fs" and "heap_ok (HP m)" and "cont_rep m lo' T (CONR m) ks"
  shows "\<exists>a m'. arc_env2heap m (StkEnv ofs) = ret (Ref a, m') \<and> henv (HP m') {} (Ref a) (f # fs) \<and> mem (HP m) a = None
    \<and> cont_rep m' lo' T (CONR m') (map (upd_env (StkEnv ofs) (Ref a)) ks)
    \<and> (\<forall>b. (case mem (HP m) b of Some ob \<Rightarrow> obj_type ob = T_CONT \<or> mem (HP m') b = Some ob | None \<Rightarrow> True))
    \<and> m' \<lparr> STK := STK m, HP := HP m \<rparr> = m \<and> length (STK m') = length (STK m) \<and> heap_ok (HP m')
    \<and> (\<forall>b ob. mem (HP m) b = Some ob \<longrightarrow> (\<exists>ob'. mem (HP m') b = Some ob' \<and> obj_type ob' = obj_type ob))"
proof -
  let ?a = "brk (HP m)" and ?h = "snd (halloc (HP m) (OBlk T_VECTOR (e # f)))"
  define m1 where "m1 = m \<lparr> HP := ?h \<rparr>"
  have fresh: "mem (HP m) ?a = None" using assms(3) unfolding heap_ok_def by (meson nat_neq_iff)
  have mem1: "mem (HP m1) b = (if b = ?a then Some (OBlk T_VECTOR (e # f)) else mem (HP m) b)" for b
    by (simp add: m1_def halloc_def)
  have "cont_rep m1 lo' T (CONR m) ks"
    by (rule cont_rep_cong [OF assms(4)]) (use fresh mem1 in \<open>auto simp: m1_def halloc_def\<close>)
  from update_conts_rep [OF this, of "StkEnv ofs" "Ref ?a"]
  obtain m2 where m2: "update_conts_from m1 (CONR m) (StkEnv ofs) (Ref ?a) = ret m2"
    "cont_rep m2 lo' T (CONR m) (map (upd_env (StkEnv ofs) (Ref ?a)) ks)" "env_swapped (StkEnv ofs) (Ref ?a) lo' T m1 m2"
    by blast
  then obtain s h where sh: "m2 = m1 \<lparr> STK := s, HP := h \<rparr>" "length s = length (STK m1)"
    and keep: "\<And>b ob. mem (HP m1) b = Some ob \<Longrightarrow> obj_type ob \<noteq> T_CONT \<Longrightarrow> mem (HP m2) b = Some ob"
    and none: "\<And>b. mem (HP m1) b = None \<Longrightarrow> mem (HP m2) b = None" and brk2: "brk (HP m2) = brk (HP m1)"
    and kind: "\<And>b ob. mem (HP m1) b = Some ob \<Longrightarrow> \<exists>ob'. mem (HP m2) b = Some ob' \<and> obj_type ob' = obj_type ob"
    unfolding env_swapped_def by auto
  from sh have frame: "m2 \<lparr> STK := STK m, HP := HP m \<rparr> = m" "CONR m2 = CONR m" "length (STK m2) = length (STK m)"
    by (simp_all add: m1_def)
  have a: "mem (HP m2) ?a = Some (OBlk T_VECTOR (e # f))" by (rule keep) (simp_all add: mem1)
  have old: "mem (HP m2) b = Some ob" if "mem (HP m) b = Some ob" "obj_type ob \<noteq> T_CONT" for b ob
    using keep [of b ob] that fresh by (cases "b = ?a") (simp_all add: mem1)
  have tl: "henv (HP m2) {?a} e fs"
    by (rule henv_mono [OF assms(2)]) (use old fresh in auto)
  have u: "arc_update_cont_envs m1 (StkEnv ofs) (Ref ?a) = ret m2" using m2(1) by (simp add: arc_update_cont_envs_def m1_def)
  have w: "env2heap_loop m2 e (Ref ?a) = ret (Ref ?a, m2)"
    using env2heap_walk [OF tl, of lo' T] m2(2) frame(2) by simp
  have "arc_env2heap m (StkEnv ofs) = ret (Ref ?a, m2)"
    unfolding arc_env2heap_def using heap_env_frame [OF assms(1)] u w frame_next(2) [OF a]
    by (subst env2heap_loop.simps) (simp flip: m1_def)
  moreover have "henv (HP m2) {} (Ref ?a) (f # fs)" using a tl by auto
  moreover have "\<forall>b. (case mem (HP m) b of Some ob \<Rightarrow> obj_type ob = T_CONT \<or> mem (HP m2) b = Some ob | None \<Rightarrow> True)"
    using old by (auto split: option.split)
  moreover have "heap_ok (HP m1)" using assms(3) by (auto simp: heap_ok_def m1_def halloc_def less_SucI)
  then have "heap_ok (HP m2)" using none brk2 unfolding heap_ok_def by metis
  moreover have "\<exists>ob'. mem (HP m2) b = Some ob' \<and> obj_type ob' = obj_type ob" if "mem (HP m) b = Some ob" for b ob
    using kind [of b ob] that fresh by (cases "b = ?a") (simp_all add: mem1)
  ultimately show ?thesis using fresh m2(2) frame by (intro exI [of "\<lambda>a. \<exists>m'. P a m'" ?a for P] exI [of _ m2]) simp
qed

text \<open>
  Only the first frame is moved properly: when the parent is on the stack too, the copy of the
  child in the heap still points to the parent's place on the stack.
\<close>

definition nested_demo :: machine where
  "nested_demo = \<lparr> FUNR = NIL, ENVR = StkEnv 6, VALR = NIL, CONR = NIL,
     STK = [NIL, StkEnv 3, Fix 1, Fix 7, NIL, Fix 1, Fix 5, NIL], SP = 0, SFN = 0, STALE = False,
     IP = AFFLINE 0, ARGC = 0, STATE = Tready, QUANTA = 1, HP = \<lparr> mem = (\<lambda>_. None), brk = 1 \<rparr>, GENV = (\<lambda>_. None) \<rparr>"

lemma nested_env_stays:
  "case arc_env2heap nested_demo (ENVR nested_demo) of
     Some (Inr (v, m)) \<Rightarrow> nextenv m v = Inr (StkEnv 3) | _ \<Rightarrow> False"
  by (simp add: arc_env2heap_def env2heap_loop.simps nested_demo_def heap_env_def senv_count_def STOP_def stk_get_def
      nextenv_def halloc_def arc_update_cont_envs_def update_conts_from.simps blk_get_def)

subsection \<open>Saving and restoring a continuation\<close>

text \<open>The values the running function has on the stack, first pushed first.\<close>

definition fn_stack :: "machine \<Rightarrow> val list" where
  "fn_stack m = map (\<lambda>i. STK m ! (SFN m - i)) [0..<SFN m - SP m]"

text \<open>What \<open>__arc_mkcont\<close> saves.\<close>

definition saved_cont :: "int \<Rightarrow> machine \<Rightarrow> acont" where
  "saved_cont offset m = \<lparr> kofs = Fix offset, kfun = FUNR m, kenv = ENVR m, kargc = Fix (ARGC m), ksaved = fn_stack m \<rparr>"

lemma mkcont_rep:
  assumes "6 \<le> SP m" and "SP m \<le> SFN m" and "SFN m < length (STK m)" and "\<not> STALE m"
  shows "\<exists>ofs m'. arc_mkcont offset m = ret (Fix (int ofs), m') \<and> stk_cont m' (SP m') ofs (saved_cont offset m) (CONR m) (SFN m)
    \<and> below m m' \<and> SP m' = SP m - 6 \<and> sbase m' ofs = SP m'"
proof -
  let ?vs = "[Fix (STOP m - int (SFN m)), Fix offset, ENVR m, FUNR m, Fix (ARGC m), CONR m]"
  have "stk_args m []" using assms by (simp add: stk_args_def)
  then obtain m' where m': "push_all ?vs m = ret m'" "stk_args m' ?vs" "SP m' = SP m - 6" "below m m'"
    using push_all_args [of ?vs m "[]"] assms(1) by auto
  have "\<exists>v. arc_mkcont offset m = ret (v, m') \<and> v = Fix (STOP m' - int (SP m'))"
  proof -
    obtain m1 where 1: "CPUSH (?vs ! 0) m = ret m1" "stk_args m1 [?vs ! 0]" "SP m1 = SP m - 1" "below m m1"
      using CPUSH_args [OF _ \<open>stk_args m []\<close>, of "?vs ! 0"] assms(1) by auto
    obtain m2 where 2: "CPUSH (?vs ! 1) m1 = ret m2" "stk_args m2 [?vs ! 0, ?vs ! 1]" "SP m2 = SP m - 2" "below m1 m2"
      using CPUSH_args [OF _ 1(2), of "?vs ! 1"] 1(3) assms(1) by auto
    obtain m3 where 3: "CPUSH (?vs ! 2) m2 = ret m3" "stk_args m3 [?vs ! 0, ?vs ! 1, ?vs ! 2]" "SP m3 = SP m - 3" "below m2 m3"
      using CPUSH_args [OF _ 2(2), of "?vs ! 2"] 2(3) assms(1) by auto
    obtain m4 where 4: "CPUSH (?vs ! 3) m3 = ret m4" "stk_args m4 [?vs ! 0, ?vs ! 1, ?vs ! 2, ?vs ! 3]" "SP m4 = SP m - 4" "below m3 m4"
      using CPUSH_args [OF _ 3(2), of "?vs ! 3"] 3(3) assms(1) by auto
    obtain m5 where 5: "CPUSH (?vs ! 4) m4 = ret m5" "stk_args m5 [?vs ! 0, ?vs ! 1, ?vs ! 2, ?vs ! 3, ?vs ! 4]" "SP m5 = SP m - 5" "below m4 m5"
      using CPUSH_args [OF _ 4(2), of "?vs ! 4"] 4(3) assms(1) by auto
    obtain m6 where 6: "CPUSH (?vs ! 5) m5 = ret m6"
      using CPUSH_args [OF _ 5(2), of "?vs ! 5"] 5(3) assms(1) by auto
    note b = belowD(3,4,6,10) [OF 1(4)] belowD(3,4,6,10) [OF 2(4)] belowD(3,4,6,10) [OF 3(4)]
      belowD(3,4,6,10) [OF 4(4)] belowD(3,4,6,10) [OF 5(4)]
    have "m6 = m'" using m'(1) 1(1) 2(1) 3(1) 4(1) 5(1) 6(1) by simp
    then show ?thesis using 1(1) 2(1) 3(1) 4(1) 5(1) 6(1) b by (simp add: arc_mkcont_def Let_def)
  qed
  then obtain v where v: "arc_mkcont offset m = ret (v, m')" "v = Fix (STOP m' - int (SP m'))" by blast
  let ?ofs = "length (STK m) - Suc (SP m')"
  note v(2)
  moreover have len: "length (STK m') = length (STK m)" "STOP m' = STOP m" using belowD(1,15) [OF m'(4)] by simp_all
  moreover have "SP m' + 6 < length (STK m)" using m'(2) len(1) by (simp add: stk_args_def)
  ultimately have ve: "v = Fix (int ?ofs)" "sbase m' ?ofs = SP m'" by (simp_all add: STOP_def sbase_def)
  have nth: "i < 6 \<Longrightarrow> STK m' ! (SP m' + 6 - i) = ?vs ! i" for i using m'(2) by (simp add: stk_args_def numeral_eq_Suc)
  have slots: "STK m' ! (SP m' + 1) = CONR m" "STK m' ! (SP m' + 2) = Fix (ARGC m)" "STK m' ! (SP m' + 3) = FUNR m"
    "STK m' ! (SP m' + 4) = ENVR m" "STK m' ! (SP m' + 5) = Fix offset" "STK m' ! (SP m' + 6) = Fix (STOP m - int (SFN m))"
    using nth [of 5] nth [of 4] nth [of 3] nth [of 2] nth [of 1] nth [of 0] by (simp_all add: add.commute)
  have "map (\<lambda>i. STK m' ! (SFN m - i)) [0..<SFN m - SP m] = fn_stack m"
    using belowD(2) [OF m'(4)] by (simp add: fn_stack_def)
  moreover have "SP m' + 6 = SP m" using m'(3) assms(1) by simp
  ultimately have "stk_cont m' (SP m') ?ofs (saved_cont offset m) (CONR m) (SFN m)"
    unfolding stk_cont_def ve(2) saved_cont_def using slots assms len \<open>SP m' + 6 < length (STK m)\<close> by (simp add: STOP_def)
  then show ?thesis using v(1) ve m'(3,4) by (intro exI [of "\<lambda>j. \<exists>m'. P j m'" ?ofs for P] exI [of _ m']) simp
qed

lemma restore_stk:
  assumes "stk_cont m lo ofs k nx t" and "kargc k = Fix n" and "kofs k = Fix off" and "\<not> STALE m"
  shows "restore_stk_cont (int ofs) m = ret (off, m \<lparr> SP := sbase m ofs + 6, CONR := nx, ARGC := n, FUNR := kfun k,
    ENVR := kenv k, SFN := t \<rparr>)"
proof -
  note c = assms(1) [unfolded stk_cont_def]
  have s: "STOP m - int ofs = int (sbase m ofs)" using c sbase_int by blast
  define b where "b = sbase m ofs"
  have sl: "STK m ! Suc b = nx" "STK m ! Suc (Suc b) = Fix n" "STK m ! Suc (Suc (Suc b)) = kfun k"
    "STK m ! Suc (Suc (Suc (Suc b))) = kenv k" "STK m ! Suc (Suc (Suc (Suc (Suc b)))) = Fix off"
    "STK m ! Suc (Suc (Suc (Suc (Suc (Suc b))))) = Fix (int (length (STK m) - Suc t))"
    "Suc (Suc (Suc (Suc (Suc (Suc b))))) < length (STK m)"
    using c assms(2,3) by (simp_all add: b_def numeral_eq_Suc)
  define m0 where "m0 = m \<lparr> SP := b \<rparr>"
  define m1 where "m1 = m0 \<lparr> SP := Suc b, CONR := nx \<rparr>"
  define m2 where "m2 = m1 \<lparr> SP := Suc (Suc b), ARGC := n \<rparr>"
  define m3 where "m3 = m2 \<lparr> SP := Suc (Suc (Suc b)), FUNR := kfun k \<rparr>"
  define m4 where "m4 = m3 \<lparr> SP := Suc (Suc (Suc (Suc b))), ENVR := kenv k \<rparr>"
  define m5 where "m5 = m4 \<lparr> SP := Suc (Suc (Suc (Suc (Suc b)))) \<rparr>"
  define m6 where "m6 = m5 \<lparr> SP := Suc (Suc (Suc (Suc (Suc (Suc b))))) \<rparr>"
  note ms = m0_def m1_def m2_def m3_def m4_def m5_def m6_def
  have S: "STK m0 = STK m" "STK m1 = STK m" "STK m2 = STK m" "STK m3 = STK m" "STK m4 = STK m" "STK m5 = STK m"
    "STALE m0 = STALE m" "STALE m1 = STALE m" "STALE m2 = STALE m" "STALE m3 = STALE m" "STALE m4 = STALE m" "STALE m5 = STALE m"
    "SP m0 = b" "SP m1 = Suc b" "SP m2 = Suc (Suc b)" "SP m3 = Suc (Suc (Suc b))" "SP m4 = Suc (Suc (Suc (Suc b)))"
    "SP m5 = Suc (Suc (Suc (Suc (Suc b))))"
    by (simp_all add: ms)
  have p: "CPOP m0 = ret (nx, m0 \<lparr> SP := Suc b \<rparr>)" "CPOP m1 = ret (Fix n, m1 \<lparr> SP := Suc (Suc b) \<rparr>)"
    "CPOP m2 = ret (kfun k, m2 \<lparr> SP := Suc (Suc (Suc b)) \<rparr>)" "CPOP m3 = ret (kenv k, m3 \<lparr> SP := Suc (Suc (Suc (Suc b))) \<rparr>)"
    "CPOP m4 = ret (Fix off, m5)" "CPOP m5 = ret (Fix (int (length (STK m) - Suc t)), m6)"
    using sl assms(4) by (simp_all add: CPOP_def S m5_def m6_def)
  have z: "nat (STOP m - int ofs) = b" "\<not> STOP m - int ofs < 0" using s by (simp_all add: b_def)
  have "STOP m6 = STOP m" by (simp add: STOP_def ms)
  then have t: "nat (STOP m6 - int (length (STK m) - Suc t)) = t" "\<not> STOP m6 - int (length (STK m) - Suc t) < 0"
    using c by (simp_all add: STOP_def)
  have "restore_stk_cont (int ofs) m = ret (off, m6 \<lparr> SFN := t \<rparr>)"
    unfolding restore_stk_cont_def
    by (simp only: Let_def z if_False rthen_simps prod.case p fix2int.simps t
        m0_def [symmetric] m1_def [symmetric] m2_def [symmetric] m3_def [symmetric] m4_def [symmetric])
  moreover have "m6 \<lparr> SFN := t \<rparr> = m \<lparr> SP := sbase m ofs + 6, CONR := nx, ARGC := n, FUNR := kfun k, ENVR := kenv k, SFN := t \<rparr>"
    by (simp add: ms b_def numeral_eq_Suc)
  ultimately show ?thesis by simp
qed

text \<open>
  Property C14. Returning undoes calling: if nothing above the stack pointer that
  \<open>__arc_mkcont\<close> left is written, then whatever else the callee did to the registers and to the
  stack below, restoring the continuation brings back the caller's function, environment,
  argument count, continuation, stack pointer and start of the function's stack, and goes on
  at the offset that was saved.
\<close>

theorem restore_after_mkcont:
  assumes "6 \<le> SP m" and "SP m \<le> SFN m" and "SFN m < length (STK m)" and "\<not> STALE m"
    and "arc_mkcont offset m = ret (k, m1)"
    and "length (STK m2) = length (STK m1)" and "\<forall>i \<in> {SP m1<..<length (STK m1)}. STK m2 ! i = STK m1 ! i" and "\<not> STALE m2"
  shows "arc_restorecont k m2 = set_ip offset (m2 \<lparr> SP := SP m, CONR := CONR m, ARGC := ARGC m, FUNR := FUNR m,
    ENVR := ENVR m, SFN := SFN m \<rparr>)"
proof -
  obtain ofs where o: "k = Fix (int ofs)" "stk_cont m1 (SP m1) ofs (saved_cont offset m) (CONR m) (SFN m)"
    "SP m1 = SP m - 6" "sbase m1 ofs = SP m1"
    using mkcont_rep [OF assms(1-4), of offset] assms(5) by auto
  have c: "stk_cont m2 (SP m1) ofs (saved_cont offset m) (CONR m) (SFN m)"
    by (rule stk_cont_cong [OF o(2) assms(6)]) (use assms(7) in auto)
  have "sbase m2 ofs + 6 = SP m" using o(3,4) assms(1,6) by (simp add: sbase_def)
  then show ?thesis
    using restore_stk [OF c _ _ assms(8), of "ARGC m" offset] o(1)
    by (simp add: arc_restorecont_def saved_cont_def)
qed

lemma restore_after_mkcont_witness:
  "\<exists>m k m1. arc_mkcont 5 m = ret (k, m1) \<and> arc_restorecont k (m1 \<lparr> ENVR := NIL, SP := 0 \<rparr>) =
     set_ip 5 (m1 \<lparr> ENVR := NIL, SP := 7, CONR := NIL, ARGC := 2, FUNR := NIL, ENVR := StkEnv 1, SFN := 8 \<rparr>)"
proof -
  let ?m = "nested_demo \<lparr> STK := replicate 10 NIL, SP := 7, SFN := 8, ENVR := StkEnv 1, ARGC := 2 \<rparr>"
  have m: "6 \<le> SP ?m" "SP ?m \<le> SFN ?m" "SFN ?m < length (STK ?m)" "\<not> STALE ?m" by (simp_all add: nested_demo_def)
  from mkcont_rep [OF m, of 5] obtain k m1 where k: "arc_mkcont 5 ?m = ret (k, m1)" "below ?m m1" by blast
  have "\<not> STALE m1" "CONR m1 = NIL" "FUNR m1 = NIL" "ARGC m1 = 2" "SFN m1 = 8"
    using belowD [OF k(2)] by (simp_all add: nested_demo_def)
  then show ?thesis
    using k(1) restore_after_mkcont [OF m k(1), of "m1 \<lparr> ENVR := NIL, SP := 0 \<rparr>"]
    by (intro exI [of "\<lambda>m. \<exists>k m1. P m k m1" ?m for P] exI [of "\<lambda>k. \<exists>m1. P k m1" k for P] exI [of _ m1]) (simp add: nested_demo_def)
qed

text \<open>
  A push on a full stack never returns to the running code with a usable machine:
  it diverges, raises an error, or writes through a stack pointer that no longer points into the
  stack.
\<close>

lemma full_stack_unusable: "SP m = 0 \<Longrightarrow> CPUSH v m \<noteq> ret m'"
  by (auto simp: CPUSH_def arc_stackcheck_def grow_stack_def rthen_ret Let_def split: if_splits)

subsection \<open>Moving a continuation to the heap\<close>

text \<open>An environment that \<open>__arc_env2heap\<close> moves as a whole: in the heap but for its first frame.\<close>

definition movable :: "machine \<Rightarrow> val \<Rightarrow> val list list \<Rightarrow> bool" where
  "movable m v fs \<longleftrightarrow> henv (HP m) {} v fs \<or>
     (\<exists>lo ofs e f fs'. v = StkEnv ofs \<and> fs = f # fs' \<and> stk_frame m lo ofs e f \<and> henv (HP m) {} e fs')"

lemma env2heap_movable:
  assumes "movable m v fs" and "heap_ok (HP m)" and "cont_rep m lo T (CONR m) ks"
  shows "\<exists>env m'. arc_env2heap m v = ret (env, m') \<and> henv (HP m') {} env fs
    \<and> cont_rep m' lo T (CONR m') (map (upd_env v env) ks)
    \<and> (\<forall>b ob. mem (HP m) b = Some ob \<longrightarrow> obj_type ob = T_CONT \<or> mem (HP m') b = Some ob)
    \<and> m' \<lparr> STK := STK m, HP := HP m \<rparr> = m \<and> length (STK m') = length (STK m) \<and> heap_ok (HP m')
    \<and> (\<forall>b ob. mem (HP m) b = Some ob \<longrightarrow> (\<exists>ob'. mem (HP m') b = Some ob' \<and> obj_type ob' = obj_type ob))"
proof -
  consider (heap) "henv (HP m) {} v fs"
    | (stack) lo1 ofs e f fs' where "v = StkEnv ofs" "fs = f # fs'" "stk_frame m lo1 ofs e f" "henv (HP m) {} e fs'"
    using assms(1) unfolding movable_def by blast
  then show ?thesis
  proof cases
    case heap
    have "map (upd_env v v) ks = ks" by (simp add: upd_env_def map_idI)
    moreover have "arc_env2heap m v = ret (v, m)" using env2heap_walk [OF heap assms(3), of NIL] by (simp add: arc_env2heap_def)
    ultimately show ?thesis using heap assms(2,3) by (intro exI [of "\<lambda>e. \<exists>m'. P e m'" v for P] exI [of _ m]) simp
  next
    case stack
    obtain a m' where "arc_env2heap m (StkEnv ofs) = ret (Ref a, m')" "henv (HP m') {} (Ref a) (f # fs')"
      "cont_rep m' lo T (CONR m') (map (upd_env (StkEnv ofs) (Ref a)) ks)"
      "\<forall>b. (case mem (HP m) b of Some ob \<Rightarrow> obj_type ob = T_CONT \<or> mem (HP m') b = Some ob | None \<Rightarrow> True)"
      "m' \<lparr> STK := STK m, HP := HP m \<rparr> = m" "length (STK m') = length (STK m)" "heap_ok (HP m')"
      "\<forall>b ob. mem (HP m) b = Some ob \<longrightarrow> (\<exists>ob'. mem (HP m') b = Some ob' \<and> obj_type ob' = obj_type ob)"
      using env2heap_frames [OF stack(3,4) assms(2,3)] by blast
    then show ?thesis unfolding stack(1,2)
      by (intro exI [of "\<lambda>e. \<exists>m'. P e m'" "Ref a" for P] exI [of _ m']) (simp split: option.splits del: henv.simps)
  qed
qed

lemma getenv_rep:
  "env_rep m lo S (ENVR m) fs \<Longrightarrow> d < length fs \<Longrightarrow> i < length (fs ! d) \<Longrightarrow> arc_getenv m d (int i) = Inr (fs ! d ! i)"
proof -
  assume "env_rep m lo S (ENVR m) fs" "d < length fs" "i < length (fs ! d)"
  from store_chain [OF this, of NIL] show ?thesis by (auto simp: arc_getenv_def envval_eq)
qed


lemma read_down_upt:
  "n \<le> t \<Longrightarrow> t < length (STK m) \<Longrightarrow> read_down m (int t) n = Inr (map (\<lambda>i. STK m ! (t - i)) [0..<n])"
proof (induction n arbitrary: t)
  case (Suc n)
  then have "int t - 1 = int (t - 1)" by simp
  then have "read_down m (int t - 1) n = Inr (map (\<lambda>i. STK m ! (t - 1 - i)) [0..<n])"
    using Suc.IH [of "t - 1"] Suc.prems by simp
  moreover have "map (\<lambda>i. STK m ! (t - i)) [0..<Suc n] = STK m ! t # map (\<lambda>i. STK m ! (t - 1 - i)) [0..<n]"
    by (subst upt_conv_Cons) (simp_all add: map_Suc_upt [symmetric] comp_def del: map_Suc_upt upt_Suc)
  ultimately show ?case using Suc.prems by simp
qed simp

lemma stk_cont_slots:
  assumes "stk_cont m lo ofs k nx t"
  shows "STOP m - int ofs = int (sbase m ofs)"
    "stk_get m (int (sbase m ofs) + 1) = Inr nx" "stk_get m (int (sbase m ofs) + 2) = Inr (kargc k)"
    "stk_get m (int (sbase m ofs) + 3) = Inr (kfun k)" "stk_get m (int (sbase m ofs) + 4) = Inr (kenv k)"
    "stk_get m (int (sbase m ofs) + 5) = Inr (kofs k)"
    "rbind (stk_get m (int (sbase m ofs) + 6)) fix2int = Inr (STOP m - int t)"
    "read_down m (int t) (nat (int t - (int (sbase m ofs) + 6))) = Inr (ksaved k)" "int t - (int (sbase m ofs) + 6) \<ge> 0"
proof -
  note c = assms [unfolded stk_cont_def]
  show "STOP m - int ofs = int (sbase m ofs)" using c sbase_int by blast
  have g: "stk_get m (int (sbase m ofs) + int j) = Inr (STK m ! (sbase m ofs + j))" if "j \<le> 6" for j
    using c that stk_get_nat [of m "sbase m ofs + j"] by simp
  show "stk_get m (int (sbase m ofs) + 1) = Inr nx" "stk_get m (int (sbase m ofs) + 2) = Inr (kargc k)"
    "stk_get m (int (sbase m ofs) + 3) = Inr (kfun k)" "stk_get m (int (sbase m ofs) + 4) = Inr (kenv k)"
    "stk_get m (int (sbase m ofs) + 5) = Inr (kofs k)"
    using g [of 1] g [of 2] g [of 3] g [of 4] g [of 5] c by simp_all
  show "rbind (stk_get m (int (sbase m ofs) + 6)) fix2int = Inr (STOP m - int t)"
    using g [of 6] c by (simp add: STOP_def)
  have "nat (int t - (int (sbase m ofs) + 6)) = t - (sbase m ofs + 6)" using c by linarith
  then show "read_down m (int t) (nat (int t - (int (sbase m ofs) + 6))) = Inr (ksaved k)"
    using c read_down_upt [of "t - (sbase m ofs + 6)" t m] by simp
  show "int t - (int (sbase m ofs) + 6) \<ge> 0" using c by simp
qed

lemma heap_cont_copies:
  assumes "cont_rep m lo {} (CONR m) (k # ks)" and "CONR m = Fix (int ofs)" and "heap_ok (HP m)" and "movable m (kenv k) fs"
  shows "\<exists>a m' env nx t. heap_cont m (Fix (int ofs)) = ret (Ref a, m') \<and> stk_cont m lo ofs k nx t
    \<and> heap_kont (HP m') a (k \<lparr> kenv := env \<rparr>) nx \<and> henv (HP m') {} env fs \<and> heap_ok (HP m) \<and> STALE m' = STALE m
    \<and> SP m' = SP m \<and> length (STK m') = length (STK m)"
proof -
  obtain t nx where c: "stk_cont m lo ofs k nx t" "cont_rep m t {} nx ks"
    using assms(1,2) by (auto elim: cont_rep_cases)
  let ?a = "brk (HP m)"
  define m1 where "m1 = m \<lparr> HP := snd (halloc (HP m) (OBlk T_CONT (replicate 6 NIL))) \<rparr>"
  have fresh: "mem (HP m) ?a = None" using assms(3) unfolding heap_ok_def by (meson nat_neq_iff)
  have mem1: "mem (HP m1) b = (if b = ?a then Some (OBlk T_CONT (replicate 6 NIL)) else mem (HP m) b)" for b
    by (simp add: m1_def halloc_def)
  have ok1: "heap_ok (HP m1)" using assms(3) by (auto simp: heap_ok_def m1_def halloc_def less_SucI)
  have keep1: "mem (HP m) b = Some ob \<Longrightarrow> mem (HP m1) b = Some ob" for b ob using fresh by (auto simp: mem1)
  have stk1: "STK m1 = STK m" by (simp add: m1_def)
  have c1: "cont_rep m1 lo {} (CONR m1) (k # ks)"
    by (rule cont_rep_cong [of m]) (use assms(1) keep1 stk1 in \<open>auto simp: m1_def simp del: cont_rep.simps\<close>)
  have henv1: "henv (HP m) {} v fs \<Longrightarrow> henv (HP m1) {} v fs" for v fs
    by (erule henv_mono) (use keep1 in auto)
  have mv: "movable m1 (kenv k) fs"
    using assms(4) henv1 stk1 unfolding movable_def by (metis stk_frame_cong)
  from env2heap_movable [OF mv ok1 c1]
  obtain env m2 where m2: "arc_env2heap m1 (kenv k) = ret (env, m2)" "henv (HP m2) {} env fs"
    "cont_rep m2 lo {} (CONR m2) (map (upd_env (kenv k) env) (k # ks))"
    "m2 \<lparr> STK := STK m1, HP := HP m1 \<rparr> = m1" "length (STK m2) = length (STK m1)"
    "heap_ok (HP m2)" "\<And>b ob. mem (HP m1) b = Some ob \<Longrightarrow> \<exists>ob'. mem (HP m2) b = Some ob' \<and> obj_type ob' = obj_type ob"
    by blast
  have regs: "CONR m2 = CONR m" "STALE m2 = STALE m" "SP m2 = SP m"
    using arg_cong [OF m2(4), of CONR] arg_cong [OF m2(4), of STALE] arg_cong [OF m2(4), of SP] by (simp_all add: m1_def)
  obtain t2 nx2 where c2: "stk_cont m2 lo ofs (upd_env (kenv k) env k) nx2 t2"
    using m2(3) regs(1) assms(2) by (auto elim: cont_rep_cases)
  have ku: "upd_env (kenv k) env k = k \<lparr> kenv := env \<rparr>" by (simp add: upd_env_def)
  have cm1: "stk_cont m1 lo ofs k nx t" by (rule stk_cont_cong [OF c(1)]) (simp_all add: stk1)
  have len: "length (STK m1) = length (STK m)" "sbase m1 ofs = sbase m ofs" "sbase m2 ofs = sbase m ofs" "STOP m2 = STOP m1"
    using stk1 m2(5) by (simp_all add: sbase_def STOP_def)
  obtain s h where sh: "halloc (HP m2) (OBlk T_VECTOR (ksaved k)) = (s, h)" by fastforce
  note s1 = stk_cont_slots [OF cm1, unfolded len] and s2 = stk_cont_slots [OF c2, unfolded len ku, simplified]
  define m4 where "m4 = m2 \<lparr> HP := hset h ?a (OBlk T_CONT [kofs k, kfun k, env, kargc k, nx, Ref s]) \<rparr>"
  have hal: "halloc (HP m) (OBlk T_CONT (replicate 6 NIL)) = (?a, HP m1)" "m \<lparr> HP := HP m1 \<rparr> = m1"
    by (simp_all add: m1_def halloc_def)
  have slot: "(if ENVR m2 = env then m2 \<lparr> ENVR := env \<rparr> else m2) = m2" by auto
  have lt: "\<not> int t2 < int (sbase m ofs) + 6" using c2 by (simp add: stk_cont_def len)
  have "heap_cont m (Fix (int ofs)) = ret (Ref ?a, m4)"
    unfolding heap_cont_def hal prod.case Let_def fix2int.simps
    by (simp add: s1 hal m2(1) s2 sh slot m4_def len(4) lt)
  moreover have ao: "\<exists>ob. mem (HP m2) ?a = Some ob \<and> obj_type ob = T_CONT" using m2(7) [of ?a] mem1 by simp
  have s: "s = brk (HP m2)" "mem h x = (if x = s then Some (OBlk T_VECTOR (ksaved k)) else mem (HP m2) x)" for x
    using sh by (auto simp: halloc_def)
  have new: "mem (HP m2) s = None" using m2(6) s(1) unfolding heap_ok_def by (meson nat_neq_iff)
  then have sa: "s \<noteq> ?a" using ao by auto
  then have "heap_kont (HP m4) ?a (k \<lparr> kenv := env \<rparr>) nx" by (simp add: heap_kont_def m4_def hset_def s(2))
  moreover have "henv (HP m4) {} env fs"
    by (rule henv_mono [OF m2(2)]) (use ao new in \<open>auto simp: m4_def hset_def s(2)\<close>)
  moreover have "STALE m4 = STALE m" "SP m4 = SP m" "length (STK m4) = length (STK m)" using regs len(1) m2(5) by (simp_all add: m4_def)
  ultimately show ?thesis using c(1) assms(3) by blast
qed

lemma restore_heap:
  assumes "heap_kont (HP m) a k nx" and "kargc k = Fix n" and "kofs k = Fix off" and "length (ksaved k) \<le> SP m"
    and "SP m < length (STK m)" and "\<not> STALE m"
  shows "\<exists>m'. restore_heap_cont (Ref a) m = ret (off, m') \<and> FUNR m' = kfun k \<and> ENVR m' = kenv k \<and> ARGC m' = n \<and> CONR m' = nx
    \<and> fn_stack m' = ksaved k \<and> HP m' = HP m"
proof -
  obtain s where s: "mem (HP m) a = Some (OBlk T_CONT [kofs k, kfun k, kenv k, kargc k, nx, Ref s])"
    "mem (HP m) s = Some (OBlk T_VECTOR (ksaved k))" using assms(1) by (auto simp: heap_kont_def)
  have g: "blk_get (HP m) (Ref a) 0 = Inr (Fix off)" "blk_get (HP m) (Ref a) 1 = Inr (kfun k)" "blk_get (HP m) (Ref a) 2 = Inr (kenv k)"
    "blk_get (HP m) (Ref a) 3 = Inr (Fix n)" "blk_get (HP m) (Ref a) 4 = Inr nx" "blk_get (HP m) (Ref a) 5 = Inr (Ref s)"
    using s assms(2,3) by (simp_all add: blk_get_def numeral_eq_Suc)
  define m1 where "m1 = m \<lparr> FUNR := kfun k, ENVR := kenv k, ARGC := n, CONR := nx, SFN := SP m \<rparr>"
  have "stk_args m1 []" using assms(5,6) by (simp add: stk_args_def m1_def)
  then obtain m2 where m2: "push_all (ksaved k) m1 = ret m2" "stk_args m2 (ksaved k)" "SP m2 = SP m - length (ksaved k)" "below m1 m2"
    using push_all_args [of "ksaved k" m1 "[]"] assms(4) by (auto simp: m1_def)
  note b = belowD [OF m2(4)]
  have r: "rep_blk (HP m) (Ref s) = Inr (ksaved k)" "HP m1 = HP m" using s by (simp_all add: m1_def)
  have "restore_heap_cont (Ref a) m = ret (off, m2)"
    unfolding restore_heap_cont_def using g s(2) m2(1) b(13) r by (simp flip: m1_def)
  moreover have "SFN m2 = SP m" using b(7) by (simp add: m1_def)
  then have "fn_stack m2 = ksaved k"
    using m2(2,3) assms(4) unfolding fn_stack_def stk_args_def by (intro nth_equalityI) simp_all
  ultimately show ?thesis using b by (intro exI [of _ m2]) (simp add: m1_def)
qed

text \<open>
  A continuation is worth the same on the stack and in the heap: if the continuation
  register holds a continuation on the stack, moving that continuation to the heap succeeds, and
  restoring the copy gives the function, argument count, continuation and place in the code that
  restoring the original gives, with the same values on the function's part of the stack, and an
  environment that stands for the same variables.
\<close>

lemma heap_cont_restores_same:
  assumes "cont_rep m lo {} (CONR m) (k # ks)" and "CONR m = Fix (int ofs)" and "heap_ok (HP m)" and "movable m (kenv k) fs"
    and "kargc k = Fix n" and "kofs k = Fix off" and "\<not> STALE m" and "length (ksaved k) \<le> SP m" and "SP m < length (STK m)"
  shows "\<exists>a m1 m2 m3. heap_cont m (CONR m) = ret (Ref a, m1)
    \<and> restore_stk_cont (int ofs) m = ret (off, m2) \<and> restore_heap_cont (Ref a) m1 = ret (off, m3)
    \<and> FUNR m3 = FUNR m2 \<and> ARGC m3 = ARGC m2 \<and> CONR m3 = CONR m2 \<and> fn_stack m3 = fn_stack m2
    \<and> ENVR m2 = kenv k \<and> henv (HP m3) {} (ENVR m3) fs"
proof -
  obtain a m1 env nx t where c: "heap_cont m (Fix (int ofs)) = ret (Ref a, m1)" "stk_cont m lo ofs k nx t"
    "heap_kont (HP m1) a (k \<lparr> kenv := env \<rparr>) nx" "henv (HP m1) {} env fs" "STALE m1 = STALE m" "SP m1 = SP m"
    "length (STK m1) = length (STK m)"
    using heap_cont_copies [OF assms(1-4)] by blast
  note r = restore_stk [OF c(2) assms(5-7)]
  obtain m3 where m3: "restore_heap_cont (Ref a) m1 = ret (off, m3)" "FUNR m3 = kfun k" "ENVR m3 = env" "ARGC m3 = n" "CONR m3 = nx"
    "fn_stack m3 = ksaved k" "HP m3 = HP m1"
    using restore_heap [OF c(3), of n off] assms(5-9) c(5-7) by auto
  let ?m2 = "m \<lparr> SP := sbase m ofs + 6, CONR := nx, ARGC := n, FUNR := kfun k, ENVR := kenv k, SFN := t \<rparr>"
  have "fn_stack ?m2 = ksaved k" using c(2) by (simp add: fn_stack_def stk_cont_def)
  then show ?thesis using c(1,4) r m3 assms(2)
    by (intro exI [of "\<lambda>a. \<exists>m1 m2 m3. P a m1 m2 m3" a for P] exI [of "\<lambda>m1. \<exists>m2 m3. P m1 m2 m3" m1 for P]
        exI [of "\<lambda>m2. \<exists>m3. P m2 m3" ?m2 for P] exI [of _ m3]) simp
qed

subsection \<open>A machine in the middle of a call\<close>

text \<open>
  A function with the arguments 7 and 8 on the stack, one temporary, and a continuation on top
  of it.
\<close>

definition call_demo :: machine where
  "call_demo = nested_demo \<lparr> ENVR := StkEnv 3, CONR := Fix 11,
     STK := [NIL, NIL, NIL, NIL, NIL, NIL, Fix 2, NIL, StkEnv 3, Fix 5, Fix 4, Fix 99, NIL, Fix 2, Fix 8, Fix 7],
     SP := 4, SFN := 4 \<rparr>"

lemma call_frame: "lo < 12 \<Longrightarrow> stk_frame call_demo lo 3 NIL [Fix 7, Fix 8]"
proof -
  assume "lo < 12"
  moreover have "sbase call_demo 3 = 12" by (simp add: call_demo_def sbase_def)
  moreover have "\<forall>i < length [Fix 7, Fix 8]. STK call_demo ! (12 + 1 + length [Fix 7, Fix 8] - i) = [Fix 7, Fix 8] ! i"
    by (simp add: call_demo_def less_Suc_eq)
  ultimately show ?thesis by (simp add: stk_frame_def) (simp add: call_demo_def)
qed

lemma call_env: "lo < 12 \<Longrightarrow> env_rep call_demo lo {} (ENVR call_demo) [[Fix 7, Fix 8]]"
  using call_frame [of lo] by (auto simp: call_demo_def)

lemma call_args: "stk_args call_demo [Fix 2, NIL]"
  by (simp add: stk_args_def call_demo_def nested_demo_def less_Suc_eq)

lemma call_cont:
  "cont_rep call_demo 4 {} (CONR call_demo)
     [\<lparr> kofs = Fix 5, kfun = NIL, kenv = StkEnv 3, kargc = Fix 2, ksaved = [Fix 99] \<rparr>]"
proof -
  have "stk_cont call_demo 4 11 \<lparr> kofs = Fix 5, kfun = NIL, kenv = StkEnv 3, kargc = Fix 2, ksaved = [Fix 99] \<rparr> NIL 11"
    by (simp add: stk_cont_def call_demo_def sbase_def)
  then show ?thesis by (auto simp: call_demo_def)
qed

lemma call_heap: "heap_ok (HP call_demo)"
  by (simp add: heap_ok_def call_demo_def nested_demo_def)

lemma call_movable: "movable call_demo (StkEnv 3) [[Fix 7, Fix 8]]"
  using call_frame [of 0] unfolding movable_def by auto

lemma env_access_witness:
  "arc_getenv call_demo 0 (int 1) = Inr (Fix 8)
   \<and> (\<exists>m'. arc_putenv call_demo 0 (int 1) NIL = Inr m' \<and> env_rep m' 0 {} (ENVR m') [[Fix 7, NIL]])"
  using env_access [OF call_env [of 0], of 0 1 NIL] by (auto simp del: env_rep.simps)

lemma menv_reuses_frame_witness:
  "\<exists>m'. arc_menv (length [Fix 2, NIL]) call_demo = ret m' \<and> stk_args m' [Fix 2, NIL] \<and> SP m' + length [Fix 2, NIL] = 15 \<and> ENVR m' = NIL"
proof -
  have s: "SP call_demo + length [Fix 2, NIL] < 12" "sbase call_demo 3 + 1 + length [Fix 7, Fix 8] = 15" "ENVR call_demo = StkEnv 3"
    by (simp_all add: call_demo_def sbase_def)
  have "env_rep call_demo (sbase call_demo 3 + 1 + length [Fix 7, Fix 8]) {} NIL []" by simp
  from menv_reuses_frame [OF call_args s(3) call_frame [OF s(1)] this] s(2) show ?thesis by metis
qed


lemma heap_cont_restores_same_witness:
  "\<exists>a m1 m2 m3. heap_cont call_demo (Fix 11) = ret (Ref a, m1)
    \<and> restore_stk_cont 11 call_demo = ret (5, m2) \<and> restore_heap_cont (Ref a) m1 = ret (5, m3)
    \<and> fn_stack m3 = fn_stack m2 \<and> henv (HP m3) {} (ENVR m3) [[Fix 7, Fix 8]]"
proof -
  have d: "CONR call_demo = Fix (int 11)" "\<not> STALE call_demo" "SP call_demo = 4" "length (STK call_demo) = 16"
    by (simp_all add: call_demo_def nested_demo_def)
  from heap_cont_restores_same [OF call_cont d(1) call_heap, of "[[Fix 7, Fix 8]]" 2 5] call_movable d
  show ?thesis by (simp del: henv.simps) blast
qed

end
