(* ===== verification/VM.thy ===== *)
theory VM
  imports Machine
begin

text \<open>
  The virtual machine: the instructions of \<open>src/src/vmengine.c\<close>, the calls of C functions of
  \<open>src/src/ccode.c\<close>, the application of closures and continuations, and the trampoline. One
  definition per instruction; each takes the machine after the opcode has been fetched. What
  lies outside these files (arithmetic, the comparison of objects by type, the bodies of C
  functions and the application of other values) is a record of parameters.
\<close>

subsection \<open>Instructions\<close>

datatype vminst =
    inop | ipush | ipop | ildl | ildi | ildg | istg | ilde | iste | icont | ienv | ienvr | iapply
  | iret | ijmp | ijt | ijf | ijbnd | itrue | inil | ihlt | iadd | isub | imul | idiv | icons | icar
  | icdr | iscar | iscdr | iis | idup | icls | iconsr | imenv | idcar | idcdr | ispl | ilde0 | iste0

definition vminst_code :: "(vminst \<times> int) list" where
  "vminst_code = [(inop, 0), (ipush, 1), (ipop, 2), (ildl, 67), (ildi, 68), (ildg, 69), (istg, 70),
     (ilde, 135), (iste, 136), (icont, 137), (ienv, 202), (ienvr, 203), (iapply, 76), (iret, 13),
     (ijmp, 78), (ijt, 79), (ijf, 80), (ijbnd, 81), (itrue, 18), (inil, 19), (ihlt, 20), (iadd, 21),
     (isub, 22), (imul, 23), (idiv, 24), (icons, 25), (icar, 26), (icdr, 27), (iscar, 28), (iscdr, 29),
     (iis, 31), (idup, 34), (icls, 35), (iconsr, 36), (imenv, 101), (idcar, 38), (idcdr, 39),
     (ispl, 40), (ilde0, 105), (iste0, 106)]"

definition opcode :: "vminst \<Rightarrow> int" where
  "opcode i = the (map_of vminst_code i)"

definition decode :: "int \<Rightarrow> vminst option" where
  "decode n = map_of (map (\<lambda>(i, c). (c, i)) vminst_code) n"

datatype tr = TR_RESUME | TR_SUSPEND | TR_FNAPP | TR_RC

text \<open>What the machine calls: see the header of this theory.\<close>

record prims =
  p_true :: val
  p_add2 :: "heap \<Rightarrow> val \<Rightarrow> val \<Rightarrow> (val \<times> heap) res"
  p_sub2 :: "heap \<Rightarrow> val \<Rightarrow> val \<Rightarrow> (val \<times> heap) res"
  p_mul2 :: "heap \<Rightarrow> val \<Rightarrow> val \<Rightarrow> (val \<times> heap) res"
  p_div2 :: "heap \<Rightarrow> val \<Rightarrow> val \<Rightarrow> (val \<times> heap) res"
  p_iscmp :: "heap \<Rightarrow> val \<Rightarrow> val \<Rightarrow> val"
  p_add2_string :: val
  p_sff :: "val \<Rightarrow> val list \<Rightarrow> machine \<Rightarrow> (val \<times> machine) run"
  p_aff :: "val \<Rightarrow> machine \<Rightarrow> (tr \<times> machine) run"
  p_apply :: "val \<Rightarrow> machine \<Rightarrow> (tr \<times> machine) run"

subsection \<open>Fetching\<close>

definition fetch :: "machine \<Rightarrow> (val \<times> machine) run" where
  "fetch m =
     (case IP m of
        IPP words i \<Rightarrow> rthen (Some (blk_get (HP m) words i)) (\<lambda>w. ret (w, m \<lparr> IP := IPP words (i + 1) \<rparr>))
      | AFFLINE _ \<Rightarrow> fail UB)"

definition fetch_int :: "machine \<Rightarrow> (int \<times> machine) run" where
  "fetch_int m = rthen (fetch m) (\<lambda>(w, m). rthen (Some (fix2int w)) (\<lambda>i. ret (i, m)))"

text \<open>\<open>CODE_LITERAL(CLOS_CODE(TFUNR), i)\<close>.\<close>

definition code_literal :: "machine \<Rightarrow> int \<Rightarrow> val res" where
  "code_literal m i = rbind (blk_get (HP m) (FUNR m) 0) (\<lambda>code. blk_get (HP m) code (2 + i))"

text \<open>\<open>TIPP += itarget-2\<close>.\<close>

definition jump_by :: "int \<Rightarrow> machine \<Rightarrow> machine run" where
  "jump_by d m = (case IP m of IPP words i \<Rightarrow> ret (m \<lparr> IP := IPP words (i + d) \<rparr>) | AFFLINE _ \<Rightarrow> fail UB)"

text \<open>The place of the instruction pointer in the code of the function register.\<close>

definition code_ofs :: "machine \<Rightarrow> int res" where
  "code_ofs m =
     (case IP m of
        IPP words i \<Rightarrow>
          rbind (blk_get (HP m) (FUNR m) 0) (\<lambda>code. rbind (blk_get (HP m) code 0) (\<lambda>w.
            if w = words then Inr i else Inl UB))
      | AFFLINE _ \<Rightarrow> Inl UB)"

definition setval :: "val \<Rightarrow> machine \<Rightarrow> machine" where
  "setval v m = m \<lparr> VALR := v \<rparr>"

definition setval_heap :: "val \<times> heap \<Rightarrow> machine \<Rightarrow> machine" where
  "setval_heap vh m = m \<lparr> VALR := fst vh, HP := snd vh \<rparr>"

subsection \<open>C function objects\<close>

text \<open>
  A C function is a block with its name, its argument count (-1: any number, in an array; -2: a
  function of the machine's own kind, written in C), its code and its environment.
\<close>

definition arc_mkccode :: "int \<Rightarrow> val \<Rightarrow> val \<Rightarrow> machine \<Rightarrow> val \<times> machine" where
  "arc_mkccode argc cfunc name m =
     (let (a, h) = halloc (HP m) (OBlk T_CCODE [name, Fix argc, cfunc, NIL]) in (Ref a, m \<lparr> HP := h \<rparr>))"

definition arc_mkaff2 :: "val \<Rightarrow> val \<Rightarrow> val \<Rightarrow> machine \<Rightarrow> val \<times> machine" where
  "arc_mkaff2 xaff name env m =
     (let (a, h) = halloc (HP m) (OBlk T_CCODE [name, Fix (- 2), xaff, env]) in (Ref a, m \<lparr> HP := h \<rparr>))"

definition arc_mkaff :: "val \<Rightarrow> val \<Rightarrow> machine \<Rightarrow> val \<times> machine" where
  "arc_mkaff xaff name m = arc_mkaff2 xaff name NIL m"

subsection \<open>Data movement\<close>

definition exec_push :: "machine \<Rightarrow> machine run" where
  "exec_push m = CPUSH (VALR m) m"

definition exec_pop :: "machine \<Rightarrow> machine run" where
  "exec_pop m = rthen (CPOP m) (\<lambda>(v, m). ret (setval v m))"

definition exec_ldi :: "machine \<Rightarrow> machine run" where
  "exec_ldi m = rthen (fetch m) (\<lambda>(w, m). ret (setval w m))"

definition exec_ldl :: "machine \<Rightarrow> machine run" where
  "exec_ldl m = rthen (fetch_int m) (\<lambda>(lidx, m). rthen (Some (code_literal m lidx)) (\<lambda>v. ret (setval v m)))"

definition exec_ldg :: "machine \<Rightarrow> machine run" where
  "exec_ldg m = rthen (fetch_int m) (\<lambda>(lidx, m). rthen (Some (code_literal m lidx)) (\<lambda>tmp.
     let v = (case GENV m tmp of None \<Rightarrow> UNBOUND | Some v \<Rightarrow> v) in
     if v = UNBOUND then fail (ArcErr ''Unbound symbol: _%s'') else ret (setval v m)))"

definition exec_stg :: "machine \<Rightarrow> machine run" where
  "exec_stg m = rthen (fetch_int m) (\<lambda>(lidx, m). rthen (Some (code_literal m lidx)) (\<lambda>sy.
     ret (m \<lparr> GENV := (GENV m)(sy \<mapsto> VALR m) \<rparr>)))"

definition exec_lde :: "machine \<Rightarrow> machine run" where
  "exec_lde m = rthen (fetch_int m) (\<lambda>(d, m). rthen (fetch_int m) (\<lambda>(i, m).
     rthen (Some (arc_getenv m (nat d) i)) (\<lambda>v. ret (setval v m))))"

definition exec_ste :: "machine \<Rightarrow> machine run" where
  "exec_ste m = rthen (fetch_int m) (\<lambda>(d, m). rthen (fetch_int m) (\<lambda>(i, m).
     Some (arc_putenv m (nat d) i (VALR m))))"

definition exec_lde0 :: "machine \<Rightarrow> machine run" where
  "exec_lde0 m = rthen (fetch_int m) (\<lambda>(i, m). rthen (Some (arc_getenv0 m i)) (\<lambda>v. ret (setval v m)))"

definition exec_ste0 :: "machine \<Rightarrow> machine run" where
  "exec_ste0 m = rthen (fetch_int m) (\<lambda>(i, m). Some (arc_putenv0 m i (VALR m)))"

definition exec_dup :: "machine \<Rightarrow> machine run" where
  "exec_dup m = rthen (Some (stk_get m (int (SP m) + 1))) (\<lambda>v. ret (setval v m))"

subsection \<open>Calls\<close>

definition exec_cont :: "machine \<Rightarrow> machine run" where
  "exec_cont m = rthen (fetch_int m) (\<lambda>(icofs, m). rthen (Some (code_ofs m)) (\<lambda>here.
     rthen (arc_mkcont (here + icofs - 2) m) (\<lambda>(k, m). ret (m \<lparr> CONR := k \<rparr>))))"

definition exec_env :: "machine \<Rightarrow> machine run" where
  "exec_env m = rthen (fetch_int m) (\<lambda>(minenv, m). rthen (fetch_int m) (\<lambda>(dsenv, m). rthen (fetch_int m) (\<lambda>(optenv, m).
     if ARGC m < minenv then fail (ArcErr ''too few arguments, at least %d required, %d passed'')
     else if ARGC m > minenv + optenv then fail (ArcErr ''too many arguments, at most %d allowed, %d passed'')
     else arc_mkenv (nat (ARGC m)) (nat (minenv + optenv - ARGC m + dsenv)) m)))"

text \<open>Popping the arguments past the first \<open>n\<close> into a list.\<close>

fun pop_rest :: "nat \<Rightarrow> val \<Rightarrow> machine \<Rightarrow> (val \<times> machine) run" where
  "pop_rest 0 rest m = ret (rest, m)"
| "pop_rest (Suc n) rest m =
     rthen (CPOP m) (\<lambda>(v, m). let (c, h) = cons (HP m) v rest in pop_rest n c (m \<lparr> HP := h \<rparr>))"

definition env_rest :: "int \<Rightarrow> int \<Rightarrow> int \<Rightarrow> machine \<Rightarrow> machine run" where
  "env_rest minenv optenv dsenv m =
     (if ARGC m < minenv then fail (ArcErr ''too few arguments, at least %d required, %d passed'')
      else
        rthen (pop_rest (nat (ARGC m - (minenv + optenv))) NIL m) (\<lambda>(rest, m).
        let i = (if ARGC m > minenv + optenv then minenv + optenv else ARGC m) in
        rthen (arc_mkenv (nat i) (nat (minenv + optenv - i + dsenv + 1)) m) (\<lambda>m.
        Some (arc_putenv m 0 (minenv + optenv + dsenv) rest))))"

definition exec_envr :: "machine \<Rightarrow> machine run" where
  "exec_envr m = rthen (fetch_int m) (\<lambda>(minenv, m). rthen (fetch_int m) (\<lambda>(dsenv, m). rthen (fetch_int m) (\<lambda>(optenv, m).
     env_rest minenv optenv dsenv m)))"

definition exec_apply :: "machine \<Rightarrow> machine run" where
  "exec_apply m = rthen (fetch_int m) (\<lambda>(n, m). ret (m \<lparr> ARGC := n \<rparr>))"

definition exec_cls :: "machine \<Rightarrow> machine run" where
  "exec_cls m =
     rthen (case ENVR m of
              StkEnv _ \<Rightarrow> rthen (arc_env2heap m (ENVR m)) (\<lambda>(env, m). ret (m \<lparr> ENVR := env \<rparr>))
            | _ \<Rightarrow> ret m) (\<lambda>m.
     let (cl, m) = arc_mkclos (VALR m) (ENVR m) m in ret (setval cl m))"

definition exec_menv :: "machine \<Rightarrow> machine run" where
  "exec_menv m = rthen (fetch_int m) (\<lambda>(n, m). rthen (arc_menv (nat n) m) (\<lambda>m. ret (m \<lparr> ARGC := n \<rparr>)))"

subsection \<open>Jumps\<close>

definition exec_jmp :: "(machine \<Rightarrow> bool) \<Rightarrow> machine \<Rightarrow> machine run" where
  "exec_jmp taken m = rthen (fetch_int m) (\<lambda>(itarget, m). if taken m then jump_by (itarget - 2) m else ret m)"

subsection \<open>Arithmetic and comparison\<close>

definition exec_arith2 :: "(heap \<Rightarrow> val \<Rightarrow> val \<Rightarrow> (val \<times> heap) res) \<Rightarrow> machine \<Rightarrow> machine run" where
  "exec_arith2 f m = rthen (CPOP m) (\<lambda>(a, m). rthen (Some (f (HP m) a (VALR m))) (\<lambda>vh. ret (setval_heap vh m)))"

text \<open>The result says whether the machine has to call a function: strings are added by one.\<close>

definition exec_add :: "prims \<Rightarrow> machine \<Rightarrow> (bool \<times> machine) run" where
  "exec_add P m = rthen (CPOP m) (\<lambda>(arg1, m). let arg2 = VALR m in
     if htype (HP m) arg1 = T_STRING then
       rthen (Some (code_ofs m)) (\<lambda>here.
       rthen (arc_mkcont here m) (\<lambda>(k, m). let m = m \<lparr> CONR := k \<rparr> in
       rthen (CPUSH arg1 m) (\<lambda>m. rthen (CPUSH arg2 m) (\<lambda>m.
       let (f, m) = arc_mkaff (p_add2_string P) NIL (m \<lparr> ARGC := 2 \<rparr>) in ret (True, setval f m)))))
     else rthen (Some (p_add2 P (HP m) arg1 arg2)) (\<lambda>vh. ret (False, setval_heap vh m)))"

text \<open>\<open>arc_is2\<close>, with the comparison of objects of one type as a parameter.\<close>

definition arc_is2 :: "prims \<Rightarrow> heap \<Rightarrow> val \<Rightarrow> val \<Rightarrow> val" where
  "arc_is2 P h a b =
     (if a = b then p_true P
      else if htype h a \<noteq> htype h b then NIL
      else (case a of Ref _ \<Rightarrow> p_iscmp P h a b | _ \<Rightarrow> NIL))"

definition exec_is :: "prims \<Rightarrow> machine \<Rightarrow> machine run" where
  "exec_is P m = rthen (CPOP m) (\<lambda>(v, m). ret (setval (arc_is2 P (HP m) (VALR m) v) m))"

subsection \<open>Lists\<close>

definition exec_cons :: "machine \<Rightarrow> machine run" where
  "exec_cons m = rthen (CPOP m) (\<lambda>(v, m). ret (setval_heap (cons (HP m) v (VALR m)) m))"

definition exec_consr :: "machine \<Rightarrow> machine run" where
  "exec_consr m = rthen (CPOP m) (\<lambda>(v, m). ret (setval_heap (cons (HP m) (VALR m) v) m))"

definition exec_cxr :: "(heap \<Rightarrow> val \<Rightarrow> val res) \<Rightarrow> string \<Rightarrow> machine \<Rightarrow> machine run" where
  "exec_cxr f msg m =
     (if VALR m = NIL then ret (setval NIL m)
      else if htype (HP m) (VALR m) \<noteq> T_CONS then fail (ArcErr msg)
      else rthen (Some (f (HP m) (VALR m))) (\<lambda>v. ret (setval v m)))"

text \<open>The forms used by destructuring: nil and an unbound value give an unbound value.\<close>

definition exec_dcxr :: "(heap \<Rightarrow> val \<Rightarrow> val res) \<Rightarrow> string \<Rightarrow> machine \<Rightarrow> machine run" where
  "exec_dcxr f msg m =
     (if VALR m = NIL \<or> VALR m = UNBOUND then ret (setval UNBOUND m)
      else if htype (HP m) (VALR m) \<noteq> T_CONS then fail (ArcErr msg)
      else rthen (Some (f (HP m) (VALR m))) (\<lambda>v. ret (setval v m)))"

definition exec_scxr :: "(heap \<Rightarrow> val \<Rightarrow> val \<Rightarrow> (val \<times> heap) res) \<Rightarrow> machine \<Rightarrow> machine run" where
  "exec_scxr f m = rthen (CPOP m) (\<lambda>(v, m). rthen (Some (f (HP m) v (VALR m))) (\<lambda>vh. ret (m \<lparr> HP := snd vh \<rparr>)))"

text \<open>The loop of \<open>ispl\<close>: the last cons of the list gets the other list as its tail.\<close>

partial_function (option) splice :: "heap \<Rightarrow> val \<Rightarrow> val \<Rightarrow> heap run" where
  "splice h list nlist =
     (case cdr h list of
        Inl e \<Rightarrow> fail e
      | Inr d \<Rightarrow>
          if htype h d \<noteq> T_CONS then
            (if d = NIL then (case scdr h list nlist of Inl e \<Rightarrow> fail e | Inr vh \<Rightarrow> ret (snd vh))
             else fail (ArcErr ''splicing improper list''))
          else splice h d nlist)"

definition exec_spl :: "machine \<Rightarrow> machine run" where
  "exec_spl m = rthen (CPOP m) (\<lambda>(nlist, m).
     if VALR m = NIL then ret (setval nlist m)
     else rthen (splice (HP m) (VALR m) nlist) (\<lambda>h. ret (m \<lparr> HP := h \<rparr>)))"

subsection \<open>One instruction\<close>

text \<open>\<open>None\<close> as the first component: go on with the next instruction.\<close>

definition go :: "machine run \<Rightarrow> (tr option \<times> machine) run" where
  "go r = rthen r (\<lambda>m. ret (None, m))"

definition exec :: "prims \<Rightarrow> vminst \<Rightarrow> machine \<Rightarrow> (tr option \<times> machine) run" where
  "exec P i m =
     (case i of
        inop \<Rightarrow> ret (None, m)
      | ipush \<Rightarrow> go (exec_push m)
      | ipop \<Rightarrow> go (exec_pop m)
      | ildi \<Rightarrow> go (exec_ldi m)
      | ildl \<Rightarrow> go (exec_ldl m)
      | ildg \<Rightarrow> go (exec_ldg m)
      | istg \<Rightarrow> go (exec_stg m)
      | ilde \<Rightarrow> go (exec_lde m)
      | iste \<Rightarrow> go (exec_ste m)
      | ilde0 \<Rightarrow> go (exec_lde0 m)
      | iste0 \<Rightarrow> go (exec_ste0 m)
      | icont \<Rightarrow> go (exec_cont m)
      | ienv \<Rightarrow> go (exec_env m)
      | ienvr \<Rightarrow> go (exec_envr m)
      | iapply \<Rightarrow> rthen (exec_apply m) (\<lambda>m. ret (Some TR_FNAPP, m))
      | iret \<Rightarrow> ret (Some TR_RC, m)
      | ijmp \<Rightarrow> go (exec_jmp (\<lambda>_. True) m)
      | ijt \<Rightarrow> go (exec_jmp (\<lambda>m. VALR m \<noteq> NIL) m)
      | ijf \<Rightarrow> go (exec_jmp (\<lambda>m. VALR m = NIL) m)
      | ijbnd \<Rightarrow> go (exec_jmp (\<lambda>m. VALR m \<noteq> UNBOUND) m)
      | itrue \<Rightarrow> ret (None, setval (p_true P) m)
      | inil \<Rightarrow> ret (None, setval NIL m)
      | ihlt \<Rightarrow> ret (Some TR_SUSPEND, m \<lparr> STATE := Trelease \<rparr>)
      | iadd \<Rightarrow> rthen (exec_add P m) (\<lambda>(call, m). ret (if call then Some TR_FNAPP else None, m))
      | isub \<Rightarrow> go (exec_arith2 (p_sub2 P) m)
      | imul \<Rightarrow> go (exec_arith2 (p_mul2 P) m)
      | idiv \<Rightarrow> go (exec_arith2 (p_div2 P) m)
      | icons \<Rightarrow> go (exec_cons m)
      | icar \<Rightarrow> go (exec_cxr car ''can't take car of value'' m)
      | icdr \<Rightarrow> go (exec_cxr cdr ''can't take cdr of value'' m)
      | iscar \<Rightarrow> go (exec_scxr scar m)
      | iscdr \<Rightarrow> go (exec_scxr scdr m)
      | iis \<Rightarrow> go (exec_is P m)
      | idup \<Rightarrow> go (exec_dup m)
      | icls \<Rightarrow> go (exec_cls m)
      | iconsr \<Rightarrow> go (exec_consr m)
      | imenv \<Rightarrow> go (exec_menv m)
      | idcar \<Rightarrow> go (exec_dcxr car ''can't take car of value'' m)
      | idcdr \<Rightarrow> go (exec_dcxr cdr ''can't take cdr of value'' m)
      | ispl \<Rightarrow> go (exec_spl m))"

definition vm_step :: "prims \<Rightarrow> machine \<Rightarrow> (tr option \<times> machine) run" where
  "vm_step P m = rthen (fetch_int m) (\<lambda>(op, m).
     case decode op of None \<Rightarrow> fail (ArcErr ''invalid opcode %02x'') | Some i \<Rightarrow> exec P i m)"

text \<open>After an instruction the quantum is counted down; \<open>TQUANTA\<close> is unsigned.\<close>

partial_function (option) vmengine :: "prims \<Rightarrow> machine \<Rightarrow> (tr \<times> machine) run" where
  "vmengine P m =
     Option.bind (vm_step P m) (\<lambda>r.
       case r of
         Inl e \<Rightarrow> fail e
       | Inr (Some t, m) \<Rightarrow> ret (t, m)
       | Inr (None, m) \<Rightarrow>
           (let m = m \<lparr> QUANTA := QUANTA m - 1 \<rparr> in
            if QUANTA m = 0 then ret (TR_SUSPEND, m) else vmengine P m))"

subsection \<open>C functions\<close>

definition arc_affenv :: "int \<Rightarrow> int \<Rightarrow> int \<Rightarrow> bool \<Rightarrow> machine \<Rightarrow> machine run" where
  "arc_affenv nargs optargs localvars restarg m =
     (case IP m of
        IPP _ _ \<Rightarrow> fail UB
      | AFFLINE l \<Rightarrow>
          if l \<noteq> 0 then ret m
          else if restarg then env_rest nargs optargs localvars m
          else if ARGC m < nargs then fail (ArcErr ''too few arguments, at least %d required, %d passed'')
          else if ARGC m > nargs + optargs then fail (ArcErr ''too many arguments, at most %d allowed, %d passed'')
          else arc_mkenv (nat (ARGC m)) (nat (nargs + optargs - ARGC m + localvars)) m)"

text \<open>A call from a C function: with no continuation it is a tail call.\<close>

definition arc_affapply :: "val \<Rightarrow> val \<Rightarrow> val list \<Rightarrow> machine \<Rightarrow> machine run" where
  "arc_affapply cont func args m =
     (let m = (if cont \<noteq> NIL then m \<lparr> CONR := cont \<rparr> else m) in
      rthen (push_all args m) (\<lambda>m.
      let m = m \<lparr> ARGC := int (length args), VALR := func \<rparr> in
      if cont = NIL then arc_menv (length args) m else ret m))"

text \<open>The same with the arguments in a list.\<close>

partial_function (option) push_list :: "val \<Rightarrow> nat \<Rightarrow> machine \<Rightarrow> (nat \<times> machine) run" where
  "push_list argv argc m =
     (if argv = NIL then ret (argc, m)
      else (case rep_cons (HP m) argv of
              Inl e \<Rightarrow> fail e
            | Inr (x, d) \<Rightarrow> Option.bind (CPUSH x m) (\<lambda>r. case r of Inl e \<Rightarrow> fail e | Inr m \<Rightarrow> push_list d (argc + 1) m)))"

definition arc_affapply2 :: "val \<Rightarrow> val \<Rightarrow> val \<Rightarrow> machine \<Rightarrow> machine run" where
  "arc_affapply2 cont func argv m =
     (let m = (if cont \<noteq> NIL then m \<lparr> CONR := cont \<rparr> else m) in
      rthen (push_list argv 0 m) (\<lambda>(argc, m).
      let m = m \<lparr> ARGC := int argc, VALR := func \<rparr> in
      if cont = NIL then arc_menv argc m else ret m))"

definition arc_affyield :: "int \<Rightarrow> machine \<Rightarrow> tr \<times> machine" where
  "arc_affyield line m = (TR_SUSPEND, m \<lparr> IP := AFFLINE line \<rparr>)"

definition arc_resume_aff :: "prims \<Rightarrow> machine \<Rightarrow> (tr \<times> machine) run" where
  "arc_resume_aff P m = rthen (Some (blk_get (HP m) (FUNR m) 2)) (\<lambda>f. p_aff P f m)"

text \<open>\<open>argv[i] = CPOP(thr)\<close> from the last argument to the first.\<close>

fun pop_argv :: "nat \<Rightarrow> val list \<Rightarrow> machine \<Rightarrow> (val list \<times> machine) run" where
  "pop_argv 0 argv m = ret (argv, m)"
| "pop_argv (Suc n) argv m = rthen (CPOP m) (\<lambda>(v, m). pop_argv n (v # argv) m)"

definition cfunc_apply :: "prims \<Rightarrow> val \<Rightarrow> machine \<Rightarrow> (tr \<times> machine) run" where
  "cfunc_apply P cfn m =
     rthen (Some (rbind (blk_get (HP m) cfn 1) fix2int)) (\<lambda>fargc.
     rthen (Some (blk_get (HP m) cfn 2)) (\<lambda>f.
     rthen (Some (blk_get (HP m) cfn 3)) (\<lambda>env.
     if fargc \<ge> 0 \<and> fargc \<noteq> ARGC m then fail (ArcErr ''wrong number of arguments (%d for %d)'')
     else if fargc = - 2 then ret (TR_RESUME, m \<lparr> IP := AFFLINE 0, ENVR := env, FUNR := cfn \<rparr>)
     else rthen (pop_argv (nat (ARGC m)) [] m) (\<lambda>(argv, m).
       if fargc < - 1 \<or> 8 < fargc then fail (ArcErr ''too many arguments'')
       else rthen (p_sff P f argv m) (\<lambda>(v, m). ret (TR_RC, setval v m))))))"

subsection \<open>Application and the trampoline\<close>

definition clos_apply :: "val \<Rightarrow> machine \<Rightarrow> (tr \<times> machine) run" where
  "clos_apply clos m =
     rthen (Some (blk_get (HP m) clos 0)) (\<lambda>code.
     rthen (Some (blk_get (HP m) clos 1)) (\<lambda>env.
     rthen (Some (blk_get (HP m) code 0)) (\<lambda>words.
     ret (TR_RESUME, m \<lparr> IP := IPP words 0, ENVR := env, FUNR := clos \<rparr>))))"

definition cont_apply :: "val \<Rightarrow> machine \<Rightarrow> (tr \<times> machine) run" where
  "cont_apply cont m =
     (if ARGC m = 1 then rthen (CPOP m) (\<lambda>(v, m). ret (TR_RC, (setval v m) \<lparr> CONR := cont \<rparr>))
      else fail (ArcErr ''context expected 1 value, received %d values''))"

text \<open>The types whose application is not one of the three above go through \<open>p_apply\<close>.\<close>

definition appliable :: "arc_type \<Rightarrow> bool" where
  "appliable ty \<longleftrightarrow> ty \<in> {T_STRING, T_CONS, T_TABLE, T_WTABLE, T_VECTOR, T_REGEXP}"

definition apply_vr :: "prims \<Rightarrow> machine \<Rightarrow> (tr \<times> machine) run" where
  "apply_vr P m =
     (let m = m \<lparr> FUNR := VALR m \<rparr>; ty = htype (HP m) (VALR m) in
      if ty = T_CLOS then clos_apply (VALR m) m
      else if ty = T_CONT then cont_apply (VALR m) m
      else if ty = T_CCODE then cfunc_apply P (VALR m) m
      else if appliable ty then p_apply P (VALR m) m
      else fail (ArcErr ''cannot apply value''))"

definition apply_return :: "machine \<Rightarrow> (val \<times> machine) run" where
  "apply_return m =
     (if CONR m = NIL then ret (NIL, m) else rthen (arc_restorecont (CONR m) m) (\<lambda>m'. ret (CONR m, m')))"

definition resume :: "prims \<Rightarrow> machine \<Rightarrow> (tr \<times> machine) run" where
  "resume P m = (if htype (HP m) (FUNR m) = T_CCODE then arc_resume_aff P m else vmengine P m)"

text \<open>One turn of the trampoline: \<open>None\<close> when it returns to the dispatcher.\<close>

definition tramp_step :: "prims \<Rightarrow> tr \<Rightarrow> machine \<Rightarrow> (tr option \<times> machine) run" where
  "tramp_step P state m =
     (case state of
        TR_RESUME \<Rightarrow> rthen (resume P m) (\<lambda>(t, m). ret (Some t, m))
      | TR_SUSPEND \<Rightarrow> ret (None, m)
      | TR_FNAPP \<Rightarrow> rthen (apply_vr P m) (\<lambda>(t, m). ret (Some t, m))
      | TR_RC \<Rightarrow> rthen (apply_return m) (\<lambda>(cont, m).
          if cont = NIL then ret (None, m \<lparr> QUANTA := 0, STATE := Trelease \<rparr>)
          else ret (Some TR_RESUME, m)))"

partial_function (option) arc_thr_trampoline :: "prims \<Rightarrow> tr \<Rightarrow> machine \<Rightarrow> machine run" where
  "arc_thr_trampoline P state m =
     Option.bind (tramp_step P state m) (\<lambda>r.
       case r of
         Inl e \<Rightarrow> fail e
       | Inr (None, m) \<Rightarrow> ret m
       | Inr (Some t, m) \<Rightarrow> arc_thr_trampoline P t m)"

subsection \<open>Opcodes\<close>

lemma decode_opcode: "decode (opcode i) = Some i"
  by (cases i) (simp_all add: decode_def opcode_def vminst_code_def)

subsection \<open>The time slice\<close>

text \<open>No instruction touches the quantum; only the engine counts it down.\<close>

named_theorems quanta "what keeps the quantum"

lemma store_quanta [quanta]: "store m p v = Inr m' \<Longrightarrow> QUANTA m' = QUANTA m"
  by (cases p) (auto simp: stk_set_def rbind_eq_Inr split: if_splits)

lemma heap_env_quanta [quanta]: "heap_env m env = Inr (v, m') \<Longrightarrow> QUANTA m' = QUANTA m"
  by (auto simp: heap_env_def rbind_eq_Inr halloc_def)

lemma update_cont_quanta [quanta]: "update_cont m k old new = Inr m' \<Longrightarrow> QUANTA m' = QUANTA m"
  by (auto simp: update_cont_def rbind_eq_Inr split: if_splits dest: quanta)

lemma update_conts_quanta [quanta]: "update_conts_from m k old new = ret m' \<Longrightarrow> QUANTA m' = QUANTA m"
proof -
  have "\<forall>m'. r = Inr m' \<longrightarrow> QUANTA m' = QUANTA m" if "update_conts_from m k old new = Some r" for r
    using that
  proof (rule update_conts_from.raw_induct [rotated])
    fix f m k old new r
    assume ih: "\<And>m k old new r. f m k old new = Some r \<Longrightarrow> \<forall>m'. r = Inr m' \<longrightarrow> QUANTA m' = QUANTA m"
      and e: "(if k = NIL then ret m
        else case update_cont m k old new of Inl e \<Rightarrow> fail e
          | Inr m \<Rightarrow> (case nextcont m k of Inl e \<Rightarrow> fail e | Inr nx \<Rightarrow> f m nx old new)) = Some r"
    show "\<forall>m'. r = Inr m' \<longrightarrow> QUANTA m' = QUANTA m"
      using e by (auto split: if_splits sum.splits dest!: ih quanta)
  qed
  then show "update_conts_from m k old new = ret m' \<Longrightarrow> QUANTA m' = QUANTA m" by blast
qed

lemma env2heap_loop_quanta: "env2heap_loop m nenv env = ret (v, m') \<Longrightarrow> QUANTA m' = QUANTA m"
proof -
  have "\<forall>v m'. r = Inr (v, m') \<longrightarrow> QUANTA m' = QUANTA m" if "env2heap_loop m nenv env = Some r" for r
    using that
  proof (rule env2heap_loop.raw_induct [rotated])
    fix f m nenv env r
    assume ih: "\<And>m nenv env r. f m nenv env = Some r \<Longrightarrow> \<forall>v m'. r = Inr (v, m') \<longrightarrow> QUANTA m' = QUANTA m"
      and e: "(if nenv = NIL then ret (env, m)
        else (case (if htype (HP m) nenv = T_VECTOR then Inr (nenv, m) else heap_env m nenv) of
              Inl e \<Rightarrow> fail e
            | Inr r \<Rightarrow>
                Option.bind (arc_update_cont_envs (snd r) nenv (fst r)) (\<lambda>u.
                  case u of
                    Inl e \<Rightarrow> fail e
                  | Inr m \<Rightarrow> (case nextenv m (fst r) of
                      Inl e \<Rightarrow> fail e
                    | Inr nx \<Rightarrow> f m nx (if env = NIL then fst r else env))))) = Some r"
    have u: "arc_update_cont_envs m1 x y = ret m2 \<Longrightarrow> QUANTA m2 = QUANTA m1" for m1 x y m2
      by (auto simp: arc_update_cont_envs_def dest: quanta)
    show "\<forall>v m'. r = Inr (v, m') \<longrightarrow> QUANTA m' = QUANTA m"
    proof (cases "nenv = NIL")
      case True
      then show ?thesis using e by auto
    next
      case False
      show ?thesis
      proof (cases "if htype (HP m) nenv = T_VECTOR then Inr (nenv, m) else heap_env m nenv")
        case (Inl x)
        then have "r = Inl x" using e False by simp
        then show ?thesis by simp
      next
        case (Inr p)
        then have q1: "QUANTA (snd p) = QUANTA m" using heap_env_quanta [of m nenv "fst p" "snd p"] by (auto split: if_splits)
        obtain y where y: "arc_update_cont_envs (snd p) nenv (fst p) = Some y"
          using e False Inr by (cases "arc_update_cont_envs (snd p) nenv (fst p)") simp_all
        show ?thesis
        proof (cases y)
          case (Inl x)
          then have "r = Inl x" using e False Inr y by simp
          then show ?thesis by simp
        next
          case m2: (Inr m2)
          then have "QUANTA m2 = QUANTA m" using u y q1 by simp
          moreover have "nextenv m2 (fst p) = Inl x \<Longrightarrow> r = Inl x" for x using e False Inr y m2 by simp
          moreover have "nextenv m2 (fst p) = Inr nx \<Longrightarrow> f m2 nx (if env = NIL then fst p else env) = Some r" for nx
            using e False Inr y m2 by simp
          ultimately show ?thesis using ih by (cases "nextenv m2 (fst p)") fastforce+
        qed
      qed
    qed
  qed
  then show "env2heap_loop m nenv env = ret (v, m') \<Longrightarrow> QUANTA m' = QUANTA m" by blast
qed

lemma env2heap_quanta [quanta]: "arc_env2heap m env = ret (v, m') \<Longrightarrow> QUANTA m' = QUANTA m"
  by (auto simp: arc_env2heap_def dest: env2heap_loop_quanta)

lemma rthen_if: "(if b then r else s) = ret x \<longleftrightarrow> (b \<and> r = ret x) \<or> (\<not> b \<and> s = ret x)"
  by simp

lemma heap_cont_quanta [quanta]:
  assumes "heap_cont m k = ret (v, m')"
  shows "QUANTA m' = QUANTA m"
proof (cases "htype (HP m) k = T_CONT")
  case True
  then show ?thesis using assms by (simp add: heap_cont_def)
next
  case False
  define m1 where "m1 = m \<lparr> HP := snd (halloc (HP m) (OBlk T_CONT (replicate 6 NIL))) \<rparr>"
  have "\<exists>e0 env m2 slot h. arc_env2heap m1 e0 = ret (env, m2) \<and> m' = (if ENVR m2 = slot then m2 \<lparr> ENVR := env \<rparr> else m2) \<lparr> HP := h \<rparr>"
    using assms False unfolding heap_cont_def halloc_def m1_def
    by (simp only: Let_def prod.case rthen_ret if_False snd_conv split_paired_Ex option.inject sum.inject prod.inject) blast
  then obtain e0 env m2 slot h where e: "arc_env2heap m1 e0 = ret (env, m2)"
    "m' = (if ENVR m2 = slot then m2 \<lparr> ENVR := env \<rparr> else m2) \<lparr> HP := h \<rparr>" by blast
  then have "QUANTA m' = QUANTA m2" by simp
  then show ?thesis using env2heap_quanta [OF e(1)] by (simp add: m1_def)
qed

lemma cont2heap_loop_quanta: "cont2heap_loop m k old init = ret (v, m') \<Longrightarrow> QUANTA m' = QUANTA m"
proof -
  have "\<forall>v m'. r = Inr (v, m') \<longrightarrow> QUANTA m' = QUANTA m" if "cont2heap_loop m k old init = Some r" for r
    using that
  proof (rule cont2heap_loop.raw_induct [rotated])
    fix f m cont oldcont initcont r
    assume ih: "\<And>m cont oldcont initcont r. f m cont oldcont initcont = Some r \<Longrightarrow> \<forall>v m'. r = Inr (v, m') \<longrightarrow> QUANTA m' = QUANTA m"
      and e: "(if cont = NIL then ret (initcont, m)
      else Option.bind (heap_cont m cont) (\<lambda>u.
        case u of
          Inl e \<Rightarrow> fail e
        | Inr r \<Rightarrow>
            (case (if oldcont = NIL then Inr (HP (snd r)) else blk_set (HP (snd r)) oldcont 4 (fst r)) of
               Inl e \<Rightarrow> fail e
             | Inr h \<Rightarrow> (case nextcont ((snd r) \<lparr> HP := h \<rparr>) (fst r) of
                 Inl e \<Rightarrow> fail e
               | Inr nx \<Rightarrow> f ((snd r) \<lparr> HP := h \<rparr>) nx (fst r) (if initcont = NIL then fst r else initcont))))) = Some r"
    show "\<forall>v m'. r = Inr (v, m') \<longrightarrow> QUANTA m' = QUANTA m"
    proof (cases "cont = NIL")
      case True
      then show ?thesis using e by auto
    next
      case False
      obtain y where y: "heap_cont m cont = Some y" using e False by (cases "heap_cont m cont") simp_all
      show ?thesis
      proof (cases y)
        case (Inl x)
        then have "r = Inl x" using e False y by simp
        then show ?thesis by simp
      next
        case (Inr p)
        have q: "QUANTA (snd p) = QUANTA m" using heap_cont_quanta [of m cont "fst p" "snd p"] y Inr by simp
        have e2: "(case (if oldcont = NIL then Inr (HP (snd p)) else blk_set (HP (snd p)) oldcont 4 (fst p)) of
               Inl e \<Rightarrow> fail e
             | Inr h \<Rightarrow> (case nextcont ((snd p) \<lparr> HP := h \<rparr>) (fst p) of
                 Inl e \<Rightarrow> fail e
               | Inr nx \<Rightarrow> f ((snd p) \<lparr> HP := h \<rparr>) nx (fst p) (if initcont = NIL then fst p else initcont))) = Some r"
          using e False y Inr by simp
        obtain g where g: "(if oldcont = NIL then Inr (HP (snd p)) else blk_set (HP (snd p)) oldcont 4 (fst p)) = g" by blast
        show ?thesis
        proof (cases g)
          case (Inl x)
          then show ?thesis using e2 unfolding g by auto
        next
          case h: (Inr h)
          show ?thesis
          proof (cases "nextcont ((snd p) \<lparr> HP := h \<rparr>) (fst p)")
            case (Inl x)
            then show ?thesis using e2 h unfolding g by auto
          next
            case (Inr nx)
            then have "f ((snd p) \<lparr> HP := h \<rparr>) nx (fst p) (if initcont = NIL then fst p else initcont) = Some r"
              using e2 h unfolding g by simp
            from ih [OF this] show ?thesis using q by simp
          qed
        qed
      qed
    qed
  qed
  then show "cont2heap_loop m k old init = ret (v, m') \<Longrightarrow> QUANTA m' = QUANTA m" by blast
qed

lemma stk_move_quanta: "stk_move m a b n = Inr m' \<Longrightarrow> QUANTA m' = QUANTA m"
  by (auto simp: stk_move_def split: if_splits)

lemma stackcheck_quanta [quanta]: "arc_stackcheck m = ret m' \<Longrightarrow> QUANTA m' = QUANTA m"
  by (auto simp: arc_stackcheck_def arc_cont2heap_def rthen_ret Let_def grow_stack_def split: if_split_asm
      dest!: env2heap_quanta cont2heap_loop_quanta stk_move_quanta)

lemma CPUSH_quanta [quanta]: "CPUSH v m = ret m' \<Longrightarrow> QUANTA m' = QUANTA m"
  by (auto simp: CPUSH_def rthen_ret split: if_splits dest: stackcheck_quanta)

lemma CPOP_quanta [quanta]: "CPOP m = ret (v, m') \<Longrightarrow> QUANTA m' = QUANTA m"
  by (auto simp: CPOP_def split: if_splits)

lemma push_all_quanta [quanta]: "push_all vs m = ret m' \<Longrightarrow> QUANTA m' = QUANTA m"
  by (induction vs arbitrary: m) (auto simp: rthen_ret dest!: CPUSH_quanta)

lemma mkenv_quanta [quanta]: "arc_mkenv p e m = ret m' \<Longrightarrow> QUANTA m' = QUANTA m"
  by (auto simp: arc_mkenv_def rthen_ret Let_def dest!: CPUSH_quanta push_all_quanta)

lemma menv_quanta [quanta]: "arc_menv n m = ret m' \<Longrightarrow> QUANTA m' = QUANTA m"
  by (auto simp: arc_menv_def rthen_ret split: if_split_asm) (auto simp: rthen_ret split: loc.split_asm if_split_asm dest!: stk_move_quanta)

lemma mkcont_quanta [quanta]: "arc_mkcont p m = ret (k, m') \<Longrightarrow> QUANTA m' = QUANTA m"
  by (auto simp: arc_mkcont_def rthen_ret Let_def dest!: CPUSH_quanta)

lemma fetch_quanta [quanta]: "fetch m = ret (w, m') \<Longrightarrow> QUANTA m' = QUANTA m"
  by (auto simp: fetch_def rthen_ret split: ip.splits)

lemma fetch_int_quanta [quanta]: "fetch_int m = ret (w, m') \<Longrightarrow> QUANTA m' = QUANTA m"
  by (auto simp: fetch_int_def rthen_ret dest!: fetch_quanta)

lemma pop_rest_quanta [quanta]: "pop_rest n r m = ret (w, m') \<Longrightarrow> QUANTA m' = QUANTA m"
proof (induction n arbitrary: r m)
  case (Suc n)
  then obtain v m1 where m1: "CPOP m = ret (v, m1)" "(case cons (HP m1) v r of (c, h) \<Rightarrow> pop_rest n c (m1 \<lparr> HP := h \<rparr>)) = ret (w, m')"
    by (auto simp: rthen_ret Let_def)
  then show ?case using Suc.IH CPOP_quanta [OF m1(1)] by (auto split: prod.split_asm)
qed simp

lemma putenv_quanta [quanta]: "arc_putenv m d i v = Inr m' \<Longrightarrow> QUANTA m' = QUANTA m"
  "arc_putenv0 m i v = Inr m' \<Longrightarrow> QUANTA m' = QUANTA m"
  by (auto simp: arc_putenv_def arc_putenv0_def rbind_eq_Inr dest!: store_quanta)

lemma jump_by_quanta [quanta]: "jump_by d m = ret m' \<Longrightarrow> QUANTA m' = QUANTA m"
  by (auto simp: jump_by_def split: ip.splits)

lemmas exec_defs = exec_push_def exec_pop_def exec_ldi_def exec_ldl_def exec_ldg_def exec_stg_def exec_lde_def exec_ste_def
  exec_lde0_def exec_ste0_def exec_dup_def exec_cont_def exec_env_def exec_envr_def env_rest_def exec_apply_def exec_cls_def
  exec_menv_def exec_jmp_def exec_arith2_def exec_add_def exec_is_def exec_cons_def exec_consr_def exec_cxr_def exec_dcxr_def
  exec_scxr_def exec_spl_def setval_def setval_heap_def arc_mkclos_def arc_mkaff_def arc_mkaff2_def

lemma exec_quanta: "exec P i m = ret (t, m') \<Longrightarrow> QUANTA m' = QUANTA m"
  by (cases i; auto simp: exec_def go_def rthen_ret exec_defs Let_def halloc_def split: if_split_asm val.split_asm prod.split_asm dest!: quanta)

lemma vm_step_quanta: "vm_step P m = ret (t, m') \<Longrightarrow> QUANTA m' = QUANTA m"
  by (auto simp: vm_step_def rthen_ret split: option.splits dest!: fetch_int_quanta exec_quanta)

text \<open>The machine after \<open>n\<close> instructions of the engine's loop that it went on after.\<close>

fun vm_iter :: "prims \<Rightarrow> nat \<Rightarrow> machine \<Rightarrow> machine option" where
  "vm_iter P 0 m = Some m"
| "vm_iter P (Suc n) m =
     (case vm_step P m of
        Some (Inr (None, m)) \<Rightarrow>
          if QUANTA m - 1 = 0 then None else vm_iter P n (m \<lparr> QUANTA := QUANTA m - 1 \<rparr>)
      | _ \<Rightarrow> None)"

definition slice :: "machine \<Rightarrow> nat" where
  "slice m = (if QUANTA m = 0 then 2 ^ 64 else unat (QUANTA m))"

lemma slice_step: "QUANTA m - 1 \<noteq> 0 \<Longrightarrow> slice (m \<lparr> QUANTA := QUANTA m - 1 \<rparr>) < slice m"
proof -
  assume a: "QUANTA m - 1 \<noteq> 0"
  show ?thesis
  proof (cases "QUANTA m = 0")
    case True
    then show ?thesis using a unsigned_less [of "QUANTA m - 1"] by (simp add: slice_def)
  next
    case False
    then have "unat (QUANTA m - 1) < unat (QUANTA m)" by (metis measure_unat)
    then show ?thesis using a False by (simp add: slice_def)
  qed
qed

text \<open>
  Property C21. The time slice ends: the engine executes at most as many instructions as the
  thread's quantum, so it returns to the trampoline if every instruction it executes returns;
  the only instructions that may not are those with a loop over an environment, a continuation
  or a list, which have no count.
\<close>

theorem vmengine_returns:
  shows "(\<forall>n m'. vm_iter P n m = Some m' \<longrightarrow> n < slice m)
    \<and> ((\<forall>n m'. vm_iter P n m = Some m' \<longrightarrow> vm_step P m' \<noteq> None) \<longrightarrow> vmengine P m \<noteq> None)"
proof (induction "slice m" arbitrary: m rule: less_induct)
  case less
  have pos: "0 < slice m" by (auto simp: slice_def unat_gt_0)
  have go: "slice (m1 \<lparr> QUANTA := QUANTA m1 - 1 \<rparr>) < slice m" if "vm_step P m = ret (None, m1)" "QUANTA m1 - 1 \<noteq> 0" for m1
  proof -
    have "slice m1 = slice m" using vm_step_quanta [OF that(1)] by (simp add: slice_def)
    then show ?thesis using slice_step [OF that(2)] by simp
  qed
  have 1: "n < slice m" if it: "vm_iter P n m = Some m'" for n m'
  proof (cases n)
    case (Suc k)
    then obtain m1 where m1: "vm_step P m = ret (None, m1)" "QUANTA m1 - 1 \<noteq> 0" "vm_iter P k (m1 \<lparr> QUANTA := QUANTA m1 - 1 \<rparr>) = Some m'"
      using it by (auto split: option.splits sum.splits if_splits)
    then have "k < slice (m1 \<lparr> QUANTA := QUANTA m1 - 1 \<rparr>)" using less [OF go] by blast
    then show ?thesis using Suc go [OF m1(1,2)] by simp
  qed (use pos in simp)
  have 2: "vmengine P m \<noteq> None" if all: "\<forall>n m'. vm_iter P n m = Some m' \<longrightarrow> vm_step P m' \<noteq> None"
  proof -
    obtain r where r: "vm_step P m = Some r" using all [rule_format, of 0 m] by auto
    show ?thesis
    proof (cases r)
      case (Inl e)
      then show ?thesis using r by (subst vmengine.simps) simp
    next
      case (Inr p)
      obtain t m1 where p: "p = (t, m1)" by fastforce
      show ?thesis
      proof (cases t)
        case (Some x)
        then show ?thesis using r Inr p by (subst vmengine.simps) simp
      next
        case None
        note st = r [unfolded Inr p None]
        show ?thesis
        proof (cases "QUANTA m1 - 1 = 0")
          case True
          then show ?thesis using st by (subst vmengine.simps) (simp add: Let_def)
        next
          case False
          have "\<forall>n m'. vm_iter P n (m1 \<lparr> QUANTA := QUANTA m1 - 1 \<rparr>) = Some m' \<longrightarrow> vm_step P m' \<noteq> None"
          proof (intro allI impI)
            fix n m' assume "vm_iter P n (m1 \<lparr> QUANTA := QUANTA m1 - 1 \<rparr>) = Some m'"
            then have "vm_iter P (Suc n) m = Some m'" using st False by simp
            then show "vm_step P m' \<noteq> None" using all by blast
          qed
          then have "vmengine P (m1 \<lparr> QUANTA := QUANTA m1 - 1 \<rparr>) \<noteq> None" using less [OF go [OF st False]] by blast
          then show ?thesis using st False by (subst vmengine.simps) (simp add: Let_def)
        qed
      qed
    qed
  qed
  show ?case using 1 2 by blast
qed

subsection \<open>A small program\<close>

text \<open>Functions that are not used by it.\<close>

definition demo_prims :: prims where
  "demo_prims = \<lparr> p_true = Sym 1, p_add2 = (\<lambda>h a b. Inl UB), p_sub2 = (\<lambda>h a b. Inl UB), p_mul2 = (\<lambda>h a b. Inl UB),
     p_div2 = (\<lambda>h a b. Inl UB), p_iscmp = (\<lambda>h a b. NIL), p_add2_string = NIL, p_sff = (\<lambda>f args m. fail UB),
     p_aff = (\<lambda>f m. fail UB), p_apply = (\<lambda>f m. fail UB) \<rparr>"

text \<open>
  The code \<open>ienv 1 0 1, ilde0 0, ipush, inil, icons, iret\<close> of a function of one argument and an
  optional one, its code object and its closure, and a thread about to call it on 7.
\<close>

definition prog_heap :: heap where
  "prog_heap = \<lparr> mem = (\<lambda>_. None)
     (1 \<mapsto> OBlk T_VECTOR [Fix 202, Fix 1, Fix 0, Fix 1, Fix 105, Fix 0, Fix 1, Fix 19, Fix 25, Fix 13],
      2 \<mapsto> OBlk T_CODE [Ref 1, NIL], 3 \<mapsto> OBlk T_CLOS [Ref 2, NIL]), brk = 4 \<rparr>"

definition prog_demo :: machine where
  "prog_demo = call_demo \<lparr> FUNR := NIL, VALR := Ref 3, CONR := NIL, ENVR := NIL, HP := prog_heap, QUANTA := 20,
     ARGC := 1, STK := replicate 15 NIL @ [Fix 7], SP := 14, SFN := 14 \<rparr>"

text \<open>Applied to 7 the function returns a list of one element, and the thread ends.\<close>

lemma prog_runs:
  "case arc_thr_trampoline demo_prims TR_FNAPP prog_demo of
     Some (Inr m) \<Rightarrow> rep_cons (HP m) (VALR m) = Inr (Fix 7, NIL) \<and> STATE m = Trelease
   | _ \<Rightarrow> False"
  by (simp add: arc_thr_trampoline.simps vmengine.simps tramp_step_def apply_vr_def clos_apply_def resume_def prog_demo_def
      call_demo_def nested_demo_def prog_heap_def blk_get_def vm_step_def fetch_int_def fetch_def decode_def vminst_code_def
      exec_def go_def exec_defs arc_mkenv_def CPUSH_def CPOP_def STOP_def
      Let_def arc_getenv0_def env0_loc_def senv_count_def stk_get_def Heap.cons_def halloc_def apply_return_def nth_append)

definition halt_demo :: machine where
  "halt_demo = nested_demo \<lparr> IP := IPP (Ref 1) 0, HP := \<lparr> mem = (\<lambda>_. None)(1 \<mapsto> OBlk T_VECTOR [Fix 20]), brk = 2 \<rparr> \<rparr>"

lemma vmengine_returns_witness: "vmengine demo_prims halt_demo \<noteq> None"
proof -
  have st: "vm_step demo_prims halt_demo = ret (Some TR_SUSPEND, halt_demo \<lparr> IP := IPP (Ref 1) 1, STATE := Trelease \<rparr>)"
    by (simp add: vm_step_def halt_demo_def nested_demo_def fetch_int_def fetch_def blk_get_def decode_def vminst_code_def exec_def)
  have "vm_iter demo_prims n halt_demo = Some m' \<Longrightarrow> vm_step demo_prims m' \<noteq> None" for n m'
    by (cases n) (auto simp: st)
  then show ?thesis using vmengine_returns [of demo_prims halt_demo] by blast
qed

subsection \<open>Calling a closure\<close>

lemma fetch_nat:
  "IP m = IPP (Ref w) (int i) \<Longrightarrow> mem (HP m) w = Some (OBlk ty ws) \<Longrightarrow> i < length ws \<Longrightarrow> ws ! i = Fix k \<Longrightarrow>
    fetch_int m = ret (k, m \<lparr> IP := IPP (Ref w) (int (Suc i)) \<rparr>)"
  by (simp add: fetch_int_def fetch_def blk_get_def add.commute)

text \<open>The three operands of \<open>ienv\<close> and \<open>ienvr\<close>.\<close>

lemma fetch_three:
  assumes "IP m = IPP (Ref w) 1" and "mem (HP m) w = Some (OBlk ty (op # Fix a # Fix b # Fix c # ws))"
  shows "rthen (fetch_int m) (\<lambda>(a, m). rthen (fetch_int m) (\<lambda>(b, m). rthen (fetch_int m) (\<lambda>(c, m). f a b c m))) =
    f a b c (m \<lparr> IP := IPP (Ref w) 4 \<rparr>)"
proof -
  let ?ws = "op # Fix a # Fix b # Fix c # ws"
  have "fetch_int m = ret (a, m \<lparr> IP := IPP (Ref w) 2 \<rparr>)"
    using fetch_nat [of m w 1 ty ?ws a] assms by simp
  moreover have "fetch_int (m \<lparr> IP := IPP (Ref w) 2 \<rparr>) = ret (b, m \<lparr> IP := IPP (Ref w) 3 \<rparr>)"
    using fetch_nat [of "m \<lparr> IP := IPP (Ref w) 2 \<rparr>" w 2 ty ?ws b] assms by simp
  moreover have "fetch_int (m \<lparr> IP := IPP (Ref w) 3 \<rparr>) = ret (c, m \<lparr> IP := IPP (Ref w) 4 \<rparr>)"
    using fetch_nat [of "m \<lparr> IP := IPP (Ref w) 3 \<rparr>" w 3 ty ?ws c] assms by simp
  ultimately show ?thesis by simp
qed

lemma apply_closure:
  assumes "VALR m = Ref cl" and "mem (HP m) cl = Some (OBlk T_CLOS [Ref code, env])"
    and "mem (HP m) code = Some (OBlk T_CODE (Ref w # cs))"
  shows "apply_vr P m = ret (TR_RESUME, m \<lparr> FUNR := Ref cl, IP := IPP (Ref w) 0, ENVR := env \<rparr>)"
  using assms by (simp add: apply_vr_def clos_apply_def blk_get_def)

lemma step_decode:
  assumes "IP m = IPP (Ref w) 0" and "mem (HP m) w = Some (OBlk ty (Fix (opcode i) # ws))"
  shows "vm_step P m = exec P i (m \<lparr> IP := IPP (Ref w) 1 \<rparr>)"
  using fetch_nat [of m w 0 ty "Fix (opcode i) # ws" "opcode i"] assms by (simp add: vm_step_def decode_opcode)

text \<open>
  Property C4. Calling a closure: the arguments pushed by the caller become the innermost frame of
  the environment the closure was made in, in order, with the missing optional arguments and
  the local variables unbound, and execution goes on after the entry instruction; a call with
  too few or too many arguments raises the error instead.
\<close>

theorem closure_call:
  assumes "VALR m = Ref cl" and "mem (HP m) cl = Some (OBlk T_CLOS [Ref code, env])"
    and "mem (HP m) code = Some (OBlk T_CODE (Ref w # cs))"
    and "mem (HP m) w = Some (OBlk T_VECTOR (Fix (opcode ienv) # Fix (int req) # Fix (int loc) # Fix (int opt) # ws))"
    and "stk_args m args" and "ARGC m = int (length args)" and "env_rep m (SP m + length args) S env fs"
    and "req + opt + loc + 2 \<le> SP m"
  shows "\<exists>m1. apply_vr P m = ret (TR_RESUME, m1) \<and>
    (if length args < req then vm_step P m1 = fail (ArcErr ''too few arguments, at least %d required, %d passed'')
     else if req + opt < length args then vm_step P m1 = fail (ArcErr ''too many arguments, at most %d allowed, %d passed'')
     else \<exists>m2. vm_step P m1 = ret (None, m2) \<and> IP m2 = IPP (Ref w) 4
       \<and> env_rep m2 (SP m2) S (ENVR m2) ((args @ replicate (req + opt - length args + loc) UNBOUND) # fs)
       \<and> SP m2 + (req + opt - length args + loc) + 2 = SP m \<and> HP m2 = HP m \<and> CONR m2 = CONR m)"
proof -
  define m1 where "m1 = m \<lparr> FUNR := Ref cl, IP := IPP (Ref w) 0, ENVR := env \<rparr>"
  define m3 where "m3 = m1 \<lparr> IP := IPP (Ref w) 4 \<rparr>"
  have a: "apply_vr P m = ret (TR_RESUME, m1)" using apply_closure [OF assms(1-3)] by (simp add: m1_def)
  have "vm_step P m1 = exec P ienv (m1 \<lparr> IP := IPP (Ref w) 1 \<rparr>)"
    using assms(4) by (intro step_decode) (simp_all add: m1_def)
  also have "\<dots> = go (if ARGC m < int req then fail (ArcErr ''too few arguments, at least %d required, %d passed'')
     else if ARGC m > int req + int opt then fail (ArcErr ''too many arguments, at most %d allowed, %d passed'')
     else arc_mkenv (nat (ARGC m)) (nat (int req + int opt - ARGC m + int loc)) m3)"
    unfolding exec_def exec_env_def using assms(4)
    by (simp add: fetch_three [where w = w] m1_def m3_def)
  finally have st: "vm_step P m1 = \<dots>" .
  show ?thesis
  proof (cases "length args < req \<or> req + opt < length args")
    case True
    then show ?thesis using a st assms(6) by (auto simp: go_def)
  next
    case False
    let ?x = "req + opt - length args + loc"
    have x: "nat (int req + int opt - int (length args) + int loc) = ?x" "?x + 2 \<le> SP m3"
      using False assms(8) by (auto simp: m3_def m1_def)
    have "stk_args m3 args" using assms(5) by (simp add: stk_args_def m3_def m1_def)
    moreover have "env_rep m3 (SP m3 + length args) S (ENVR m3) fs" using assms(7) by (simp add: m3_def m1_def env_rep_regs)
    ultimately obtain m2 where m2: "arc_mkenv (length args) ?x m3 = ret m2"
      "env_rep m2 (SP m2) S (ENVR m2) ((args @ replicate ?x UNBOUND) # fs)" "SP m2 = SP m3 - (?x + 2)" "HP m2 = HP m3" "CONR m2 = CONR m3"
      "IP m2 = IP m3"
      using mkenv_frame [of m3 args ?x S fs] x(2) by blast
    have "vm_step P m1 = ret (None, m2)" using st m2(1) x(1) assms(6) False by (simp add: go_def)
    moreover have "IP m2 = IPP (Ref w) 4" "HP m2 = HP m" "CONR m2 = CONR m" "SP m2 + ?x + 2 = SP m"
      using m2(3-6) x(2) by (simp_all add: m3_def m1_def)
    ultimately show ?thesis using a False m2(2)
      by (intro exI [of _ m1]) (simp del: env_rep.simps)
  qed
qed

lemma closure_call_witness:
  "\<exists>m1 m2. apply_vr demo_prims prog_demo = ret (TR_RESUME, m1) \<and> vm_step demo_prims m1 = ret (None, m2)
    \<and> env_rep m2 (SP m2) {} (ENVR m2) [[Fix 7, UNBOUND]]"
proof -
  have h: "VALR prog_demo = Ref 3" "mem (HP prog_demo) 3 = Some (OBlk T_CLOS [Ref 2, NIL])"
    "mem (HP prog_demo) 2 = Some (OBlk T_CODE (Ref 1 # [NIL]))"
    "mem (HP prog_demo) 1 = Some (OBlk T_VECTOR (Fix (opcode ienv) # Fix (int 1) # Fix (int 0) # Fix (int 1) #
       [Fix 105, Fix 0, Fix 1, Fix 19, Fix 25, Fix 13]))"
    by (simp_all add: prog_demo_def prog_heap_def opcode_def vminst_code_def)
  have a: "stk_args prog_demo [Fix 7]" "ARGC prog_demo = int (length [Fix 7])"
    by (simp_all add: stk_args_def prog_demo_def call_demo_def nested_demo_def nth_append)
  have e: "env_rep prog_demo (SP prog_demo + length [Fix 7]) {} NIL []" by simp
  have "1 + 1 + 0 + 2 \<le> SP prog_demo" by (simp add: prog_demo_def)
  from closure_call [OF h a e this, of demo_prims] show ?thesis by (auto simp del: env_rep.simps)
qed

subsection \<open>Making a closure\<close>

text \<open>
  Property C16. Closures capture their environment: whether the current environment is on the stack
  or in the heap, the instruction makes a closure of the code in the value register whose
  environment is in the heap and holds the same variables, and the current function goes on in
  that same environment, so both see each other's assignments.
\<close>

theorem closure_captures:
  assumes "movable m (ENVR m) fs" and "heap_ok (HP m)" and "cont_rep m lo T (CONR m) ks"
  shows "\<exists>m' cl env. exec_cls m = ret m' \<and> VALR m' = Ref cl \<and> mem (HP m') cl = Some (OBlk T_CLOS [VALR m, env])
    \<and> ENVR m' = env \<and> henv (HP m') {} env fs"
proof -
  obtain env m1 where r: "arc_env2heap m (ENVR m) = ret (env, m1)" "henv (HP m1) {} env fs" "heap_ok (HP m1)"
    "m1 \<lparr> STK := STK m, HP := HP m \<rparr> = m"
    using env2heap_movable [OF assms] by blast
  have v: "VALR m1 = VALR m" using arg_cong [OF r(4), of VALR] by simp
  have fin: "\<exists>m' cl. (let (cl, m) = arc_mkclos (VALR m2) (ENVR m2) m2 in ret (setval cl m)) = ret m' \<and> VALR m' = Ref cl
      \<and> mem (HP m') cl = Some (OBlk T_CLOS [VALR m2, ENVR m2]) \<and> ENVR m' = ENVR m2 \<and> henv (HP m') {} (ENVR m2) fs"
    if h: "heap_ok (HP m2)" "henv (HP m2) {} (ENVR m2) fs" for m2
  proof -
    have "mem (HP m2) (brk (HP m2)) = None" using h(1) unfolding heap_ok_def by (meson nat_neq_iff)
    then have "henv ((HP m2) \<lparr> mem := (mem (HP m2))(brk (HP m2) \<mapsto> OBlk T_CLOS [VALR m2, ENVR m2]), brk := brk (HP m2) + 1 \<rparr>) {} (ENVR m2) fs"
      by (intro henv_mono [OF h(2)]) auto
    then show ?thesis by (simp add: arc_mkclos_def halloc_def setval_def)
  qed
  show ?thesis
  proof (cases "ENVR m")
    case (StkEnv ofs)
    then show ?thesis using r(1) fin [of "m1 \<lparr> ENVR := env \<rparr>"] r(2,3) v by (auto simp: exec_cls_def)
  next
    case NIL
    then have "henv (HP m) {} (ENVR m) fs" using assms(1) by (auto simp: movable_def)
    then show ?thesis using fin [of m] assms(2) NIL by (auto simp: exec_cls_def)
  next
    case (Ref a)
    then have "henv (HP m) {} (ENVR m) fs" using assms(1) by (auto simp: movable_def)
    then show ?thesis using fin [of m] assms(2) Ref by (auto simp: exec_cls_def)
  qed (use assms(1) in \<open>auto simp: movable_def elim: henv.elims\<close>)
qed

lemma closure_captures_witness:
  "\<exists>m' cl env. exec_cls call_demo = ret m' \<and> VALR m' = Ref cl \<and> ENVR m' = env \<and> henv (HP m') {} env [[Fix 7, Fix 8]]"
proof -
  have "ENVR call_demo = StkEnv 3" by (simp add: call_demo_def)
  then show ?thesis using closure_captures [OF _ call_heap call_cont] call_movable by (metis (no_types))
qed

subsection \<open>Splicing\<close>

lemma splice_chain:
  assumes "chain h v as xs NIL" and "as \<noteq> []"
  shows "\<exists>h'. splice h v nl = ret h' \<and> chain h' v as xs nl \<and> (\<forall>b. b \<notin> set as \<longrightarrow> mem h' b = mem h b)"
  using assms
proof (induction as arbitrary: v xs)
  case (Cons a as)
  then obtain x xs' d where c: "xs = x # xs'" "v = Ref a" "mem h a = Some (OCons x d)" "chain h d as xs' NIL"
    by (cases xs) auto
  have d: "cdr h v = Inr d" using c by (simp add: cdr_def)
  show ?case
  proof (cases as)
    case Nil
    then have e: "xs' = []" "d = NIL" using c(4) by (cases xs'; simp)+
    then have "splice h v nl = ret (hset h a (OCons x nl))"
      using d c(2,3) by (subst splice.simps) simp
    then show ?thesis using c e Nil by (simp add: hset_def)
  next
    case (Cons b bs)
    then obtain y ys e where b: "d = Ref b" "mem h b = Some (OCons y e)" using c(4) by (cases xs') auto
    obtain h' where h': "splice h d nl = ret h'" "chain h' d as xs' nl" "\<forall>b. b \<notin> set as \<longrightarrow> mem h' b = mem h b"
      using Cons.IH [OF c(4)] Cons by blast
    have "a \<notin> set as" using chain_distinct [OF Cons.prems(1)] by simp
    then have "mem h' a = Some (OCons x d)" using h'(3) c(3) by simp
    moreover have "splice h v nl = ret h'" using d b h'(1) by (subst splice.simps) simp
    ultimately show ?thesis using h' c by auto
  qed
qed simp

end
