(* ===== verification/Ssyntax.thy ===== *)
theory Ssyntax
  imports Builtins Machine
begin

text \<open>
  Special symbol syntax, \<open>src/src/ssyntax.c\<close>: \<open>a:b\<close>, \<open>~a\<close>, \<open>a.b\<close>, \<open>a!b\<close> and \<open>a&b\<close>
  are expanded to expressions. The functions read the name of the symbol through a string port,
  rune by rune, and read each part with the reader, which is the argument \<open>rdr\<close>: it takes the
  text of the part and the heap. The string \<open>elt\<close> being collected is a list of runes, empty
  for nil as well: the code treats both alike. Lists are conses in the heap.
\<close>

type_synonym reader = "int list \<Rightarrow> heap \<Rightarrow> (val \<times> heap) run"

definition ch_colon :: int where "ch_colon = 58"
definition ch_tilde :: int where "ch_tilde = 126"
definition ch_and :: int where "ch_and = 38"
definition ch_dot :: int where "ch_dot = 46"
definition ch_bang :: int where "ch_bang = 33"

lemmas ss_chars = ch_colon_def ch_tilde_def ch_and_def ch_dot_def ch_bang_def

definition arc_ssyntax :: "(val \<Rightarrow> int list option) \<Rightarrow> val \<Rightarrow> bool" where
  "arc_ssyntax sym2str x =
     (case sym2str x of
        None \<Rightarrow> False
      | Some name \<Rightarrow> \<exists>ch \<in> set name. ch = ch_colon \<or> ch = ch_tilde \<or> ch = ch_and \<or> ch = ch_dot \<or> ch = ch_bang)"

text \<open>\<open>(x y)\<close>.\<close>

definition list2 :: "heap \<Rightarrow> val \<Rightarrow> val \<Rightarrow> val \<times> heap" where
  "list2 h x y = (let (d, h) = cons h y NIL in cons h x d)"

text \<open>The part collected so far, read.\<close>

definition read_elt :: "reader \<Rightarrow> int list \<Rightarrow> heap \<Rightarrow> (val \<times> heap) run" where
  "read_elt rdr elt h = (if elt \<noteq> [] then rdr elt h else ret (NIL, h))"

text \<open>A new cell at the end of the list \<open>(tp, last)\<close>.\<close>

definition add_last :: "val \<times> val \<Rightarrow> val \<Rightarrow> heap \<Rightarrow> ((val \<times> val) \<times> heap) res" where
  "add_last q elt h =
     (let (cell, h) = cons h elt NIL in
      if snd q \<noteq> NIL then rbind (scdr h (snd q) cell) (\<lambda>(_, h). Inr ((fst q, cell), h))
      else Inr ((cell, cell), h))"

text \<open>What is made of the list at the end: its only element, or the list with the operator.\<close>

definition finish_list :: "bsym \<Rightarrow> val \<Rightarrow> heap \<Rightarrow> (val \<times> heap) run" where
  "finish_list op tp h =
     rthen (Some (rep_cons h tp)) (\<lambda>(x, d). if d = NIL then ret (x, h) else ret (cons h (ARC_BUILTIN op) tp))"

subsection \<open>Composition and complement\<close>

definition complement_elt :: "val \<Rightarrow> heap \<Rightarrow> val \<times> heap" where
  "complement_elt elt h = (if elt = NIL then (ARC_BUILTIN S_NO, h) else list2 h (ARC_BUILTIN S_COMPLEMENT) elt)"

text \<open>
  One part, ended by \<open>:\<close> or by the end of the name (\<open>fin\<close>). \<open>Inl v\<close> is the early return
  with \<open>v\<close>; otherwise the list so far.
\<close>

definition compose_part ::
  "reader \<Rightarrow> bool \<Rightarrow> val \<times> val \<Rightarrow> int list \<Rightarrow> bool \<Rightarrow> heap \<Rightarrow> ((val + val \<times> val) \<times> heap) run" where
  "compose_part rdr fin q elt negate h =
     rthen (read_elt rdr elt h) (\<lambda>(e, h).
       let (e, h) = (if negate then complement_elt e h else (e, h)) in
       if negate \<and> fin \<and> fst q = NIL then ret (Inl e, h)
       else if e = NIL then ret (Inr q, h)
       else rthen (Some (add_last q e h)) (\<lambda>(q, h). ret (Inr q, h)))"

fun compose_loop :: "reader \<Rightarrow> int list \<Rightarrow> val \<times> val \<Rightarrow> int list \<Rightarrow> bool \<Rightarrow> heap \<Rightarrow> (val \<times> heap) run" where
  "compose_loop rdr [] q elt negate h =
     rthen (compose_part rdr True q elt negate h) (\<lambda>(r, h).
       case r of Inl v \<Rightarrow> ret (v, h) | Inr q \<Rightarrow> finish_list S_COMPOSE (fst q) h)"
| "compose_loop rdr (ch # rs) q elt negate h =
     (if ch = ch_colon then
        rthen (compose_part rdr False q elt negate h) (\<lambda>(r, h).
          case r of Inl v \<Rightarrow> ret (v, h) | Inr q \<Rightarrow> compose_loop rdr rs q [] False h)
      else if ch = ch_tilde then compose_loop rdr rs q elt True h
      else compose_loop rdr rs q (elt @ [ch]) negate h)"

definition expand_compose :: "reader \<Rightarrow> int list \<Rightarrow> heap \<Rightarrow> (val \<times> heap) run" where
  "expand_compose rdr name h = compose_loop rdr name (NIL, NIL) [] False h"

subsection \<open>Structure access\<close>

text \<open>\<open>(last 'elt)\<close> or \<open>(last elt)\<close>, by the character \<open>prevchar\<close>.\<close>

definition access :: "int \<Rightarrow> val \<Rightarrow> val \<Rightarrow> heap \<Rightarrow> val \<times> heap" where
  "access prevchar lst elt h =
     (if prevchar = ch_bang then let (q, h) = list2 h (ARC_BUILTIN S_QUOTE) elt in list2 h lst q
      else list2 h lst elt)"

text \<open>\<open>prevchar\<close> is set to the separator just read before the part in front of it is used.\<close>

fun sexpr_loop :: "reader \<Rightarrow> int list \<Rightarrow> val \<Rightarrow> int list \<Rightarrow> int \<Rightarrow> heap \<Rightarrow> (val \<times> heap) run" where
  "sexpr_loop rdr [] lst elt prevchar h =
     (if elt = [] then fail UB
      else rthen (rdr elt h) (\<lambda>(e, h).
        if e = NIL then fail (ArcErr ''Bad ssyntax %s'')
        else ret (access prevchar (if lst = NIL then ARC_BUILTIN S_GET else lst) e h)))"
| "sexpr_loop rdr (ch # rs) lst elt prevchar h =
     (if ch = ch_dot \<or> ch = ch_bang then
        (if elt = [] then sexpr_loop rdr rs lst [] ch h
         else rthen (rdr elt h) (\<lambda>(e, h).
           if lst = NIL then sexpr_loop rdr rs e [] ch h
           else let (lst, h) = access ch lst e h in sexpr_loop rdr rs lst [] ch h))
      else sexpr_loop rdr rs lst (elt @ [ch]) prevchar h)"

definition expand_sexpr :: "reader \<Rightarrow> int list \<Rightarrow> heap \<Rightarrow> (val \<times> heap) run" where
  "expand_sexpr rdr name h = sexpr_loop rdr name NIL [] 0 h"

subsection \<open>Conjunction\<close>

definition and_part :: "reader \<Rightarrow> val \<times> val \<Rightarrow> int list \<Rightarrow> heap \<Rightarrow> ((val \<times> val) \<times> heap) run" where
  "and_part rdr q elt h =
     rthen (read_elt rdr elt h) (\<lambda>(e, h). if e = NIL then ret (q, h) else Some (add_last q e h))"

fun and_loop :: "reader \<Rightarrow> int list \<Rightarrow> val \<times> val \<Rightarrow> int list \<Rightarrow> heap \<Rightarrow> (val \<times> heap) run" where
  "and_loop rdr [] q elt h = rthen (and_part rdr q elt h) (\<lambda>(q, h). finish_list S_ANDF (fst q) h)"
| "and_loop rdr (ch # rs) q elt h =
     (if ch = ch_and then rthen (and_part rdr q elt h) (\<lambda>(q, h). and_loop rdr rs q [] h)
      else and_loop rdr rs q (elt @ [ch]) h)"

definition expand_and :: "reader \<Rightarrow> int list \<Rightarrow> heap \<Rightarrow> (val \<times> heap) run" where
  "expand_and rdr name h = and_loop rdr name (NIL, NIL) [] h"

subsection \<open>The expander\<close>

text \<open>\<open>arc_strchr(c, name, ch) != CNIL\<close>.\<close>

definition has_char :: "int \<Rightarrow> int list \<Rightarrow> bool" where
  "has_char ch name \<longleftrightarrow> ch \<in> set name"

definition expand_ssyntax :: "reader \<Rightarrow> int list \<Rightarrow> heap \<Rightarrow> (val \<times> heap) run" where
  "expand_ssyntax rdr name h =
     (if has_char ch_colon name \<or> has_char ch_tilde name then expand_compose rdr name h
      else if has_char ch_dot name \<or> has_char ch_bang name then expand_sexpr rdr name h
      else if has_char ch_and name then expand_and rdr name h
      else ret (NIL, h))"

text \<open>\<open>sym2str\<close> gives the runes of the name of a symbol.\<close>

definition arc_ssexpand :: "(val \<Rightarrow> int list option) \<Rightarrow> reader \<Rightarrow> val \<Rightarrow> heap \<Rightarrow> (val \<times> heap) run" where
  "arc_ssexpand sym2str rdr v h =
     (if htype h v \<noteq> T_SYMBOL then ret (v, h)
      else if v = ARC_BUILTIN S_RXMATCH then ret (NIL, h)
      else (case sym2str v of None \<Rightarrow> fail UB | Some name \<Rightarrow> expand_ssyntax rdr name h))"


subsection \<open>What the expansions are\<close>

fun join_with :: "int \<Rightarrow> int list list \<Rightarrow> int list" where
  "join_with ch [] = []"
| "join_with ch [s] = s"
| "join_with ch (s # ss) = s @ ch # join_with ch ss"

text \<open>The reader reads the text \<open>s\<close> as \<open>v\<close>.\<close>

definition reads_as :: "reader \<Rightarrow> int list \<Rightarrow> val \<Rightarrow> bool" where
  "reads_as rdr s v \<longleftrightarrow> s \<noteq> [] \<and> v \<noteq> NIL \<and> (\<forall>h. rdr s h = ret (v, h))"

text \<open>The list of parts so far: empty, or a chain whose last cell is known.\<close>

definition parts_rep :: "heap \<Rightarrow> val \<times> val \<Rightarrow> val list \<Rightarrow> bool" where
  "parts_rep h q vs \<longleftrightarrow> heap_ok h \<and>
     (if vs = [] then q = (NIL, NIL)
      else \<exists>as a. chain h (fst q) (as @ [a]) vs NIL \<and> snd q = Ref a)"

lemma add_last_rep:
  assumes "parts_rep h q vs"
  shows "\<exists>q' h'. add_last q v h = Inr (q', h') \<and> parts_rep h' q' (vs @ [v])"
proof -
  obtain c h1 where c: "cons h v NIL = (c, h1)" by (cases "cons h v NIL")
  have ok: "heap_ok h" using assms by (simp add: parts_rep_def)
  note p = cons_props [OF ok c]
  show ?thesis
  proof (cases "vs = []")
    case True
    then have "q = (NIL, NIL)" using assms by (simp add: parts_rep_def)
    then have "add_last q v h = Inr ((c, c), h1)" using c by (simp add: add_last_def)
    moreover have "chain h1 c ([] @ [brk h]) [v] NIL" using p(1,3) by simp
    then have "parts_rep h1 (c, c) (vs @ [v])"
      using p(1,2) True unfolding parts_rep_def by (auto intro!: exI [of _ "[]"])
    ultimately show ?thesis by blast
  next
    case False
    then obtain as a where a: "chain h (fst q) (as @ [a]) vs NIL" "snd q = Ref a"
      using assms by (auto simp: parts_rep_def)
    obtain us u where vs: "vs = us @ [u]" using False by (meson rev_exhaust)
    have l: "length as = length us" using chain_length [OF a(1)] vs by simp
    have h1: "chain h1 (fst q) (as @ [a]) vs NIL" by (rule chain_cons [OF ok c a(1)])
    then have u: "chain h1 (fst q) as us (Ref a)" "mem h1 a = Some (OCons u NIL)"
      using chain_end [OF l] vs by auto
    define h2 where "h2 = hset h1 a (OCons u c)"
    have d: "a \<notin> set as" using chain_distinct [OF h1] by simp
    have na: "a < brk h" using chain_used [OF ok a(1), of a] by simp
    have "chain h2 (fst q) as us (Ref a)"
      using u(1) by (rule chain_cong) (use d in \<open>auto simp: h2_def hset_def\<close>)
    moreover have "mem h2 a = Some (OCons u c)" "mem h2 (brk h) = Some (OCons v NIL)"
      using p(3) na by (auto simp: h2_def hset_def)
    ultimately have "chain h2 (fst q) (as @ [a]) vs c" using chain_end [OF l] vs by simp
    then have "chain h2 (fst q) ((as @ [a]) @ [brk h]) (vs @ [v]) NIL"
      using \<open>mem h2 (brk h) = _\<close> p(1) by (subst chain_end) (use chain_length [OF a(1)] in auto)
    moreover have "heap_ok h2" unfolding h2_def by (rule hset_ok [OF p(2)]) (simp add: u(2))
    moreover have "add_last q v h = Inr ((fst q, c), h2)"
      using c a(2) u(2) by (simp add: add_last_def h2_def)
    ultimately show ?thesis using p(1)
      by (intro exI [of _ "(fst q, c)"] exI [of _ h2]) (auto simp: parts_rep_def intro!: exI [of _ "as @ [a]"])
  qed
qed

lemma finish_rep:
  assumes "parts_rep h q vs" and "2 \<le> length vs"
  shows "\<exists>r h' as. finish_list op (fst q) h = ret (r, h') \<and> chain h' r as (ARC_BUILTIN op # vs) NIL \<and> heap_ok h'"
proof -
  obtain as where a: "chain h (fst q) as vs NIL" "heap_ok h"
    using assms by (fastforce simp: parts_rep_def split: if_splits)
  obtain c h1 where c: "cons h (ARC_BUILTIN op) (fst q) = (c, h1)" by (cases "cons h (ARC_BUILTIN op) (fst q)")
  note p = cons_props [OF a(2) c]
  obtain x y ys where vs: "vs = x # y # ys" using assms(2) by (metis Suc_le_length_iff numeral_2_eq_2)
  obtain b b' bs where as: "as = b # b' # bs" using a(1) vs by (cases as; cases "tl as") auto
  then have r: "rep_cons h (fst q) = Inr (x, Ref b')" using a(1) vs by auto
  have "chain h1 c (brk h # as) (ARC_BUILTIN op # vs) NIL"
    using p(1,3) chain_cons [OF a(2) c a(1)] by auto
  moreover have "finish_list op (fst q) h = ret (c, h1)" using c r by (simp add: finish_list_def)
  ultimately show ?thesis using p(2) by blast
qed

lemma compose_skip: "ch_colon \<notin> set s \<Longrightarrow> ch_tilde \<notin> set s \<Longrightarrow>
    compose_loop rdr (s @ rs) q elt neg h = compose_loop rdr rs q (elt @ s) neg h"
  by (induction s arbitrary: elt) auto

lemma and_skip: "ch_and \<notin> set s \<Longrightarrow> and_loop rdr (s @ rs) q elt h = and_loop rdr rs q (elt @ s) h"
  by (induction s arbitrary: elt) auto

lemma read_elt_as: "reads_as rdr s v \<Longrightarrow> read_elt rdr s h = ret (v, h)"
  by (simp add: read_elt_def reads_as_def)

lemma compose_parts:
  assumes "parts_rep h q us" and "segs \<noteq> []" and "list_all2 (reads_as rdr) segs vs" and "2 \<le> length us + length vs"
    and "\<forall>s \<in> set segs. ch_colon \<notin> set s \<and> ch_tilde \<notin> set s"
  shows "\<exists>r h' as. compose_loop rdr (join_with ch_colon segs) q [] False h = ret (r, h')
    \<and> chain h' r as (ARC_BUILTIN S_COMPOSE # us @ vs) NIL \<and> heap_ok h'"
  using assms
proof (induction segs arbitrary: us vs q h rule: induct_list012)
  case (2 s)
  then obtain v where v: "vs = [v]" "reads_as rdr s v" by (auto simp: list_all2_Cons1)
  obtain q' h' where q': "add_last q v h = Inr (q', h')" "parts_rep h' q' (us @ [v])"
    using add_last_rep [OF 2(1)] by blast
  have part: "compose_part rdr True q s False h = ret (Inr q', h')"
    using read_elt_as [OF v(2)] q'(1) v(2) by (simp add: compose_part_def reads_as_def)
  have "compose_loop rdr (join_with ch_colon [s]) q [] False h = compose_loop rdr [] q s False h"
    using compose_skip [of s rdr "[]" q "[]" False h] 2(5) by simp
  also have "\<dots> = finish_list S_COMPOSE (fst q') h'" using part by simp
  finally show ?case using finish_rep [OF q'(2), of S_COMPOSE] v(1) 2(4) by simp
next
  case (3 s s2 ss)
  then obtain v ws where v: "vs = v # ws" "reads_as rdr s v" "list_all2 (reads_as rdr) (s2 # ss) ws"
    by (auto simp: list_all2_Cons1)
  obtain q' h' where q': "add_last q v h = Inr (q', h')" "parts_rep h' q' (us @ [v])"
    using add_last_rep [OF 3(3)] by blast
  have part: "compose_part rdr False q s False h = ret (Inr q', h')"
    using read_elt_as [OF v(2)] q'(1) v(2) by (simp add: compose_part_def reads_as_def)
  have "compose_loop rdr (join_with ch_colon (s # s2 # ss)) q [] False h =
      compose_loop rdr (ch_colon # join_with ch_colon (s2 # ss)) q s False h"
    using compose_skip [of s rdr _ q "[]" False h] 3(7) by simp
  also have "\<dots> = compose_loop rdr (join_with ch_colon (s2 # ss)) q' [] False h'"
    using part by simp
  finally show ?case
    using 3(2) [OF q'(2) _ v(3)] 3(6,7) v(1) by simp
qed simp

lemma and_parts:
  assumes "parts_rep h q us" and "segs \<noteq> []" and "list_all2 (reads_as rdr) segs vs" and "2 \<le> length us + length vs"
    and "\<forall>s \<in> set segs. ch_and \<notin> set s"
  shows "\<exists>r h' as. and_loop rdr (join_with ch_and segs) q [] h = ret (r, h')
    \<and> chain h' r as (ARC_BUILTIN S_ANDF # us @ vs) NIL \<and> heap_ok h'"
  using assms
proof (induction segs arbitrary: us vs q h rule: induct_list012)
  case (2 s)
  then obtain v where v: "vs = [v]" "reads_as rdr s v" by (auto simp: list_all2_Cons1)
  obtain q' h' where q': "add_last q v h = Inr (q', h')" "parts_rep h' q' (us @ [v])"
    using add_last_rep [OF 2(1)] by blast
  have part: "and_part rdr q s h = ret (q', h')"
    using read_elt_as [OF v(2)] q'(1) v(2) by (simp add: and_part_def reads_as_def)
  have "and_loop rdr (join_with ch_and [s]) q [] h = and_loop rdr [] q s h"
    using and_skip [of s rdr "[]" q "[]" h] 2(5) by simp
  also have "\<dots> = finish_list S_ANDF (fst q') h'" using part by simp
  finally show ?case using finish_rep [OF q'(2), of S_ANDF] v(1) 2(4) by simp
next
  case (3 s s2 ss)
  then obtain v ws where v: "vs = v # ws" "reads_as rdr s v" "list_all2 (reads_as rdr) (s2 # ss) ws"
    by (auto simp: list_all2_Cons1)
  obtain q' h' where q': "add_last q v h = Inr (q', h')" "parts_rep h' q' (us @ [v])"
    using add_last_rep [OF 3(3)] by blast
  have part: "and_part rdr q s h = ret (q', h')"
    using read_elt_as [OF v(2)] q'(1) v(2) by (simp add: and_part_def reads_as_def)
  have "and_loop rdr (join_with ch_and (s # s2 # ss)) q [] h =
      and_loop rdr (ch_and # join_with ch_and (s2 # ss)) q s h"
    using and_skip [of s rdr _ q "[]" h] 3(7) by simp
  also have "\<dots> = and_loop rdr (join_with ch_and (s2 # ss)) q' [] h'"
    using part by simp
  finally show ?case
    using 3(2) [OF q'(2) _ v(3)] 3(6,7) v(1) by simp
qed simp


text \<open>A name without special characters is not expanded.\<close>

definition plain :: "int list \<Rightarrow> bool" where
  "plain s \<longleftrightarrow> ch_colon \<notin> set s \<and> ch_tilde \<notin> set s \<and> ch_and \<notin> set s \<and> ch_dot \<notin> set s \<and> ch_bang \<notin> set s"

lemma set_join: "set (join_with ch segs) \<subseteq> insert ch (\<Union> (set ` set segs))"
  by (induction segs rule: induct_list012) auto

lemma join_sep: "2 \<le> length segs \<Longrightarrow> ch \<in> set (join_with ch segs)"
  by (induction segs rule: induct_list012) auto

text \<open>
  Composition: a name of at least two parts separated by colons expands to the list
  of \<open>compose\<close> and what the reader makes of each part, in order; one of parts separated by
  ampersands to the list of \<open>andf\<close> and the parts.
\<close>

lemma ssexpand_lists:
  assumes "heap_ok h" and "sym2str v = Some (join_with ch segs)" and "htype h v = T_SYMBOL" and "v \<noteq> ARC_BUILTIN S_RXMATCH"
    and "ch = ch_colon \<and> op = S_COMPOSE \<or> ch = ch_and \<and> op = S_ANDF"
    and "2 \<le> length segs" and "list_all2 (reads_as rdr) segs vs" and "\<forall>s \<in> set segs. plain s"
  shows "\<exists>r h' as. arc_ssexpand sym2str rdr v h = ret (r, h') \<and> chain h' r as (ARC_BUILTIN op # vs) NIL \<and> heap_ok h'"
proof -
  have e: "arc_ssexpand sym2str rdr v h = expand_ssyntax rdr (join_with ch segs) h"
    using assms by (simp add: arc_ssexpand_def)
  have q: "parts_rep h (NIL, NIL) []" using assms(1) by (simp add: parts_rep_def)
  have l: "2 \<le> length [] + length vs" "segs \<noteq> []" using assms(6,7) by (auto simp: list_all2_conv_all_nth)
  have no: "c \<notin> set (join_with ch segs)" if "c \<noteq> ch" "\<forall>s \<in> set segs. c \<notin> set s" for c
    using that set_join [of ch segs] by blast
  show ?thesis
  proof (cases "ch = ch_colon \<and> op = S_COMPOSE")
    case True
    have "expand_ssyntax rdr (join_with ch segs) h = compose_loop rdr (join_with ch_colon segs) (NIL, NIL) [] False h"
      using True join_sep [OF assms(6), of ch] by (simp add: expand_ssyntax_def has_char_def expand_compose_def)
    then show ?thesis
      using compose_parts [OF q l(2) assms(7) l(1)] assms(8) True e by (auto simp: plain_def)
  next
    case False
    then have c: "ch = ch_and" "op = S_ANDF" using assms(5) by auto
    have "ch_colon \<notin> set (join_with ch segs)" "ch_tilde \<notin> set (join_with ch segs)"
      "ch_dot \<notin> set (join_with ch segs)" "ch_bang \<notin> set (join_with ch segs)"
      using assms(8) c(1) by (intro no; simp add: plain_def ss_chars)+
    then have "expand_ssyntax rdr (join_with ch segs) h = and_loop rdr (join_with ch_and segs) (NIL, NIL) [] h"
      using c join_sep [OF assms(6), of ch] by (simp add: expand_ssyntax_def has_char_def expand_and_def)
    then show ?thesis
      using and_parts [OF q l(2) assms(7) l(1)] assms(8) c e by (auto simp: plain_def)
  qed
qed

text \<open>Reads a one-letter name as the symbol with the number of the letter.\<close>

definition letter_reader :: reader where
  "letter_reader s h = ret (Sym (nat (hd s)), h)"

lemma letter_reads: "reads_as letter_reader [c] (Sym (nat c))"
  by (simp add: reads_as_def letter_reader_def)

text \<open>
  The structure access syntax: the parts after the first, each with the separator in front of it,
  are applied one after the other; each part but the last is quoted, or not, by the separator
  that follows it.
\<close>

fun name_of :: "int list \<Rightarrow> (int \<times> int list) list \<Rightarrow> int list" where
  "name_of s [] = s"
| "name_of s ((ch, s') # rest) = s @ ch # name_of s' rest"

fun access_all :: "val \<Rightarrow> (int \<times> val) list \<Rightarrow> heap \<Rightarrow> val \<times> heap" where
  "access_all lst [] h = (lst, h)"
| "access_all lst ((ch, e) # rest) h = (let (lst, h) = access ch lst e h in access_all lst rest h)"

lemma sexpr_skip: "ch_dot \<notin> set s \<Longrightarrow> ch_bang \<notin> set s \<Longrightarrow>
    sexpr_loop rdr (s @ rs) lst elt p h = sexpr_loop rdr rs lst (elt @ s) p h"
  by (induction s arbitrary: elt) auto

lemma access_not_nil: "access ch lst e h = (v, h') \<Longrightarrow> v \<noteq> NIL"
  by (auto simp: access_def list2_def cons_def halloc_def Let_def split: if_splits)

lemma sexpr_parts:
  assumes "lst \<noteq> NIL" and "reads_as rdr s e" and "list_all2 (\<lambda>(_, t) w. reads_as rdr t w) rest ws"
    and "\<forall>t \<in> set (s # map snd rest). ch_dot \<notin> set t \<and> ch_bang \<notin> set t" and "\<forall>c \<in> set (map fst rest). c = ch_dot \<or> c = ch_bang"
  shows "sexpr_loop rdr (name_of s rest) lst [] p h =
    ret (access_all lst (zip (map fst rest @ [if rest = [] then p else last (map fst rest)]) (e # ws)) h)"
  using assms
proof (induction rest arbitrary: lst s e ws p h)
  case Nil
  then show ?case
    using sexpr_skip [of s rdr "[]" lst "[]" p h] by (auto simp: reads_as_def split: prod.splits)
next
  case (Cons cs rest)
  obtain c t where cs: "cs = (c, t)" by (cases cs)
  then obtain w us where ws: "ws = w # us" "reads_as rdr t w" "list_all2 (\<lambda>(_, t) w. reads_as rdr t w) rest us"
    using Cons.prems(3) by (auto simp: list_all2_Cons1)
  obtain l' h' where l: "access c lst e h = (l', h')" by (cases "access c lst e h")
  have "sexpr_loop rdr (name_of s (cs # rest)) lst [] p h = sexpr_loop rdr (name_of t rest) l' [] c h'"
    using sexpr_skip [of s rdr "c # name_of t rest" lst "[]" p h] Cons.prems cs l by (auto simp: reads_as_def)
  also have "\<dots> = ret (access_all l' (zip (map fst rest @ [if rest = [] then c else last (map fst rest)]) (w # us)) h')"
    using Cons.prems(4,5) cs by (intro Cons.IH [OF access_not_nil [OF l] ws(2,3)]) auto
  finally show ?case using cs l ws(1) by (cases rest) auto
qed

lemma ssexpand_access_aux:
  assumes "reads_as rdr s v" and "reads_as rdr t e" and "list_all2 (\<lambda>(_, t) w. reads_as rdr t w) rest ws"
    and "\<forall>t \<in> set (s # t # map snd rest). plain t" and "\<forall>c \<in> set (ch # map fst rest). c = ch_dot \<or> c = ch_bang"
  shows "expand_ssyntax rdr (name_of s ((ch, t) # rest)) h =
    ret (access_all v (zip (map fst rest @ [last (ch # map fst rest)]) (e # ws)) h)"
proof -
  let ?name = "name_of s ((ch, t) # rest)"
  have sub: "set (name_of s rest) \<subseteq> set s \<union> fst ` set rest \<union> \<Union> (set ` snd ` set rest)" for s rest
    by (induction s rest rule: name_of.induct) auto
  have not: "c \<notin> set ?name" if "c = ch_colon \<or> c = ch_tilde" for c
  proof
    assume "c \<in> set ?name"
    then have "c \<in> set s \<or> c = ch \<or> c \<in> fst ` set rest \<or> c \<in> set t \<or> (\<exists>u \<in> set (map snd rest). c \<in> set u)"
      using sub [of s "(ch, t) # rest"] by auto
    moreover have "c \<noteq> ch_dot" "c \<noteq> ch_bang" using that by (auto simp: ss_chars)
    ultimately show False using assms(4,5) that by (auto simp: plain_def)
  qed
  have "ch \<in> set ?name" by simp
  then have "has_char ch_dot ?name \<or> has_char ch_bang ?name" using assms(5) by (auto simp: has_char_def)
  then have "expand_ssyntax rdr ?name h = sexpr_loop rdr ?name NIL [] 0 h"
    using not by (auto simp: expand_ssyntax_def has_char_def expand_sexpr_def)
  also have "\<dots> = sexpr_loop rdr (name_of t rest) v [] ch h"
    using sexpr_skip [of s rdr "ch # name_of t rest" NIL "[]" 0 h] assms(1,4,5) by (auto simp: reads_as_def plain_def)
  also have "\<dots> = ret (access_all v (zip (map fst rest @ [if rest = [] then ch else last (map fst rest)]) (e # ws)) h)"
    using assms by (intro sexpr_parts) (auto simp: reads_as_def plain_def)
  finally show ?thesis by (cases rest) auto
qed

text \<open>
  Property C37. Structure access: \<open>a.b\<close> applies \<open>a\<close> to \<open>b\<close> and \<open>a!b\<close> to the quoted
  \<open>b\<close>, and a longer name applies the result to the next part, but every part except the last
  is quoted according to the separator behind it: \<open>a.b!c\<close> is \<open>((a 'b) 'c)\<close>, not
  \<open>((a b) 'c)\<close>.
\<close>

theorem ssexpand_access:
  assumes "reads_as rdr s v" and "reads_as rdr t e" and "list_all2 (\<lambda>(_, t) w. reads_as rdr t w) rest ws"
    and "\<forall>t \<in> set (s # t # map snd rest). plain t" and "\<forall>c \<in> set (ch # map fst rest). c = ch_dot \<or> c = ch_bang"
    and "sym2str x = Some (name_of s ((ch, t) # rest))" and "htype h x = T_SYMBOL" and "x \<noteq> ARC_BUILTIN S_RXMATCH"
  shows "arc_ssexpand sym2str rdr x h = ret (access_all v (zip (map fst rest @ [last (ch # map fst rest)]) (e # ws)) h)"
  using ssexpand_access_aux [OF assms(1-5)] assms(6-8) by (simp add: arc_ssexpand_def)

theorem ssexpand_access_witness:
  "arc_ssexpand (\<lambda>_. Some [97, 46, 98, 33, 99]) letter_reader (Sym 500) empty_heap =
    ret (access_all (Sym 97) [(ch_bang, Sym 98), (ch_bang, Sym 99)] empty_heap)"
proof -
  have "list_all2 (\<lambda>(_, t) w. reads_as letter_reader t w) [(ch_bang, [99])] [Sym 99]"
    using letter_reads [of 99] by simp
  moreover have "\<forall>t \<in> set ([97] # [98] # map snd [(ch_bang, [99])]). plain t" by (simp add: plain_def ss_chars)
  moreover have "\<forall>c \<in> set (ch_dot # map fst [(ch_bang, [99::int])]). c = ch_dot \<or> c = ch_bang" by simp
  moreover have "name_of [97] ((ch_dot, [98]) # [(ch_bang, [99])]) = [97, 46, 98, 33, 99]" by (simp add: ss_chars)
  moreover have "Sym 500 \<noteq> ARC_BUILTIN S_RXMATCH" by (simp add: ARC_BUILTIN_def builtin_syms_def)
  ultimately show ?thesis
    using ssexpand_access [OF letter_reads [of 97] letter_reads [of 98], of "[(ch_bang, [99])]" "[Sym 99]" ch_dot
        "\<lambda>_. Some [97, 46, 98, 33, 99]" "Sym 500" empty_heap] by (simp add: htype_def)
qed

text \<open>A name that has no part at all makes the expander read the first cell of nil.\<close>

lemma lone_colon_crashes:
  "expand_ssyntax rdr [ch_colon] h = fail UB" "expand_ssyntax rdr [ch_and] h = fail UB" "expand_ssyntax rdr [ch_dot] h = fail UB"
  by (simp_all add: expand_ssyntax_def has_char_def ss_chars expand_compose_def compose_part_def read_elt_def
      finish_list_def expand_and_def and_part_def expand_sexpr_def)

end
