(* ===== verification/Compiler.thy ===== *)
theory Compiler
  imports VM Codegen Ssyntax
begin

text \<open>
  The compiler, \<open>src/src/compiler.c\<close>: from an expression in the heap to the code of
  \<open>src/src/codegen.c\<close>. Each C function is one definition; a function that compiles
  subexpressions takes the compiler as its argument \<open>cp\<close>, and \<open>arc_compile\<close> closes the
  recursion. Loops over lists and the nesting of expressions take fuel, as lists may be cyclic
  and macros may expand for ever: \<open>None\<close> is running out of it. A write outside a vector of the code
  generator is the fault \<open>Overrun\<close>. \<open>car\<close>, \<open>cdr\<close>, \<open>cadr\<close> and \<open>cddr\<close> are the macros that read a cell
  unchecked.

  The compilation context is passed along as the code passes the vector it is kept in. The
  compile-time environment is the list of the tables from names to indexes, one for each
  frame, innermost first; a table is only used through insertion and lookup and is a map here.
  Local variables of the C functions that live in the environment of the thread are ordinary
  variables.
\<close>

subsection \<open>State\<close>

text \<open>\<open>LNDATA\<close> is the table of line numbers in the continuation mark, keyed by words.\<close>

record cst =
  CHP :: heap
  CGENV :: "val \<Rightarrow> val option"
  LNDATA :: "(arcval \<Rightarrow> val option) option"
  UNIQ :: nat

text \<open>
  What the compiler calls: the comparison of objects (in the parameters of the machine), the names
  of symbols, the reader for special syntax, the application of a macro to the list of its
  arguments, and the symbol \<open>g\<close> followed by a number.
\<close>

record cprims =
  c_vm :: prims
  c_sym2str :: "val \<Rightarrow> int list option"
  c_read :: reader
  c_macro :: "val \<Rightarrow> val \<Rightarrow> cst \<Rightarrow> (val \<times> cst) run"
  c_gensym :: "nat \<Rightarrow> val"

type_synonym cframe = "val \<Rightarrow> val option"
type_synonym cenv = "cframe list"
type_synonym compiler = "val \<Rightarrow> cctx \<Rightarrow> cenv \<Rightarrow> bool \<Rightarrow> cst \<Rightarrow> (cctx \<times> cst) run"

text \<open>Reading the heap of the state, and allocating a cons.\<close>

definition ccar :: "val \<Rightarrow> cst \<Rightarrow> val run" where
  "ccar v s = Some (car (CHP s) v)"

definition ccdr :: "val \<Rightarrow> cst \<Rightarrow> val run" where
  "ccdr v s = Some (cdr (CHP s) v)"

definition ccadr :: "val \<Rightarrow> cst \<Rightarrow> val run" where
  "ccadr v s = rthen (ccdr v s) (\<lambda>d. ccar d s)"

definition ccddr :: "val \<Rightarrow> cst \<Rightarrow> val run" where
  "ccddr v s = rthen (ccdr v s) (\<lambda>d. ccdr d s)"

definition ccons :: "val \<Rightarrow> val \<Rightarrow> cst \<Rightarrow> val \<times> cst" where
  "ccons x y s = (let (v, h) = cons (CHP s) x y in (v, s \<lparr> CHP := h \<rparr>))"

definition CONS_P :: "val \<Rightarrow> cst \<Rightarrow> bool" where
  "CONS_P v s \<longleftrightarrow> htype (CHP s) v = T_CONS"

definition SYM_P :: "val \<Rightarrow> bool" where
  "SYM_P v \<longleftrightarrow> (case v of Sym _ \<Rightarrow> True | _ \<Rightarrow> False)"

text \<open>
  The result of a store into the vectors of the context, and that of what the compiler calls: a fault
  there is none of its own vectors.
\<close>

definition stored :: "'a option \<Rightarrow> 'a run" where
  "stored r = (case r of None \<Rightarrow> fail Overrun | Some a \<Rightarrow> ret a)"

definition from_callee :: "'a run \<Rightarrow> 'a run" where
  "from_callee r =
     (case r of None \<Rightarrow> None | Some (Inl e) \<Rightarrow> fail (if e = Overrun then UB else e) | Some (Inr a) \<Rightarrow> ret a)"

subsection \<open>Line numbers\<close>

text \<open>\<open>__arc_visitkey\<close> of \<open>util.c\<close>: the key of a cell is the hash of its address.\<close>

definition visitkey :: "val \<Rightarrow> arcval" where
  "visitkey v = INT2FIX (arc_hash_final (arc_hash_update (arc_hash_init 0) (enc v)) 1)"

definition get_lineno2 :: "(arcval \<Rightarrow> val option) \<Rightarrow> val" where
  "get_lineno2 t = (case t (INT2FIX (- 3)) of None \<Rightarrow> Fix 1 | Some v \<Rightarrow> if v = NIL \<or> v = UNBOUND then Fix 1 else v)"

definition get_file :: "(arcval \<Rightarrow> val option) \<Rightarrow> val" where
  "get_file t = (case t (INT2FIX (- 2)) of None \<Rightarrow> NIL | Some v \<Rightarrow> if v = UNBOUND then NIL else v)"

definition get_fileline :: "(arcval \<Rightarrow> val option) \<Rightarrow> val \<Rightarrow> cst \<Rightarrow> val \<times> cst" where
  "get_fileline t obj s =
     (case (if CONS_P obj s then t (visitkey obj) else None) of
        Some newln \<Rightarrow>
          if newln = UNBOUND then ccons (get_file t) (get_lineno2 t) s
          else let t = t(INT2FIX (- 3) \<mapsto> newln) in ccons (get_file t) newln (s \<lparr> LNDATA := Some t \<rparr>)
      | None \<Rightarrow> ccons (get_file t) (get_lineno2 t) s)"

definition get_lineno :: "val \<Rightarrow> cst \<Rightarrow> val \<times> cst" where
  "get_lineno obj s = (case LNDATA s of None \<Rightarrow> (UNBOUND, s) | Some t \<Rightarrow> get_fileline t obj s)"

subsection \<open>Emitting\<close>

text \<open>
  \<open>arc_emit(c, ctx, inst, args, get_lineno(c, obj))\<close>, by the number of operands; \<open>None\<close> if the
  insertion into the line table does not return.
\<close>

definition emit :: "vminst \<Rightarrow> val list \<Rightarrow> val \<Rightarrow> cctx \<Rightarrow> cst \<Rightarrow> (cctx \<times> cst) run" where
  "emit i args obj ctx s =
     (let (fl, s) = get_lineno obj s in
      if add_lninfo ctx fl = None then None
      else rthen
        (case args of
           [] \<Rightarrow> stored (arc_emit ctx (opcode i) fl)
         | [a] \<Rightarrow> stored (arc_emit1 ctx (opcode i) a fl)
         | [a, b] \<Rightarrow> stored (arc_emit2 ctx (opcode i) a b fl)
         | [a, b, d] \<Rightarrow> stored (arc_emit3 ctx (opcode i) a b d fl)
         | _ \<Rightarrow> None)
        (\<lambda>ctx. ret (ctx, s)))"

text \<open>\<open>FIX2INT(CCTX_VCPTR(ctx))\<close>, and patching a jump to come here.\<close>

definition here :: "cctx \<Rightarrow> nat" where
  "here ctx = fixnat (VCPTR ctx)"

definition jump_here :: "nat \<Rightarrow> cctx \<Rightarrow> cctx run" where
  "jump_here j ctx = stored (arc_jmpoffset ctx j (here ctx))"

text \<open>\<open>SVINDEX(CCTX_VCODE(ctx), i, v)\<close>.\<close>

definition patch :: "nat \<Rightarrow> val \<Rightarrow> cctx \<Rightarrow> cctx run" where
  "patch i v ctx =
     stored (Option.bind (VCODE ctx) (\<lambda>vc. map_option (\<lambda>vc. ctx \<lparr> VCODE := Some vc \<rparr>) (upd_opt vc i v)))"

definition compile_continuation :: "cctx \<Rightarrow> bool \<Rightarrow> cst \<Rightarrow> (cctx \<times> cst) run" where
  "compile_continuation ctx cont s = (if cont then emit iret [] NIL ctx s else ret (ctx, s))"

subsection \<open>Literals and variables\<close>

text \<open>The loop runs over the whole vector, with its unused slots.\<close>

fun find_lit :: "prims \<Rightarrow> heap \<Rightarrow> val \<Rightarrow> val list \<Rightarrow> nat \<Rightarrow> nat option" where
  "find_lit P h lit [] i = None"
| "find_lit P h lit (l # ls) i = (if arc_is2 P h l lit \<noteq> NIL then Some i else find_lit P h lit ls (i + 1))"

definition find_literal :: "cprims \<Rightarrow> val \<Rightarrow> cctx \<Rightarrow> cst \<Rightarrow> (nat \<times> cctx) run" where
  "find_literal Q lit ctx s =
     (case find_lit (c_vm Q) (CHP s) lit (case LITS ctx of None \<Rightarrow> [] | Some v \<Rightarrow> v) 0 of
        Some i \<Rightarrow> ret (i, ctx)
      | None \<Rightarrow> stored (arc_literal ctx lit))"

definition emit_lit :: "cprims \<Rightarrow> vminst \<Rightarrow> val \<Rightarrow> val \<Rightarrow> cctx \<Rightarrow> cst \<Rightarrow> (cctx \<times> cst) run" where
  "emit_lit Q i lit obj ctx s = rthen (find_literal Q lit ctx s) (\<lambda>(n, ctx). emit i [Fix (int n)] obj ctx s)"

definition compile_literal :: "cprims \<Rightarrow> val \<Rightarrow> cctx \<Rightarrow> bool \<Rightarrow> cst \<Rightarrow> (cctx \<times> cst) run" where
  "compile_literal Q lit ctx cont s =
     rthen
       (if lit = ARC_BUILTIN S_NIL \<or> lit = NIL then emit inil [] NIL ctx s
        else if lit = ARC_BUILTIN S_T \<or> lit = CTRUE then emit itrue [] NIL ctx s
        else (case lit of Fix _ \<Rightarrow> emit ildi [lit] NIL ctx s | _ \<Rightarrow> emit_lit Q ildl lit NIL ctx s))
       (\<lambda>(ctx, s). compile_continuation ctx cont s)"

text \<open>\<open>*idx = FIX2INT(vidx)\<close>, whatever the table holds; \<open>int\<close> has 32 bits.\<close>

definition raw_idx :: "val \<Rightarrow> int" where
  "raw_idx v = sint (ucast (FIX2INT (enc v)) :: 32 word)"

fun find_var :: "val \<Rightarrow> cenv \<Rightarrow> nat \<Rightarrow> (nat \<times> int) option" where
  "find_var var [] fnum = None"
| "find_var var (f # env) fnum =
     (case f var of
        Some vidx \<Rightarrow> if vidx = UNBOUND then find_var var env (fnum + 1) else Some (fnum, raw_idx vidx)
      | None \<Rightarrow> find_var var env (fnum + 1))"

definition compile_ident :: "cprims \<Rightarrow> val \<Rightarrow> cctx \<Rightarrow> cenv \<Rightarrow> bool \<Rightarrow> cst \<Rightarrow> (cctx \<times> cst) run" where
  "compile_ident Q ident ctx env cont s =
     rthen
       (case find_var ident env 0 of
          Some (level, offset) \<Rightarrow>
            if level = 0 then emit ilde0 [Fix offset] NIL ctx s
            else emit ilde [Fix (int level), Fix offset] NIL ctx s
        | None \<Rightarrow> emit_lit Q ildg ident NIL ctx s)
       (\<lambda>(ctx, s). compile_continuation ctx cont s)"

subsection \<open>Macros\<close>

text \<open>
  \<open>ismacro\<close> compares the type of the value with the number of the type of symbols, so the loop
  does not follow a symbol that is the value of another. Its result is an \<open>int\<close>: the pointer
  to the macro loses its upper half.
\<close>

partial_function (option) macro_of :: "cst \<Rightarrow> val \<Rightarrow> val run" where
  "macro_of s op0 =
     (let op = (case CGENV s op0 of None \<Rightarrow> UNBOUND | Some v \<Rightarrow> v) in
      case arc_type_of (CHP s) op of
        Inl e \<Rightarrow> fail e
      | Inr ty \<Rightarrow>
          if enc ty = word_of_nat (type_code T_SYMBOL) then macro_of s op
          else ret (if ty = ARC_BUILTIN S_MAC then op else NIL))"

definition as_int :: "val \<Rightarrow> val res" where
  "as_int v = (let w = scast (ucast (enc v) :: 32 word) in if w = enc v then Inr v else if w = 0 then Inr NIL else Inl UB)"

definition ismacro :: "cst \<Rightarrow> val \<Rightarrow> val run" where
  "ismacro s op0 = rthen (macro_of s op0) (\<lambda>v. Some (as_int v))"

text \<open>\<open>AFCALL2(arc_rep(c, mac), args)\<close>.\<close>

definition apply_macro :: "cprims \<Rightarrow> val \<Rightarrow> val \<Rightarrow> cst \<Rightarrow> (val \<times> cst) run" where
  "apply_macro Q mac args s = rthen (Some (arc_rep (CHP s) mac)) (\<lambda>f. from_callee (c_macro Q f args s))"

fun macex :: "cprims \<Rightarrow> nat \<Rightarrow> val \<Rightarrow> bool \<Rightarrow> cst \<Rightarrow> (val \<times> cst) run" where
  "macex Q 0 e once s = None"
| "macex Q (Suc n) e once s =
     (if \<not> CONS_P e s then ret (e, s)
      else rthen (ccar e s) (\<lambda>op.
        if \<not> SYM_P op then ret (e, s)
        else rthen (ismacro s op) (\<lambda>mac.
          if mac = NIL then ret (e, s)
          else rthen (ccdr e s) (\<lambda>args. rthen (apply_macro Q mac args s) (\<lambda>(e, s).
            if once then macex Q n e once s else ret (e, s))))))"

text \<open>\<open>once\<close> is what makes the expansion go on to the end.\<close>

definition arc_macex :: "cprims \<Rightarrow> nat \<Rightarrow> val \<Rightarrow> cst \<Rightarrow> (val \<times> cst) run" where
  "arc_macex Q n e s = macex Q n e True s"

definition arc_macex1 :: "cprims \<Rightarrow> nat \<Rightarrow> val \<Rightarrow> cst \<Rightarrow> (val \<times> cst) run" where
  "arc_macex1 Q n e s = macex Q n e False s"

definition ssexpand :: "cprims \<Rightarrow> val \<Rightarrow> cst \<Rightarrow> (val \<times> cst) run" where
  "ssexpand Q v s =
     rthen (from_callee (arc_ssexpand (c_sym2str Q) (c_read Q) v (CHP s))) (\<lambda>(x, h). ret (x, s \<lparr> CHP := h \<rparr>))"

definition arc_uniq :: "cprims \<Rightarrow> cst \<Rightarrow> val \<times> cst" where
  "arc_uniq Q s = (c_gensym Q (UNIQ s), s \<lparr> UNIQ := UNIQ s + 1 \<rparr>)"

subsection \<open>Conditionals\<close>

fun compile_if :: "nat \<Rightarrow> compiler \<Rightarrow> compiler" where
  "compile_if 0 cp args ctx env cont s = None"
| "compile_if (Suc n) cp args ctx env cont s =
     (if args = NIL then rthen (emit inil [] args ctx s) (\<lambda>(ctx, s). compile_continuation ctx cont s)
      else rthen (ccdr args s) (\<lambda>d. rthen (ccar args s) (\<lambda>e.
        if d = NIL then cp e ctx env cont s
        else
          rthen (cp e ctx env False s) (\<lambda>(ctx, s). let jumpaddr = here ctx in
          rthen (emit ijf [Fix 0] args ctx s) (\<lambda>(ctx, s).
          rthen (ccadr args s) (\<lambda>e.
          rthen (cp e ctx env False s) (\<lambda>(ctx, s). let jumpaddr2 = here ctx in
          rthen (emit ijmp [Fix 0] args ctx s) (\<lambda>(ctx, s).
          rthen (jump_here jumpaddr ctx) (\<lambda>ctx.
          rthen (ccddr args s) (\<lambda>rest.
          rthen (compile_if n cp rest ctx env cont s) (\<lambda>(ctx, s).
          rthen (jump_here jumpaddr2 ctx) (\<lambda>ctx.
          compile_continuation ctx cont s))))))))))))"

subsection \<open>Functions\<close>

text \<open>The frame is the first of the environment.\<close>

fun add_env_name :: "val \<Rightarrow> val \<Rightarrow> cenv \<Rightarrow> cenv" where
  "add_env_name name idx (f # env) = f(name \<mapsto> idx, idx \<mapsto> name) # env"
| "add_env_name name idx [] = []"

text \<open>The name and the default of an optional argument.\<close>

definition opt_name :: "val \<Rightarrow> cst \<Rightarrow> val run" where
  "opt_name oarg s = ccadr oarg s"

definition opt_default :: "val \<Rightarrow> cst \<Rightarrow> val run" where
  "opt_default oarg s = rthen (ccddr oarg s) (\<lambda>d. if d = NIL then ret NIL else ccar d s)"

definition err :: "string \<Rightarrow> 'a run" where
  "err msg = fail (ArcErr msg)"

text \<open>
  Destructuring: code that takes the value register apart along the tree \<open>arg\<close> and stores the
  parts from index \<open>idx\<close> on. The result is the next free index.
\<close>

definition destructure_sym :: "val \<Rightarrow> cctx \<Rightarrow> cenv \<Rightarrow> int \<Rightarrow> cst \<Rightarrow> (int \<times> cctx \<times> cenv \<times> cst) run" where
  "destructure_sym arg ctx env idx s =
     (let jumpaddr = here ctx in
      rthen (emit ijbnd [Fix 0] arg ctx s) (\<lambda>(ctx, s).
      rthen (emit inil [] arg ctx s) (\<lambda>(ctx, s).
      rthen (jump_here jumpaddr ctx) (\<lambda>ctx.
      rthen (emit iste0 [Fix idx] arg ctx s) (\<lambda>(ctx, s).
      ret (idx + 1, ctx, add_env_name arg (Fix idx) env, s))))))"

definition destructure_opt ::
  "compiler \<Rightarrow> val \<Rightarrow> cctx \<Rightarrow> cenv \<Rightarrow> int \<Rightarrow> cst \<Rightarrow> (int \<times> cctx \<times> cenv \<times> cst) run" where
  "destructure_opt cp arg ctx env idx s =
     rthen (opt_name arg s) (\<lambda>name.
     if \<not> SYM_P name then err ''optional arg is not an identifier''
     else rthen (opt_default arg s) (\<lambda>oargdef. let jumpaddr = here ctx in
       rthen (emit ijbnd [Fix 0] arg ctx s) (\<lambda>(ctx, s).
       rthen (cp oargdef ctx env False s) (\<lambda>(ctx, s).
       rthen (jump_here jumpaddr ctx) (\<lambda>ctx.
       rthen (emit iste0 [Fix idx] arg ctx s) (\<lambda>(ctx, s).
       ret (idx + 1, ctx, add_env_name name (Fix idx) env, s)))))))"

definition is_opt_arg :: "val \<Rightarrow> cst \<Rightarrow> bool run" where
  "is_opt_arg arg s =
     rthen (ccar arg s) (\<lambda>x. if x \<noteq> ARC_BUILTIN S_O then ret False
       else rthen (ccdr arg s) (\<lambda>d. if d = NIL then ret False
         else rthen (ccar d s) (\<lambda>y. ret (y \<noteq> NIL))))"

fun destructure ::
  "nat \<Rightarrow> compiler \<Rightarrow> val \<Rightarrow> cctx \<Rightarrow> cenv \<Rightarrow> int \<Rightarrow> bool \<Rightarrow> cst \<Rightarrow> (int \<times> cctx \<times> cenv \<times> cst) run" where
  "destructure 0 cp arg ctx env idx optional s = None"
| "destructure (Suc n) cp arg ctx env idx optional s =
     (if SYM_P arg then destructure_sym arg ctx env idx s
      else if \<not> CONS_P arg s then err ''invalid fn arg''
      else rthen (if optional then is_opt_arg arg s else ret False) (\<lambda>opt.
        if opt then destructure_opt cp arg ctx env idx s
        else rthen (ccar arg s) (\<lambda>a. rthen (ccdr arg s) (\<lambda>d.
          if a \<noteq> NIL \<and> d \<noteq> NIL then
            rthen (emit ipush [] arg ctx s) (\<lambda>(ctx, s).
            rthen (emit idcar [] arg ctx s) (\<lambda>(ctx, s).
            rthen (destructure n cp a ctx env idx True s) (\<lambda>(idx, ctx, env, s).
            rthen (emit ipop [] arg ctx s) (\<lambda>(ctx, s).
            rthen (emit idcdr [] arg ctx s) (\<lambda>(ctx, s).
            destructure n cp d ctx env idx False s)))))
          else if a \<noteq> NIL \<and> d = NIL then
            rthen (emit idcar [] arg ctx s) (\<lambda>(ctx, s). destructure n cp a ctx env idx True s)
          else if a = NIL \<and> d \<noteq> NIL then
            rthen (emit idcdr [] arg ctx s) (\<lambda>(ctx, s). destructure n cp d ctx env idx False s)
          else ret (idx, ctx, env, s)))))"

text \<open>The local variables of \<open>compile_args\<close> during its loop over the arguments.\<close>

record argst =
  regargs :: int
  optargs :: int
  argidx :: int
  optargbegin :: bool
  dsb :: "(val \<times> int) list"

definition bump_reg :: "argst \<Rightarrow> argst" where
  "bump_reg st = st \<lparr> argidx := argidx st + 1, regargs := regargs st + 1 \<rparr>"

definition opt_arg :: "compiler \<Rightarrow> val \<Rightarrow> cctx \<Rightarrow> cenv \<Rightarrow> argst \<Rightarrow> cst \<Rightarrow> (cctx \<times> cenv \<times> argst \<times> cst) run" where
  "opt_arg cp oarg ctx env st s =
     (let st = st \<lparr> optargbegin := True \<rparr> in
      rthen (opt_name oarg s) (\<lambda>name.
      if \<not> SYM_P name then err ''optional arg is not an identifier''
      else rthen (opt_default oarg s) (\<lambda>oargdef.
        rthen (emit ilde0 [Fix (argidx st)] oarg ctx s) (\<lambda>(ctx, s). let jumpaddr = here ctx in
        rthen (emit ijbnd [Fix 0] oarg ctx s) (\<lambda>(ctx, s).
        rthen (cp oargdef ctx env False s) (\<lambda>(ctx, s).
        rthen (emit iste0 [Fix (argidx st)] oarg ctx s) (\<lambda>(ctx, s).
        rthen (jump_here jumpaddr ctx) (\<lambda>ctx.
        ret (ctx, add_env_name name (Fix (argidx st)) env,
             st \<lparr> argidx := argidx st + 1, optargs := optargs st + 1 \<rparr>, s)))))))))"

text \<open>One argument, the car \<open>a\<close> of \<open>args\<close>.\<close>

definition one_arg :: "compiler \<Rightarrow> val \<Rightarrow> cctx \<Rightarrow> cenv \<Rightarrow> argst \<Rightarrow> cst \<Rightarrow> (cctx \<times> cenv \<times> argst \<times> cst) run" where
  "one_arg cp a ctx env st s =
     (if SYM_P a then
        if optargbegin st then err ''non-optional arg found after optional args''
        else ret (ctx, add_env_name a (Fix (argidx st)) env, bump_reg st, s)
      else if CONS_P a s then
        rthen (ccar a s) (\<lambda>x.
          if x = ARC_BUILTIN S_O then opt_arg cp a ctx env st s
          else ret (ctx, env, bump_reg (st \<lparr> dsb := (a, argidx st) # dsb st \<rparr>), s))
      else if a = NIL then ret (ctx, env, bump_reg st, s)
      else err ''invalid fn arg'')"

text \<open>The loop; \<open>envptr\<close> is the place of the entry instruction.\<close>

fun args_loop :: "nat \<Rightarrow> compiler \<Rightarrow> nat \<Rightarrow> val \<Rightarrow> cctx \<Rightarrow> cenv \<Rightarrow> argst \<Rightarrow> cst \<Rightarrow> (val \<times> cctx \<times> cenv \<times> argst \<times> cst) run" where
  "args_loop 0 cp envptr args ctx env st s = None"
| "args_loop (Suc n) cp envptr args ctx env st s =
     rthen (ccar args s) (\<lambda>a.
     rthen (one_arg cp a ctx env st s) (\<lambda>(ctx, env, st, s).
     rthen (ccdr args s) (\<lambda>d.
       if SYM_P d then
         rthen (patch envptr (Fix (opcode ienvr)) ctx) (\<lambda>ctx.
         ret (args, ctx, add_env_name d (Fix (argidx st)) env, st \<lparr> argidx := argidx st + 1 \<rparr>, s))
       else if d = NIL then ret (args, ctx, env, st, s)
       else args_loop n cp envptr d ctx env st s)))"

fun dsb_loop :: "nat \<Rightarrow> compiler \<Rightarrow> (val \<times> int) list \<Rightarrow> val \<Rightarrow> cctx \<Rightarrow> cenv \<Rightarrow> int \<Rightarrow> cst \<Rightarrow> (int \<times> cctx \<times> cenv \<times> cst) run" where
  "dsb_loop n cp [] args ctx env idx s = ret (idx, ctx, env, s)"
| "dsb_loop n cp ((pat, i) # rest) args ctx env idx s =
     rthen (emit ilde0 [Fix i] args ctx s) (\<lambda>(ctx, s).
     rthen (destructure n cp pat ctx env idx False s) (\<lambda>(idx, ctx, env, s).
     dsb_loop n cp rest args ctx env idx s))"

definition compile_args :: "nat \<Rightarrow> compiler \<Rightarrow> val \<Rightarrow> cctx \<Rightarrow> cenv \<Rightarrow> cst \<Rightarrow> (cenv \<times> cctx \<times> cst) run" where
  "compile_args n cp args ctx env s =
     (if args = NIL then ret (env, ctx, s)
      else if SYM_P args then
        rthen (emit ienvr [Fix 0, Fix 0, Fix 0] args ctx s) (\<lambda>(ctx, s).
        ret (add_env_name args (Fix 0) (Map.empty # env), ctx, s))
      else if \<not> CONS_P args s then err ''invalid fn arg''
      else
        let env = Map.empty # env; envptr = here ctx;
            st = \<lparr> regargs = 0, optargs = 0, argidx = 0, optargbegin = False, dsb = [] \<rparr> in
        rthen (emit ienv [Fix 0, Fix 0, Fix 0] args ctx s) (\<lambda>(ctx, s).
        rthen (args_loop n cp envptr args ctx env st s) (\<lambda>(args, ctx, env, st, s). let oldidx = argidx st in
        rthen (dsb_loop n cp (dsb st) args ctx env oldidx s) (\<lambda>(newidx, ctx, env, s).
        rthen (patch (envptr + 1) (Fix (regargs st)) ctx) (\<lambda>ctx.
        rthen (patch (envptr + 2) (Fix (newidx - oldidx)) ctx) (\<lambda>ctx.
        rthen (patch (envptr + 3) (Fix (optargs st)) ctx) (\<lambda>ctx.
        ret (env, ctx, s))))))))"

text \<open>The body; the flag says that it has no statement.\<close>

fun compile_body :: "nat \<Rightarrow> compiler \<Rightarrow> val \<Rightarrow> cctx \<Rightarrow> cenv \<Rightarrow> cst \<Rightarrow> (cctx \<times> cst) run" where
  "compile_body 0 cp body nctx nenv s = None"
| "compile_body (Suc n) cp body nctx nenv s =
     (if body = NIL then ret (nctx, s)
      else rthen (ccar body s) (\<lambda>e. rthen (ccdr body s) (\<lambda>d.
        rthen (cp e nctx nenv (d = NIL) s) (\<lambda>(nctx, s). compile_body n cp d nctx nenv s))))"

text \<open>
  The code object in the heap: the vector of the code words, the slot of the line table (which is
  not a heap object here and stays nil) and the literals.
\<close>

definition code_to_heap :: "codeobj \<Rightarrow> cst \<Rightarrow> val \<times> cst" where
  "code_to_heap f s =
     (let (w, h) = halloc (CHP s) (OBlk T_VECTOR (CODE_CODE f));
          (a, h) = halloc h (OBlk T_CODE (Ref w # NIL # CODE_LITERALS f)) in
      (Ref a, s \<lparr> CHP := h \<rparr>))"

definition compile_fn :: "cprims \<Rightarrow> nat \<Rightarrow> compiler \<Rightarrow> compiler" where
  "compile_fn Q n cp expr ctx env cont s =
     rthen (ccar expr s) (\<lambda>args. rthen (ccdr expr s) (\<lambda>body.
     let nctx = arc_mkcctx \<lparr> SRC := SRC ctx \<rparr> in
     rthen (compile_args n cp args nctx env s) (\<lambda>(nenv, nctx, s).
     rthen (compile_body n cp body nctx nenv s) (\<lambda>(nctx, s).
     rthen (if body = NIL then
              rthen (emit inil [] body nctx s) (\<lambda>(nctx, s). emit iret [] body nctx s)
            else ret (nctx, s)) (\<lambda>(nctx, s).
     rthen (stored (arc_cctx2code nctx)) (\<lambda>f.
     let (newcode, s) = code_to_heap f s; ctx = ctx \<lparr> SRC := SRC nctx \<rparr> in
     rthen (emit_lit Q ildl newcode expr ctx s) (\<lambda>(ctx, s).
     rthen (emit icls [] expr ctx s) (\<lambda>(ctx, s).
     compile_continuation ctx cont s))))))))"

definition compile_quote :: "cprims \<Rightarrow> compiler" where
  "compile_quote Q expr ctx env cont s = rthen (ccar expr s) (\<lambda>x. compile_literal Q x ctx cont s)"

subsection \<open>Assignment\<close>

definition assign_one :: "cprims \<Rightarrow> compiler \<Rightarrow> val \<Rightarrow> val \<Rightarrow> val \<Rightarrow> cctx \<Rightarrow> cenv \<Rightarrow> cst \<Rightarrow> (cctx \<times> cst) run" where
  "assign_one Q cp a v expr ctx env s =
     (if a = NIL then err ''can't rebind nil''
      else if a = ARC_BUILTIN S_T then err ''Can't rebind t''
      else rthen (cp v ctx env False s) (\<lambda>(ctx, s).
        case find_var a env 0 of
          Some (frameno, i) \<Rightarrow>
            if frameno = 0 then emit iste0 [Fix i] expr ctx s
            else emit iste [Fix (int frameno), Fix i] expr ctx s
        | None \<Rightarrow> emit_lit Q istg a expr ctx s))"

fun compile_assign :: "cprims \<Rightarrow> nat \<Rightarrow> compiler \<Rightarrow> compiler" where
  "compile_assign Q 0 cp expr ctx env cont s = None"
| "compile_assign Q (Suc n) cp expr ctx env cont s =
     (if expr = NIL then compile_continuation ctx cont s
      else rthen (ccar expr s) (\<lambda>x.
        rthen (macex Q n x True s) (\<lambda>(a, s).
        rthen (ccadr expr s) (\<lambda>v.
        rthen (assign_one Q cp a v expr ctx env s) (\<lambda>(ctx, s).
        rthen (ccddr expr s) (\<lambda>rest. compile_assign Q n cp rest ctx env cont s))))))"

subsection \<open>Inline functions\<close>

fun inline_args :: "nat \<Rightarrow> compiler \<Rightarrow> val \<Rightarrow> int \<Rightarrow> cctx \<Rightarrow> cenv \<Rightarrow> cst \<Rightarrow> (int \<times> cctx \<times> cst) run" where
  "inline_args 0 cp expr count ctx env s = None"
| "inline_args (Suc n) cp expr count ctx env s =
     (if expr = NIL then ret (count, ctx, s)
      else rthen (ccar expr s) (\<lambda>e. rthen (cp e ctx env False s) (\<lambda>(ctx, s).
        rthen (ccdr expr s) (\<lambda>d.
        rthen (if d \<noteq> NIL then emit ipush [] expr ctx s else ret (ctx, s)) (\<lambda>(ctx, s).
        inline_args n cp d (count + 1) ctx env s)))))"

definition inline_fixed :: "vminst \<Rightarrow> int \<Rightarrow> nat \<Rightarrow> compiler \<Rightarrow> compiler" where
  "inline_fixed inst nargs n cp expr ctx env cont s =
     rthen (ccdr expr s) (\<lambda>args.
     rthen (inline_args n cp args 0 ctx env s) (\<lambda>(count, ctx, s).
     if count \<noteq> nargs then err ''inline procedure expects %d arguments (%d passed)''
     else rthen (emit inst [] NIL ctx s) (\<lambda>(ctx, s). compile_continuation ctx cont s)))"

fun inlinen_loop :: "nat \<Rightarrow> compiler \<Rightarrow> vminst \<Rightarrow> val \<Rightarrow> cctx \<Rightarrow> cenv \<Rightarrow> cst \<Rightarrow> (cctx \<times> cst) run" where
  "inlinen_loop 0 cp inst expr ctx env s = None"
| "inlinen_loop (Suc n) cp inst expr ctx env s =
     (if expr = NIL then ret (ctx, s)
      else rthen (emit ipush [] expr ctx s) (\<lambda>(ctx, s).
        rthen (ccar expr s) (\<lambda>e. rthen (cp e ctx env False s) (\<lambda>(ctx, s).
        rthen (emit inst [] expr ctx s) (\<lambda>(ctx, s).
        rthen (ccdr expr s) (\<lambda>d. inlinen_loop n cp inst d ctx env s))))))"

definition compile_inlinen :: "vminst \<Rightarrow> nat \<Rightarrow> compiler \<Rightarrow> val \<Rightarrow> cctx \<Rightarrow> cenv \<Rightarrow> bool \<Rightarrow> val \<Rightarrow> cst \<Rightarrow> (cctx \<times> cst) run" where
  "compile_inlinen inst n cp expr ctx env cont base s =
     rthen (cp base ctx env False s) (\<lambda>(ctx, s).
     rthen (ccdr expr s) (\<lambda>d.
     rthen (inlinen_loop n cp inst d ctx env s) (\<lambda>(ctx, s).
     compile_continuation ctx cont s)))"

definition compile_inlinen2 :: "vminst \<Rightarrow> nat \<Rightarrow> compiler \<Rightarrow> val \<Rightarrow> cctx \<Rightarrow> cenv \<Rightarrow> bool \<Rightarrow> val \<Rightarrow> cst \<Rightarrow> (cctx \<times> cst) run" where
  "compile_inlinen2 inst n cp expr ctx env cont base s =
     rthen (ccdr expr s) (\<lambda>xexpr.
     rthen (map_option Inr (arc_list_length (CHP s) xexpr)) (\<lambda>xelen.
       if xelen = 0 then err ''operator requires at least one argument''
       else if xelen = 1 then compile_inlinen inst n cp expr ctx env cont base s
       else rthen (ccar expr s) (\<lambda>op. rthen (ccdr xexpr s) (\<lambda>d. rthen (ccar xexpr s) (\<lambda>first.
         let (e, s) = ccons op d s in compile_inlinen inst n cp e ctx env cont first s)))))"

definition inline_plus :: "nat \<Rightarrow> compiler \<Rightarrow> compiler" where
  "inline_plus n cp expr ctx env cont s =
     rthen (ccdr expr s) (\<lambda>xexpr.
     rthen (map_option Inr (arc_list_length (CHP s) xexpr)) (\<lambda>xelen.
       if xelen = 0 then cp (Fix 0) ctx env cont s
       else if xelen = 1 then rthen (ccar xexpr s) (\<lambda>e. cp e ctx env cont s)
       else compile_inlinen2 iadd n cp expr ctx env cont (Fix 0) s))"

definition inline_times :: "nat \<Rightarrow> compiler \<Rightarrow> compiler" where
  "inline_times n cp expr ctx env cont s = compile_inlinen imul n cp expr ctx env cont (Fix 1) s"

definition inline_minus :: "nat \<Rightarrow> compiler \<Rightarrow> compiler" where
  "inline_minus n cp expr ctx env cont s = compile_inlinen2 isub n cp expr ctx env cont (Fix 0) s"

definition inline_div :: "nat \<Rightarrow> compiler \<Rightarrow> compiler" where
  "inline_div n cp expr ctx env cont s = compile_inlinen2 idiv n cp expr ctx env cont (Fix 1) s"

definition inline_func :: "val \<Rightarrow> (nat \<Rightarrow> compiler \<Rightarrow> compiler) option" where
  "inline_func ident =
     (if ident = ARC_BUILTIN S_CONS then Some (inline_fixed icons 2)
      else if ident = ARC_BUILTIN S_CAR then Some (inline_fixed icar 1)
      else if ident = ARC_BUILTIN S_CDR then Some (inline_fixed icdr 1)
      else if ident = ARC_BUILTIN S_PLUS then Some inline_plus
      else if ident = ARC_BUILTIN S_TIMES then Some inline_times
      else if ident = ARC_BUILTIN S_MINUS then Some inline_minus
      else if ident = ARC_BUILTIN S_DIV then Some inline_div
      else None)"

definition spform :: "cprims \<Rightarrow> val \<Rightarrow> (nat \<Rightarrow> compiler \<Rightarrow> compiler) option" where
  "spform Q ident =
     (if ident = ARC_BUILTIN S_IF then Some compile_if
      else if ident = ARC_BUILTIN S_FN then Some (compile_fn Q)
      else if ident = ARC_BUILTIN S_QUOTE then Some (\<lambda>n cp. compile_quote Q)
      else if ident = ARC_BUILTIN S_ASSIGN then Some (compile_assign Q)
      else None)"

subsection \<open>Functional positions\<close>

text \<open>\<open>(f (g ... . final))\<close> from \<open>(f g ...)\<close>.\<close>

fun fold_compose :: "nat \<Rightarrow> val \<Rightarrow> val \<Rightarrow> cst \<Rightarrow> (val \<times> cst) run" where
  "fold_compose 0 expr final s = None"
| "fold_compose (Suc n) expr final s =
     rthen (ccdr expr s) (\<lambda>d. rthen (ccar expr s) (\<lambda>f.
       if d = NIL then ret (ccons f final s)
       else rthen (fold_compose n d final s) (\<lambda>(r, s). let (r, s) = ccons r NIL s in ret (ccons f r s))))"

definition compile_compose :: "nat \<Rightarrow> compiler \<Rightarrow> compiler" where
  "compile_compose n cp expr ctx env cont s =
     rthen (ccar expr s) (\<lambda>c. rthen (ccdr c s) (\<lambda>composer. rthen (ccdr expr s) (\<lambda>cargs.
     rthen (fold_compose n composer cargs s) (\<lambda>(e, s). cp e ctx env cont s))))"

definition compile_complement :: "compiler \<Rightarrow> compiler" where
  "compile_complement cp expr ctx env cont s =
     rthen (ccar expr s) (\<lambda>c. rthen (ccdr c s) (\<lambda>complemented. rthen (ccdr expr s) (\<lambda>cargs.
     rthen (ccdr complemented s) (\<lambda>d.
       if d \<noteq> NIL then err ''complement: wrong number of arguments (1 required)''
       else rthen (ccar complemented s) (\<lambda>f.
         let (call, s) = ccons f cargs s; (r, s) = ccons call NIL s; (r, s) = ccons (ARC_BUILTIN S_NO) r s in
         cp r ctx env cont s)))))"

fun gensyms :: "cprims \<Rightarrow> nat \<Rightarrow> val \<Rightarrow> val \<Rightarrow> cst \<Rightarrow> (val \<times> cst) run" where
  "gensyms Q 0 args uniqs s = None"
| "gensyms Q (Suc n) args uniqs s =
     (if args = NIL then ret (uniqs, s)
      else let (u, s) = arc_uniq Q s; (uniqs, s) = ccons u uniqs s in
        rthen (ccdr args s) (\<lambda>d. gensyms Q n d uniqs s))"

fun andf_body :: "nat \<Rightarrow> val \<Rightarrow> val \<Rightarrow> val \<Rightarrow> cst \<Rightarrow> (val \<times> cst) run" where
  "andf_body 0 fns uniqs body s = None"
| "andf_body (Suc n) fns uniqs body s =
     (if fns = NIL then ret (body, s)
      else rthen (ccar fns s) (\<lambda>f. let (call, s) = ccons f uniqs s; (body, s) = ccons call body s in
        rthen (ccdr fns s) (\<lambda>d. andf_body n d uniqs body s)))"

definition compile_andf :: "cprims \<Rightarrow> nat \<Rightarrow> compiler \<Rightarrow> compiler" where
  "compile_andf Q n cp expr ctx env cont s =
     rthen (ccdr expr s) (\<lambda>andargs.
     rthen (gensyms Q n andargs NIL s) (\<lambda>(uniqs, s).
     rthen (ccar expr s) (\<lambda>c. rthen (ccdr c s) (\<lambda>fns.
     rthen (andf_body n fns uniqs NIL s) (\<lambda>(body, s).
     rthen (arc_list_reverse (CHP s) body) (\<lambda>(body, h). let s = s \<lparr> CHP := h \<rparr>;
       (body, s) = ccons (ARC_BUILTIN S_AND) body s; (body, s) = ccons body NIL s;
       (body, s) = ccons uniqs body s; (body, s) = ccons (ARC_BUILTIN S_FN) body s;
       (body, s) = ccons body andargs s in
     cp body ctx env cont s))))))"

subsection \<open>Application\<close>

fun compile_operands :: "nat \<Rightarrow> compiler \<Rightarrow> val \<Rightarrow> val \<Rightarrow> int \<Rightarrow> cctx \<Rightarrow> cenv \<Rightarrow> cst \<Rightarrow> (int \<times> cctx \<times> cst) run" where
  "compile_operands 0 cp expr nahd nargs ctx env s = None"
| "compile_operands (Suc n) cp expr nahd nargs ctx env s =
     (if nahd = NIL then ret (nargs, ctx, s)
      else rthen (ccar nahd s) (\<lambda>e. rthen (cp e ctx env False s) (\<lambda>(ctx, s).
        rthen (emit ipush [] expr ctx s) (\<lambda>(ctx, s).
        rthen (ccdr nahd s) (\<lambda>d. compile_operands n cp expr d (nargs + 1) ctx env s)))))"

text \<open>The placeholder of the address of the continuation is \<open>FIX2INT(0)\<close>, the word of nil.\<close>

definition compile_call :: "nat \<Rightarrow> compiler \<Rightarrow> val \<Rightarrow> val \<Rightarrow> compiler" where
  "compile_call n cp fname args expr ctx env cont s =
     (let contaddr = here ctx in
      rthen (if \<not> cont then emit icont [NIL] expr ctx s else ret (ctx, s)) (\<lambda>(ctx, s).
      rthen (compile_operands n cp expr args 0 ctx env s) (\<lambda>(nargs, ctx, s).
      rthen (cp fname ctx env False s) (\<lambda>(ctx, s).
      rthen (if cont then emit imenv [Fix nargs] expr ctx s else ret (ctx, s)) (\<lambda>(ctx, s).
      rthen (emit iapply [Fix nargs] expr ctx s) (\<lambda>(ctx, s).
      rthen (if \<not> cont then jump_here contaddr ctx else ret ctx) (\<lambda>ctx.
      ret (ctx, s))))))))"

definition compile_apply :: "cprims \<Rightarrow> nat \<Rightarrow> compiler \<Rightarrow> compiler" where
  "compile_apply Q n cp expr ctx env cont s =
     rthen (ccar expr s) (\<lambda>fname. rthen (ccdr expr s) (\<lambda>args.
     rthen (if SYM_P fname then ismacro s fname else ret NIL) (\<lambda>mac.
       if mac \<noteq> NIL then rthen (apply_macro Q mac args s) (\<lambda>(e, s). cp e ctx env cont s)
       else compile_call n cp fname args expr ctx env cont s)))"

subsection \<open>Expressions\<close>

text \<open>The elements of a list with the special syntax of its symbols expanded, reversed.\<close>

fun expand_elems :: "cprims \<Rightarrow> nat \<Rightarrow> val \<Rightarrow> val \<Rightarrow> cst \<Rightarrow> (val \<times> cst) run" where
  "expand_elems Q 0 xs expr s = None"
| "expand_elems Q (Suc n) xs expr s =
     (if xs = NIL then ret (expr, s)
      else rthen (ccar xs s) (\<lambda>x.
        rthen (if SYM_P x then ssexpand Q x s else ret (NIL, s)) (\<lambda>(result, s).
        let (expr, s) = ccons (if result = NIL then x else result) expr s in
        rthen (ccdr xs s) (\<lambda>d. expand_elems Q n d expr s))))"

definition head_is :: "bsym \<Rightarrow> val \<Rightarrow> cst \<Rightarrow> bool run" where
  "head_is b v s = (if CONS_P v s then rthen (ccar v s) (\<lambda>x. ret (x = ARC_BUILTIN b)) else ret False)"

definition compile_form :: "cprims \<Rightarrow> nat \<Rightarrow> compiler \<Rightarrow> compiler" where
  "compile_form Q n cp expr ctx env cont s =
     rthen (ccar expr s) (\<lambda>f.
       case inline_func f of
         Some fn \<Rightarrow> fn n cp expr ctx env cont s
       | None \<Rightarrow>
           rthen (head_is S_COMPOSE f s) (\<lambda>b. if b then compile_compose n cp expr ctx env cont s else
           rthen (head_is S_COMPLEMENT f s) (\<lambda>b. if b then compile_complement cp expr ctx env cont s else
           rthen (head_is S_ANDF f s) (\<lambda>b. if b then compile_andf Q n cp expr ctx env cont s else
           compile_apply Q n cp expr ctx env cont s))))"

definition compile_list :: "cprims \<Rightarrow> nat \<Rightarrow> compiler \<Rightarrow> compiler" where
  "compile_list Q n cp nexpr ctx env cont s =
     rthen (ccar nexpr s) (\<lambda>f.
       case spform Q f of
         Some fn \<Rightarrow> rthen (ccdr nexpr s) (\<lambda>d. fn n cp d ctx env cont s)
       | None \<Rightarrow>
           rthen (expand_elems Q n nexpr NIL s) (\<lambda>(expr, s).
           rthen (arc_list_reverse (CHP s) expr) (\<lambda>(expr, h).
           compile_form Q n cp expr ctx env cont (s \<lparr> CHP := h \<rparr>))))"

definition compile_expr :: "cprims \<Rightarrow> nat \<Rightarrow> compiler \<Rightarrow> compiler" where
  "compile_expr Q n cp nexpr ctx env cont s0 =
     (let s = snd (get_lineno nexpr s0) in
      if LITERAL_P (CHP s) nexpr then compile_literal Q nexpr ctx cont s
      else if SYM_P nexpr then
        rthen (ssexpand Q nexpr s) (\<lambda>(ssx, s).
          if ssx = NIL then compile_ident Q nexpr ctx env cont s else cp ssx ctx env cont s)
      else if CONS_P nexpr s then compile_list Q n cp nexpr ctx env cont s
      else err ''invalid_expression'')"

primrec arc_compile :: "nat \<Rightarrow> cprims \<Rightarrow> compiler" where
  "arc_compile 0 Q = (\<lambda>_ _ _ _ _. None)"
| "arc_compile (Suc n) Q = compile_expr Q n (arc_compile n Q)"

text \<open>
  \<open>arc_eval\<close> up to the call of the closure it makes: the line data is installed around the
  compilation.
\<close>

definition arc_eval :: "nat \<Rightarrow> cprims \<Rightarrow> val \<Rightarrow> (arcval \<Rightarrow> val option) option \<Rightarrow> cst \<Rightarrow> (val \<times> cst) run" where
  "arc_eval n Q expr lndata s =
     (let lndata = map_option (\<lambda>t. t(INT2FIX (- 3) \<mapsto> Fix 1)) lndata;
          ctx = (if lndata = None then arc_mkcctx else arc_cctx_mksrc arc_mkcctx) in
      rthen (arc_compile n Q expr ctx [] True (s \<lparr> LNDATA := lndata \<rparr>)) (\<lambda>(ctx, s).
      let s = s \<lparr> LNDATA := None \<rparr> in
      rthen (stored (arc_cctx2code ctx)) (\<lambda>f.
      let (code, s) = code_to_heap f s; (a, h) = halloc (CHP s) (OBlk T_CLOS [code, NIL]) in
      ret (Ref a, s \<lparr> CHP := h \<rparr>))))"

end
