(* ===== verification/CompileInv.thy ===== *)
theory CompileInv
  imports Compiler "HOL-Library.Sublist"
begin

text \<open>
  What every compilation keeps: the code and the literals already in the context stay where they
  are, new ones are added behind them, and no vector is written outside its bounds: a compilation never
  ends with the fault \<open>Overrun\<close>. The C
  functions are proved against the contract of the compiler they call for subexpressions (the
  locale \<open>code_appender\<close>), and \<open>arc_compile\<close> is shown to meet it.
\<close>

subsection \<open>Postconditions\<close>

definition post :: "('a \<Rightarrow> bool) \<Rightarrow> 'a run \<Rightarrow> bool" where
  "post P r \<longleftrightarrow> r \<noteq> fail Overrun \<and> (\<forall>a. r = ret a \<longrightarrow> P a)"

text \<open>Steps that do not write to the context.\<close>

definition no_overrun :: "'a run \<Rightarrow> bool" where
  "no_overrun r \<longleftrightarrow> r \<noteq> fail Overrun"

named_theorems post_intros "rules for postconditions"

lemma post_ret [post_intros]: "P a \<Longrightarrow> post P (ret a)"
  by (simp add: post_def)

lemma post_fail [post_intros]: "post P (fail (ArcErr e))" "post P (fail UB)" "post P None" "post P (err msg)"
  by (simp_all add: post_def err_def)

lemma post_rthen: "post P r \<Longrightarrow> (\<And>a. P a \<Longrightarrow> post Q (f a)) \<Longrightarrow> post Q (rthen r f)"
proof -
  assume r: "post P r" and f: "\<And>a. P a \<Longrightarrow> post Q (f a)"
  consider "r = None" | e where "r = fail e" | a where "r = ret a" by (metis not_None_eq old.sum.exhaust)
  then show ?thesis by cases (use r f in \<open>auto simp: post_def\<close>)
qed

lemma post_then_ret [post_intros]: "post Q (f a) \<Longrightarrow> post Q (rthen (ret a) f)"
  by simp

lemma post_then_if [post_intros]:
  "(b \<Longrightarrow> post P (rthen r f)) \<Longrightarrow> (\<not> b \<Longrightarrow> post P (rthen r' f)) \<Longrightarrow> post P (rthen (if b then r else r') f)"
  by simp

lemma rthen_assoc: "rthen (rthen r f) g = rthen r (\<lambda>a. rthen (f a) g)"
  by (simp add: rthen_def split: option.split sum.split)

lemma post_then_then [post_intros]: "post P (rthen r (\<lambda>a. rthen (f a) g)) \<Longrightarrow> post P (rthen (rthen r f) g)"
  by (simp add: rthen_assoc)

lemma post_then_prod [post_intros]:
  "(\<And>x y. a = (x, y) \<Longrightarrow> post P (rthen (f x y) g)) \<Longrightarrow> post P (rthen (case a of (x, y) \<Rightarrow> f x y) g)"
  by (cases a) simp

lemma post_then_option [post_intros]:
  "(x = None \<Longrightarrow> post P (rthen a g)) \<Longrightarrow> (\<And>y. x = Some y \<Longrightarrow> post P (rthen (f y) g)) \<Longrightarrow>
    post P (rthen (case x of None \<Rightarrow> a | Some y \<Rightarrow> f y) g)"
  by (cases x) simp_all

lemma post_then_val [post_intros]: "(\<And>v. post P (rthen (f v) k)) \<Longrightarrow> post P (rthen g k) \<Longrightarrow>
    post P (rthen (case x of Fix v \<Rightarrow> f v | _ \<Rightarrow> g) k)"
  by (cases x) simp_all

text \<open>Steps whose result does not matter: reads of the heap, tests, and other conversions.\<close>

lemma post_read: "no_overrun r \<Longrightarrow> (\<And>a. post Q (f a)) \<Longrightarrow> post Q (rthen r f)"
  by (rule post_rthen [where P = "\<lambda>_. True"]) (simp_all add: post_def no_overrun_def)

named_theorems no_overrun_intros "steps that do not write to the context"

lemma no_overrun_ret [no_overrun_intros]: "no_overrun (ret a)" "no_overrun (err msg)" "no_overrun None" "no_overrun (fail UB)"
  "no_overrun (map_option Inr x)"
  by (cases x; simp add: no_overrun_def err_def)+

lemma no_overrun_then [no_overrun_intros]: "no_overrun r \<Longrightarrow> (\<And>a. no_overrun (f a)) \<Longrightarrow> no_overrun (rthen r f)"
  by (auto simp: no_overrun_def rthen_def split: option.splits sum.splits)

lemma no_overrun_cases [no_overrun_intros]:
  "(b \<Longrightarrow> no_overrun r) \<Longrightarrow> (\<not> b \<Longrightarrow> no_overrun r') \<Longrightarrow> no_overrun (if b then r else r')"
  "(\<And>x y. no_overrun (g x y)) \<Longrightarrow> no_overrun (case p of (x, y) \<Rightarrow> g x y)"
  "(\<And>x. no_overrun (k x)) \<Longrightarrow> no_overrun (let x = e in k x)"
  by (auto split: prod.splits)

lemma no_overrun_callee [no_overrun_intros]: "no_overrun (from_callee r)"
  by (auto simp: no_overrun_def from_callee_def split: option.split sum.split)

lemma read_faults: "car h v \<noteq> Inl Overrun" "cdr h v \<noteq> Inl Overrun" "arc_type_of h v \<noteq> Inl Overrun" "arc_rep h v \<noteq> Inl Overrun"
  "rep_cons h v \<noteq> Inl Overrun" "as_int v \<noteq> Inl Overrun"
  by (auto simp: car_def cdr_def arc_type_of_def arc_rep_def as_int_def Let_def rbind_def split: arc_type.splits list.splits sum.splits
      elim!: rep_cons.elims rep_blk.elims split: option.splits obj.splits)

lemma read_safe [no_overrun_intros]: "no_overrun (ccar v s)" "no_overrun (ccdr v s)" "no_overrun (Some (arc_rep h v))" "no_overrun (Some (as_int v))"
  using read_faults by (simp_all add: no_overrun_def ccar_def ccdr_def)

lemma read2_safe [no_overrun_intros]: "no_overrun (ccadr v s)" "no_overrun (ccddr v s)"
  unfolding ccadr_def ccddr_def by (intro no_overrun_intros)+

lemma opt_safe [no_overrun_intros]: "no_overrun (opt_name v s)" "no_overrun (opt_default v s)" "no_overrun (is_opt_arg v s)" "no_overrun (head_is b v s)"
  unfolding opt_name_def opt_default_def is_opt_arg_def head_is_def by (intro no_overrun_intros)+

lemma macro_of_safe: "no_overrun (macro_of s op)"
proof -
  have "x \<noteq> Inl Overrun" if "macro_of s op = Some x" for x
    by (rule macro_of.raw_induct [OF _ that, of "\<lambda>s op x. x \<noteq> Inl Overrun"])
      (use read_faults(3) in \<open>auto simp: Let_def split: sum.splits if_splits option.splits\<close>)
  then show ?thesis by (auto simp: no_overrun_def)
qed

lemma ismacro_safe [no_overrun_intros]: "no_overrun (ismacro s v)"
  unfolding ismacro_def by (intro no_overrun_intros macro_of_safe)

lemma callee_safe [no_overrun_intros]: "no_overrun (apply_macro Q m a s)" "no_overrun (ssexpand Q v s)"
  unfolding apply_macro_def ssexpand_def by (intro no_overrun_intros)+

lemma macex_safe [no_overrun_intros]: "no_overrun (macex Q n v b s)"
proof (induction n arbitrary: v s)
  case (Suc n)
  show ?case unfolding macex.simps by (intro no_overrun_intros Suc.IH)
qed (simp add: no_overrun_def)

lemma reverse_safe [no_overrun_intros]: "no_overrun (arc_list_reverse h v)"
proof -
  have "x \<noteq> Inl Overrun" if "reverse_loop h v acc = Some x" for x acc
    by (rule reverse_loop.raw_induct [OF _ that, of "\<lambda>h v acc x. x \<noteq> Inl Overrun"])
      (use read_faults(5) in \<open>auto simp: Let_def split: sum.splits if_splits prod.splits\<close>)
  then show ?thesis by (auto simp: no_overrun_def arc_list_reverse_def)
qed

lemma fold_compose_safe [no_overrun_intros]: "no_overrun (fold_compose n e l s)"
proof (induction n arbitrary: e s)
  case (Suc n)
  show ?case unfolding fold_compose.simps by (intro no_overrun_intros Suc.IH)
qed (simp add: no_overrun_def)

lemma gensyms_safe [no_overrun_intros]: "no_overrun (gensyms Q n a u s)"
proof (induction n arbitrary: a u s)
  case (Suc n)
  show ?case unfolding gensyms.simps by (intro no_overrun_intros Suc.IH)
qed (simp add: no_overrun_def)

lemma andf_body_safe [no_overrun_intros]: "no_overrun (andf_body n a u b s)"
proof (induction n arbitrary: a b s)
  case (Suc n)
  show ?case unfolding andf_body.simps by (intro no_overrun_intros Suc.IH)
qed (simp add: no_overrun_def)

lemma expand_elems_safe [no_overrun_intros]: "no_overrun (expand_elems Q n x e s)"
proof (induction n arbitrary: x e s)
  case (Suc n)
  show ?case unfolding expand_elems.simps by (intro no_overrun_intros Suc.IH)
qed (simp add: no_overrun_def)

lemmas post_reads [post_intros] =
  post_read [where r = "ccar v s" for v s] post_read [where r = "ccdr v s" for v s]
  post_read [where r = "ccadr v s" for v s] post_read [where r = "ccddr v s" for v s]
  post_read [where r = "opt_name v s" for v s] post_read [where r = "opt_default v s" for v s]
  post_read [where r = "is_opt_arg v s" for v s] post_read [where r = "ismacro s v" for v s]
  post_read [where r = "macex Q n v b s" for Q n v b s] post_read [where r = "ssexpand Q v s" for Q v s]
  post_read [where r = "apply_macro Q m a s" for Q m a s] post_read [where r = "head_is b v s" for b v s]
  post_read [where r = "arc_list_reverse h v" for h v] post_read [where r = "map_option Inr x" for x]
  post_read [where r = "fold_compose n e l s" for n e l s] post_read [where r = "gensyms Q n a u s" for Q n a u s]
  post_read [where r = "andf_body n a u b s" for n a u b s] post_read [where r = "expand_elems Q n x e s" for Q n x e s]

lemma post_if [post_intros]: "(b \<Longrightarrow> post P r) \<Longrightarrow> (\<not> b \<Longrightarrow> post P r') \<Longrightarrow> post P (if b then r else r')"
  by simp

lemma post_prod [post_intros]: "(\<And>x y. a = (x, y) \<Longrightarrow> post P (f x y)) \<Longrightarrow> post P (case a of (x, y) \<Rightarrow> f x y)"
  by (cases a) simp

lemma post_let [post_intros]: "(\<And>x. x = e \<Longrightarrow> post P (f x)) \<Longrightarrow> post P (let x = e in f x)"
  by simp

lemma post_option [post_intros]:
  "(x = None \<Longrightarrow> post P a) \<Longrightarrow> (\<And>y. x = Some y \<Longrightarrow> post P (f y)) \<Longrightarrow> post P (case x of None \<Rightarrow> a | Some y \<Rightarrow> f y)"
  by (cases x) simp_all

lemma post_val [post_intros]: "(\<And>v. post P (f v)) \<Longrightarrow> post P (g) \<Longrightarrow> post P (case x of Fix v \<Rightarrow> f v | _ \<Rightarrow> g)"
  by (cases x) simp_all

lemma post_mono: "post P r \<Longrightarrow> (\<And>a. P a \<Longrightarrow> Q a) \<Longrightarrow> post Q r"
  by (auto simp: post_def)

lemma postD: "post P r \<Longrightarrow> r = ret a \<Longrightarrow> P a"
  by (simp add: post_def)

subsection \<open>Growing contexts\<close>

definition grows :: "cctx \<Rightarrow> cctx \<Rightarrow> bool" where
  "grows c c' \<longleftrightarrow> cctx_ok c \<and> cctx_ok c' \<and> VCPTR c' \<noteq> NIL \<and> prefix (code_of c) (code_of c') \<and> prefix (lits_of c) (lits_of c')"

lemma grows_refl: "cctx_ok c \<Longrightarrow> VCPTR c \<noteq> NIL \<Longrightarrow> grows c c"
  by (simp add: grows_def)

lemma grows_trans: "grows a b \<Longrightarrow> grows b c \<Longrightarrow> grows a c"
  unfolding grows_def by (meson prefix_order.trans)

lemma here_code: "cctx_ok c \<Longrightarrow> here c = length (code_of c)"
  by (auto simp: here_def code_of_def cctx_ok_def buf_ok_def split: option.splits)

lemma src_irrelevant [simp]: "code_of (c \<lparr> SRC := t \<rparr>) = code_of c" "lits_of (c \<lparr> SRC := t \<rparr>) = lits_of c"
  "cctx_ok (c \<lparr> SRC := t \<rparr>) = cctx_ok c"
  by (simp_all add: code_of_def lits_of_def cctx_ok_def)

lemma grows_src: "grows b c \<Longrightarrow> grows b (c \<lparr> SRC := t \<rparr>)"
  by (simp add: grows_def)

lemma add_lninfo_only_src: "add_lninfo c fl = Some c' \<Longrightarrow> \<exists>t. c' = c \<lparr> SRC := t \<rparr>"
proof -
  assume a: "add_lninfo c fl = Some c'"
  have e: "\<exists>t. x = x \<lparr> SRC := t \<rparr>" for x :: cctx by (intro exI [of _ "SRC x"]) simp
  show ?thesis using a by (auto simp: add_lninfo_def e split: option.splits if_splits)
qed

lemma emit_some:
  assumes "add_lninfo c fl \<noteq> None" and "cctx_ok c" and "length ws = Suc k" and "k < 16"
  shows "\<exists>c'. (add_lninfo c fl \<bind> (\<lambda>c. (if full_for c k then resize_vmcode c else Some c) \<bind> (\<lambda>c. store_code c ws))) = Some c'
    \<and> cctx_ok c' \<and> code_of c' = code_of c @ ws \<and> lits_of c' = lits_of c \<and> VCPTR c' \<noteq> NIL"
proof -
  obtain t where t: "add_lninfo c fl = Some (c \<lparr> SRC := t \<rparr>)"
    using assms(1) add_lninfo_only_src [of c fl] by (cases "add_lninfo c fl") auto
  have "buf_ok (VCODE (c \<lparr> SRC := t \<rparr>)) (VCPTR (c \<lparr> SRC := t \<rparr>))" using assms(2) by (simp add: cctx_ok_def)
  from emit_words_ok [OF this assms(3,4)] obtain c2 where c2:
    "(if full_for (c \<lparr> SRC := t \<rparr>) k then resize_vmcode (c \<lparr> SRC := t \<rparr>) else Some (c \<lparr> SRC := t \<rparr>)) \<bind> (\<lambda>c. store_code c ws) = Some c2"
    "buf_ok (VCODE c2) (VCPTR c2)" "code_of c2 = code_of c @ ws" "LITS c2 = LITS c" "LPTR c2 = LPTR c"
    by auto
  have "VCPTR c2 \<noteq> NIL"
  proof
    assume "VCPTR c2 = NIL"
    then have "code_of c2 = []" by (simp add: code_of_def)
    then show False using c2(3) assms(3) by auto
  qed
  then show ?thesis using c2 assms(2) t by (simp add: cctx_ok_def lits_of_def)
qed

lemma stored_simps [simp]: "stored (Some a) = ret a" "stored r = ret a \<longleftrightarrow> r = Some a" "stored r = fail Overrun \<longleftrightarrow> r = None" "stored r \<noteq> None"
  by (cases r; simp add: stored_def)+

lemma emit_result:
  assumes "cctx_ok c" and "length args \<le> 3"
  shows "post (\<lambda>(c', s'). cctx_ok c' \<and> code_of c' = code_of c @ Fix (opcode i) # args \<and> lits_of c' = lits_of c \<and> VCPTR c' \<noteq> NIL) (emit i args obj c s)"
proof -
  obtain fl s1 where fl: "get_lineno obj s = (fl, s1)" by (cases "get_lineno obj s")
  consider "args = []" | a where "args = [a]" | a b where "args = [a, b]" | a b d where "args = [a, b, d]"
    using assms(2) by (auto simp: le_Suc_eq length_Suc_conv numeral_3_eq_3)
  then show ?thesis
  proof cases
    case 1
    then show ?thesis using assms(1) fl emit_some [of c fl "[Fix (opcode i)]" 0]
      by (auto simp: emit_def arc_emit_def post_def)
  next
    case 2
    then show ?thesis using assms(1) fl emit_some [of c fl "Fix (opcode i) # args" 1]
      by (auto simp: emit_def arc_emit1_def post_def)
  next
    case 3
    then show ?thesis using assms(1) fl emit_some [of c fl "Fix (opcode i) # args" 2]
      by (auto simp: emit_def arc_emit2_def post_def)
  next
    case 4
    then show ?thesis using assms(1) fl emit_some [of c fl "Fix (opcode i) # args" 3]
      by (auto simp: emit_def arc_emit3_def post_def)
  qed
qed

lemma emit_code:
  assumes "emit i args obj c s = ret (c', s')" and "cctx_ok c"
  shows "cctx_ok c' \<and> code_of c' = code_of c @ Fix (opcode i) # args \<and> lits_of c' = lits_of c \<and> VCPTR c' \<noteq> NIL"
proof (cases "length args \<le> 3")
  case True
  then show ?thesis using emit_result [OF assms(2), of args i obj s] assms(1) by (auto simp: post_def)
next
  case False
  then have "\<exists>a b d e r. args = a # b # d # e # r" by (metis list.exhaust list.size(3,4) One_nat_def add_Suc_right add_0_right numeral_3_eq_3 le_refl zero_le Suc_le_mono)
  then show ?thesis using assms(1) by (auto simp: emit_def split: prod.splits if_splits)
qed

text \<open>
  \<open>keeps \<pi> c r\<close>: the step \<open>r\<close> from the context \<open>c\<close>, where \<open>\<pi>\<close> finds the context in the result. A context
  that grows has its end at the same offset or behind.
\<close>

lemma grows_here: "grows b c \<Longrightarrow> here b \<le> here c"
  using here_code prefix_length_le by (auto simp: grows_def)

lemma grows_self: "grows b c \<Longrightarrow> grows c c"
  using grows_refl by (simp add: grows_def)

definition keeps :: "('a \<Rightarrow> cctx) \<Rightarrow> cctx \<Rightarrow> 'a run \<Rightarrow> bool" where
  "keeps \<pi> c r \<longleftrightarrow> (\<forall>b. grows b c \<longrightarrow> post (\<lambda>x. grows b (\<pi> x)) r)"

named_theorems grow_intros "steps that keep a context growing"

lemma keepsI: "(\<And>b. grows b c \<Longrightarrow> post (\<lambda>x. grows b (\<pi> x)) r) \<Longrightarrow> keeps \<pi> c r"
  by (simp add: keeps_def)

lemma keeps_post: "keeps \<pi> c r \<Longrightarrow> grows b c \<Longrightarrow> post (\<lambda>x. grows b (\<pi> x)) r"
  by (simp add: keeps_def)

lemma keeps_none: "keeps \<pi> c None"
  by (simp add: keeps_def post_def)

lemma keeps_any:
  assumes "keeps \<rho> c r" and "grows b c"
    and "\<And>x. grows b (\<rho> x) \<Longrightarrow> here c \<le> here (\<rho> x) \<Longrightarrow> post Q (f x)"
  shows "post Q (rthen r f)"
  by (rule post_rthen [OF keeps_post [OF assms(1) grows_self [OF assms(2)]]])
    (auto intro: assms(3) grows_trans [OF assms(2)] grows_here)

lemmas keeps_then = keeps_any [where Q = "\<lambda>y. grows b (\<pi> y)" and b = b for b \<pi>]

lemma emit_grows [grow_intros]: "grows b c \<Longrightarrow> length args \<le> 3 \<Longrightarrow> post (\<lambda>x. grows b (fst x)) (emit i args obj c s)"
proof -
  assume g: "grows b c" and "length args \<le> 3"
  then have "post (\<lambda>(c', s'). cctx_ok c' \<and> code_of c' = code_of c @ Fix (opcode i) # args \<and> lits_of c' = lits_of c \<and> VCPTR c' \<noteq> NIL) (emit i args obj c s)"
    by (intro emit_result) (simp add: grows_def)
  then show ?thesis by (rule post_mono) (use g in \<open>auto simp: grows_def intro: prefix_order.trans\<close>)
qed

lemma emit_keeps: "length args \<le> 3 \<Longrightarrow> keeps fst c (emit i args obj c s)"
  by (simp add: keeps_def emit_grows)

lemma emit_then [grow_intros]: "grows b c \<Longrightarrow> length args \<le> 3 \<Longrightarrow>
  (\<And>x. grows b (fst x) \<Longrightarrow> here (fst x) = here c + Suc (length args) \<Longrightarrow> post (\<lambda>y. grows b (\<pi> y)) (f x)) \<Longrightarrow>
    post (\<lambda>y. grows b (\<pi> y)) (rthen (emit i args obj c s) f)"
proof -
  assume g: "grows b c" and l: "length args \<le> 3"
    and f: "\<And>x. grows b (fst x) \<Longrightarrow> here (fst x) = here c + Suc (length args) \<Longrightarrow> post (\<lambda>y. grows b (\<pi> y)) (f x)"
  then have "post (\<lambda>(c', s'). cctx_ok c' \<and> code_of c' = code_of c @ Fix (opcode i) # args \<and> lits_of c' = lits_of c \<and> VCPTR c' \<noteq> NIL) (emit i args obj c s)"
    by (intro emit_result) (simp add: grows_def)
  then show ?thesis
  proof (rule post_rthen)
    fix x :: "cctx \<times> cst"
    assume "case x of (c', s') \<Rightarrow> cctx_ok c' \<and> code_of c' = code_of c @ Fix (opcode i) # args \<and> lits_of c' = lits_of c \<and> VCPTR c' \<noteq> NIL"
    then show "post (\<lambda>y. grows b (\<pi> y)) (f x)"
      using g by (intro f) (auto simp: grows_def here_code intro: prefix_order.trans)
  qed
qed

lemma patch_code:
  assumes "cctx_ok c" and "i < here c"
  shows "\<exists>c'. patch i v c = ret c' \<and> cctx_ok c' \<and> code_of c' = (code_of c)[i := v] \<and> lits_of c' = lits_of c \<and> VCPTR c' = VCPTR c"
proof -
  obtain vc where vc: "VCODE c = Some vc" "i < length vc"
    using assms by (auto simp: cctx_ok_def buf_ok_def here_def split: option.splits)
  have "take (fixnat (VCPTR c)) (vc[i := v]) = (take (fixnat (VCPTR c)) vc)[i := v]" by (simp add: take_update_swap)
  then show ?thesis using vc assms(1)
    by (simp add: patch_def code_of_def lits_of_def cctx_ok_def buf_ok_def split: option.splits)
qed

lemma jump_patch: "jump_here j c = patch (j + 1) (Fix (int (here c) - int j)) c"
  by (cases "VCODE c") (auto simp: jump_here_def patch_def arc_jmpoffset_def stored_def upd_opt_def)

lemma jump_code:
  assumes "cctx_ok c" and "j + 1 < here c"
  shows "\<exists>c'. jump_here j c = ret c' \<and> cctx_ok c' \<and> code_of c' = (code_of c)[j + 1 := Fix (int (length (code_of c)) - int j)]
    \<and> lits_of c' = lits_of c \<and> VCPTR c' = VCPTR c"
  using patch_code [OF assms, of "Fix (int (here c) - int j)"] here_code [OF assms(1)] by (simp add: jump_patch)

lemma prefix_update: "prefix xs ys \<Longrightarrow> length xs \<le> i \<Longrightarrow> prefix xs (ys[i := v])"
  by (auto simp: prefix_def list_update_append)

lemma patch_then [grow_intros]: "grows b c \<Longrightarrow> here b \<le> i \<Longrightarrow> i < here c \<Longrightarrow>
  (\<And>c'. grows b c' \<Longrightarrow> here c' = here c \<Longrightarrow> post Q (f c')) \<Longrightarrow> post Q (rthen (patch i v c) f)"
proof -
  assume g: "grows b c" "here b \<le> i" "i < here c" and f: "\<And>c'. grows b c' \<Longrightarrow> here c' = here c \<Longrightarrow> post Q (f c')"
  then obtain c' where "patch i v c = ret c'" "cctx_ok c'" "code_of c' = (code_of c)[i := v]" "lits_of c' = lits_of c" "VCPTR c' = VCPTR c"
    using patch_code [of c i v] by (auto simp: grows_def)
  then show ?thesis using g here_code by (auto simp: grows_def here_def intro!: f prefix_update)
qed

lemma jump_then [grow_intros]: "grows b c \<Longrightarrow> here b \<le> j \<Longrightarrow> j + 1 < here c \<Longrightarrow>
  (\<And>c'. grows b c' \<Longrightarrow> here c' = here c \<Longrightarrow> post Q (f c')) \<Longrightarrow> post Q (rthen (jump_here j c) f)"
  unfolding jump_patch by (rule patch_then [where b = b]) auto

lemma literal_grows: "grows b c \<Longrightarrow> arc_literal c l = Some (i, c') \<Longrightarrow> grows b c'"
proof -
  assume a: "grows b c" "arc_literal c l = Some (i, c')"
  obtain c2 where "arc_literal c l = Some (length (lits_of c), c2)" "cctx_ok c2" "lits_of c2 = lits_of c @ [l]" "code_of c2 = code_of c"
    using literal_ok [of c l] a(1) by (auto simp: grows_def)
  moreover have "VCPTR c2 = VCPTR c"
    using calculation(1)
    by (auto simp: arc_literal_def resize_literals_def Let_def split: if_splits option.splits bind_splits)
  ultimately show ?thesis using a by (auto simp: grows_def intro: prefix_order.trans)
qed

lemma find_literal_keeps: "keeps snd c (find_literal Q l c s)"
proof (rule keepsI)
  fix b assume g: "grows b c"
  then have "arc_literal c l \<noteq> None" using literal_ok [of c l] by (auto simp: grows_def)
  then show "post (\<lambda>x. grows b (snd x)) (find_literal Q l c s)"
    using g by (auto simp: find_literal_def post_def literal_grows split: option.splits)
qed

lemmas find_literal_then [grow_intros] = keeps_then [OF find_literal_keeps]

lemma emit_lit_keeps: "keeps fst c (emit_lit Q i l obj c s)"
  unfolding emit_lit_def by (intro keepsI post_intros grow_intros; auto)

lemmas emit_lit_grows [grow_intros] = keeps_post [OF emit_lit_keeps]
lemmas emit_lit_then [grow_intros] = keeps_then [OF emit_lit_keeps]

lemma continuation_keeps: "keeps fst c (compile_continuation c cont s)"
  unfolding compile_continuation_def by (intro keepsI post_intros grow_intros; auto)

lemmas continuation_grows [grow_intros] = keeps_post [OF continuation_keeps]

lemma literal_keeps: "keeps fst c (compile_literal Q l c cont s)"
  unfolding compile_literal_def by (intro keepsI post_intros grow_intros; auto)

lemmas literal_c_grows [grow_intros] = keeps_post [OF literal_keeps]

lemma ident_keeps: "keeps fst c (compile_ident Q l c env cont s)"
  unfolding compile_ident_def
  by (cases "find_var l env 0"; clarsimp split del: if_split; intro keepsI post_intros grow_intros; auto)

lemmas ident_grows [grow_intros] = keeps_post [OF ident_keeps]

subsection \<open>The contract of the compiler\<close>

locale code_appender =
  fixes cp :: compiler
  assumes cp_keeps: "keeps fst c (cp e c env cont s)"
begin

lemmas cp_grows [grow_intros] = keeps_post [OF cp_keeps]
lemmas cp_then [grow_intros] = keeps_then [OF cp_keeps]

lemma if_keeps: "keeps fst c (compile_if n cp args c env cont s)"
proof (induction n arbitrary: args c cont s)
  case (Suc n)
  show ?case
    by (simp only: compile_if.simps; intro keepsI post_intros grow_intros no_overrun_intros keeps_post [OF Suc.IH] keeps_then [OF Suc.IH]; (force dest: grows_here)?)
qed (simp add: keeps_none)

lemmas if_grows [grow_intros] = keeps_post [OF if_keeps]

lemma destructure_sym_keeps: "keeps (fst \<circ> snd) c (destructure_sym a c env i s)"
  unfolding destructure_sym_def by (intro keepsI post_intros grow_intros no_overrun_intros; (force dest: grows_here)?)

lemmas destructure_sym_grows [grow_intros] = keeps_post [OF destructure_sym_keeps]

lemma destructure_opt_keeps: "keeps (fst \<circ> snd) c (destructure_opt cp a c env i s)"
  unfolding destructure_opt_def by (intro keepsI post_intros grow_intros no_overrun_intros; (force dest: grows_here)?)

lemmas destructure_opt_grows [grow_intros] = keeps_post [OF destructure_opt_keeps]

lemma destructure_keeps: "keeps (fst \<circ> snd) c (destructure n cp a c env i opt s)"
proof (induction n arbitrary: a c env i opt s)
  case (Suc n)
  show ?case
    by (simp only: destructure.simps; intro keepsI post_intros grow_intros no_overrun_intros keeps_post [OF Suc.IH] keeps_then [OF Suc.IH]; (force dest: grows_here)?)
qed (simp add: keeps_none)

lemmas destructure_then [grow_intros] = keeps_then [OF destructure_keeps]

lemma opt_arg_keeps: "keeps fst c (opt_arg cp a c env st s)"
  unfolding opt_arg_def by (intro keepsI post_intros grow_intros no_overrun_intros; (force dest: grows_here)?)

lemmas opt_arg_grows [grow_intros] = keeps_post [OF opt_arg_keeps]

lemma one_arg_keeps: "keeps fst c (one_arg cp a c env st s)"
  unfolding one_arg_def by (intro keepsI post_intros grow_intros no_overrun_intros; (force dest: grows_here)?)

lemmas one_arg_then [grow_intros] = keeps_then [OF one_arg_keeps]

lemma args_loop_post: "grows b c \<Longrightarrow> here b \<le> p \<Longrightarrow> p < here c \<Longrightarrow> k \<le> here c \<Longrightarrow>
  post (\<lambda>x. grows b (fst (snd x)) \<and> k \<le> here (fst (snd x))) (args_loop n cp p args c env st s)"
proof (induction n arbitrary: args c env st s)
  case (Suc n)
  show ?case using Suc.prems
    by (simp only: args_loop.simps; intro post_intros patch_then [where b = b] keeps_any [OF one_arg_keeps, where b = b] Suc.IH no_overrun_intros;
        (force dest: grows_here)?)
qed (simp add: post_def)

lemma dsb_loop_keeps: "keeps (fst \<circ> snd) c (dsb_loop n cp ds args c env i s)"
proof (induction ds arbitrary: c env i s)
  case (Cons p ds)
  obtain pat j where "p = (pat, j)" by (cases p)
  then show ?case
    by (simp only: dsb_loop.simps; intro keepsI post_intros grow_intros no_overrun_intros keeps_post [OF Cons.IH]; (force dest: grows_here)?)
qed (auto simp: keeps_def post_def)

lemmas dsb_loop_then [grow_intros] = keeps_then [OF dsb_loop_keeps]

lemma compile_args_keeps: "keeps (fst \<circ> snd) c (compile_args n cp args c env s)"
  unfolding compile_args_def
  by (intro keepsI post_intros grow_intros no_overrun_intros post_rthen [OF args_loop_post [where k = "here c + 4"]]; (force dest: grows_here)?)

lemmas compile_args_then [grow_intros] = keeps_then [OF compile_args_keeps]

lemma compile_body_keeps: "keeps fst c (compile_body n cp body c env s)"
proof (induction n arbitrary: body c s)
  case (Suc n)
  show ?case
    by (simp only: compile_body.simps; intro keepsI post_intros grow_intros no_overrun_intros keeps_post [OF Suc.IH] keeps_then [OF Suc.IH]; (force dest: grows_here)?)
qed (simp add: keeps_none)

lemmas compile_body_then [grow_intros] = keeps_then [OF compile_body_keeps]

lemma mksrc_grows: "grows (arc_mkcctx \<lparr> SRC := t \<rparr>) (arc_mkcctx \<lparr> SRC := t \<rparr>)"
proof (rule grows_refl)
  show "cctx_ok (arc_mkcctx \<lparr> SRC := t \<rparr>)" using mkcctx_ok by simp
qed (simp add: arc_mkcctx_def)

lemma cctx2code_safe: "grows b c \<Longrightarrow> no_overrun (stored (arc_cctx2code c))"
  using cctx2code_prefix [of c] by (auto simp: grows_def no_overrun_def)

lemma fn_keeps: "keeps fst c (compile_fn Q n cp e c env cont s)"
proof (rule keepsI)
  fix b
  assume g: "grows b c"
  note any = keeps_any [where b = "arc_mkcctx \<lparr> SRC := SRC c \<rparr>"]
  show "post (\<lambda>x. grows b (fst x)) (compile_fn Q n cp e c env cont s)"
    unfolding compile_fn_def
    apply (intro post_intros any [OF compile_args_keeps] any [OF compile_body_keeps] any [OF emit_keeps]
          post_read [OF cctx2code_safe] no_overrun_intros; (auto intro: mksrc_grows)?)
    by (intro post_intros grow_intros; (use g in \<open>auto intro: grows_src\<close>)?)+
qed

lemmas fn_grows [grow_intros] = keeps_post [OF fn_keeps]

lemma quote_keeps: "keeps fst c (compile_quote Q e c env cont s)"
  unfolding compile_quote_def by (intro keepsI post_intros grow_intros no_overrun_intros; (force dest: grows_here)?)

lemmas quote_grows [grow_intros] = keeps_post [OF quote_keeps]

lemma assign_one_keeps: "keeps fst c (assign_one Q cp a v e c env s)"
  unfolding assign_one_def by (intro keepsI post_intros grow_intros no_overrun_intros; (force dest: grows_here)?)

lemmas assign_one_then [grow_intros] = keeps_then [OF assign_one_keeps]

lemma assign_keeps: "keeps fst c (compile_assign Q n cp e c env cont s)"
proof (induction n arbitrary: e c s)
  case (Suc n)
  show ?case
    by (simp only: compile_assign.simps; intro keepsI post_intros grow_intros no_overrun_intros keeps_post [OF Suc.IH] keeps_then [OF Suc.IH]; (force dest: grows_here)?)
qed (simp add: keeps_none)

lemmas assign_grows [grow_intros] = keeps_post [OF assign_keeps]

lemma inline_args_keeps: "keeps (fst \<circ> snd) c (inline_args n cp e k c env s)"
proof (induction n arbitrary: e k c s)
  case (Suc n)
  show ?case
    by (simp only: inline_args.simps; intro keepsI post_intros grow_intros no_overrun_intros keeps_post [OF Suc.IH] keeps_then [OF Suc.IH]; (force dest: grows_here)?)
qed (simp add: keeps_none)

lemmas inline_args_then [grow_intros] = keeps_then [OF inline_args_keeps]

lemma inline_fixed_keeps: "keeps fst c (inline_fixed i k n cp e c env cont s)"
  unfolding inline_fixed_def by (intro keepsI post_intros grow_intros no_overrun_intros; (force dest: grows_here)?)

lemmas inline_fixed_grows [grow_intros] = keeps_post [OF inline_fixed_keeps]

lemma inlinen_loop_keeps: "keeps fst c (inlinen_loop n cp i e c env s)"
proof (induction n arbitrary: e c s)
  case (Suc n)
  show ?case
    by (simp only: inlinen_loop.simps; intro keepsI post_intros grow_intros no_overrun_intros keeps_post [OF Suc.IH] keeps_then [OF Suc.IH]; (force dest: grows_here)?)
qed (simp add: keeps_none)

lemmas inlinen_loop_then [grow_intros] = keeps_then [OF inlinen_loop_keeps]

lemma inlinen_keeps: "keeps fst c (compile_inlinen i n cp e c env cont base s)"
  unfolding compile_inlinen_def by (intro keepsI post_intros grow_intros no_overrun_intros; (force dest: grows_here)?)

lemmas inlinen_grows [grow_intros] = keeps_post [OF inlinen_keeps]

lemma inlinen2_keeps: "keeps fst c (compile_inlinen2 i n cp e c env cont base s)"
  unfolding compile_inlinen2_def by (intro keepsI post_intros grow_intros no_overrun_intros; (force dest: grows_here)?)

lemmas inlinen2_grows [grow_intros] = keeps_post [OF inlinen2_keeps]

lemma inline_func_grows:
  "inline_func f = Some g \<Longrightarrow> grows b c \<Longrightarrow> post (\<lambda>x. grows b (fst x)) (g n cp e c env cont s)"
  unfolding inline_func_def inline_plus_def [abs_def] inline_times_def [abs_def] inline_minus_def [abs_def] inline_div_def [abs_def]
  by (auto split: if_split_asm intro!: grow_intros post_intros no_overrun_intros)

lemma spform_grows:
  "spform Q f = Some g \<Longrightarrow> grows b c \<Longrightarrow> post (\<lambda>x. grows b (fst x)) (g n cp e c env cont s)"
  unfolding spform_def by (auto split: if_split_asm intro!: grow_intros)

lemma operands_keeps: "keeps (fst \<circ> snd) c (compile_operands n cp x e k c env s)"
proof (induction n arbitrary: e k c s)
  case (Suc n)
  show ?case
    by (simp only: compile_operands.simps; intro keepsI post_intros grow_intros no_overrun_intros keeps_post [OF Suc.IH] keeps_then [OF Suc.IH]; (force dest: grows_here)?)
qed (simp add: keeps_none)

lemmas operands_then [grow_intros] = keeps_then [OF operands_keeps]

lemma call_keeps: "keeps fst c (compile_call n cp f a e c env cont s)"
  unfolding compile_call_def by (intro keepsI post_intros grow_intros no_overrun_intros; (force dest: grows_here)?)

lemmas call_grows [grow_intros] = keeps_post [OF call_keeps]

lemma apply_keeps: "keeps fst c (compile_apply Q n cp e c env cont s)"
  unfolding compile_apply_def by (intro keepsI post_intros grow_intros no_overrun_intros; (force dest: grows_here)?)

lemmas apply_grows [grow_intros] = keeps_post [OF apply_keeps]

lemma form_grows [grow_intros]: "grows b c \<Longrightarrow> post (\<lambda>x. grows b (fst x)) (compile_form Q n cp e c env cont s)"
  unfolding compile_form_def compile_compose_def [abs_def] compile_complement_def [abs_def] compile_andf_def [abs_def]
  by (intro post_intros grow_intros no_overrun_intros; (erule inline_func_grows)?; (force dest: grows_here)?)

lemma list_keeps: "keeps fst c (compile_list Q n cp e c env cont s)"
  unfolding compile_list_def by (intro keepsI post_intros grow_intros no_overrun_intros; (erule spform_grows)?; (force dest: grows_here)?)

lemmas list_grows [grow_intros] = keeps_post [OF list_keeps]

lemma expr_keeps: "keeps fst c (compile_expr Q n cp e c env cont s)"
  unfolding compile_expr_def by (intro keepsI post_intros grow_intros no_overrun_intros; (force dest: grows_here)?)


end

lemma compile_appender: "code_appender (arc_compile n Q)"
proof (induction n)
  case 0
  show ?case by unfold_locales (simp add: keeps_none)
next
  case (Suc n)
  show ?case by unfold_locales (simp add: code_appender.expr_keeps [OF Suc])
qed

interpretation arc_compiler: code_appender "arc_compile n Q" for n Q
  by (rule compile_appender)

text \<open>
  Property C12. Compiling an expression never writes outside the code vector or the vector of the
  literals (a compilation that does would be \<open>fail Overrun\<close>; it may end with an error, and it may
  not end), and when it ends it has only added to the context: the code and the literals that were
  there are a prefix of those after it, jumps are patched inside the new code, and the buffers stay
  well formed. This holds for every expression, macros included.
\<close>

theorem compile_appends:
  assumes "cctx_ok c" and "VCPTR c \<noteq> NIL"
  shows "arc_compile n Q e c env cont s \<noteq> fail Overrun \<and>
    (\<forall>c' s'. arc_compile n Q e c env cont s = ret (c', s') \<longrightarrow>
      cctx_ok c' \<and> prefix (code_of c) (code_of c') \<and> prefix (lits_of c) (lits_of c'))"
  using keeps_post [OF arc_compiler.cp_keeps grows_refl [OF assms], of n Q e env cont s]
  by (auto simp: post_def grows_def)

text \<open>The expression \<open>(if nil 5 6)\<close> in the heap.\<close>

definition if_demo :: cst where
  "if_demo = \<lparr> CHP = \<lparr> mem = [1 \<mapsto> OCons (ARC_BUILTIN S_IF) (Ref 2), 2 \<mapsto> OCons (NIL) (Ref 3),
       3 \<mapsto> OCons (Fix 5) (Ref 4), 4 \<mapsto> OCons (Fix 6) (NIL)], brk = 5 \<rparr>,
     CGENV = \<lambda>_. None, LNDATA = None, UNIQ = 0 \<rparr>"

definition demo_cprims :: cprims where
  "demo_cprims = \<lparr> c_vm = demo_prims, c_sym2str = \<lambda>_. None, c_read = \<lambda>_ _. None, c_macro = \<lambda>_ _ _. None,
     c_gensym = \<lambda>n. Sym n \<rparr>"

lemma map_run: "map_option (map_sum id (f \<circ> fst)) r = ret y \<Longrightarrow> \<exists>c s. r = ret (c, s) \<and> f c = y"
proof (cases r)
  case (Some x)
  then show "map_option (map_sum id (f \<circ> fst)) r = ret y \<Longrightarrow> \<exists>c s. r = ret (c, s) \<and> f c = y" by (cases x) auto
qed simp

lemma if_demo_code:
  "map_option (map_sum id (code_of \<circ> fst)) (arc_compile 4 demo_cprims (Ref 1) arc_mkcctx [] False if_demo)
    = Some (Inr [Fix (opcode inil), Fix (opcode ijf), Fix 6, Fix (opcode ildi), Fix 5, Fix (opcode ijmp), Fix 4, Fix (opcode ildi), Fix 6])"
  by code_simp

theorem compile_appends_witness:
  "arc_compile 4 demo_cprims (Ref 1) arc_mkcctx [] False if_demo \<noteq> fail Overrun \<and>
   (\<exists>c' s'. arc_compile 4 demo_cprims (Ref 1) arc_mkcctx [] False if_demo = ret (c', s')
    \<and> cctx_ok c' \<and> prefix (code_of arc_mkcctx) (code_of c') \<and> prefix (lits_of arc_mkcctx) (lits_of c'))"
proof -
  obtain c' s' where c: "arc_compile 4 demo_cprims (Ref 1) arc_mkcctx [] False if_demo = ret (c', s')"
    using map_run [OF if_demo_code] by blast
  have "VCPTR arc_mkcctx \<noteq> NIL" by (simp add: arc_mkcctx_def)
  then show ?thesis using compile_appends [of arc_mkcctx 4 demo_cprims "Ref 1" "[]" False if_demo] mkcctx_ok c by auto
qed

end
