(* ===== verification/CompileRun.thy ===== *)
theory CompileRun
  imports CompileInv
begin

text \<open>
  Running compiled code. The core of the language (literals, variables, conditionals, the inline
  functions and assignment) gets a direct semantics \<open>ev\<close> on machines, without code, jumps and
  stack; \<open>codes\<close> says which code words are an expression's code, for a given vector of
  literals; and the machine that runs such words computes what \<open>ev\<close> says. Reading and writing
  variables in \<open>ev\<close> is the lexical addressing that \<open>Machine\<close> shows to be correct.
\<close>

subsection \<open>Core expressions\<close>

datatype cx =
    CLit val
  | CTrue
  | CLocal nat nat
  | CGlobal val
  | CIf cx cx cx
  | CPrim1 vminst cx
  | CPrim2 vminst cx cx
  | CSetLocal nat nat cx
  | CSetGlobal val cx
  | CSeq cx cx

fun op1 :: "vminst \<Rightarrow> machine \<Rightarrow> machine run" where
  "op1 icar m = exec_cxr car ''can't take car of value'' m"
| "op1 icdr m = exec_cxr cdr ''can't take cdr of value'' m"
| "op1 _ m = None"

text \<open>The first operand and the machine whose value register holds the second.\<close>

fun op2 :: "prims \<Rightarrow> vminst \<Rightarrow> val \<Rightarrow> machine \<Rightarrow> machine run" where
  "op2 P icons a m = ret (setval_heap (cons (HP m) a (VALR m)) m)"
| "op2 P iadd a m = (if htype (HP m) a = T_STRING then None
     else rthen (Some (p_add2 P (HP m) a (VALR m))) (\<lambda>vh. ret (setval_heap vh m)))"
| "op2 P isub a m = rthen (Some (p_sub2 P (HP m) a (VALR m))) (\<lambda>vh. ret (setval_heap vh m))"
| "op2 P imul a m = rthen (Some (p_mul2 P (HP m) a (VALR m))) (\<lambda>vh. ret (setval_heap vh m))"
| "op2 P idiv a m = rthen (Some (p_div2 P (HP m) a (VALR m))) (\<lambda>vh. ret (setval_heap vh m))"
| "op2 P _ a m = None"

fun ev :: "prims \<Rightarrow> cx \<Rightarrow> machine \<Rightarrow> machine run" where
  "ev P (CLit v) m = ret (setval v m)"
| "ev P CTrue m = ret (setval (p_true P) m)"
| "ev P (CLocal d i) m = rthen (Some (arc_getenv m d (int i))) (\<lambda>v. ret (setval v m))"
| "ev P (CGlobal y) m =
     (let v = (case GENV m y of None \<Rightarrow> UNBOUND | Some v \<Rightarrow> v) in
      if v = UNBOUND then fail (ArcErr ''Unbound symbol: _%s'') else ret (setval v m))"
| "ev P (CIf c a b) m = rthen (ev P c m) (\<lambda>m. if VALR m = NIL then ev P b m else ev P a m)"
| "ev P (CPrim1 i e) m = rthen (ev P e m) (op1 i)"
| "ev P (CPrim2 i a b) m = rthen (ev P a m) (\<lambda>m. let x = VALR m in rthen (ev P b m) (op2 P i x))"
| "ev P (CSetLocal d i e) m = rthen (ev P e m) (\<lambda>m. Some (arc_putenv m d (int i) (VALR m)))"
| "ev P (CSetGlobal y e) m = rthen (ev P e m) (\<lambda>m. ret (m \<lparr> GENV := (GENV m)(y \<mapsto> VALR m) \<rparr>))"
| "ev P (CSeq a b) m = rthen (ev P a m) (ev P b)"

text \<open>The variables are among those of frames of the given lengths.\<close>

fun scoped :: "nat list \<Rightarrow> cx \<Rightarrow> bool" where
  "scoped ns (CLocal d i) \<longleftrightarrow> d < length ns \<and> i < ns ! d"
| "scoped ns (CIf c a b) \<longleftrightarrow> scoped ns c \<and> scoped ns a \<and> scoped ns b"
| "scoped ns (CPrim1 i e) \<longleftrightarrow> scoped ns e"
| "scoped ns (CPrim2 i a b) \<longleftrightarrow> scoped ns a \<and> scoped ns b"
| "scoped ns (CSetLocal d i e) \<longleftrightarrow> d < length ns \<and> i < ns ! d \<and> scoped ns e"
| "scoped ns (CSetGlobal y e) \<longleftrightarrow> scoped ns e"
| "scoped ns (CSeq a b) \<longleftrightarrow> scoped ns a \<and> scoped ns b"
| "scoped ns _ \<longleftrightarrow> True"

text \<open>How many values the code pushes at most.\<close>

fun depth :: "cx \<Rightarrow> nat" where
  "depth (CIf c a b) = max (depth c) (max (depth a) (depth b))"
| "depth (CPrim1 i e) = depth e"
| "depth (CPrim2 i a b) = max (depth a) (depth b + 1)"
| "depth (CSetLocal d i e) = depth e"
| "depth (CSetGlobal y e) = depth e"
| "depth (CSeq a b) = max (depth a) (depth b)"
| "depth _ = 0"

subsection \<open>Machines that agree\<close>

text \<open>The same machine but for the instruction pointer and the stack up to \<open>lo\<close>.\<close>

definition agree :: "nat \<Rightarrow> machine \<Rightarrow> machine \<Rightarrow> bool" where
  "agree lo m m' \<longleftrightarrow> m' = m \<lparr> STK := STK m', SP := SP m', IP := IP m' \<rparr> \<and> length (STK m') = length (STK m)
     \<and> (\<forall>i. lo < i \<longrightarrow> STK m' ! i = STK m ! i)"

lemma agreeD:
  assumes "agree lo m m'"
  shows "HP m' = HP m" "GENV m' = GENV m" "VALR m' = VALR m" "ENVR m' = ENVR m" "FUNR m' = FUNR m" "STALE m' = STALE m"
    "length (STK m') = length (STK m)" "lo < i \<Longrightarrow> STK m' ! i = STK m ! i"
proof -
  define s p q where "s = STK m'" and "p = SP m'" and "q = IP m'"
  have "m' = m \<lparr> STK := s, SP := p, IP := q \<rparr>" using assms by (simp add: agree_def s_def p_def q_def)
  then show "HP m' = HP m" "GENV m' = GENV m" "VALR m' = VALR m" "ENVR m' = ENVR m" "FUNR m' = FUNR m" "STALE m' = STALE m"
    by simp_all
qed (use assms in \<open>auto simp: agree_def\<close>)

text \<open>A rule to show it: everything else may be updated alike on both sides.\<close>

lemma agree_upd:
  assumes "agree lo m m'"
  shows "agree lo (m \<lparr> VALR := v \<rparr>) (m' \<lparr> VALR := v \<rparr>)" "agree lo (m \<lparr> HP := h \<rparr>) (m' \<lparr> HP := h \<rparr>)"
    "agree lo (m \<lparr> GENV := g \<rparr>) (m' \<lparr> GENV := g \<rparr>)"
proof -
  define s p q where "s = STK m'" and "p = SP m'" and "q = IP m'"
  have "m' = m \<lparr> STK := s, SP := p, IP := q \<rparr>" using assms by (simp add: agree_def s_def p_def q_def)
  then show "agree lo (m \<lparr> VALR := v \<rparr>) (m' \<lparr> VALR := v \<rparr>)" "agree lo (m \<lparr> HP := h \<rparr>) (m' \<lparr> HP := h \<rparr>)"
    "agree lo (m \<lparr> GENV := g \<rparr>) (m' \<lparr> GENV := g \<rparr>)"
    using assms by (simp_all add: agree_def)
qed

lemma agree_env: "agree lo m m' \<Longrightarrow> env_rep m lo S v fs \<Longrightarrow> env_rep m' lo S v fs"
  by (elim env_rep_cong) (auto simp: agreeD)

lemma walk_env_upto:
  assumes "env_rep m lo S v fs" and "d < length fs" and "i < length (fs ! d)" and "agree lo m m'"
  shows "\<exists>p. envval_from m v d (int i) = Inr p \<and> envval_from m' v d (int i) = Inr p
    \<and> (case p of StkLoc k \<Rightarrow> int lo < k \<and> k < int (length (STK m)) | BlkLoc _ _ \<Rightarrow> True)"
  using assms
proof (induction fs arbitrary: lo S v d)
  case (Cons f fs)
  from Cons.prems(1) show ?case
  proof (cases rule: env_rep_cases)
    case (heap a e)
    then have m': "mem (HP m') a = Some (OBlk T_VECTOR (e # f))" using agreeD(1) [OF Cons.prems(4)] by simp
    show ?thesis
    proof (cases d)
      case 0
      then show ?thesis using envval_from_0(1) [OF heap(3)] envval_from_0(1) [OF m'] heap(1) by auto
    next
      case (Suc d')
      then show ?thesis
        using Cons.IH [OF heap(4), of d'] Cons.prems(2-4) heap(1)
          envval_from_Suc [OF _ frame_next(2) [OF heap(3)]] envval_from_Suc [OF _ frame_next(2) [OF m']] by auto
    qed
  next
    case (stack ofs e)
    let ?lo = "sbase m ofs + 1 + length f"
    have fr: "stk_frame m' lo ofs e f"
      using stack(2) agreeD(7,8) [OF Cons.prems(4)] by (auto intro: stk_frame_cong)
    have s: "sbase m' ofs = sbase m ofs" using agreeD(7) [OF Cons.prems(4)] by (simp add: sbase_def)
    note b = stack(2) [unfolded stk_frame_def]
    show ?thesis
    proof (cases d)
      case 0
      then have i: "i < length f" using Cons.prems(3) by simp
      have "envval_from m v 0 (int i) = Inr (StkLoc (int (?lo - i)))"
        "envval_from m' v 0 (int i) = Inr (StkLoc (int (?lo - i)))"
        using envval_from_0(2) [OF stack(2) i] envval_from_0(2) [OF fr i] s stack(1) by simp_all
      moreover have "lo < ?lo - i \<and> ?lo - i < length (STK m)" using b i by linarith
      then have "case StkLoc (int (?lo - i)) of StkLoc k \<Rightarrow> int lo < k \<and> k < int (length (STK m)) | BlkLoc _ _ \<Rightarrow> True"
        by (simp only: loc.case of_nat_less_iff)
      ultimately show ?thesis using 0 by blast
    next
      case (Suc d')
      have "lo < ?lo" using b by simp
      then have "agree ?lo m m'" using Cons.prems(4) by (auto simp: agree_def)
      then obtain p where p: "envval_from m e d' (int i) = Inr p" "envval_from m' e d' (int i) = Inr p"
        "case p of StkLoc k \<Rightarrow> int ?lo < k \<and> k < int (length (STK m)) | BlkLoc _ _ \<Rightarrow> True"
        using Cons.IH [OF stack(3), of d'] Cons.prems(2,3) Suc by auto
      then show ?thesis
        using Suc stack(1) envval_from_Suc [OF _ frame_next(1) [OF stack(2)]] envval_from_Suc [OF _ frame_next(1) [OF fr]]
          \<open>lo < ?lo\<close> by (intro exI [of _ p]) (auto split: loc.splits)
    qed
  qed
qed simp

lemma store_agree:
  assumes "agree lo m m'" and "case p of StkLoc k \<Rightarrow> int lo < k \<and> k < int (length (STK m)) | BlkLoc _ _ \<Rightarrow> True"
  shows "load m' p = load m p"
    and "store m p x = Inr m1 \<Longrightarrow> \<exists>m1'. store m' p x = Inr m1' \<and> agree lo m1 m1' \<and> (\<forall>i \<le> lo. STK m1' ! i = STK m' ! i)
      \<and> SP m1' = SP m' \<and> IP m1' = IP m'"
proof -
  define s q r where "s = STK m'" and "q = SP m'" and "r = IP m'"
  have m': "m' = m \<lparr> STK := s, SP := q, IP := r \<rparr>" using assms by (simp add: agree_def s_def q_def r_def)
  have s: "length s = length (STK m)" "\<And>i. lo < i \<Longrightarrow> s ! i = STK m ! i" using agreeD(7,8) [OF assms(1)] by (simp_all add: s_def)
  show "load m' p = load m p"
    using assms(2) s by (cases p) (auto simp: m' stk_get_def)
  show "\<exists>m1'. store m' p x = Inr m1' \<and> agree lo m1 m1' \<and> (\<forall>i \<le> lo. STK m1' ! i = STK m' ! i) \<and> SP m1' = SP m' \<and> IP m1' = IP m'"
    if st: "store m p x = Inr m1"
  proof (cases p)
    case (StkLoc k)
    then have k: "lo < nat k" "nat k < length (STK m)" "0 \<le> k" using assms(2) by auto
    then have "m1 = m \<lparr> STK := (STK m)[nat k := x] \<rparr>" using st StkLoc by (simp add: stk_set_def split: if_splits)
    moreover have "store m' p x = Inr (m' \<lparr> STK := s[nat k := x] \<rparr>)"
      using k StkLoc s(1) by (simp add: stk_set_def m')
    moreover have "s[nat k := x] ! i = (STK m)[nat k := x] ! i" if "lo < i" for i
      using s k(2) that by (cases "i = nat k") simp_all
    ultimately show ?thesis using s(1) k by (auto simp: agree_def m')
  next
    case (BlkLoc b i)
    then obtain h where "blk_set (HP m) b i x = Inr h" "m1 = m \<lparr> HP := h \<rparr>" using st by (auto simp: rbind_eq_Inr)
    then show ?thesis using BlkLoc s by (auto simp: m' agree_def)
  qed
qed

lemma getenv_agree:
  assumes "env_rep m lo S (ENVR m) fs" and "d < length fs" and "i < length (fs ! d)" and "agree lo m m'"
  shows "arc_getenv m' d (int i) = arc_getenv m d (int i)"
    and "arc_putenv m d (int i) x = Inr m1 \<Longrightarrow> \<exists>m1'. arc_putenv m' d (int i) x = Inr m1' \<and> agree lo m1 m1'
      \<and> (\<forall>i \<le> lo. STK m1' ! i = STK m' ! i) \<and> SP m1' = SP m' \<and> IP m1' = IP m'"
proof -
  obtain p where p: "envval m d (int i) = Inr p" "envval m' d (int i) = Inr p"
    "case p of StkLoc k \<Rightarrow> int lo < k \<and> k < int (length (STK m)) | BlkLoc _ _ \<Rightarrow> True"
    using walk_env_upto [OF assms] agreeD(4) [OF assms(4)] by (auto simp: envval_eq)
  show "arc_getenv m' d (int i) = arc_getenv m d (int i)"
    using p store_agree(1) [OF assms(4) p(3)] by (simp add: arc_getenv_def)
  show "\<exists>m1'. arc_putenv m' d (int i) x = Inr m1' \<and> agree lo m1 m1' \<and> (\<forall>i \<le> lo. STK m1' ! i = STK m' ! i) \<and> SP m1' = SP m' \<and> IP m1' = IP m'"
    if "arc_putenv m d (int i) x = Inr m1"
    using store_agree(2) [OF assms(4) p(3)] that p by (simp add: arc_putenv_def)
qed


subsection \<open>What evaluation keeps\<close>

text \<open>Arithmetic allocates and leaves existing objects alone.\<close>

definition prims_ok :: "prims \<Rightarrow> bool" where
  "prims_ok P \<longleftrightarrow> (\<forall>f \<in> {p_add2 P, p_sub2 P, p_mul2 P, p_div2 P}. \<forall>h a b v h'.
     heap_ok h \<longrightarrow> f h a b = Inr (v, h') \<longrightarrow> heap_ok h' \<and> (\<forall>x. mem h x \<noteq> None \<longrightarrow> mem h' x = mem h x))"

definition hext :: "heap \<Rightarrow> heap \<Rightarrow> bool" where
  "hext h h' \<longleftrightarrow> (\<forall>x. mem h x \<noteq> None \<longrightarrow> mem h' x = mem h x)"

text \<open>
  What a step of the evaluation may change: the value register, variables, globals and the heap,
  where the cells in \<open>S\<close> stay.
\<close>

definition kept :: "nat \<Rightarrow> nat set \<Rightarrow> machine \<Rightarrow> machine \<Rightarrow> bool" where
  "kept lo S m m' \<longleftrightarrow> m' \<lparr> VALR := VALR m, STK := STK m, HP := HP m, GENV := GENV m \<rparr> = m
     \<and> length (STK m') = length (STK m) \<and> (\<forall>i \<le> lo. STK m' ! i = STK m ! i) \<and> heap_ok (HP m')
     \<and> (\<forall>a \<in> S. mem (HP m) a \<noteq> None \<longrightarrow> mem (HP m') a = mem (HP m) a)"

lemma keptD:
  assumes "kept lo S m m'"
  shows "SP m' = SP m" "ENVR m' = ENVR m" "FUNR m' = FUNR m" "STALE m' = STALE m" "IP m' = IP m" "CONR m' = CONR m"
    "length (STK m') = length (STK m)" "heap_ok (HP m')" "i \<le> lo \<Longrightarrow> STK m' ! i = STK m ! i"
    "a \<in> S \<Longrightarrow> mem (HP m) a = Some ob \<Longrightarrow> mem (HP m') a = Some ob"
proof -
  have e: "m' \<lparr> VALR := VALR m, STK := STK m, HP := HP m, GENV := GENV m \<rparr> = m" using assms by (simp add: kept_def)
  show "SP m' = SP m" "ENVR m' = ENVR m" "FUNR m' = FUNR m" "STALE m' = STALE m" "IP m' = IP m" "CONR m' = CONR m"
    using arg_cong [OF e, of SP] arg_cong [OF e, of ENVR] arg_cong [OF e, of FUNR] arg_cong [OF e, of STALE]
      arg_cong [OF e, of IP] arg_cong [OF e, of CONR] by simp_all
qed (use assms in \<open>auto simp: kept_def\<close>)

lemma kept_refl: "heap_ok (HP m) \<Longrightarrow> kept lo S m m"
  by (simp add: kept_def)

lemma kept_trans: "kept lo S a b \<Longrightarrow> kept lo S b c \<Longrightarrow> kept lo S a c"
proof -
  assume ab: "kept lo S a b" and bc: "kept lo S b c"
  have e: "b \<lparr> VALR := VALR a, STK := STK a, HP := HP a, GENV := GENV a \<rparr> = a"
    "c \<lparr> VALR := VALR b, STK := STK b, HP := HP b, GENV := GENV b \<rparr> = b"
    using ab bc by (simp_all add: kept_def)
  have "c \<lparr> VALR := VALR a, STK := STK a, HP := HP a, GENV := GENV a \<rparr>
      = (c \<lparr> VALR := VALR b, STK := STK b, HP := HP b, GENV := GENV b \<rparr>) \<lparr> VALR := VALR a, STK := STK a, HP := HP a, GENV := GENV a \<rparr>"
    by simp
  also have "\<dots> = a" using e by simp
  finally have "c \<lparr> VALR := VALR a, STK := STK a, HP := HP a, GENV := GENV a \<rparr> = a" .
  then show ?thesis using ab bc unfolding kept_def by (metis not_None_eq)
qed

lemma kept_val: "heap_ok (HP m) \<Longrightarrow> kept lo S m (m \<lparr> VALR := v \<rparr>)"
  by (simp add: kept_def)

lemma kept_heap: "heap_ok h \<Longrightarrow> hext (HP m) h \<Longrightarrow> kept lo S m (m \<lparr> VALR := v, HP := h \<rparr>)"
  by (simp add: kept_def hext_def)

lemma env_hext: "env_rep m lo S v fs \<Longrightarrow> hext (HP m) h \<Longrightarrow> env_rep (m \<lparr> VALR := x, HP := h \<rparr>) lo S v fs"
  by (erule env_rep_cong) (auto simp: hext_def)

lemma env_val: "env_rep (m \<lparr> VALR := x \<rparr>) lo S v fs = env_rep m lo S v fs"
  "env_rep (m \<lparr> GENV := g \<rparr>) lo S v fs = env_rep m lo S v fs"
  by (rule iffI; erule env_rep_cong; simp)+

lemma cons_hext: "heap_ok h \<Longrightarrow> heap_ok (snd (cons h a b)) \<and> hext h (snd (cons h a b))"
  using cons_props [of h a b "fst (cons h a b)" "snd (cons h a b)"] unfolding hext_def heap_ok_def
  by (metis prod.collapse)

lemma exec_cxr_val: "exec_cxr f msg m = ret m' \<Longrightarrow> \<exists>v. m' = m \<lparr> VALR := v \<rparr>"
  by (auto simp: exec_cxr_def setval_def rthen_ret split: if_splits)

lemma op1_val: "op1 i m = ret m' \<Longrightarrow> \<exists>v. m' = m \<lparr> VALR := v \<rparr>"
  by (cases i) (auto dest: exec_cxr_val)

lemma val_kept:
  "heap_ok (HP m) \<Longrightarrow> env_rep m lo S (ENVR m) fs \<Longrightarrow>
    kept lo S m (m \<lparr> VALR := v \<rparr>) \<and> env_rep (m \<lparr> VALR := v \<rparr>) lo S (ENVR (m \<lparr> VALR := v \<rparr>)) fs"
  using kept_val [of m lo S v] by (simp add: env_val del: env_rep.simps)

lemma op1_kept:
  assumes "op1 i m = ret m'" and "heap_ok (HP m)" and "env_rep m lo S (ENVR m) fs"
  shows "kept lo S m m' \<and> env_rep m' lo S (ENVR m') fs"
  using op1_val [OF assms(1)] val_kept [OF assms(2,3)] by blast

lemma op2_cases:
  assumes "op2 P i a m = ret m'"
  shows "(\<exists>vh. m' = setval_heap vh m \<and> (vh = cons (HP m) a (VALR m)
    \<or> (\<exists>f \<in> {p_add2 P, p_sub2 P, p_mul2 P, p_div2 P}. f (HP m) a (VALR m) = Inr vh)))"
proof (cases "i = icons")
  case True
  then show ?thesis using assms by (intro exI [of _ "cons (HP m) a (VALR m)"]) simp
next
  case False
  then show ?thesis using assms by (cases i) (simp_all add: rthen_ret split: if_splits, blast+)
qed

lemma op2_hext:
  assumes "op2 P i a m = ret m'" and "heap_ok (HP m)" and "prims_ok P"
  shows "\<exists>v h. m' = m \<lparr> VALR := v, HP := h \<rparr> \<and> heap_ok h \<and> hext (HP m) h"
proof -
  obtain vh where vh: "m' = setval_heap vh m" "vh = cons (HP m) a (VALR m)
    \<or> (\<exists>f \<in> {p_add2 P, p_sub2 P, p_mul2 P, p_div2 P}. f (HP m) a (VALR m) = Inr vh)"
    using op2_cases [OF assms(1)] by blast
  have "heap_ok (snd vh) \<and> hext (HP m) (snd vh)"
    using vh(2)
  proof
    assume "vh = cons (HP m) a (VALR m)"
    then show ?thesis using cons_hext [OF assms(2)] by simp
  next
    assume "\<exists>f \<in> {p_add2 P, p_sub2 P, p_mul2 P, p_div2 P}. f (HP m) a (VALR m) = Inr vh"
    then obtain f where f: "f \<in> {p_add2 P, p_sub2 P, p_mul2 P, p_div2 P}" "f (HP m) a (VALR m) = Inr (fst vh, snd vh)"
      by (metis prod.collapse)
    then show ?thesis using assms(2,3) unfolding prims_ok_def hext_def by blast
  qed
  then show ?thesis using vh(1) by (auto simp: setval_heap_def)
qed

lemma op2_kept:
  assumes "op2 P i a m = ret m'" and "heap_ok (HP m)" and "env_rep m lo S (ENVR m) fs" and "prims_ok P"
  shows "kept lo S m m' \<and> env_rep m' lo S (ENVR m') fs"
  using op2_hext [OF assms(1,2,4)] kept_heap env_hext [OF assms(3)] by (auto simp del: env_rep.simps)

lemma store_heap_ok: "store m p x = Inr m' \<Longrightarrow> heap_ok (HP m) \<Longrightarrow> heap_ok (HP m')"
proof (cases p)
  case (BlkLoc b i)
  assume a: "store m p x = Inr m'" "heap_ok (HP m)"
  then obtain h where h: "blk_set (HP m) b i x = Inr h" "m' = m \<lparr> HP := h \<rparr>" using BlkLoc by (auto simp: rbind_eq_Inr)
  then obtain c where "b = Ref c" by (cases b) simp_all
  then show ?thesis using h a(2) by (auto intro!: hset_ok split: option.splits obj.splits if_splits)
qed (auto simp: stk_set_def split: if_splits)

lemma putenv_kept:
  assumes "env_rep m lo S (ENVR m) fs" and "d < length fs" and "i < length (fs ! d)" and "heap_ok (HP m)"
  shows "\<exists>m'. arc_putenv m d (int i) x = Inr m' \<and> kept lo S m m' \<and> env_rep m' lo S (ENVR m') (fs[d := (fs ! d)[i := x]])"
proof -
  obtain p m' where p: "envval m d (int i) = Inr p" "store m p x = Inr m'"
    "env_rep m' lo S (ENVR m) (fs[d := (fs ! d)[i := x]])" "length (STK m') = length (STK m)"
    "\<forall>j \<le> lo. STK m' ! j = STK m ! j" "\<forall>a \<in> S. mem (HP m') a = mem (HP m) a" "m' \<lparr> STK := STK m, HP := HP m \<rparr> = m"
    using store_chain [OF assms(1-3), of x] unfolding envval_eq by blast
  have e: "ENVR m' = ENVR m" "VALR m' = VALR m" "GENV m' = GENV m"
    using arg_cong [OF p(7), of ENVR] arg_cong [OF p(7), of VALR] arg_cong [OF p(7), of GENV] by simp_all
  have "m' \<lparr> VALR := VALR m, STK := STK m, HP := HP m, GENV := GENV m \<rparr> = (m' \<lparr> STK := STK m, HP := HP m \<rparr>) \<lparr> VALR := VALR m, GENV := GENV m \<rparr>"
    by simp
  then have "kept lo S m m'" using p store_heap_ok [OF p(2) assms(4)] by (simp add: kept_def)
  then show ?thesis using p e by (auto simp: arc_putenv_def)
qed

lemma scoped_upd: "map length (fs[d := (fs ! d)[i := x]]) = map length fs"
proof (cases "d < length fs")
  case True
  then show ?thesis by (intro nth_equalityI) (auto simp: nth_list_update)
qed (simp add: list_update_beyond)

lemma ev_kept:
  assumes "ev P e m = ret m'" and "env_rep m lo S (ENVR m) fs" and "heap_ok (HP m)" and "prims_ok P"
    and "scoped (map length fs) e"
  shows "\<exists>fs'. kept lo S m m' \<and> env_rep m' lo S (ENVR m') fs' \<and> map length fs' = map length fs"
  using assms(1-3,5)
proof (induction e arbitrary: m m' fs)
  case (CLit v)
  then have "m' = m \<lparr> VALR := v \<rparr>" by (simp add: setval_def)
  then show ?case using val_kept [OF CLit.prems(3,2)] by blast
next
  case CTrue
  then have "m' = m \<lparr> VALR := p_true P \<rparr>" by (simp add: setval_def)
  then show ?case using val_kept [OF CTrue.prems(3,2)] by blast
next
  case (CLocal d i)
  then obtain v where "m' = m \<lparr> VALR := v \<rparr>" by (auto simp: setval_def rthen_ret)
  then show ?case using val_kept [OF CLocal.prems(3,2)] by blast
next
  case (CGlobal y)
  then obtain v where "m' = m \<lparr> VALR := v \<rparr>" by (auto simp: setval_def Let_def split: if_splits)
  then show ?case using val_kept [OF CGlobal.prems(3,2)] by blast
next
  case (CIf c a b)
  then obtain m1 where m1: "ev P c m = ret m1" "(if VALR m1 = NIL then ev P b m1 else ev P a m1) = ret m'"
    by (auto simp: rthen_ret)
  have sc: "scoped (map length fs) c" "scoped (map length fs) a" "scoped (map length fs) b" using CIf.prems(4) by simp_all
  obtain fs1 where fs1: "kept lo S m m1" "env_rep m1 lo S (ENVR m1) fs1" "map length fs1 = map length fs"
    using CIf.IH(1) [OF m1(1) CIf.prems(2,3) sc(1)] by blast
  have "\<exists>fs'. kept lo S m1 m' \<and> env_rep m' lo S (ENVR m') fs' \<and> map length fs' = map length fs1"
  proof (cases "VALR m1 = NIL")
    case True
    then have "ev P b m1 = ret m'" using m1(2) by simp
    then show ?thesis using CIf.IH(3) fs1(2) keptD(8) [OF fs1(1)] sc(3) [folded fs1(3)] by blast
  next
    case False
    then have "ev P a m1 = ret m'" using m1(2) by simp
    then show ?thesis using CIf.IH(2) fs1(2) keptD(8) [OF fs1(1)] sc(2) [folded fs1(3)] by blast
  qed
  then show ?case using kept_trans [OF fs1(1)] fs1(3) by metis
next
  case (CPrim1 i e)
  then obtain m1 where m1: "ev P e m = ret m1" "op1 i m1 = ret m'" by (auto simp: rthen_ret)
  have sc: "scoped (map length fs) e" using CPrim1.prems(4) by simp
  obtain fs1 where fs1: "kept lo S m m1" "env_rep m1 lo S (ENVR m1) fs1" "map length fs1 = map length fs"
    using CPrim1.IH [OF m1(1) CPrim1.prems(2,3) sc] by blast
  then show ?case using op1_kept [OF m1(2) keptD(8) [OF fs1(1)] fs1(2)] kept_trans [OF fs1(1)] by metis
next
  case (CPrim2 i a b)
  then obtain m1 m2 where m1: "ev P a m = ret m1" "ev P b m1 = ret m2" "op2 P i (VALR m1) m2 = ret m'"
    by (auto simp: rthen_ret Let_def)
  have sc: "scoped (map length fs) a" "scoped (map length fs) b" using CPrim2.prems(4) by simp_all
  obtain fs1 where fs1: "kept lo S m m1" "env_rep m1 lo S (ENVR m1) fs1" "map length fs1 = map length fs"
    using CPrim2.IH(1) [OF m1(1) CPrim2.prems(2,3) sc(1)] by blast
  obtain fs2 where fs2: "kept lo S m1 m2" "env_rep m2 lo S (ENVR m2) fs2" "map length fs2 = map length fs"
    using CPrim2.IH(2) [OF m1(2) fs1(2) keptD(8) [OF fs1(1)] sc(2) [folded fs1(3)]] fs1(3) by metis
  note k = kept_trans [OF kept_trans [OF fs1(1) fs2(1)]]
  show ?case using op2_kept [OF m1(3) keptD(8) [OF fs2(1)] fs2(2) assms(4)] k fs2(3) by metis
next
  case (CSetLocal d i e)
  then obtain m1 where m1: "ev P e m = ret m1" "arc_putenv m1 d (int i) (VALR m1) = Inr m'" by (auto simp: rthen_ret)
  have sc: "scoped (map length fs) e" "d < length fs" "i < length (fs ! d)" using CSetLocal.prems(4) by auto
  obtain fs1 where fs1: "kept lo S m m1" "env_rep m1 lo S (ENVR m1) fs1" "map length fs1 = map length fs"
    using CSetLocal.IH [OF m1(1) CSetLocal.prems(2,3) sc(1)] by blast
  have l: "length fs1 = length fs" using map_eq_imp_length_eq [OF fs1(3)] .
  then have d: "d < length fs1" "i < length (fs1 ! d)"
    using sc(2,3) arg_cong [OF fs1(3), of "\<lambda>xs. xs ! d"] by simp_all
  obtain m2 where m2: "arc_putenv m1 d (int i) (VALR m1) = Inr m2" "kept lo S m1 m2"
    "env_rep m2 lo S (ENVR m2) (fs1[d := (fs1 ! d)[i := VALR m1]])"
    using putenv_kept [OF fs1(2) d keptD(8) [OF fs1(1)]] by blast
  then have "m2 = m'" using m1(2) by simp
  then show ?case using m2 kept_trans [OF fs1(1)] scoped_upd fs1(3) by metis
next
  case (CSetGlobal y e)
  then obtain m1 where m1: "ev P e m = ret m1" "m' = m1 \<lparr> GENV := (GENV m1)(y \<mapsto> VALR m1) \<rparr>" by (auto simp: rthen_ret)
  have sc: "scoped (map length fs) e" using CSetGlobal.prems(4) by simp
  obtain fs1 where fs1: "kept lo S m m1" "env_rep m1 lo S (ENVR m1) fs1" "map length fs1 = map length fs"
    using CSetGlobal.IH [OF m1(1) CSetGlobal.prems(2,3) sc] by blast
  have "kept lo S m1 m'" using keptD(8) [OF fs1(1)] m1(2) by (simp add: kept_def)
  moreover have "env_rep m' lo S (ENVR m') fs1" using fs1(2) m1(2) env_val(2) by simp
  ultimately show ?case using kept_trans [OF fs1(1)] fs1(3) by metis
next
  case (CSeq a b)
  then obtain m1 where m1: "ev P a m = ret m1" "ev P b m1 = ret m'" by (auto simp: rthen_ret)
  have sc: "scoped (map length fs) a" "scoped (map length fs) b" using CSeq.prems(4) by simp_all
  obtain fs1 where fs1: "kept lo S m m1" "env_rep m1 lo S (ENVR m1) fs1" "map length fs1 = map length fs"
    using CSeq.IH(1) [OF m1(1) CSeq.prems(2,3) sc(1)] by blast
  show ?case
    using CSeq.IH(2) [OF m1(2) fs1(2) keptD(8) [OF fs1(1)] sc(2) [folded fs1(3)]] kept_trans [OF fs1(1)] fs1(3) by metis
qed


subsection \<open>Evaluation does not depend on the free part of the stack\<close>

lemma agree_form:
  assumes "agree lo m n"
  obtains s p q where "n = m \<lparr> STK := s, SP := p, IP := q \<rparr>" "length s = length (STK m)" "\<And>i. lo < i \<Longrightarrow> s ! i = STK m ! i"
  using assms unfolding agree_def by metis

lemma agreeI: "length s = length (STK m) \<Longrightarrow> (\<And>i. lo < i \<Longrightarrow> s ! i = STK m ! i) \<Longrightarrow> agree lo m (m \<lparr> STK := s, SP := p, IP := q \<rparr>)"
  by (simp add: agree_def)

lemma op1_agree: "op1 i m = ret m1 \<Longrightarrow> agree lo m n \<Longrightarrow> \<exists>n1. op1 i n = ret n1 \<and> agree lo m1 n1"
proof -
  assume a: "op1 i m = ret m1" "agree lo m n"
  have "\<exists>n1. exec_cxr f msg n = ret n1 \<and> agree lo m1 n1" if "exec_cxr f msg m = ret m1" for f msg
    using that agreeD(1,3) [OF a(2)] agree_upd(1) [OF a(2)]
    by (auto simp: exec_cxr_def setval_def rthen_ret split: if_splits)
  then show ?thesis using a(1) by (cases i) simp_all
qed

lemma op2_agree: "op2 P i a m = ret m1 \<Longrightarrow> agree lo m n \<Longrightarrow> \<exists>n1. op2 P i a n = ret n1 \<and> agree lo m1 n1"
proof -
  assume a: "op2 P i a m = ret m1" "agree lo m n"
  have s: "agree lo (setval_heap vh m) (setval_heap vh n)" for vh
    using agree_upd(1,2) a(2) unfolding setval_heap_def by metis
  have "\<exists>n1. rthen (Some (f (HP n) a (VALR n))) (\<lambda>vh. ret (setval_heap vh n)) = ret n1 \<and> agree lo m1 n1"
    if "rthen (Some (f (HP m) a (VALR m))) (\<lambda>vh. ret (setval_heap vh m)) = ret m1" for f
    using that s agreeD(1,3) [OF a(2)] by (auto simp: rthen_ret)
  moreover have "\<exists>n1. op2 P icons a n = ret n1 \<and> agree lo m1 n1" if "i = icons"
    using that a(1) s [of "cons (HP m) a (VALR m)"] agreeD(1,3) [OF a(2)] by simp
  ultimately show ?thesis using a(1) agreeD(1) [OF a(2)] by (cases i) (simp_all split: if_splits)
qed

lemma ev_agree:
  assumes "ev P e m = ret m1" and "env_rep m lo S (ENVR m) fs" and "heap_ok (HP m)" and "prims_ok P"
    and "scoped (map length fs) e" and "agree lo m n"
  shows "\<exists>n1. ev P e n = ret n1 \<and> agree lo m1 n1"
  using assms(1-3,5,6)
proof (induction e arbitrary: m m1 n fs)
  case (CLit v)
  then show ?case using agree_upd(1) by (auto simp: setval_def)
next
  case CTrue
  then show ?case using agree_upd(1) by (auto simp: setval_def)
next
  case (CLocal d i)
  then have "d < length fs" "i < length (fs ! d)" by auto
  then have "arc_getenv n d (int i) = arc_getenv m d (int i)"
    using getenv_agree(1) [OF CLocal.prems(2) _ _ CLocal.prems(5)] by blast
  then show ?case using CLocal.prems(1) agree_upd(1) [OF CLocal.prems(5)] by (auto simp: setval_def rthen_ret)
next
  case (CGlobal y)
  then show ?case using agree_upd(1) [OF CGlobal.prems(5)] agreeD(2) [OF CGlobal.prems(5)]
    by (auto simp: setval_def Let_def split: if_splits)
next
  case (CIf c a b)
  then obtain m2 where m2: "ev P c m = ret m2" "(if VALR m2 = NIL then ev P b m2 else ev P a m2) = ret m1"
    by (auto simp: rthen_ret)
  have sc: "scoped (map length fs) c" "scoped (map length fs) a" "scoped (map length fs) b" using CIf.prems(4) by simp_all
  obtain n2 where n2: "ev P c n = ret n2" "agree lo m2 n2"
    using CIf.IH(1) [OF m2(1) CIf.prems(2,3) sc(1) CIf.prems(5)] by blast
  obtain fs1 where fs1: "kept lo S m m2" "env_rep m2 lo S (ENVR m2) fs1" "map length fs1 = map length fs"
    using ev_kept [OF m2(1) CIf.prems(2,3) assms(4) sc(1)] by blast
  note k = keptD(8) [OF fs1(1)]
  show ?case
  proof (cases "VALR m2 = NIL")
    case True
    then show ?thesis
      using CIf.IH(3) [OF _ fs1(2) k sc(3) [folded fs1(3)] n2(2)] m2(2) n2 agreeD(3) [OF n2(2)] by simp
  next
    case False
    then show ?thesis
      using CIf.IH(2) [OF _ fs1(2) k sc(2) [folded fs1(3)] n2(2)] m2(2) n2 agreeD(3) [OF n2(2)] by simp
  qed
next
  case (CPrim1 i e)
  then obtain m2 where m2: "ev P e m = ret m2" "op1 i m2 = ret m1" by (auto simp: rthen_ret)
  obtain n2 where n2: "ev P e n = ret n2" "agree lo m2 n2"
    using CPrim1.IH [OF m2(1) CPrim1.prems(2,3) _ CPrim1.prems(5)] CPrim1.prems(4) by auto
  then show ?case using op1_agree [OF m2(2) n2(2)] by simp
next
  case (CPrim2 i a b)
  then obtain m2 m3 where m2: "ev P a m = ret m2" "ev P b m2 = ret m3" "op2 P i (VALR m2) m3 = ret m1"
    by (auto simp: rthen_ret Let_def)
  have sc: "scoped (map length fs) a" "scoped (map length fs) b" using CPrim2.prems(4) by simp_all
  obtain n2 where n2: "ev P a n = ret n2" "agree lo m2 n2"
    using CPrim2.IH(1) [OF m2(1) CPrim2.prems(2,3) sc(1) CPrim2.prems(5)] by blast
  obtain fs1 where fs1: "kept lo S m m2" "env_rep m2 lo S (ENVR m2) fs1" "map length fs1 = map length fs"
    using ev_kept [OF m2(1) CPrim2.prems(2,3) assms(4) sc(1)] by blast
  obtain n3 where n3: "ev P b n2 = ret n3" "agree lo m3 n3"
    using CPrim2.IH(2) [OF m2(2) fs1(2) keptD(8) [OF fs1(1)] sc(2) [folded fs1(3)] n2(2)] by blast
  show ?case using op2_agree [OF m2(3) n3(2)] n2(1) n3(1) agreeD(3) [OF n2(2)] by simp
next
  case (CSetLocal d i e)
  then obtain m2 where m2: "ev P e m = ret m2" "arc_putenv m2 d (int i) (VALR m2) = Inr m1" by (auto simp: rthen_ret)
  have sc: "scoped (map length fs) e" "d < length fs" "i < length (fs ! d)" using CSetLocal.prems(4) by auto
  obtain n2 where n2: "ev P e n = ret n2" "agree lo m2 n2"
    using CSetLocal.IH [OF m2(1) CSetLocal.prems(2,3) sc(1) CSetLocal.prems(5)] by blast
  obtain fs1 where fs1: "kept lo S m m2" "env_rep m2 lo S (ENVR m2) fs1" "map length fs1 = map length fs"
    using ev_kept [OF m2(1) CSetLocal.prems(2,3) assms(4) sc(1)] by blast
  have d: "d < length fs1" "i < length (fs1 ! d)"
    using sc(2,3) map_eq_imp_length_eq [OF fs1(3)] arg_cong [OF fs1(3), of "\<lambda>xs. xs ! d"] by simp_all
  show ?case using getenv_agree(2) [OF fs1(2) d n2(2) m2(2)] n2(1) agreeD(3) [OF n2(2)] by auto
next
  case (CSetGlobal y e)
  then obtain m2 where m2: "ev P e m = ret m2" "m1 = m2 \<lparr> GENV := (GENV m2)(y \<mapsto> VALR m2) \<rparr>" by (auto simp: rthen_ret)
  obtain n2 where n2: "ev P e n = ret n2" "agree lo m2 n2"
    using CSetGlobal.IH [OF m2(1) CSetGlobal.prems(2,3) _ CSetGlobal.prems(5)] CSetGlobal.prems(4) by auto
  then show ?case using agree_upd(3) [OF n2(2)] agreeD(2,3) [OF n2(2)] m2(2) by simp
next
  case (CSeq a b)
  then obtain m2 where m2: "ev P a m = ret m2" "ev P b m2 = ret m1" by (auto simp: rthen_ret)
  have sc: "scoped (map length fs) a" "scoped (map length fs) b" using CSeq.prems(4) by simp_all
  obtain n2 where n2: "ev P a n = ret n2" "agree lo m2 n2"
    using CSeq.IH(1) [OF m2(1) CSeq.prems(2,3) sc(1) CSeq.prems(5)] by blast
  obtain fs1 where fs1: "kept lo S m m2" "env_rep m2 lo S (ENVR m2) fs1" "map length fs1 = map length fs"
    using ev_kept [OF m2(1) CSeq.prems(2,3) assms(4) sc(1)] by blast
  show ?case using CSeq.IH(2) [OF m2(2) fs1(2) keptD(8) [OF fs1(1)] sc(2) [folded fs1(3)] n2(2)] n2(1) by simp
qed


subsection \<open>The code of an expression\<close>

abbreviation word :: "vminst \<Rightarrow> val" where
  "word i \<equiv> Fix (opcode i)"

text \<open>In tail position the code ends with the return instruction.\<close>

definition fin :: "bool \<Rightarrow> val list \<Rightarrow> val list" where
  "fin k c = c @ (if k then [word iret] else [])"

inductive codes :: "val list \<Rightarrow> bool \<Rightarrow> cx \<Rightarrow> val list \<Rightarrow> bool" for L where
  nil: "codes L k (CLit NIL) (fin k [word inil])"
| true: "codes L k CTrue (fin k [word itrue])"
| fix_lit: "codes L k (CLit (Fix i)) (fin k [word ildi, Fix i])"
| lit: "n < length L \<Longrightarrow> L ! n = v \<Longrightarrow> codes L k (CLit v) (fin k [word ildl, Fix (int n)])"
| local0: "codes L k (CLocal 0 i) (fin k [word ilde0, Fix (int i)])"
| local: "codes L k (CLocal d i) (fin k [word ilde, Fix (int d), Fix (int i)])"
| global: "n < length L \<Longrightarrow> L ! n = y \<Longrightarrow> codes L k (CGlobal y) (fin k [word ildg, Fix (int n)])"
| ifte: "codes L False c cc \<Longrightarrow> codes L False a ca \<Longrightarrow> codes L k b cb \<Longrightarrow>
    codes L k (CIf c a b) (fin k (cc @ [word ijf, Fix (int (length ca) + 4)] @ ca @ [word ijmp, Fix (int (length cb) + 2)] @ cb))"
| prim1: "i \<in> {icar, icdr} \<Longrightarrow> codes L False e ce \<Longrightarrow> codes L k (CPrim1 i e) (fin k (ce @ [word i]))"
| prim2: "i \<in> {icons, iadd, isub, imul, idiv} \<Longrightarrow> codes L False a ca \<Longrightarrow> codes L False b cb \<Longrightarrow>
    codes L k (CPrim2 i a b) (fin k (ca @ [word ipush] @ cb @ [word i]))"
| set0: "codes L False e ce \<Longrightarrow> codes L k (CSetLocal 0 i e) (fin k (ce @ [word iste0, Fix (int i)]))"
| set: "codes L False e ce \<Longrightarrow> codes L k (CSetLocal d i e) (fin k (ce @ [word iste, Fix (int d), Fix (int i)]))"
| setg: "codes L False e ce \<Longrightarrow> n < length L \<Longrightarrow> L ! n = y \<Longrightarrow> codes L k (CSetGlobal y e) (fin k (ce @ [word istg, Fix (int n)]))"
| seq: "codes L False a ca \<Longrightarrow> codes L k b cb \<Longrightarrow> codes L k (CSeq a b) (ca @ cb)"

text \<open>The words from \<open>pc\<close> on.\<close>

definition words_at :: "val list \<Rightarrow> nat \<Rightarrow> val list \<Rightarrow> bool" where
  "words_at ws pc code \<longleftrightarrow> pc + length code \<le> length ws \<and> take (length code) (drop pc ws) = code"

lemma words_at_Nil [simp]: "words_at ws pc [] \<longleftrightarrow> pc \<le> length ws"
  by (simp add: words_at_def)

lemma words_at_append [simp]: "words_at ws pc (a @ b) \<longleftrightarrow> words_at ws pc a \<and> words_at ws (pc + length a) b"
  by (auto simp: words_at_def take_add add.commute add.left_commute)

lemma words_at_Cons [simp]: "words_at ws pc (x # xs) \<longleftrightarrow> pc < length ws \<and> ws ! pc = x \<and> words_at ws (Suc pc) xs"
proof (cases "pc < length ws")
  case True
  then have "drop pc ws = ws ! pc # drop (Suc pc) ws" by (simp add: Cons_nth_drop_Suc)
  then show ?thesis using True by (auto simp: words_at_def)
qed (auto simp: words_at_def)

definition runs :: "prims \<Rightarrow> machine \<Rightarrow> machine \<Rightarrow> bool" where
  "runs P = (\<lambda>a b. vm_step P a = ret (None, b))\<^sup>*\<^sup>*"

lemma runs_refl: "runs P m m"
  by (simp add: runs_def)

lemma runs_trans: "runs P a b \<Longrightarrow> runs P b c \<Longrightarrow> runs P a c"
  unfolding runs_def by (rule rtranclp_trans)

lemma runs_step: "runs P a b \<Longrightarrow> vm_step P b = ret (None, c) \<Longrightarrow> runs P a c"
  unfolding runs_def by (rule rtranclp.rtrancl_into_rtrancl)

lemma step_at:
  assumes "IP m = IPP (Ref w) (int pc)" and "mem (HP m) w = Some (OBlk ty ws)" and "words_at ws pc (word i # xs)"
  shows "vm_step P m = exec P i (m \<lparr> IP := IPP (Ref w) (int (Suc pc)) \<rparr>)"
  using fetch_nat [OF assms(1,2), of "opcode i"] assms(3) by (simp add: vm_step_def decode_opcode del: of_nat_Suc)

text \<open>What running code needs: the code object, the environment and a usable stack.\<close>

definition code_ctx :: "machine \<Rightarrow> nat \<Rightarrow> val list \<Rightarrow> val list \<Rightarrow> nat set \<Rightarrow> bool" where
  "code_ctx m w ws L S \<longleftrightarrow> (\<exists>cl co r src Lits. FUNR m = Ref cl \<and> {w, cl, co} \<subseteq> S
     \<and> mem (HP m) w = Some (OBlk T_VECTOR ws) \<and> mem (HP m) cl = Some (OBlk T_CLOS (Ref co # r))
     \<and> mem (HP m) co = Some (OBlk T_CODE (Ref w # src # Lits)) \<and> prefix L Lits)"

definition base :: "nat \<Rightarrow> val list \<Rightarrow> val list \<Rightarrow> nat set \<Rightarrow> machine \<Rightarrow> val list list \<Rightarrow> bool" where
  "base w ws L S m fs \<longleftrightarrow> code_ctx m w ws L S \<and> env_rep m (SP m) S (ENVR m) fs
     \<and> SP m < length (STK m) \<and> \<not> STALE m \<and> heap_ok (HP m)"

lemma base_kept:
  assumes "base w ws L S m fs" and "ev P e m = ret m1" and "prims_ok P" and "scoped (map length fs) e"
  shows "\<exists>fs'. map length fs' = map length fs \<and> kept (SP m) S m m1 \<and> base w ws L S m1 fs'"
proof -
  note b = assms(1) [unfolded base_def]
  obtain fs' where fs': "kept (SP m) S m m1" "env_rep m1 (SP m) S (ENVR m1) fs'" "map length fs' = map length fs"
    using ev_kept [OF assms(2) _ _ assms(3,4), of "SP m" S] b by blast
  note k = keptD [OF fs'(1)]
  have "code_ctx m1 w ws L S"
  proof -
    obtain cl co r src Lits where c: "FUNR m = Ref cl" "{w, cl, co} \<subseteq> S"
      "mem (HP m) w = Some (OBlk T_VECTOR ws)" "mem (HP m) cl = Some (OBlk T_CLOS (Ref co # r))"
      "mem (HP m) co = Some (OBlk T_CODE (Ref w # src # Lits))" "prefix L Lits"
      using b unfolding code_ctx_def by blast
    have "FUNR m1 = Ref cl" using k(3) c(1) by simp
    moreover have "mem (HP m1) w = Some (OBlk T_VECTOR ws)" "mem (HP m1) cl = Some (OBlk T_CLOS (Ref co # r))"
      "mem (HP m1) co = Some (OBlk T_CODE (Ref w # src # Lits))" using k(10) c(2-5) by auto
    ultimately show ?thesis using c(2,6) unfolding code_ctx_def by blast
  qed
  then show ?thesis using fs' b k unfolding base_def by (auto simp del: env_rep.simps)
qed

lemma base_agree:
  assumes "base w ws L S m fs" and "agree (SP m) m n" and "SP n \<le> SP m"
  shows "base w ws L S n fs"
proof -
  note b = assms(1) [unfolded base_def] and a = agreeD [OF assms(2)]
  have "env_rep n (SP n) S (ENVR n) fs"
    using env_rep_lower [OF agree_env [OF assms(2)], of S "ENVR m" fs "SP n" S] b assms(3) a(4) by simp
  moreover have "code_ctx n w ws L S" using b a(1,5) by (simp add: code_ctx_def)
  ultimately show ?thesis using b a assms(3) by (simp add: base_def del: env_rep.simps)
qed

lemma agree_trans: "agree lo a b \<Longrightarrow> agree lo' b c \<Longrightarrow> lo' \<le> lo \<Longrightarrow> agree lo a c"
proof -
  assume ab: "agree lo a b" and bc: "agree lo' b c" and l: "lo' \<le> lo"
  obtain s p q where b: "b = a \<lparr> STK := s, SP := p, IP := q \<rparr>" "length s = length (STK a)" "\<And>i. lo < i \<Longrightarrow> s ! i = STK a ! i"
    using agree_form [OF ab] by metis
  obtain s' p' q' where c: "c = b \<lparr> STK := s', SP := p', IP := q' \<rparr>" "length s' = length (STK b)" "\<And>i. lo' < i \<Longrightarrow> s' ! i = STK b ! i"
    using agree_form [OF bc] by metis
  have "agree lo a (a \<lparr> STK := s', SP := p', IP := q' \<rparr>)"
    using b c l by (intro agreeI) auto
  then show ?thesis using b(1) c(1) by simp
qed

lemma agree_ip: "agree lo m n \<Longrightarrow> agree lo m (n \<lparr> IP := q \<rparr>)" "agree lo m n \<Longrightarrow> agree lo m (n \<lparr> SP := p \<rparr>)"
proof -
  assume a: "agree lo m n"
  obtain s p' q' where n: "n = m \<lparr> STK := s, SP := p', IP := q' \<rparr>" "length s = length (STK m)" "\<And>i. lo < i \<Longrightarrow> s ! i = STK m ! i"
    using agree_form [OF a] by metis
  show "agree lo m (n \<lparr> IP := q \<rparr>)" "agree lo m (n \<lparr> SP := p \<rparr>)"
    using n by (auto simp: agree_def)
qed

text \<open>Running the code of one expression up to \<open>q\<close>.\<close>

definition reaches :: "prims \<Rightarrow> nat \<Rightarrow> machine \<Rightarrow> machine \<Rightarrow> nat \<Rightarrow> bool" where
  "reaches P w m m1 q \<longleftrightarrow> (\<exists>n. runs P m n \<and> agree (SP m) m1 n \<and> SP n = SP m \<and> IP n = IPP (Ref w) (int q))"


lemma reaches_runs: "runs P m n \<Longrightarrow> agree (SP m) m1 n \<Longrightarrow> SP n = SP m \<Longrightarrow> IP n = IPP (Ref w) (int q) \<Longrightarrow> reaches P w m m1 q"
  unfolding reaches_def by blast

lemma reaches_step:
  assumes "runs P m n" and "IP n = IPP (Ref w) (int pc)" and "code_ctx n w ws L S" and "words_at ws pc (word i # xs)"
    and "exec P i (n \<lparr> IP := IPP (Ref w) (int (Suc pc)) \<rparr>) = ret (None, n')"
  shows "runs P m n'"
proof -
  have "mem (HP n) w = Some (OBlk T_VECTOR ws)" using assms(3) by (auto simp: code_ctx_def)
  then show ?thesis using runs_step [OF assms(1)] step_at [OF assms(2) _ assms(4), of T_VECTOR P] assms(5) by simp
qed

text \<open>The operand of an instruction.\<close>

lemma fetch_at:
  assumes "code_ctx n w ws L S" and "words_at ws pc (Fix j # xs)"
  shows "fetch_int (n \<lparr> IP := IPP (Ref w) (int pc) \<rparr>) = ret (j, n \<lparr> IP := IPP (Ref w) (int (Suc pc)) \<rparr>)"
  using assms fetch_nat [of "n \<lparr> IP := IPP (Ref w) (int pc) \<rparr>" w pc T_VECTOR ws j]
  by (auto simp: code_ctx_def simp del: of_nat_Suc)

lemma fetch_word_at:
  assumes "code_ctx n w ws L S" and "words_at ws pc (x # xs)"
  shows "fetch (n \<lparr> IP := IPP (Ref w) (int pc) \<rparr>) = ret (x, n \<lparr> IP := IPP (Ref w) (int (Suc pc)) \<rparr>)"
  using assms by (auto simp: code_ctx_def fetch_def blk_get_def add.commute)

lemma code_ctx_ip [simp]: "code_ctx (n \<lparr> IP := q \<rparr>) w ws L S = code_ctx n w ws L S"
  by (simp add: code_ctx_def)

lemma literal_at:
  assumes "code_ctx n w ws L S" and "i < length L"
  shows "code_literal n (int i) = Inr (L ! i)"
proof -
  obtain cl co r src Lits where c: "FUNR n = Ref cl" "mem (HP n) cl = Some (OBlk T_CLOS (Ref co # r))"
    "mem (HP n) co = Some (OBlk T_CODE (Ref w # src # Lits))" "prefix L Lits"
    using assms(1) unfolding code_ctx_def by blast
  have "i < length Lits" "Lits ! i = L ! i"
    using c(4) assms(2) by (auto simp: prefix_def nth_append)
  then show ?thesis using c(1-3) by (simp add: code_literal_def blk_get_def nat_add_distrib)
qed

text \<open>
  Instructions that load a value: the machine goes on behind them with the value in the register,
  and this is what \<open>ev\<close> gives.
\<close>

lemma load_reaches:
  assumes "base w ws L S m fs" and "IP m = IPP (Ref w) (int pc)" and "words_at ws pc (word i # args)"
    and "exec P i (m \<lparr> IP := IPP (Ref w) (int (Suc pc)) \<rparr>) = ret (None, m \<lparr> VALR := v, IP := IPP (Ref w) (int q) \<rparr>)"
  shows "reaches P w m (setval v m) q"
proof -
  have "code_ctx m w ws L S" using assms(1) by (simp add: base_def)
  from reaches_step [OF runs_refl assms(2) this assms(3,4)]
  have "runs P m (m \<lparr> VALR := v, IP := IPP (Ref w) (int q) \<rparr>)" .
  moreover have "agree (SP m) (setval v m) (m \<lparr> VALR := v, IP := IPP (Ref w) (int q) \<rparr>)"
    by (simp add: setval_def agree_def)
  ultimately show ?thesis by (rule reaches_runs) simp_all
qed

text \<open>The state after an expression, seen from the machine that ran its code.\<close>

lemma reaches_next:
  assumes "base w ws L S m fs" and "ev P e m = ret m1" and "prims_ok P" and "scoped (map length fs) e" and "reaches P w m m1 q"
  obtains n fs' where "runs P m n" "agree (SP m) m1 n" "SP n = SP m" "IP n = IPP (Ref w) (int q)" "base w ws L S n fs'"
    "map length fs' = map length fs" "base w ws L S m1 fs'" "SP m1 = SP m"
proof -
  obtain fs' where f: "map length fs' = map length fs" "kept (SP m) S m m1" "base w ws L S m1 fs'"
    using base_kept [OF assms(1-4)] by blast
  obtain n where n: "runs P m n" "agree (SP m) m1 n" "SP n = SP m" "IP n = IPP (Ref w) (int q)"
    using assms(5) unfolding reaches_def by blast
  have sp: "SP m1 = SP m" using keptD(1) [OF f(2)] .
  have "base w ws L S n fs'" using base_agree [OF f(3)] n(2,3) sp by simp
  then show ?thesis using that n f sp by blast
qed

lemma reaches_trans:
  assumes "runs P m n" and "SP n = SP m" and "reaches P w n n1 q" and "agree (SP m) m1 n1"
  shows "reaches P w m m1 q"
proof -
  obtain n2 where n2: "runs P n n2" "agree (SP n) n1 n2" "SP n2 = SP n" "IP n2 = IPP (Ref w) (int q)"
    using assms(3) unfolding reaches_def by blast
  show ?thesis
    using runs_trans [OF assms(1) n2(1)] agree_trans [OF assms(4) n2(2)] n2(3,4) assms(2) by (intro reaches_runs) simp_all
qed

lemma pop_run:
  assumes "SP n + 1 < length (STK n)" and "\<not> STALE n"
  shows "CPOP n = ret (STK n ! (SP n + 1), n \<lparr> SP := SP n + 1 \<rparr>)"
  using CPOP_room [OF assms] .

lemma exec_op2:
  assumes "i \<in> {icons, iadd, isub, imul, idiv}" and "CPOP n = ret (x, n')" and "op2 P i x n' = ret n''"
  shows "exec P i n = ret (None, n'')"
  using assms by (auto simp: exec_def go_def exec_cons_def exec_add_def exec_arith2_def Let_def rthen_ret split: if_splits)

lemma exec_op1: "i \<in> {icar, icdr} \<Longrightarrow> op1 i n = ret n' \<Longrightarrow> exec P i n = ret (None, n')"
  by (auto simp: exec_def go_def)

lemma op1_fields: "op1 i m = ret m' \<Longrightarrow> SP m' = SP m \<and> IP m' = IP m"
  using op1_val by fastforce

lemma op2_fields: "op2 P i a m = ret m' \<Longrightarrow> SP m' = SP m \<and> IP m' = IP m"
  using op2_cases [of P i a m m'] by (auto simp: setval_heap_def)


subsection \<open>Running the code of an expression\<close>

definition ends :: "bool \<Rightarrow> val list \<Rightarrow> nat \<Rightarrow> nat \<Rightarrow> bool" where
  "ends k ws q q' \<longleftrightarrow> (if k then q' < length ws \<and> ws ! q' = word iret else q' = q)"

lemma fin_reaches:
  "reaches P w m m1 (pc + length c) \<Longrightarrow> words_at ws pc (fin k c) \<Longrightarrow>
    \<exists>q. reaches P w m m1 q \<and> ends k ws (pc + length (fin k c)) q"
  by (cases k) (auto simp: fin_def ends_def)

lemma ends_fin:
  assumes "reaches P w m m1 q" and "ends k ws (pc + length c) q" and "words_at ws pc (fin k c)"
  shows "\<exists>q. reaches P w m m1 q \<and> ends k ws (pc + length (fin k c)) q"
  using assms by (cases k) (auto simp: fin_def ends_def)

lemma words_fin: "words_at ws pc (fin k c) \<Longrightarrow> words_at ws pc c"
  by (simp add: fin_def)

text \<open>One more instruction after an expression, which changes neither stack nor place.\<close>

lemma then_op:
  assumes "base w ws L S m fs" and "ev P e m = ret m1" and "prims_ok P" and "scoped (map length fs) e"
    and "reaches P w m m1 q" and "words_at ws q (word i # args)"
    and "\<And>n fs'. base w ws L S n fs' \<Longrightarrow> agree (SP m) m1 n \<Longrightarrow> map length fs' = map length fs \<Longrightarrow> base w ws L S m1 fs' \<Longrightarrow> SP n = SP m \<Longrightarrow>
      \<exists>n'. exec P i (n \<lparr> IP := IPP (Ref w) (int (Suc q)) \<rparr>) = ret (None, n') \<and> agree (SP m) m2 n' \<and> SP n' = SP m
        \<and> IP n' = IPP (Ref w) (int q')"
  shows "reaches P w m m2 q'"
proof -
  obtain n fs' where n: "runs P m n" "agree (SP m) m1 n" "SP n = SP m" "IP n = IPP (Ref w) (int q)" "base w ws L S n fs'"
    "map length fs' = map length fs" "base w ws L S m1 fs'"
    using reaches_next [OF assms(1-5)] by blast
  obtain n' where n': "exec P i (n \<lparr> IP := IPP (Ref w) (int (Suc q)) \<rparr>) = ret (None, n')" "agree (SP m) m2 n'" "SP n' = SP m"
    "IP n' = IPP (Ref w) (int q')"
    using assms(7) [OF n(5,2,6,7,3)] by blast
  have "code_ctx n w ws L S" using n(5) by (simp add: base_def)
  then show ?thesis using reaches_step [OF n(1,4) _ assms(6) n'(1)] n'(2-4) by (intro reaches_runs)
qed

lemma jump_exec:
  assumes "code_ctx n w ws L S" and "words_at ws p (Fix (int d) # xs)" and "1 \<le> p" and "2 \<le> d"
  shows "exec_jmp t (n \<lparr> IP := IPP (Ref w) (int p) \<rparr>) =
    ret (n \<lparr> IP := IPP (Ref w) (int (if t (n \<lparr> IP := IPP (Ref w) (int (Suc p)) \<rparr>) then p + d - 1 else Suc p)) \<rparr>)"
  using fetch_at [OF assms(1,2)] assms(3,4) by (simp add: exec_jmp_def jump_by_def of_nat_diff)

text \<open>A variable is read and written at its place.\<close>

lemma base_env: "base w ws L S m fs \<Longrightarrow> env_rep m (SP m) S (ENVR m) fs"
  by (simp add: base_def)

lemma base_ip: "base w ws L S n fs \<Longrightarrow> base w ws L S (n \<lparr> IP := q \<rparr>) fs"
  by (erule base_agree) (simp_all add: agree_def)

lemma env0_base:
  assumes "base w ws L S n fs" and "0 < length fs" and "i < length (fs ! 0)"
  shows "arc_getenv0 n (int i) = arc_getenv n 0 (int i)" "arc_putenv0 n (int i) x = arc_putenv n 0 (int i) x"
proof -
  obtain f fs' where f: "fs = f # fs'" using assms(2) by (cases fs) auto
  then have "env_rep n (SP n) S (ENVR n) (f # fs')" using base_env [OF assms(1)] by simp
  then show "arc_getenv0 n (int i) = arc_getenv n 0 (int i)" "arc_putenv0 n (int i) x = arc_putenv n 0 (int i) x"
    using env0_eq [of n "SP n" S f fs' i] assms(3) f by simp_all
qed

lemma get_ip:
  assumes "base w ws L S n fs" and "d < length fs" and "i < length (fs ! d)"
  shows "arc_getenv (n \<lparr> IP := q \<rparr>) d (int i) = arc_getenv n d (int i)"
  by (rule getenv_agree(1) [OF base_env [OF assms(1)] assms(2,3)]) (simp add: agree_def)

lemma local_exec:
  assumes "base w ws L S n fs" and "d < length fs" and "i < length (fs ! d)" and "arc_getenv n d (int i) = Inr v"
    and "words_at ws p (if d = 0 \<and> b then [Fix (int i)] else [Fix (int d), Fix (int i)])"
  shows "exec P (if d = 0 \<and> b then ilde0 else ilde) (n \<lparr> IP := IPP (Ref w) (int p) \<rparr>) =
    ret (None, n \<lparr> VALR := v, IP := IPP (Ref w) (int (p + (if d = 0 \<and> b then 1 else 2))) \<rparr>)"
proof -
  have cc: "code_ctx n w ws L S" using assms(1) by (simp add: base_def)
  have g: "arc_getenv (n \<lparr> IP := q \<rparr>) d (int i) = Inr v" for q using get_ip [OF assms(1-3)] assms(4) by simp
  show ?thesis
  proof (cases "d = 0 \<and> b")
    case True
    then have "words_at ws p [Fix (int i)]" using assms(5) by simp
    then have f: "fetch_int (n \<lparr> IP := IPP (Ref w) (int p) \<rparr>) = ret (int i, n \<lparr> IP := IPP (Ref w) (int (Suc p)) \<rparr>)"
      by (rule fetch_at [OF cc])
    have "arc_getenv0 (n \<lparr> IP := IPP (Ref w) (int (Suc p)) \<rparr>) (int i) = Inr v"
      using env0_base(1) [OF base_ip [OF assms(1)]] assms(2,3) g True by simp
    then show ?thesis using True f by (simp add: exec_def go_def exec_lde0_def setval_def del: of_nat_Suc)
  next
    case False
    then have w: "words_at ws p (Fix (int d) # [Fix (int i)])" using assms(5) by (subst (asm) if_not_P [OF False])
    then have w2: "words_at ws (Suc p) [Fix (int i)]" by simp
    show ?thesis unfolding if_not_P [OF False] using fetch_at [OF cc w] fetch_at [OF cc w2] g
      by (simp add: exec_def go_def exec_lde_def setval_def rthen_ret del: of_nat_Suc)
  qed
qed

lemma set_exec:
  assumes "base w ws L S n fs" and "d < length fs" and "i < length (fs ! d)"
    and "base w ws L S m1 fs" and "agree lo m1 n" and "arc_putenv m1 d (int i) (VALR m1) = Inr m2" and "lo = SP m1"
    and "words_at ws p (if d = 0 \<and> b then [Fix (int i)] else [Fix (int d), Fix (int i)])"
  shows "\<exists>n'. exec P (if d = 0 \<and> b then iste0 else iste) (n \<lparr> IP := IPP (Ref w) (int p) \<rparr>) = ret (None, n')
    \<and> agree lo m2 n' \<and> SP n' = SP n \<and> IP n' = IPP (Ref w) (int (p + (if d = 0 \<and> b then 1 else 2)))"
proof -
  have cc: "code_ctx n w ws L S" using assms(1) by (simp add: base_def)
  have g: "\<exists>n'. arc_putenv (n \<lparr> IP := q \<rparr>) d (int i) (VALR n) = Inr n' \<and> agree lo m2 n' \<and> SP n' = SP n \<and> IP n' = q" for q
    using getenv_agree(2) [OF base_env [OF assms(4)] assms(2,3), of "n \<lparr> IP := q \<rparr>" "VALR m1" m2]
      agree_ip(1) [OF assms(5)] assms(6,7) agreeD(3) [OF assms(5)] by auto
  show ?thesis
  proof (cases "d = 0 \<and> b")
    case True
    then have "words_at ws p [Fix (int i)]" using assms(8) by simp
    then have f: "fetch_int (n \<lparr> IP := IPP (Ref w) (int p) \<rparr>) = ret (int i, n \<lparr> IP := IPP (Ref w) (int (Suc p)) \<rparr>)"
      by (rule fetch_at [OF cc])
    have "arc_putenv0 (n \<lparr> IP := IPP (Ref w) (int (Suc p)) \<rparr>) (int i) x = arc_putenv (n \<lparr> IP := IPP (Ref w) (int (Suc p)) \<rparr>) 0 (int i) x" for x
      using env0_base(2) [OF base_ip [OF assms(1)]] assms(2,3) True by simp
    then show ?thesis using True f g [of "IPP (Ref w) (int (Suc p))"]
      by (auto simp: exec_def go_def exec_ste0_def rthen_ret simp del: of_nat_Suc)
  next
    case False
    then have w: "words_at ws p (Fix (int d) # [Fix (int i)])" using assms(8) by (subst (asm) if_not_P [OF False])
    then have w2: "words_at ws (Suc p) [Fix (int i)]" by simp
    show ?thesis unfolding if_not_P [OF False] using fetch_at [OF cc w] fetch_at [OF cc w2] g [of "IPP (Ref w) (int (Suc (Suc p)))"]
      by (auto simp: exec_def go_def exec_ste_def rthen_ret simp del: of_nat_Suc)
  qed
qed


subsection \<open>Compiled code computes what the expression means\<close>

text \<open>Going on with another expression after one whose code has run.\<close>

lemma go_on:
  assumes "base w ws L S m2 fs2" and "agree (SP m) m2 n" and "SP n = SP m" and "SP m2 = SP m" and "runs P m n"
    and "IP n = IPP (Ref w) (int pc)" and "ev P b m2 = ret m1" and "prims_ok P" and "scoped (map length fs2) b" and "depth b < SP m"
    and ih: "\<And>n n1 fs. base w ws L S n fs \<Longrightarrow> ev P b n = ret n1 \<Longrightarrow> IP n = IPP (Ref w) (int pc) \<Longrightarrow>
      scoped (map length fs) b \<Longrightarrow> depth b < SP n \<Longrightarrow> \<exists>q. reaches P w n n1 q \<and> X q"
  shows "\<exists>q. reaches P w m m1 q \<and> X q"
proof -
  have bn: "base w ws L S n fs2" using base_agree [OF assms(1)] assms(2-4) by simp
  obtain n1 where n1: "ev P b n = ret n1" "agree (SP m) m1 n1"
    using ev_agree [OF assms(7) base_env [OF assms(1)] _ assms(8,9)] assms(1,2,4) by (auto simp: base_def simp del: env_rep.simps)
  obtain q where q: "reaches P w n n1 q" "X q" using ih [OF bn n1(1) assms(6,9)] assms(3,10) by auto
  then show ?thesis using reaches_trans [OF assms(5,3) q(1) n1(2)] by blast
qed

lemma scoped_frames: "map length fs' = map length fs \<Longrightarrow> scoped (map length fs) e \<Longrightarrow> scoped (map length fs') e"
  by simp

text \<open>A conditional: after the test, one of the branches.\<close>

lemma test_jump:
  assumes "base w ws L S m fs" and "ev P c m = ret m2" and "prims_ok P" and "scoped (map length fs) c"
    and "reaches P w m m2 q" and "words_at ws q [word ijf, Fix (int d)]" and "2 \<le> d"
  obtains n fs2 where "runs P m n" "agree (SP m) m2 n" "SP n = SP m"
    "IP n = IPP (Ref w) (int (if VALR m2 = NIL then q + d else q + 2))" "base w ws L S m2 fs2"
    "map length fs2 = map length fs" "SP m2 = SP m"
proof -
  obtain n fs2 where n: "runs P m n" "agree (SP m) m2 n" "SP n = SP m" "IP n = IPP (Ref w) (int q)" "base w ws L S n fs2"
    "map length fs2 = map length fs" "base w ws L S m2 fs2" "SP m2 = SP m"
    using reaches_next [OF assms(1-5)] by blast
  have cc: "code_ctx n w ws L S" using n(5) by (simp add: base_def)
  let ?n = "n \<lparr> IP := IPP (Ref w) (int (if VALR m2 = NIL then q + d else q + 2)) \<rparr>"
  have wj: "words_at ws (Suc q) (Fix (int d) # [])" using assms(6) by simp
  have "exec P ijf (n \<lparr> IP := IPP (Ref w) (int (Suc q)) \<rparr>) = ret (None, ?n)"
    using jump_exec [OF cc wj _ assms(7), of "\<lambda>m. VALR m = NIL"] agreeD(3) [OF n(2)]
    by (simp add: exec_def go_def rthen_ret del: of_nat_Suc of_nat_add)
  then have "runs P m ?n" using reaches_step [OF n(1,4) cc assms(6)] by blast
  then show ?thesis using that [of ?n fs2] n agree_ip(1) [OF n(2)] by simp
qed

definition code_ok :: "prims \<Rightarrow> nat \<Rightarrow> val list \<Rightarrow> val list \<Rightarrow> nat set \<Rightarrow> bool \<Rightarrow> cx \<Rightarrow> val list \<Rightarrow> bool" where
  "code_ok P w ws L S k e c \<longleftrightarrow> (\<forall>m m1 fs pc. base w ws L S m fs \<and> ev P e m = ret m1 \<and> IP m = IPP (Ref w) (int pc) \<and>
     words_at ws pc c \<and> scoped (map length fs) e \<and> depth e < SP m \<longrightarrow> (\<exists>q. reaches P w m m1 q \<and> ends k ws (pc + length c) q))"

lemma code_okI:
  "(\<And>m m1 fs pc. base w ws L S m fs \<Longrightarrow> ev P e m = ret m1 \<Longrightarrow> IP m = IPP (Ref w) (int pc) \<Longrightarrow> words_at ws pc c \<Longrightarrow>
    scoped (map length fs) e \<Longrightarrow> depth e < SP m \<Longrightarrow> \<exists>q. reaches P w m m1 q \<and> ends k ws (pc + length c) q) \<Longrightarrow>
   code_ok P w ws L S k e c"
  unfolding code_ok_def by blast

lemma code_okD:
  "code_ok P w ws L S k e c \<Longrightarrow> base w ws L S m fs \<Longrightarrow> ev P e m = ret m1 \<Longrightarrow> IP m = IPP (Ref w) (int pc) \<Longrightarrow> words_at ws pc c \<Longrightarrow>
    scoped (map length fs) e \<Longrightarrow> depth e < SP m \<Longrightarrow> \<exists>q. reaches P w m m1 q \<and> ends k ws (pc + length c) q"
  unfolding code_ok_def by blast

lemma code_ok_here:
  "code_ok P w ws L S False e c \<Longrightarrow> base w ws L S m fs \<Longrightarrow> ev P e m = ret m1 \<Longrightarrow> IP m = IPP (Ref w) (int pc) \<Longrightarrow> words_at ws pc c \<Longrightarrow>
    scoped (map length fs) e \<Longrightarrow> depth e < SP m \<Longrightarrow> reaches P w m m1 (pc + length c)"
  using code_okD [of P w ws L S False e c m fs m1 pc] by (auto simp: ends_def)

lemma run_if:
  assumes P: "prims_ok P" and ihc: "code_ok P w ws L S False c cc" and iha: "code_ok P w ws L S False a ca" and ihb: "code_ok P w ws L S k b cb"
  shows "code_ok P w ws L S k (CIf c a b)
    (fin k (cc @ [word ijf, Fix (int (length ca) + 4)] @ ca @ [word ijmp, Fix (int (length cb) + 2)] @ cb))"
proof (rule code_okI)
  fix m m1 fs pc
  assume m: "base w ws L S m fs" and ev: "ev P (CIf c a b) m = ret m1" and ip: "IP m = IPP (Ref w) (int pc)"
    and ws: "words_at ws pc (fin k (cc @ [word ijf, Fix (int (length ca) + 4)] @ ca @ [word ijmp, Fix (int (length cb) + 2)] @ cb))"
    and sd: "scoped (map length fs) (CIf c a b)" "depth (CIf c a b) < SP m"
  let ?q = "pc + length cc"
  note w0 = words_fin [OF ws]
  have w: "words_at ws pc cc" "words_at ws ?q [word ijf, Fix (int (length ca + 4))]" "words_at ws (?q + 2) ca"
    "words_at ws (?q + 2 + length ca) [word ijmp, Fix (int (length cb + 2))]" "words_at ws (?q + (length ca + 4)) cb"
    using w0 by (simp_all add: add.commute add.left_commute eval_nat_numeral)
  obtain m2 where m2: "ev P c m = ret m2" "(if VALR m2 = NIL then ev P b m2 else ev P a m2) = ret m1" using ev by (auto simp: rthen_ret)
  have sc: "scoped (map length fs) c" "scoped (map length fs) a" "scoped (map length fs) b" "depth c < SP m" "depth a < SP m" "depth b < SP m"
    using sd by auto
  have "reaches P w m m2 ?q" by (rule code_ok_here [OF ihc m m2(1) ip w(1) sc(1,4)])
  from test_jump [OF m m2(1) P sc(1) this w(2)]
  obtain n fs2 where n: "runs P m n" "agree (SP m) m2 n" "SP n = SP m"
    "IP n = IPP (Ref w) (int (if VALR m2 = NIL then ?q + (length ca + 4) else ?q + 2))" "base w ws L S m2 fs2"
    "map length fs2 = map length fs" "SP m2 = SP m" by auto
  show "\<exists>q. reaches P w m m1 q \<and>
    ends k ws (pc + length (fin k (cc @ [word ijf, Fix (int (length ca) + 4)] @ ca @ [word ijmp, Fix (int (length cb) + 2)] @ cb))) q"
  proof (cases "VALR m2 = NIL")
    case True
    then have e: "IP n = IPP (Ref w) (int (?q + (length ca + 4)))" "ev P b m2 = ret m1" using n(4) m2(2) by auto
    have "\<exists>q. reaches P w m m1 q \<and> ends k ws (?q + (length ca + 4) + length cb) q"
      by (rule go_on [OF n(5,2,3,7,1) e P scoped_frames [OF n(6) sc(3)] sc(6)]) (rule code_okD [OF ihb _ _ _ w(5)]; assumption)
    then show ?thesis using ends_fin [OF _ _ ws] by (auto simp: add.commute add.left_commute eval_nat_numeral)
  next
    case False
    then have e: "IP n = IPP (Ref w) (int (?q + 2))" "ev P a m2 = ret m1" using n(4) m2(2) by auto
    have "\<exists>q. reaches P w m m1 q \<and> ends False ws (?q + 2 + length ca) q"
      by (rule go_on [OF n(5,2,3,7,1) e P scoped_frames [OF n(6) sc(2)] sc(5)]) (rule code_okD [OF iha _ _ _ w(3)]; assumption)
    then have "reaches P w m m1 (?q + 2 + length ca)" by (auto simp: ends_def)
    then have "reaches P w m m1 (?q + 2 + length ca + (length cb + 2))"
    proof (rule then_op [OF m ev P sd(1) _ w(4)])
      fix n fs' assume b: "base w ws L S n fs'" "agree (SP m) m1 n" "SP n = SP m"
      have wj: "words_at ws (Suc (?q + 2 + length ca)) (Fix (int (length cb + 2)) # [])" using w(4) by simp
      show "\<exists>n'. exec P ijmp (n \<lparr> IP := IPP (Ref w) (int (Suc (?q + 2 + length ca))) \<rparr>) = ret (None, n') \<and> agree (SP m) m1 n'
        \<and> SP n' = SP m \<and> IP n' = IPP (Ref w) (int (?q + 2 + length ca + (length cb + 2)))"
        using jump_exec [OF _ wj, of n w L S "\<lambda>_. True"] b agree_ip(1) [OF b(2)]
        by (auto simp: base_def exec_def go_def rthen_ret simp del: of_nat_Suc of_nat_add env_rep.simps)
    qed
    then show ?thesis using fin_reaches [OF _ ws] by (simp add: add.commute add.left_commute eval_nat_numeral)
  qed
qed


text \<open>One expression after another.\<close>

lemma run_seq:
  assumes P: "prims_ok P" and iha: "code_ok P w ws L S False a ca" and ihb: "code_ok P w ws L S k b cb"
  shows "code_ok P w ws L S k (CSeq a b) (ca @ cb)"
proof (rule code_okI)
  fix m m1 fs pc
  assume m: "base w ws L S m fs" and ev: "ev P (CSeq a b) m = ret m1" and ip: "IP m = IPP (Ref w) (int pc)"
    and ws: "words_at ws pc (ca @ cb)" and sd: "scoped (map length fs) (CSeq a b)" "depth (CSeq a b) < SP m"
  obtain m2 where m2: "ev P a m = ret m2" "ev P b m2 = ret m1" using ev by (auto simp: rthen_ret)
  have sc: "scoped (map length fs) a" "scoped (map length fs) b" "depth a < SP m" "depth b < SP m" using sd by auto
  have w: "words_at ws pc ca" "words_at ws (pc + length ca) cb" using ws by simp_all
  have "reaches P w m m2 (pc + length ca)" by (rule code_ok_here [OF iha m m2(1) ip w(1) sc(1,3)])
  from reaches_next [OF m m2(1) P sc(1) this] obtain n fs2 where n: "runs P m n" "agree (SP m) m2 n" "SP n = SP m"
    "IP n = IPP (Ref w) (int (pc + length ca))" "map length fs2 = map length fs" "base w ws L S m2 fs2" "SP m2 = SP m" by blast
  have "\<exists>q. reaches P w m m1 q \<and> ends k ws (pc + length ca + length cb) q"
    by (rule go_on [OF n(6,2,3,7,1,4) m2(2) P scoped_frames [OF n(5) sc(2)] sc(4)]) (rule code_okD [OF ihb _ _ _ w(2)]; assumption)
  then show "\<exists>q. reaches P w m m1 q \<and> ends k ws (pc + length (ca @ cb)) q" by (simp add: add.assoc)
qed

text \<open>An expression and one more instruction that leaves the stack as it is.\<close>

lemma run_then:
  assumes P: "prims_ok P" and ih: "code_ok P w ws L S False e ce"
    and ev: "\<And>m m1. ev P f m = ret m1 \<Longrightarrow> \<exists>m2. ev P e m = ret m2 \<and> R m2 m1"
    and sd: "\<And>ns. scoped ns f \<Longrightarrow> scoped ns e \<and> V ns" "depth f = depth e"
    and op: "\<And>m2 m1 n fs q. R m2 m1 \<Longrightarrow> V (map length fs) \<Longrightarrow> base w ws L S n fs \<Longrightarrow> base w ws L S m2 fs \<Longrightarrow> agree (SP m2) m2 n \<Longrightarrow>
      SP n = SP m2 \<Longrightarrow> words_at ws q (word i # args) \<Longrightarrow> \<exists>n'. exec P i (n \<lparr> IP := IPP (Ref w) (int (Suc q)) \<rparr>) = ret (None, n')
        \<and> agree (SP m2) m1 n' \<and> SP n' = SP n \<and> IP n' = IPP (Ref w) (int (q + length (word i # args)))"
  shows "code_ok P w ws L S k f (fin k (ce @ word i # args))"
proof (rule code_okI)
  fix m m1 fs pc
  assume m: "base w ws L S m fs" and evf: "ev P f m = ret m1" and ip: "IP m = IPP (Ref w) (int pc)"
    and ws: "words_at ws pc (fin k (ce @ word i # args))" and sf: "scoped (map length fs) f" "depth f < SP m"
  obtain m2 where m2: "ev P e m = ret m2" "R m2 m1" using ev [OF evf] by blast
  have w: "words_at ws pc ce" "words_at ws (pc + length ce) (word i # args)" using words_fin [OF ws] by simp_all
  have s: "scoped (map length fs) e" "V (map length fs)" "depth e < SP m" using sd sf by auto
  have "reaches P w m m2 (pc + length ce)" by (rule code_ok_here [OF ih m m2(1) ip w(1) s(1,3)])
  then have "reaches P w m m1 (pc + length ce + length (word i # args))"
  proof (rule then_op [OF m m2(1) P s(1) _ w(2)])
    fix n fs'
    assume b: "base w ws L S n fs'" "agree (SP m) m2 n" "map length fs' = map length fs" "base w ws L S m2 fs'" "SP n = SP m"
    have "SP m2 = SP m" using base_kept [OF m m2(1) P s(1)] keptD(1) by blast
    then show "\<exists>n'. exec P i (n \<lparr> IP := IPP (Ref w) (int (Suc (pc + length ce))) \<rparr>) = ret (None, n') \<and> agree (SP m) m1 n' \<and> SP n' = SP m
      \<and> IP n' = IPP (Ref w) (int (pc + length ce + length (word i # args)))"
      using op [OF m2(2) _ b(1,4) _ _ w(2)] b(2,3,5) s(2) by simp
  qed
  then show "\<exists>q. reaches P w m m1 q \<and> ends k ws (pc + length (fin k (ce @ word i # args))) q"
    using fin_reaches [OF _ ws] by (simp add: add.commute add.left_commute)
qed


text \<open>A binary operation: the first operand waits on the stack.\<close>

lemma push_exec:
  assumes "base w ws L S n fs" and "0 < SP n"
  shows "exec P ipush (n \<lparr> IP := q \<rparr>) = ret (None, n \<lparr> IP := q, STK := (STK n)[SP n := VALR n], SP := SP n - 1 \<rparr>)"
  using assms by (simp add: exec_def go_def exec_push_def CPUSH_room base_def rthen_ret del: env_rep.simps)

lemma run_prim2:
  assumes P: "prims_ok P" and i: "i \<in> {icons, iadd, isub, imul, idiv}"
    and iha: "code_ok P w ws L S False a ca" and ihb: "code_ok P w ws L S False b cb"
  shows "code_ok P w ws L S k (CPrim2 i a b) (fin k (ca @ [word ipush] @ cb @ [word i]))"
proof (rule code_okI)
  fix m m1 fs pc
  assume m: "base w ws L S m fs" and ev: "ev P (CPrim2 i a b) m = ret m1" and ip: "IP m = IPP (Ref w) (int pc)"
    and ws: "words_at ws pc (fin k (ca @ [word ipush] @ cb @ [word i]))"
    and sd: "scoped (map length fs) (CPrim2 i a b)" "depth (CPrim2 i a b) < SP m"
  let ?q = "pc + length ca"
  obtain m2 m3 where m2: "ev P a m = ret m2" "ev P b m2 = ret m3" "op2 P i (VALR m2) m3 = ret m1"
    using ev by (auto simp: rthen_ret Let_def)
  have w: "words_at ws pc ca" "words_at ws ?q [word ipush]" "words_at ws (Suc ?q) cb" "words_at ws (Suc ?q + length cb) [word i]"
    using words_fin [OF ws] by simp_all
  have sc: "scoped (map length fs) a" "scoped (map length fs) b" "depth a < SP m" "depth b < SP m - 1" using sd by auto
  have "reaches P w m m2 ?q" by (rule code_ok_here [OF iha m m2(1) ip w(1) sc(1,3)])
  from reaches_next [OF m m2(1) P sc(1) this] obtain n fs2 where n: "runs P m n" "agree (SP m) m2 n" "SP n = SP m"
    "IP n = IPP (Ref w) (int ?q)" "base w ws L S n fs2" "map length fs2 = map length fs" "base w ws L S m2 fs2" "SP m2 = SP m" by blast
  define n' where "n' = n \<lparr> IP := IPP (Ref w) (int (Suc ?q)), STK := (STK n)[SP n := VALR n], SP := SP n - 1 \<rparr>"
  have room: "0 < SP m" "SP m < length (STK n)" "\<not> STALE n" using sd(2) n(3,5) by (auto simp: base_def)
  have cc: "code_ctx n w ws L S" using n(5) by (simp add: base_def)
  have n': "runs P m n'"
    using reaches_step [OF n(1,4) cc w(2)] push_exec [OF n(5)] n(3) room(1) by (simp add: n'_def del: of_nat_Suc)
  have sp: "SP n' = SP m - 1" "IP n' = IPP (Ref w) (int (Suc ?q))" using n(3) by (simp_all add: n'_def)
  have "agree (SP m) n n'" using n(3) by (auto simp: n'_def agree_def)
  then have ag: "agree (SP m) m2 n'" "agree (SP n) n n'" using agree_trans [OF n(2)] n(3) by auto
  have b': "base w ws L S n' fs2" using base_agree [OF n(5) ag(2)] n(3) sp(1) by simp
  obtain n3 where n3: "ev P b n' = ret n3" "agree (SP m) m3 n3"
    using ev_agree [OF m2(2) base_env [OF n(7)] _ P scoped_frames [OF n(6) sc(2)]] ag(1) n(7,8)
    by (auto simp: base_def simp del: env_rep.simps)
  have "reaches P w n' n3 (Suc ?q + length cb)"
    using code_ok_here [OF ihb b' n3(1) sp(2) w(3) scoped_frames [OF n(6) sc(2)]] sc(4) sp(1) by simp
  from reaches_next [OF b' n3(1) P scoped_frames [OF n(6) sc(2)] this]
  obtain n4 fs4 where n4: "runs P n' n4" "agree (SP n') n3 n4" "SP n4 = SP n'" "IP n4 = IPP (Ref w) (int (Suc ?q + length cb))"
    "base w ws L S n4 fs4" by blast
  have "env_rep n' (SP m) S (ENVR n') fs2"
    using agree_env [OF ag(1), of S "ENVR m2" fs2] base_env [OF n(7)] n(8) agreeD(4) [OF ag(1)] by simp
  then have "kept (SP m) S n' n3"
    using ev_kept [OF n3(1) _ _ P scoped_frames [OF n(6) sc(2)]] b' by (auto simp: base_def simp del: env_rep.simps)
  then have "STK n3 ! SP m = STK n' ! SP m" by (rule keptD(9)) simp
  moreover have "STK n' ! SP m = VALR m2" using n(3) room agreeD(3) [OF n(2)] by (simp add: n'_def)
  ultimately have top: "STK n4 ! SP m = VALR m2" using agreeD(8) [OF n4(2), of "SP m"] sp(1) room(1) by simp
  let ?n4 = "n4 \<lparr> IP := IPP (Ref w) (int (Suc (Suc ?q + length cb))) \<rparr>"
  have len: "length (STK n4) = length (STK n)"
    using agreeD(7) [OF n4(2)] keptD(7) [OF \<open>kept (SP m) S n' n3\<close>] by (simp add: n'_def)
  have pop: "CPOP ?n4 = ret (VALR m2, ?n4 \<lparr> SP := SP m \<rparr>)"
    using CPOP_room [of ?n4] n4(3,5) sp(1) room len top by (simp add: base_def del: env_rep.simps)
  have "agree (SP m) m3 n4" by (rule agree_trans [OF n3(2) n4(2)]) (simp add: sp(1))
  then have "agree (SP m) m3 (?n4 \<lparr> SP := SP m \<rparr>)" by (intro agree_ip)
  from op2_agree [OF m2(3) this] obtain n5 where n5: "op2 P i (VALR m2) (?n4 \<lparr> SP := SP m \<rparr>) = ret n5" "agree (SP m) m1 n5" by blast
  have "runs P m n5"
    using reaches_step [OF runs_trans [OF n' n4(1)] n4(4) _ w(4) exec_op2 [OF i pop n5(1)]] n4(5) by (auto simp: base_def)
  then have "reaches P w m m1 (Suc (Suc ?q + length cb))"
    using n5(2) op2_fields [OF n5(1)] by (intro reaches_runs [of P m n5]) (simp_all add: algebra_simps)
  then show "\<exists>q. reaches P w m m1 q \<and> ends k ws (pc + length (fin k (ca @ [word ipush] @ cb @ [word i]))) q"
    using fin_reaches [OF _ ws] by (simp add: add.commute add.left_commute)
qed

text \<open>Loads of a value.\<close>

lemma run_load:
  assumes "\<And>m m1. ev P e m = ret m1 \<Longrightarrow> \<exists>v. m1 = setval v m \<and> V m v"
    and "\<And>m v fs p. V m v \<Longrightarrow> base w ws L S m fs \<Longrightarrow> scoped (map length fs) e \<Longrightarrow> words_at ws p (word i # args) \<Longrightarrow>
      exec P i (m \<lparr> IP := IPP (Ref w) (int (Suc p)) \<rparr>) = ret (None, m \<lparr> VALR := v, IP := IPP (Ref w) (int (p + length (word i # args))) \<rparr>)"
  shows "code_ok P w ws L S k e (fin k (word i # args))"
proof (rule code_okI)
  fix m m1 fs pc
  assume m: "base w ws L S m fs" and ev: "ev P e m = ret m1" and ip: "IP m = IPP (Ref w) (int pc)"
    and ws: "words_at ws pc (fin k (word i # args))" and sd: "scoped (map length fs) e" "depth e < SP m"
  obtain v where v: "m1 = setval v m" "V m v" using assms(1) [OF ev] by blast
  have "reaches P w m (setval v m) (pc + length (word i # args))"
    by (rule load_reaches [OF m ip words_fin [OF ws] assms(2) [OF v(2) m sd(1) words_fin [OF ws]]])
  then show "\<exists>q. reaches P w m m1 q \<and> ends k ws (pc + length (fin k (word i # args))) q"
    using fin_reaches [OF _ ws] v by simp
qed


lemma base_cc: "base w ws L S n fs \<Longrightarrow> code_ctx n w ws L S"
  by (simp add: base_def)

lemma load_local:
  assumes "arc_getenv n d (int i) = Inr v" and "base w ws L S n fs" and "d < length fs" and "i < length (fs ! d)"
    and "words_at ws p (word (if d = 0 \<and> b then ilde0 else ilde) # (if d = 0 \<and> b then [Fix (int i)] else [Fix (int d), Fix (int i)]))"
  shows "exec P (if d = 0 \<and> b then ilde0 else ilde) (n \<lparr> IP := IPP (Ref w) (1 + int p) \<rparr>) =
    ret (None, n \<lparr> VALR := v, IP := IPP (Ref w) ((if d = 0 \<and> b then 2 else 3) + int p) \<rparr>)"
  using local_exec [OF assms(2-4,1), of "Suc p" b P] assms(5) by (auto simp: algebra_simps)

lemma set_local:
  assumes "arc_putenv m1 d (int i) (VALR m1) = Inr m2" and "base w ws L S n fs" and "base w ws L S m1 fs" and "agree (SP m1) m1 n"
    and "d < length fs" and "i < length (fs ! d)" and "SP n = SP m1"
    and "words_at ws p (word (if d = 0 \<and> b then iste0 else iste) # (if d = 0 \<and> b then [Fix (int i)] else [Fix (int d), Fix (int i)]))"
  shows "\<exists>n'. exec P (if d = 0 \<and> b then iste0 else iste) (n \<lparr> IP := IPP (Ref w) (1 + int p) \<rparr>) = ret (None, n')
    \<and> agree (SP m1) m2 n' \<and> SP n' = SP m1 \<and> IP n' = IPP (Ref w) ((if d = 0 \<and> b then 2 else 3) + int p)"
  using set_exec [OF assms(2,5,6,3,4,1) refl, of "Suc p" b P] assms(7,8) by (auto simp: algebra_simps)

lemma prim1_exec:
  assumes "i \<in> {icar, icdr}" and "op1 i m2 = ret m1" and "agree lo m2 n" and "SP n = sp"
  shows "\<exists>n'. exec P i (n \<lparr> IP := IPP w (1 + int q) \<rparr>) = ret (None, n') \<and> agree lo m1 n' \<and> SP n' = sp \<and> IP n' = IPP w (1 + int q)"
proof -
  obtain n' where n': "op1 i (n \<lparr> IP := IPP w (1 + int q) \<rparr>) = ret n'" "agree lo m1 n'"
    using op1_agree [OF assms(2) agree_ip(1) [OF assms(3)]] by blast
  then show ?thesis using exec_op1 [OF assms(1) n'(1)] op1_fields [OF n'(1)] assms(4) by (intro exI [of _ n']) simp
qed

lemma setg_exec:
  assumes "n < length L" and "base w ws L S k fs" and "agree lo m2 k" and "SP k = sp" and "words_at ws q [word istg, Fix (int n)]"
  shows "\<exists>n'. exec P istg (k \<lparr> IP := IPP (Ref w) (1 + int q) \<rparr>) = ret (None, n')
    \<and> agree lo (m2 \<lparr> GENV := (GENV m2)(L ! n \<mapsto> VALR m2) \<rparr>) n' \<and> SP n' = sp \<and> IP n' = IPP (Ref w) (2 + int q)"
proof -
  have "code_literal (k \<lparr> IP := p \<rparr>) (int n) = Inr (L ! n)" for p
    using literal_at [OF code_ctx_ip [THEN iffD2, OF base_cc [OF assms(2)]] assms(1)] .
  moreover have w: "words_at ws (Suc q) (Fix (int n) # [])" using assms(5) by simp
  ultimately have "exec P istg (k \<lparr> IP := IPP (Ref w) (int (Suc q)) \<rparr>) =
      ret (None, k \<lparr> IP := IPP (Ref w) (int (Suc (Suc q))), GENV := (GENV k)(L ! n \<mapsto> VALR k) \<rparr>)"
    using fetch_at [OF base_cc [OF assms(2)] w] by (simp add: exec_def go_def exec_stg_def rthen_ret del: of_nat_Suc)
  moreover have "agree lo (m2 \<lparr> GENV := (GENV m2)(L ! n \<mapsto> VALR m2) \<rparr>)
      (k \<lparr> IP := IPP (Ref w) (int (Suc (Suc q))), GENV := (GENV k)(L ! n \<mapsto> VALR k) \<rparr>)"
    using agree_upd(3) [OF agree_ip(1) [OF assms(3)]] agreeD(2,3) [OF assms(3)] by simp
  ultimately show ?thesis using assms(4) by simp
qed

lemma run_codes:
  assumes "codes L k e c" and P: "prims_ok P"
  shows "code_ok P w ws L S k e c"
  using assms(1)
proof induction
  case (nil k)
  show ?case by (rule run_load [where V = "\<lambda>m v. v = NIL"]) (auto simp: setval_def exec_def)
next
  case (true k)
  show ?case by (rule run_load [where V = "\<lambda>m v. v = p_true P"]) (auto simp: setval_def exec_def)
next
  case (fix_lit k i)
  show ?case
    by (rule run_load [where V = "\<lambda>m v. v = Fix i"])
      (use fetch_word_at [of _ w ws L S _ "Fix i" "[]", OF base_cc] in \<open>auto simp: setval_def exec_def go_def exec_ldi_def rthen_ret simp del: of_nat_Suc\<close>)
next
  case (lit n v k)
  show ?case
    using lit literal_at [of _ w ws L S n] fetch_at [of _ w ws L S _ "int n" "[]", OF base_cc]
    by (intro run_load [where V = "\<lambda>m x. x = v"])
      (auto simp: setval_def exec_def go_def exec_ldl_def rthen_ret base_cc simp del: of_nat_Suc)
next
  case (local0 k i)
  show ?case
    by (rule run_load [where V = "\<lambda>m v. arc_getenv m 0 (int i) = Inr v"])
      (auto simp: rthen_ret intro: load_local [where d = 0 and b = True, unfolded simp_thms if_True] simp del: words_at_Cons)
next
  case (local k d i)
  show ?case
    by (rule run_load [where V = "\<lambda>m v. arc_getenv m d (int i) = Inr v"])
      (auto simp: rthen_ret intro: load_local [where b = False, unfolded simp_thms if_False] simp del: words_at_Cons)
next
  case (global n y k)
  show ?case
    using global literal_at [of _ w ws L S n] fetch_at [of _ w ws L S _ "int n" "[]", OF base_cc]
    by (intro run_load [where V = "\<lambda>m v. v = (case GENV m y of None \<Rightarrow> UNBOUND | Some v \<Rightarrow> v) \<and> v \<noteq> UNBOUND"])
      (auto simp: setval_def Let_def exec_def go_def exec_ldg_def rthen_ret base_cc split: if_splits simp del: of_nat_Suc)
next
  case (ifte c cc a ca k b cb)
  then show ?case by (intro run_if P)
next
  case (prim1 i e ce k)
  show ?case
    by (rule run_then [where R = "\<lambda>m2 m1. op1 i m2 = ret m1" and V = "\<lambda>_. True", OF P prim1.IH])
      (auto simp: rthen_ret intro!: prim1_exec [OF prim1.hyps(1)] simp del: op1.simps words_at_Cons)
next
  case (prim2 i a ca b cb k)
  then show ?case by (intro run_prim2 P)
next
  case (set0 e ce k i)
  show ?case
    by (rule run_then [where R = "\<lambda>m2 m1. arc_putenv m2 0 (int i) (VALR m2) = Inr m1" and V = "\<lambda>ns. 0 < length ns \<and> i < ns ! 0", OF P set0.IH])
      (auto simp: rthen_ret intro!: set_local [where d = 0 and b = True, unfolded simp_thms if_True] simp del: words_at_Cons)
next
  case (set e ce k d i)
  show ?case
    by (rule run_then [where R = "\<lambda>m2 m1. arc_putenv m2 d (int i) (VALR m2) = Inr m1" and V = "\<lambda>ns. d < length ns \<and> i < ns ! d", OF P set.IH])
      (auto simp: rthen_ret intro!: set_local [where b = False, unfolded simp_thms if_False] simp del: words_at_Cons)
next
  case (setg e ce n y k)
  show ?case
    by (rule run_then [where R = "\<lambda>m2 m1. m1 = m2 \<lparr> GENV := (GENV m2)(y \<mapsto> VALR m2) \<rparr>" and V = "\<lambda>_. True", OF P setg.IH])
      (auto simp: rthen_ret setg.hyps(3) [symmetric] intro!: setg_exec [OF setg.hyps(2)] simp del: words_at_Cons)
next
  case (seq a ca k b cb)
  then show ?case by (intro run_seq P)
qed

end
