(* ===== verification/CompileCore.thy ===== *)
theory CompileCore
  imports CompileRun
begin

text \<open>
  Compiling the core of the language. \<open>src\<close> relates an expression in the heap to the abstract
  expression it stands for; the compiler, given enough fuel, turns it into code that satisfies
  \<open>codes\<close>. With the runs of such code this is the correctness of the compiler on this fragment.
\<close>

subsection \<open>Results that exist\<close>

definition yields :: "('a \<Rightarrow> bool) \<Rightarrow> 'a run \<Rightarrow> bool" where
  "yields P r \<longleftrightarrow> (\<exists>a. r = ret a \<and> P a)"

lemma yields_ret [simp]: "yields P (ret a) \<longleftrightarrow> P a"
  by (simp add: yields_def)

lemma yields_rthen: "yields P r \<Longrightarrow> (\<And>a. P a \<Longrightarrow> yields Q (f a)) \<Longrightarrow> yields Q (rthen r f)"
  by (auto simp: yields_def rthen_ret)

lemma yields_mono: "yields P r \<Longrightarrow> (\<And>a. P a \<Longrightarrow> Q a) \<Longrightarrow> yields Q r"
  by (auto simp: yields_def)

text \<open>From some fuel on.\<close>

definition soon :: "(nat \<Rightarrow> bool) \<Rightarrow> bool" where
  "soon X \<longleftrightarrow> (\<exists>n0. \<forall>n \<ge> n0. X n)"

lemma soon_all: "(\<And>n. X n) \<Longrightarrow> soon X"
  by (simp add: soon_def)

lemma soon_mono: "soon X \<Longrightarrow> (\<And>n. X n \<Longrightarrow> Y n) \<Longrightarrow> soon Y"
  by (auto simp: soon_def)

lemma soon_conj: "soon X \<Longrightarrow> soon Y \<Longrightarrow> soon (\<lambda>n. X n \<and> Y n)"
  unfolding soon_def by (metis max.bounded_iff)

lemma soon_ge: "soon (\<lambda>n. k \<le> n)"
  by (auto simp: soon_def)

lemma soon_Suc: "soon (\<lambda>n. X (Suc n)) \<longleftrightarrow> soon X"
proof
  assume "soon (\<lambda>n. X (Suc n))"
  then obtain n0 where "\<forall>n \<ge> n0. X (Suc n)" by (auto simp: soon_def)
  then have "\<forall>n \<ge> Suc n0. X n" by (metis Suc_le_D Suc_le_mono)
  then show "soon X" unfolding soon_def by blast
qed (auto simp: soon_def intro: le_SucI)

lemma soon_list_all2: "list_all2 (\<lambda>x y. soon (\<lambda>n. X n x y)) xs ys \<Longrightarrow> soon (\<lambda>n. list_all2 (X n) xs ys)"
proof (induction rule: list_all2_induct)
  case (Cons x xs y ys)
  show ?case by (rule soon_mono [OF soon_conj [OF Cons(1,3)]]) simp
qed (simp add: soon_all)

subsection \<open>Contexts being filled\<close>

text \<open>No line table, and the unused slots of the literals are nil.\<close>

definition ctx_ok :: "cctx \<Rightarrow> bool" where
  "ctx_ok c \<longleftrightarrow> cctx_ok c \<and> SRC c = None
     \<and> (\<forall>l \<in> set (drop (fixnat (LPTR c)) (case LITS c of None \<Rightarrow> [] | Some v \<Rightarrow> v)). l = NIL)"

definition st_ok :: "heap \<Rightarrow> cst \<Rightarrow> bool" where
  "st_ok h s \<longleftrightarrow> LNDATA s = None \<and> heap_ok (CHP s) \<and> hext h (CHP s)"

lemma hext_refl: "hext h h"
  by (simp add: hext_def)

lemma hext_trans: "hext a b \<Longrightarrow> hext b c \<Longrightarrow> hext a c"
  unfolding hext_def by metis

lemma hext_mem: "hext h h' \<Longrightarrow> mem h a = Some x \<Longrightarrow> mem h' a = Some x"
  by (simp add: hext_def)

lemma st_ok_here: "st_ok h s \<Longrightarrow> st_ok (CHP s) s"
  by (simp add: st_ok_def hext_refl)

lemma st_ok_trans: "st_ok h s \<Longrightarrow> st_ok (CHP s) s' \<Longrightarrow> st_ok h s'"
  unfolding st_ok_def using hext_trans by blast

definition built :: "cctx \<Rightarrow> heap \<Rightarrow> val list \<Rightarrow> cctx \<times> cst \<Rightarrow> bool" where
  "built c0 h code = (\<lambda>(c, s). ctx_ok c \<and> st_ok h s \<and> code_of c = code_of c0 @ code \<and> prefix (lits_of c0) (lits_of c))"

lemma built_start: "ctx_ok c \<Longrightarrow> st_ok h s \<Longrightarrow> built c (CHP s) [] (c, s)"
  by (simp add: built_def st_ok_here)

lemma get_lineno_none [simp]: "st_ok h s \<Longrightarrow> get_lineno obj s = (UNBOUND, s)"
  by (simp add: get_lineno_def st_ok_def)

lemma store_code_src: "store_code c ws = Some c' \<Longrightarrow> SRC c' = SRC c"
  by (auto simp: store_code_def split: bind_splits option.splits)

lemma resize_src: "resize_vmcode c = Some c' \<Longrightarrow> SRC c' = SRC c"
  by (auto simp: resize_vmcode_def Let_def)

lemma emit_words:
  assumes "ctx_ok c" and "length ws = Suc k" and "k < 16"
  shows "\<exists>c'. (add_lninfo c fl \<bind> (\<lambda>c. (if full_for c k then resize_vmcode c else Some c) \<bind> (\<lambda>c. store_code c ws))) = Some c'
    \<and> ctx_ok c' \<and> code_of c' = code_of c @ ws \<and> lits_of c' = lits_of c"
proof -
  have a: "add_lninfo c fl = Some c" using assms(1) by (simp add: ctx_ok_def add_lninfo_def)
  have "buf_ok (VCODE c) (VCPTR c)" using assms(1) by (simp add: ctx_ok_def cctx_ok_def)
  from emit_words_ok [OF this assms(2,3)] obtain c' where c':
    "(if full_for c k then resize_vmcode c else Some c) \<bind> (\<lambda>c. store_code c ws) = Some c'"
    "buf_ok (VCODE c') (VCPTR c')" "code_of c' = code_of c @ ws" "LITS c' = LITS c" "LPTR c' = LPTR c" by blast
  have "SRC c' = SRC c" using c'(1) by (auto split: if_splits bind_splits dest!: store_code_src resize_src)
  then show ?thesis using a c' assms(1) by (simp add: ctx_ok_def cctx_ok_def lits_of_def)
qed

lemma emit_total:
  assumes "ctx_ok c" and "st_ok h s" and "length args \<le> 2"
  shows "\<exists>c'. emit i args obj c s = ret (c', s) \<and> ctx_ok c' \<and> code_of c' = code_of c @ Fix (opcode i) # args \<and> lits_of c' = lits_of c"
proof -
  have l: "add_lninfo c UNBOUND = Some c" using assms(1) by (simp add: ctx_ok_def add_lninfo_def)
  consider "args = []" | a where "args = [a]" | a b where "args = [a, b]"
    using assms(3) by (cases args; cases "tl args") auto
  then show ?thesis
  proof cases
    case 1
    then show ?thesis using emit_words [OF assms(1), of "[Fix (opcode i)]" 0 UNBOUND] assms(2) l by (auto simp: emit_def arc_emit_def)
  next
    case (2 a)
    then show ?thesis using emit_words [OF assms(1), of "[Fix (opcode i), a]" 1 UNBOUND] assms(2) l by (auto simp: emit_def arc_emit1_def)
  next
    case (3 a b)
    then show ?thesis using emit_words [OF assms(1), of "[Fix (opcode i), a, b]" 2 UNBOUND] assms(2) l by (auto simp: emit_def arc_emit2_def)
  qed
qed

lemma emit_built:
  assumes "built c0 h code (c, s)" and "length args \<le> 2"
    and "\<And>c'. built c0 h (code @ word i # args) (c', s) \<Longrightarrow> lits_of c' = lits_of c \<Longrightarrow> yields R (f (c', s))"
  shows "yields R (rthen (emit i args obj c s) f)"
  using emit_total [of c h s args i obj] assms by (auto simp: built_def rthen_ret)

lemma built_here: "built c0 h code (c, s) \<Longrightarrow> here c = length (code_of c0) + length code"
  using here_code [of c] by (simp add: built_def ctx_ok_def)

lemma jump_built:
  assumes "built c0 h code (c, s)" and "j = length (code_of c0) + p" and "p + 1 < length code"
    and "\<And>c'. built c0 h (code[p + 1 := Fix (int (length code) - int p)]) (c', s) \<Longrightarrow> lits_of c' = lits_of c \<Longrightarrow> yields R (f c')"
  shows "yields R (rthen (jump_here j c) f)"
proof -
  have b: "cctx_ok c" "code_of c = code_of c0 @ code" using assms(1) by (simp_all add: built_def ctx_ok_def)
  obtain c' where c': "arc_jmpoffset c j (here c) = Some c'" "cctx_ok c'"
    "code_of c' = (code_of c)[j + 1 := Fix (int (here c) - int j)]" "lits_of c' = lits_of c"
    using jmpoffset_patches [of c j "here c"] b assms(2,3) by auto
  have "SRC c' = SRC c" "LITS c' = LITS c" "LPTR c' = LPTR c" using c'(1) by (auto simp: arc_jmpoffset_def split: bind_splits)
  moreover have "code_of c' = code_of c0 @ code[p + 1 := Fix (int (length code) - int p)]"
    using c'(3) b(2) assms(2) built_here [OF assms(1)] by (simp add: list_update_append)
  ultimately have "built c0 h (code[p + 1 := Fix (int (length code) - int p)]) (c', s)"
    using assms(1) c'(2,4) by (simp add: built_def ctx_ok_def)
  then show ?thesis using assms(4) c'(1,4) by (simp add: jump_here_def)
qed

lemma cont_built:
  assumes "built c0 h code (c, s)"
  shows "yields (\<lambda>(c', s'). built c0 h (fin k code) (c', s') \<and> lits_of c' = lits_of c) (compile_continuation c k s)"
  using emit_total [of c h s "[]" iret NIL] assms by (auto simp: compile_continuation_def fin_def built_def yields_def)

subsection \<open>Literals\<close>

text \<open>
  \<open>find_literal\<close> takes the first slot whose value \<open>is\<close> calls the same as the literal. That may be
  another object: two strings with the same characters share a slot. \<open>stands Q h R v\<close> says that
  every value the compiler may find for \<open>v\<close>, in an extension of the heap \<open>h\<close>, is related to \<open>v\<close> by \<open>R\<close>.
\<close>

definition stands :: "cprims \<Rightarrow> heap \<Rightarrow> (val \<Rightarrow> val \<Rightarrow> bool) \<Rightarrow> val \<Rightarrow> bool" where
  "stands Q h R v \<longleftrightarrow> R v v \<and> (\<forall>h' l. hext h h' \<longrightarrow> arc_is2 (c_vm Q) h' l v \<noteq> NIL \<longrightarrow> l \<noteq> NIL \<and> R l v)"

definition same_lit :: "cprims \<Rightarrow> heap \<Rightarrow> val \<Rightarrow> val \<Rightarrow> bool" where
  "same_lit Q h l v \<longleftrightarrow> l = v \<or> (\<exists>h'. hext h h' \<and> arc_is2 (c_vm Q) h' l v \<noteq> NIL)"

text \<open>Comparison functions answer nil for a value that is not a heap object.\<close>

definition iscmp_ok :: "prims \<Rightarrow> bool" where
  "iscmp_ok P \<longleftrightarrow> (\<forall>h l v. (\<forall>a. v \<noteq> Ref a) \<longrightarrow> p_iscmp P h l v = NIL)"

lemma immediate_stands:
  assumes "iscmp_ok (c_vm Q)" and "v \<noteq> NIL" and "\<And>a. v \<noteq> Ref a"
  shows "stands Q h (=) v"
  using assms by (auto simp: stands_def iscmp_ok_def arc_is2_def split: if_splits val.splits)

lemma stands_same: "(\<And>h' l. hext h h' \<Longrightarrow> arc_is2 (c_vm Q) h' l v \<noteq> NIL \<Longrightarrow> l \<noteq> NIL) \<Longrightarrow> stands Q h (same_lit Q h) v"
  by (auto simp: stands_def same_lit_def)

lemma object_stands:
  assumes "mem h a = Some ob" and "hext h0 h"
  shows "stands Q h (same_lit Q h0) (Ref a)"
proof -
  have "l \<noteq> NIL" if "arc_is2 (c_vm Q) h' l (Ref a) \<noteq> NIL" for h' l
    using that by (cases l) (auto simp: arc_is2_def split: if_splits)
  then show ?thesis using assms(2) by (auto simp: stands_def same_lit_def intro: hext_trans)
qed

lemma stands_hext: "stands Q h R v \<Longrightarrow> hext h h' \<Longrightarrow> stands Q h' R v"
  unfolding stands_def using hext_trans by blast

lemma find_lit_Some: "find_lit P h v ls i = Some j \<Longrightarrow> i \<le> j \<and> j < i + length ls \<and> arc_is2 P h (ls ! (j - i)) v \<noteq> NIL"
proof (induction ls arbitrary: i)
  case (Cons l ls)
  show ?case
  proof (cases "arc_is2 P h l v = NIL")
    case True
    then have "find_lit P h v ls (i + 1) = Some j" using Cons.prems by simp
    from Cons.IH [OF this] show ?thesis by (auto simp: nth_Cons')
  next
    case False
    then show ?thesis using Cons.prems by simp
  qed
qed simp

definition spare :: "cctx \<Rightarrow> nat \<Rightarrow> val set" where
  "spare c n = set (drop n (case LITS c of None \<Rightarrow> [] | Some v \<Rightarrow> v))"

lemma resize_spare:
  assumes "resize_literals c = Some c'"
  shows "SRC c' = SRC c \<and> LPTR c' = LPTR c \<and> spare c' (fixnat (LPTR c)) \<subseteq> {NIL}"
  using assms by (auto simp: resize_literals_def grow_def spare_def Let_def split: if_splits option.splits)

lemma literal_clean:
  assumes "ctx_ok c" and "arc_literal c l = Some (i, c')" and "cctx_ok c'"
  shows "ctx_ok c'"
proof -
  let ?lp = "fixnat (LPTR c)"
  obtain d v where d: "(if (case LITS c of None \<Rightarrow> True | Some v \<Rightarrow> ?lp \<ge> length v) then resize_literals c else Some c) = Some d"
    "LITS d = Some v" "?lp < length v" "c' = d \<lparr> LITS := Some (v[?lp := l]), LPTR := Fix (int (?lp + 1)) \<rparr>"
    using assms(2) by (auto simp: arc_literal_def upd_opt_def Let_def split: bind_splits if_splits)
  have "SRC d = SRC c \<and> spare d ?lp \<subseteq> {NIL}"
    using d(1) assms(1) resize_spare [of c d] by (auto simp: ctx_ok_def spare_def split: if_splits)
  moreover have "set (drop (Suc ?lp) v) \<subseteq> set (drop ?lp v)" by (rule set_drop_subset_set_drop) simp
  ultimately show ?thesis using assms(1,3) d(2-4) by (auto simp: ctx_ok_def spare_def nat_add_distrib)
qed

lemma lit_found:
  assumes "built c0 h code (c, s)" and "stands Q h R v"
    and "\<And>c' n. built c0 h code (c', s) \<Longrightarrow> prefix (lits_of c) (lits_of c') \<Longrightarrow> n < length (lits_of c') \<Longrightarrow> R (lits_of c' ! n) v \<Longrightarrow>
      yields Z (f (n, c'))"
  shows "yields Z (rthen (find_literal Q v c s) f)"
proof (cases "find_lit (c_vm Q) (CHP s) v (case LITS c of None \<Rightarrow> [] | Some v \<Rightarrow> v) 0")
  case None
  obtain c' where c': "arc_literal c v = Some (length (lits_of c), c')" "cctx_ok c'" "lits_of c' = lits_of c @ [v]" "code_of c' = code_of c"
    using literal_ok [of c v] assms(1) by (auto simp: built_def ctx_ok_def)
  have "ctx_ok c'" using literal_clean [OF _ c'(1,2)] assms(1) by (simp add: built_def)
  then have "built c0 h code (c', s)" using assms(1) c'(3,4) by (auto simp: built_def prefix_def)
  then show ?thesis using assms(2) assms(3) [of c' "length (lits_of c)"] None c'(1,3) by (simp add: find_literal_def stands_def)
next
  case (Some n)
  let ?v = "case LITS c of None \<Rightarrow> [] | Some v \<Rightarrow> v"
  have n: "n < length ?v" "?v ! n \<noteq> NIL" "R (?v ! n) v"
    using find_lit_Some [OF Some] assms(1,2) by (auto simp: stands_def built_def st_ok_def)
  have "n < fixnat (LPTR c)"
  proof (rule ccontr)
    assume "\<not> n < fixnat (LPTR c)"
    then have "?v ! n \<in> set (drop (fixnat (LPTR c)) ?v)" using n(1) by (auto simp: in_set_conv_nth intro!: exI [of _ "n - fixnat (LPTR c)"])
    then show False using n(2) assms(1) by (auto simp: built_def ctx_ok_def)
  qed
  then have "n < length (lits_of c)" "R (lits_of c ! n) v" using n by (simp_all add: lits_of_def)
  then show ?thesis using assms(1,3) Some by (simp add: find_literal_def)
qed

lemma emit_lit_built:
  assumes "built c0 h code (c, s)" and "stands Q h R v"
    and "\<And>c' n. built c0 h (code @ [word i, Fix (int n)]) (c', s) \<Longrightarrow> prefix (lits_of c) (lits_of c') \<Longrightarrow> n < length (lits_of c') \<Longrightarrow>
      R (lits_of c' ! n) v \<Longrightarrow> yields Z (f (c', s))"
  shows "yields Z (rthen (emit_lit Q i v obj c s) f)"
  unfolding emit_lit_def rthen_assoc
  by (rule lit_found [OF assms(1,2)]) (simp, erule emit_built, simp, use assms(3) in simp)


subsection \<open>Expressions that differ in their literals\<close>

text \<open>The literals of the second expression stand for those of the first.\<close>

inductive alike :: "(val \<Rightarrow> val \<Rightarrow> bool) \<Rightarrow> cx \<Rightarrow> cx \<Rightarrow> bool" for R where
  lit: "l = v \<or> R l v \<Longrightarrow> alike R (CLit v) (CLit l)"
| true: "alike R CTrue CTrue"
| local: "alike R (CLocal d i) (CLocal d i)"
| global: "alike R (CGlobal y) (CGlobal y)"
| ifte: "alike R c c' \<Longrightarrow> alike R a a' \<Longrightarrow> alike R b b' \<Longrightarrow> alike R (CIf c a b) (CIf c' a' b')"
| prim1: "alike R e e' \<Longrightarrow> alike R (CPrim1 i e) (CPrim1 i e')"
| prim2: "alike R a a' \<Longrightarrow> alike R b b' \<Longrightarrow> alike R (CPrim2 i a b) (CPrim2 i a' b')"
| setl: "alike R e e' \<Longrightarrow> alike R (CSetLocal d i e) (CSetLocal d i e')"
| setg: "alike R e e' \<Longrightarrow> alike R (CSetGlobal y e) (CSetGlobal y e')"
| seq: "alike R a a' \<Longrightarrow> alike R b b' \<Longrightarrow> alike R (CSeq a b) (CSeq a' b')"

inductive_cases alike_cases: "alike R (CLit v) e'" "alike R (CIf c a b) e'" "alike R (CPrim1 i e) e'" "alike R (CPrim2 i a b) e'"
  "alike R CTrue e'"

lemma alike_shape: "alike R e e' \<Longrightarrow> (scoped ns e' \<longleftrightarrow> scoped ns e) \<and> depth e' = depth e"
  by (induction rule: alike.induct) simp_all

text \<open>The objects of the heap that are literals, and those of code, which are in its vector.\<close>

fun cx_lits :: "cx \<Rightarrow> val set" where
  "cx_lits (CLit v) = (case v of Ref a \<Rightarrow> {v} | _ \<Rightarrow> {})"
| "cx_lits (CIf c a b) = cx_lits c \<union> cx_lits a \<union> cx_lits b"
| "cx_lits (CPrim1 i e) = cx_lits e"
| "cx_lits (CPrim2 i a b) = cx_lits a \<union> cx_lits b"
| "cx_lits (CSetLocal d i e) = cx_lits e"
| "cx_lits (CSetGlobal y e) = cx_lits e"
| "cx_lits (CSeq a b) = cx_lits a \<union> cx_lits b"
| "cx_lits _ = {}"

lemma codes_lits: "codes L k e c \<Longrightarrow> cx_lits e \<subseteq> set L"
  by (induction rule: codes.induct) (auto split: val.split simp: in_set_conv_nth)

text \<open>Code for an expression up to its literals, with the rules of \<open>codes\<close>.\<close>

definition like :: "(val \<Rightarrow> val \<Rightarrow> bool) \<Rightarrow> val list \<Rightarrow> bool \<Rightarrow> cx \<Rightarrow> val list \<Rightarrow> bool" where
  "like R L k e code \<longleftrightarrow> (\<exists>e'. alike R e e' \<and> codes L k e' code)"

lemma like_leaf:
  shows like_nil: "like R L k (CLit NIL) (fin k [word inil])"
    and like_true: "like R L k CTrue (fin k [word itrue])"
    and like_fix_lit: "like R L k (CLit (Fix z)) (fin k [word ildi, Fix z])"
    and like_lit: "n < length L \<Longrightarrow> R (L ! n) v \<Longrightarrow> like R L k (CLit v) (fin k [word ildl, Fix (int n)])"
    and like_local0: "like R L k (CLocal 0 i) (fin k [word ilde0, Fix (int i)])"
    and like_local: "like R L k (CLocal d i) (fin k [word ilde, Fix (int d), Fix (int i)])"
    and like_global: "n < length L \<Longrightarrow> L ! n = y \<Longrightarrow> like R L k (CGlobal y) (fin k [word ildg, Fix (int n)])"
  unfolding like_def by (blast intro: alike.intros codes.intros)+

lemma like_ifte:
  "like R L False c cc \<Longrightarrow> like R L False a ca \<Longrightarrow> like R L k b cb \<Longrightarrow>
    like R L k (CIf c a b) (fin k (cc @ [word ijf, Fix (int (length ca) + 4)] @ ca @ [word ijmp, Fix (int (length cb) + 2)] @ cb))"
  unfolding like_def by (meson alike.ifte codes.ifte)

lemma like_prim1: "i \<in> {icar, icdr} \<Longrightarrow> like R L False e ce \<Longrightarrow> like R L k (CPrim1 i e) (fin k (ce @ [word i]))"
  unfolding like_def by (meson alike.prim1 codes.prim1)

lemma like_prim2: "i \<in> {icons, iadd, isub, imul, idiv} \<Longrightarrow> like R L False a ca \<Longrightarrow> like R L False b cb \<Longrightarrow>
    like R L k (CPrim2 i a b) (fin k (ca @ [word ipush] @ cb @ [word i]))"
  unfolding like_def by (meson alike.prim2 codes.prim2)

lemma like_set:
  "like R L False e ce \<Longrightarrow> like R L k (CSetLocal d i e) (fin k (ce @ [word iste, Fix (int d), Fix (int i)]))"
  "like R L False e ce \<Longrightarrow> like R L k (CSetLocal 0 i e) (fin k (ce @ [word iste0, Fix (int i)]))"
  unfolding like_def by (meson alike.setl codes.set codes.set0)+

lemma like_setg: "like R L False e ce \<Longrightarrow> n < length L \<Longrightarrow> L ! n = y \<Longrightarrow> like R L k (CSetGlobal y e) (fin k (ce @ [word istg, Fix (int n)]))"
  unfolding like_def by (meson alike.setg codes.setg)

lemma like_seq: "like R L False a ca \<Longrightarrow> like R L k b cb \<Longrightarrow> like R L k (CSeq a b) (ca @ cb)"
  unfolding like_def by (meson alike.seq codes.seq)

subsection \<open>What compiling an expression gives\<close>

definition good :: "(val \<Rightarrow> val \<Rightarrow> bool) \<Rightarrow> cctx \<Rightarrow> heap \<Rightarrow> bool \<Rightarrow> cx \<Rightarrow> cctx \<times> cst \<Rightarrow> bool" where
  "good R c0 h k e = (\<lambda>(c, s). \<exists>code. built c0 h code (c, s) \<and> like R (lits_of c) k e code)"

definition compiles :: "(val \<Rightarrow> val \<Rightarrow> bool) \<Rightarrow> cenv \<Rightarrow> heap \<Rightarrow> compiler \<Rightarrow> val \<Rightarrow> cx \<Rightarrow> bool" where
  "compiles R env h cp v e \<longleftrightarrow> (\<forall>k c s. ctx_ok c \<longrightarrow> st_ok h s \<longrightarrow> yields (good R c (CHP s) k e) (cp v c env k s))"

lemma compilesI:
  "(\<And>k c s. built c (CHP s) [] (c, s) \<Longrightarrow> hext h (CHP s) \<Longrightarrow> yields (good R c (CHP s) k e) (cp v c env k s)) \<Longrightarrow> compiles R env h cp v e"
  unfolding compiles_def by (meson built_start st_ok_def)

lemma codes_mono: "codes L k e c \<Longrightarrow> prefix L L' \<Longrightarrow> codes L' k e c"
proof (induction rule: codes.induct)
  case (lit n v k)
  then show ?case by (intro codes.lit) (auto simp: prefix_def nth_append)
next
  case (global n y k)
  then show ?case by (intro codes.global) (auto simp: prefix_def nth_append)
next
  case (setg e ce n y k)
  then show ?case by (intro codes.setg) (auto simp: prefix_def nth_append)
qed (auto intro: codes.intros simp del: append_Cons append.simps)

lemma like_mono: "like R L k e c \<Longrightarrow> prefix L L' \<Longrightarrow> like R L' k e c"
  unfolding like_def using codes_mono by blast

lemma cp_built:
  assumes "compiles R env h0 cp v e" and "hext h0 h" and "built c0 h code (c, s)"
    and "\<And>c' s' cd. built c0 h (code @ cd) (c', s') \<Longrightarrow> like R (lits_of c') k e cd \<Longrightarrow> prefix (lits_of c) (lits_of c') \<Longrightarrow> yields Z (f (c', s'))"
  shows "yields Z (rthen (cp v c env k s) f)"
proof (rule yields_rthen)
  have "st_ok h0 s" using assms(2,3) hext_trans by (auto simp: built_def st_ok_def)
  then show "yields (good R c (CHP s) k e) (cp v c env k s)" using assms(1,3) by (simp add: compiles_def built_def)
next
  fix p assume g: "good R c (CHP s) k e p"
  obtain c' s' where p: "p = (c', s')" by (cases p)
  then obtain cd where "built c (CHP s) cd (c', s')" "like R (lits_of c') k e cd" using g by (auto simp: good_def)
  moreover from this have "built c0 h (code @ cd) (c', s')" "prefix (lits_of c) (lits_of c')"
    using assms(3) st_ok_trans by (auto simp: built_def)
  ultimately show "yields Z (f p)" using assms(4) p by blast
qed

lemma rthen_id: "rthen r ret = r"
  by (simp add: rthen_def split: option.split sum.split)

lemma cp_last:
  assumes "compiles R env h0 cp v e" and "hext h0 h" and "built c0 h code (c, s)"
    and "\<And>c' s' cd. built c0 h (code @ cd) (c', s') \<Longrightarrow> like R (lits_of c') k e cd \<Longrightarrow> prefix (lits_of c) (lits_of c') \<Longrightarrow> Z (c', s')"
  shows "yields Z (cp v c env k s)"
  using cp_built [OF assms(1-3), where k = k and f = ret] assms(4) by (simp add: rthen_id)

lemma good_cont:
  assumes "built c0 h code (c, s)" and "like R (lits_of c) k e (fin k code)"
  shows "yields (good R c0 h k e) (compile_continuation c k s)"
  by (rule yields_mono [OF cont_built [OF assms(1), of k]]) (use assms(2) in \<open>auto simp: good_def\<close>)

lemma cell_read:
  assumes "built c0 h code (c, s)" and "mem h a = Some (OCons x d)"
  shows "ccar (Ref a) s = ret x" and "ccdr (Ref a) s = ret d" and "CONS_P (Ref a) s" and "\<not> SYM_P (Ref a)"
proof -
  have "mem (CHP s) a = Some (OCons x d)" using assms hext_mem by (auto simp: built_def st_ok_def)
  then show "ccar (Ref a) s = ret x" and "ccdr (Ref a) s = ret d" and "CONS_P (Ref a) s" and "\<not> SYM_P (Ref a)"
    by (simp_all add: ccar_def ccdr_def car_def cdr_def CONS_P_def htype_def SYM_P_def)
qed

lemma cells_read:
  assumes "built c0 h code (c, s)" and "mem h a = Some (OCons x (Ref b))" and "mem h b = Some (OCons y d)"
  shows "ccadr (Ref a) s = ret y" and "ccddr (Ref a) s = ret d"
  using cell_read [OF assms(1,2)] cell_read [OF assms(1,3)] by (simp_all add: ccadr_def ccddr_def)

lemma built_hext: "hext h h' \<Longrightarrow> mem h a = Some x \<Longrightarrow> mem h' a = Some x"
  by (rule hext_mem)

subsection \<open>Literals and variables\<close>

text \<open>One instruction and the continuation.\<close>

lemma emit_good:
  assumes "built c0 h code (c, s)" and "length args \<le> 2" and "\<And>L. prefix (lits_of c) L \<Longrightarrow> like R L k e (fin k (code @ word i # args))"
  shows "yields (good R c0 h k e) (rthen (emit i args obj c s) (\<lambda>(c, s). compile_continuation c k s))"
  by (rule emit_built [OF assms(1,2)]) (use assms(3) in \<open>auto intro: good_cont\<close>)

lemma emit_lit_good:
  assumes "built c0 h code (c, s)" and "stands Q h T v"
    and "\<And>L n. prefix (lits_of c) L \<Longrightarrow> n < length L \<Longrightarrow> T (L ! n) v \<Longrightarrow> like R L k e (fin k (code @ [word i, Fix (int n)]))"
  shows "yields (good R c0 h k e) (rthen (emit_lit Q i v obj c s) (\<lambda>(c, s). compile_continuation c k s))"
  by (rule emit_lit_built [OF assms(1,2)]) (use assms(3) in \<open>auto intro: good_cont\<close>)

fun quoted :: "cprims \<Rightarrow> val \<Rightarrow> cx option" where
  "quoted Q v =
     (if v = NIL \<or> v = ARC_BUILTIN S_NIL then Some (CLit NIL)
      else if v = ARC_BUILTIN S_T then Some CTrue else Some (CLit v))"

lemma literal_good:
  assumes "built c h [] (c, s)" and "quoted Q v = Some e" and "v \<in> {ARC_BUILTIN S_NIL, NIL, ARC_BUILTIN S_T} \<or> (\<exists>i. v = Fix i) \<or> stands Q h R v"
  shows "yields (good R c h k e) (compile_literal Q v c k s)"
proof -
  consider (nil) "v = ARC_BUILTIN S_NIL \<or> v = NIL" | (t) "v = ARC_BUILTIN S_T" | (fix_val) i where "v = Fix i"
    | (other) "v \<notin> {ARC_BUILTIN S_NIL, NIL, ARC_BUILTIN S_T}" "\<forall>i. v \<noteq> Fix i" "stands Q h R v"
    using assms(3) by blast
  then show ?thesis
  proof cases
    case nil
    then show ?thesis using assms(2) emit_good [OF assms(1), of "[]" R k e inil NIL] like_nil by (auto simp: compile_literal_def)
  next
    case t
    then show ?thesis using assms(2) emit_good [OF assms(1), of "[]" R k e itrue NIL] like_true by (auto simp: compile_literal_def)
  next
    case (fix_val i)
    then show ?thesis using assms(2) emit_good [OF assms(1), of "[v]" R k e ildi NIL] like_fix_lit
      by (auto simp: compile_literal_def builtin_neq(5) [THEN not_sym])
  next
    case other
    then show ?thesis using assms(2) emit_lit_good [OF assms(1) other(3), of R k e ildl NIL] like_lit
      by (cases v) (auto simp: compile_literal_def)
  qed
qed

lemma ident_good:
  assumes "built c h [] (c, s)" and "(case find_var v env 0 of Some (l, i) \<Rightarrow> 0 \<le> i \<and> e = CLocal l (nat i) | None \<Rightarrow> stands Q h (=) v \<and> e = CGlobal v)"
  shows "yields (good R c h k e) (compile_ident Q v c env k s)"
proof (cases "find_var v env 0")
  case None
  then show ?thesis using assms(2) emit_lit_good [OF assms(1), of Q "(=)" v R k e ildg NIL] like_global by (auto simp: compile_ident_def)
next
  case (Some p)
  then obtain l i where p: "p = (l, int i)" "e = CLocal l i" using assms(2) by (cases p) (auto elim: nonneg_int_cases)
  then show ?thesis
    using Some emit_good [OF assms(1), of "[Fix (int i)]" R k e ilde0 NIL] emit_good [OF assms(1), of "[Fix (int l), Fix (int i)]" R k e ilde NIL]
      like_local0 like_local by (auto simp: compile_ident_def)
qed


subsection \<open>Conditionals\<close>

lemma comp_if_nil: "compiles R env h (compile_if (Suc n) cp) NIL (CLit NIL)"
proof (rule compilesI)
  fix k c s assume b: "built c (CHP s) [] (c, s)"
  show "yields (good R c (CHP s) k (CLit NIL)) (compile_if (Suc n) cp NIL c env k s)"
    using emit_good [OF b, of "[]" R k "CLit NIL" inil NIL] like_nil by simp
qed

lemma comp_if_one:
  assumes "mem h a = Some (OCons x NIL)" and "compiles R env h cp x e"
  shows "compiles R env h (compile_if (Suc n) cp) (Ref a) e"
proof (rule compilesI)
  fix k c s assume b: "built c (CHP s) [] (c, s)" and h: "hext h (CHP s)"
  note r = cell_read [OF b hext_mem [OF h assms(1)]]
  show "yields (good R c (CHP s) k e) (compile_if (Suc n) cp (Ref a) c env k s)"
    using cp_last [OF assms(2) h b, of k "good R c (CHP s) k e"] by (auto simp: r good_def)
qed

text \<open>The same steps as equations.\<close>

lemma cp_run:
  assumes "compiles R env h0 cp v e" and "hext h0 h" and "built c0 h code (c, s)"
  obtains c' s' cd where "cp v c env k s = ret (c', s')" "built c0 h (code @ cd) (c', s')" "like R (lits_of c') k e cd"
    "prefix (lits_of c) (lits_of c')"
proof -
  have "yields (\<lambda>(c', s'). \<exists>cd. built c0 h (code @ cd) (c', s') \<and> like R (lits_of c') k e cd \<and> prefix (lits_of c) (lits_of c')) (cp v c env k s)"
    by (rule cp_last [OF assms]) blast
  then show ?thesis using that by (auto simp: yields_def)
qed

lemma emit_run:
  assumes "built c0 h code (c, s)" and "length args \<le> 2"
  obtains c' where "emit i args obj c s = ret (c', s)" "built c0 h (code @ word i # args) (c', s)" "lits_of c' = lits_of c"
proof -
  have "yields (\<lambda>(c', s'). s' = s \<and> built c0 h (code @ word i # args) (c', s) \<and> lits_of c' = lits_of c) (rthen (emit i args obj c s) ret)"
    by (rule emit_built [OF assms]) simp
  then show ?thesis using that by (auto simp: yields_def rthen_id)
qed

lemma jump_run:
  assumes "built c0 h code (c, s)" and "p + 1 < length code"
  obtains c' where "jump_here (length (code_of c0) + p) c = ret c'"
    "built c0 h (code[p + 1 := Fix (int (length code) - int p)]) (c', s)" "lits_of c' = lits_of c"
proof -
  have "yields (\<lambda>c'. built c0 h (code[p + 1 := Fix (int (length code) - int p)]) (c', s) \<and> lits_of c' = lits_of c)
      (rthen (jump_here (length (code_of c0) + p) c) ret)"
    by (rule jump_built [OF assms(1) refl assms(2)]) simp
  then show ?thesis using that by (auto simp: yields_def rthen_id)
qed

lemma comp_if_more:
  assumes cells: "mem h a = Some (OCons x (Ref b))" "mem h b = Some (OCons y r)"
    and sub: "compiles R env h cp x ex" "compiles R env h cp y ey" "compiles R env h (compile_if n cp) r er"
  shows "compiles R env h (compile_if (Suc n) cp) (Ref a) (CIf ex ey er)"
proof (rule compilesI)
  fix k c0 s0 assume b0: "built c0 (CHP s0) [] (c0, s0)" and h: "hext h (CHP s0)"
  note m = hext_mem [OF h cells(1)] hext_mem [OF h cells(2)]
  obtain c1 s1 cx where 1: "cp x c0 env False s0 = ret (c1, s1)" "built c0 (CHP s0) ([] @ cx) (c1, s1)" "like R (lits_of c1) False ex cx"
    by (rule cp_run [OF sub(1) h b0])
  obtain c2 where 2: "emit ijf [Fix 0] (Ref a) c1 s1 = ret (c2, s1)" "built c0 (CHP s0) (([] @ cx) @ [word ijf, Fix 0]) (c2, s1)"
    "lits_of c2 = lits_of c1" by (rule emit_run [OF 1(2), of "[Fix 0]"]) simp
  obtain c3 s3 cy where 3: "cp y c2 env False s1 = ret (c3, s3)" "built c0 (CHP s0) ((([] @ cx) @ [word ijf, Fix 0]) @ cy) (c3, s3)"
    "like R (lits_of c3) False ey cy" "prefix (lits_of c2) (lits_of c3)" by (rule cp_run [OF sub(2) h 2(2)])
  obtain c4 where 4: "emit ijmp [Fix 0] (Ref a) c3 s3 = ret (c4, s3)"
    "built c0 (CHP s0) (((([] @ cx) @ [word ijf, Fix 0]) @ cy) @ [word ijmp, Fix 0]) (c4, s3)" "lits_of c4 = lits_of c3"
    by (rule emit_run [OF 3(2), of "[Fix 0]"]) simp
  have b4: "built c0 (CHP s0) (cx @ [word ijf, Fix 0] @ cy @ [word ijmp, Fix 0]) (c4, s3)" using 4(2) by simp
  let ?jf = "Fix (int (length cy) + 4)"
  obtain c5 where 5: "jump_here (length (code_of c0) + length cx) c4 = ret c5"
    "built c0 (CHP s0) ((cx @ [word ijf, Fix 0] @ cy @ [word ijmp, Fix 0])[length cx + 1 :=
       Fix (int (length (cx @ [word ijf, Fix 0] @ cy @ [word ijmp, Fix 0])) - int (length cx))]) (c5, s3)" "lits_of c5 = lits_of c4"
    by (rule jump_run [OF b4, of "length cx"]) simp
  have b5: "built c0 (CHP s0) (cx @ [word ijf, ?jf] @ cy @ [word ijmp, Fix 0]) (c5, s3)"
    using 5(2) by (simp add: list_update_append add.commute)
  obtain c6 s6 cr where 6: "compile_if n cp r c5 env k s3 = ret (c6, s6)"
    "built c0 (CHP s0) ((cx @ [word ijf, ?jf] @ cy @ [word ijmp, Fix 0]) @ cr) (c6, s6)" "like R (lits_of c6) k er cr"
    "prefix (lits_of c5) (lits_of c6)" by (rule cp_run [OF sub(3) h b5])
  have b6: "built c0 (CHP s0) ((cx @ [word ijf, ?jf] @ cy) @ [word ijmp, Fix 0] @ cr) (c6, s6)" using 6(2) by simp
  obtain c7 where 7: "jump_here (length (code_of c0) + length (cx @ [word ijf, ?jf] @ cy)) c6 = ret c7"
    "built c0 (CHP s0) (((cx @ [word ijf, ?jf] @ cy) @ [word ijmp, Fix 0] @ cr)[length (cx @ [word ijf, ?jf] @ cy) + 1 :=
       Fix (int (length ((cx @ [word ijf, ?jf] @ cy) @ [word ijmp, Fix 0] @ cr)) - int (length (cx @ [word ijf, ?jf] @ cy)))]) (c7, s6)"
    "lits_of c7 = lits_of c6"
    by (rule jump_run [OF b6, of "length (cx @ [word ijf, ?jf] @ cy)"]) simp
  have b7: "built c0 (CHP s0) (cx @ [word ijf, ?jf] @ cy @ [word ijmp, Fix (int (length cr) + 2)] @ cr) (c7, s6)"
    using 7(2) by (simp add: list_update_append add.commute eval_nat_numeral)
  have "prefix (lits_of c1) (lits_of c7)" "prefix (lits_of c3) (lits_of c7)" "lits_of c6 = lits_of c7"
    using 2(3) 3(4) 4(3) 5(3) 6(4) 7(3) by (auto intro: prefix_order.trans)
  then have "like R (lits_of c7) k (CIf ex ey er) (fin k (cx @ [word ijf, ?jf] @ cy @ [word ijmp, Fix (int (length cr) + 2)] @ cr))"
    using 1(3) 3(3) 6(3) by (intro like_ifte) (auto intro: like_mono)
  from good_cont [OF b7 this]
  show "yields (good R c0 (CHP s0) k (CIf ex ey er)) (compile_if (Suc n) cp (Ref a) c0 env k s0)"
    using 1(1) 2(1) 3(1) 4(1) 5(1) 6(1) 7(1) cell_read [OF b0 m(1)] cell_read [OF 3(2) m(1)] cells_read [OF b0 m]
      cells_read [OF 2(2) m] cells_read [OF 1(2) m] cells_read [OF b5 m] built_here [OF 1(2)] built_here [OF 3(2)]
    by (simp add: Let_def)
qed


subsection \<open>Assignment\<close>

definition assign_cx :: "cenv \<Rightarrow> val \<Rightarrow> cx \<Rightarrow> cx" where
  "assign_cx env x e = (case find_var x env 0 of Some (l, i) \<Rightarrow> CSetLocal l (nat i) e | None \<Rightarrow> CSetGlobal x e)"

text \<open>A variable that can be assigned: not \<open>t\<close>, at a proper index or a global one.\<close>

definition assignable :: "cenv \<Rightarrow> val \<Rightarrow> bool" where
  "assignable env x \<longleftrightarrow> SYM_P x \<and> x \<noteq> ARC_BUILTIN S_T
     \<and> (case find_var x env 0 of Some (l, i) \<Rightarrow> 0 \<le> i | None \<Rightarrow> True)"

lemma cont_run:
  assumes "built c0 h code (c, s)"
  obtains c' where "compile_continuation c k s = ret (c', s)" "built c0 h (fin k code) (c', s)" "lits_of c' = lits_of c"
proof (cases k)
  case True
  obtain c' where "emit iret [] NIL c s = ret (c', s)" "built c0 h (code @ [word iret]) (c', s)" "lits_of c' = lits_of c"
    by (rule emit_run [OF assms, of "[]"]) simp
  then show ?thesis using that True by (simp add: compile_continuation_def fin_def)
qed (use assms that in \<open>simp add: compile_continuation_def fin_def\<close>)

lemma emit_lit_run:
  assumes "built c0 h code (c, s)" and "stands Q h (=) v"
  obtains c' n where "emit_lit Q i v obj c s = ret (c', s)" "built c0 h (code @ [word i, Fix (int n)]) (c', s)"
    "prefix (lits_of c) (lits_of c')" "n < length (lits_of c')" "lits_of c' ! n = v"
proof -
  have "yields (\<lambda>(c', s'). s' = s \<and> (\<exists>n. built c0 h (code @ [word i, Fix (int n)]) (c', s) \<and> prefix (lits_of c) (lits_of c') \<and>
      n < length (lits_of c') \<and> lits_of c' ! n = v)) (rthen (emit_lit Q i v obj c s) ret)"
    by (rule emit_lit_built [OF assms]) auto
  then show ?thesis using that by (auto simp: yields_def rthen_id)
qed

lemma assign_run:
  assumes "compiles R env h0 cp v e" and "hext h0 h" and "built c0 h code (c, s)" and "assignable env x" and q: "iscmp_ok (c_vm Q)"
  obtains c' s' cd where "assign_one Q cp x v obj c env s = ret (c', s')" "built c0 h (code @ cd) (c', s')"
    "prefix (lits_of c) (lits_of c')" "\<forall>k. like R (lits_of c') k (assign_cx env x e) (fin k cd)"
proof -
  obtain c1 s1 ce where 1: "cp v c env False s = ret (c1, s1)" "built c0 h (code @ ce) (c1, s1)" "like R (lits_of c1) False e ce"
    "prefix (lits_of c) (lits_of c1)" by (rule cp_run [OF assms(1-3)])
  have x: "x \<noteq> NIL" "x \<noteq> ARC_BUILTIN S_T" using assms(4) by (auto simp: assignable_def SYM_P_def)
  show ?thesis
  proof (cases "find_var x env 0")
    case None
    have "stands Q h (=) x" using assms(4) x(1) by (intro immediate_stands [OF q]) (auto simp: assignable_def SYM_P_def)
    from emit_lit_run [OF 1(2) this, of istg obj] obtain c2 n where 2: "emit_lit Q istg x obj c1 s1 = ret (c2, s1)"
      "built c0 h ((code @ ce) @ [word istg, Fix (int n)]) (c2, s1)" "prefix (lits_of c1) (lits_of c2)"
      "n < length (lits_of c2)" "lits_of c2 ! n = x" by blast
    have "like R (lits_of c2) k (assign_cx env x e) (fin k (ce @ [word istg, Fix (int n)]))" for k
      using like_setg [OF like_mono [OF 1(3) 2(3)] 2(4,5)] None by (simp add: assign_cx_def)
    then show ?thesis using that [of c2 s1 "ce @ [word istg, Fix (int n)]"] 1 2 x None
      by (auto simp: assign_one_def intro: prefix_order.trans)
  next
    case (Some p)
    then obtain l i where p: "p = (l, int i)" using assms(4) by (cases p) (auto simp: assignable_def elim: nonneg_int_cases)
    let ?op = "if l = 0 then iste0 else iste" and ?args = "if l = 0 then [Fix (int i)] else [Fix (int l), Fix (int i)]"
    obtain c2 where 2: "emit ?op ?args obj c1 s1 = ret (c2, s1)" "built c0 h ((code @ ce) @ word ?op # ?args) (c2, s1)"
      "lits_of c2 = lits_of c1" by (rule emit_run [OF 1(2), of ?args ?op obj]) simp
    have "like R (lits_of c2) k (assign_cx env x e) (fin k (ce @ word ?op # ?args))" for k
      using like_set(2) [OF 1(3), of k i] like_set(1) [OF 1(3), of k l i] Some p 2(3) by (simp add: assign_cx_def)
    then show ?thesis using that [of c2 s1 "ce @ word ?op # ?args"] 1 2 x Some p
      by (auto simp: assign_one_def split: if_splits)
  qed
qed

lemma assign_step:
  assumes cells: "mem h a = Some (OCons x (Ref b))" "mem h b = Some (OCons v r)"
    and sub: "compiles R env h cp v e" "assignable env x" "iscmp_ok (c_vm Q)" and b: "built c (CHP s) [] (c, s)" and h: "hext h (CHP s)"
  obtains c1 s1 cd where "compile_assign Q (Suc (Suc n)) cp (Ref a) c env k s = compile_assign Q (Suc n) cp r c1 env k s1"
    "built c (CHP s) cd (c1, s1)" "\<And>k. like R (lits_of c1) k (assign_cx env x e) (fin k cd)"
proof -
  note m = hext_mem [OF h cells(1)] hext_mem [OF h cells(2)]
  obtain c1 s1 cd where 1: "assign_one Q cp x v (Ref a) c env s = ret (c1, s1)" "built c (CHP s) ([] @ cd) (c1, s1)"
    "prefix (lits_of c) (lits_of c1)" "\<forall>k. like R (lits_of c1) k (assign_cx env x e) (fin k cd)" by (rule assign_run [OF sub(1) h b sub(2,3), of "Ref a"])
  have "macex Q (Suc n) x True s = ret (x, s)" using sub(2) by (cases x) (auto simp: assignable_def SYM_P_def CONS_P_def htype_def)
  then have "compile_assign Q (Suc (Suc n)) cp (Ref a) c env k s = compile_assign Q (Suc n) cp r c1 env k s1"
    using 1(1) cell_read [OF b m(1)] cells_read [OF b m] cells_read [OF 1(2) m] by (simp del: macex.simps compile_assign.simps(2) add: compile_assign.simps(2) [of Q "Suc n"])
  then show ?thesis using that [of c1 s1 cd] 1(2,4) by simp
qed

lemma assign_last:
  assumes "mem h a = Some (OCons x (Ref b))" "mem h b = Some (OCons v NIL)" and "compiles R env h cp v e" "assignable env x" "iscmp_ok (c_vm Q)"
  shows "compiles R env h (compile_assign Q (Suc (Suc n)) cp) (Ref a) (assign_cx env x e)"
proof (rule compilesI)
  fix k c s assume b: "built c (CHP s) [] (c, s)" and h: "hext h (CHP s)"
  obtain c1 s1 cd where 1: "compile_assign Q (Suc (Suc n)) cp (Ref a) c env k s = compile_assign Q (Suc n) cp NIL c1 env k s1"
    "built c (CHP s) cd (c1, s1)" "\<And>k. like R (lits_of c1) k (assign_cx env x e) (fin k cd)"
    using assign_step [OF assms b h] by blast
  show "yields (good R c (CHP s) k (assign_cx env x e)) (compile_assign Q (Suc (Suc n)) cp (Ref a) c env k s)"
    unfolding 1(1) using good_cont [OF 1(2,3)] by simp
qed

lemma assign_more:
  assumes "mem h a = Some (OCons x (Ref b))" "mem h b = Some (OCons v r)" and "compiles R env h cp v e" "assignable env x" "iscmp_ok (c_vm Q)"
    and "compiles R env h (compile_assign Q (Suc n) cp) r er"
  shows "compiles R env h (compile_assign Q (Suc (Suc n)) cp) (Ref a) (CSeq (assign_cx env x e) er)"
proof (rule compilesI)
  fix k c s assume b: "built c (CHP s) [] (c, s)" and h: "hext h (CHP s)"
  obtain c1 s1 cd where 1: "compile_assign Q (Suc (Suc n)) cp (Ref a) c env k s = compile_assign Q (Suc n) cp r c1 env k s1"
    "built c (CHP s) cd (c1, s1)" "\<And>k. like R (lits_of c1) k (assign_cx env x e) (fin k cd)"
    using assign_step [OF assms(1-5) b h] by blast
  obtain c2 s2 cr where 2: "compile_assign Q (Suc n) cp r c1 env k s1 = ret (c2, s2)" "built c (CHP s) (cd @ cr) (c2, s2)"
    "like R (lits_of c2) k er cr" "prefix (lits_of c1) (lits_of c2)" by (rule cp_run [OF assms(6) h 1(2)])
  have "like R (lits_of c1) False (assign_cx env x e) cd" using 1(3) [of False] by (simp add: fin_def)
  then have "like R (lits_of c2) k (CSeq (assign_cx env x e) er) (cd @ cr)" using like_mono 2(3,4) by (blast intro: like_seq)
  then show "yields (good R c (CHP s) k (CSeq (assign_cx env x e) er)) (compile_assign Q (Suc (Suc n)) cp (Ref a) c env k s)"
    unfolding 1(1) 2(1) using 2(2) by (auto simp: good_def)
qed


subsection \<open>Inline functions\<close>

lemma chain_hext: "chain h v as xs e \<Longrightarrow> hext h h' \<Longrightarrow> chain h' v as xs e"
  by (induction h v as xs e rule: chain.induct) (auto dest: hext_mem)

lemma chain_NilE: "chain h v as [] NIL \<Longrightarrow> v = NIL"
  by (cases as) auto

lemma chain_ConsE:
  assumes "chain h v as (x # xs) NIL"
  obtains a n as' where "v = Ref a" "mem h a = Some (OCons x n)" "chain h n as' xs NIL"
  using assms by (cases as) auto

lemma chain_nil_iff: "chain h v as xs NIL \<Longrightarrow> v = NIL \<longleftrightarrow> xs = []"
  by (cases xs) (auto elim: chain_ConsE dest: chain_NilE)

text \<open>The operands of an inline function with a fixed number of them, pushed but for the last.\<close>

lemma inline1:
  assumes "chain h v as [f, x] NIL" and "compiles R env h cp x e" and "i \<in> {icar, icdr}"
  shows "compiles R env h (inline_fixed i 1 (Suc (Suc n)) cp) v (CPrim1 i e)"
proof (rule compilesI)
  fix k c s assume b: "built c (CHP s) [] (c, s)" and h: "hext h (CHP s)"
  obtain a d as1 where a: "v = Ref a" "mem h a = Some (OCons f d)" "chain h d as1 [x] NIL" using chain_ConsE [OF assms(1)] .
  obtain a2 d2 as2 where a2: "d = Ref a2" "mem h a2 = Some (OCons x d2)" "chain h d2 as2 [] NIL" using chain_ConsE [OF a(3)] .
  have d2: "d2 = NIL" using chain_NilE [OF a2(3)] .
  note m = hext_mem [OF h a(2)] hext_mem [OF h a2(2)]
  obtain c1 s1 ce where 1: "cp x c env False s = ret (c1, s1)" "built c (CHP s) ([] @ ce) (c1, s1)" "like R (lits_of c1) False e ce"
    by (rule cp_run [OF assms(2) h b])
  obtain c2 where 2: "emit i [] NIL c1 s1 = ret (c2, s1)" "built c (CHP s) (([] @ ce) @ [word i]) (c2, s1)" "lits_of c2 = lits_of c1"
    by (rule emit_run [OF 1(2), of "[]"]) simp
  have "like R (lits_of c2) k (CPrim1 i e) (fin k (ce @ [word i]))" using like_prim1 [OF assms(3) 1(3)] 2(3) by simp
  from good_cont [OF _ this] 2(2)
  show "yields (good R c (CHP s) k (CPrim1 i e)) (inline_fixed i 1 (Suc (Suc n)) cp v c env k s)"
    using 1(1) 2(1) cell_read [OF b m(1)] cell_read [OF b m(2)] cell_read [OF 1(2) m(2)] a(1) a2(1) d2 by (simp add: inline_fixed_def)
qed

lemma inline2:
  assumes "chain h v as [f, x, y] NIL" and "compiles R env h cp x ex" and "compiles R env h cp y ey" and "i \<in> {icons, iadd, isub, imul, idiv}"
  shows "compiles R env h (inline_fixed i 2 (Suc (Suc (Suc n))) cp) v (CPrim2 i ex ey)"
proof (rule compilesI)
  fix k c s assume b: "built c (CHP s) [] (c, s)" and h: "hext h (CHP s)"
  obtain a d as1 where a: "v = Ref a" "mem h a = Some (OCons f d)" "chain h d as1 [x, y] NIL" using chain_ConsE [OF assms(1)] .
  obtain a2 d2 as2 where a2: "d = Ref a2" "mem h a2 = Some (OCons x d2)" "chain h d2 as2 [y] NIL" using chain_ConsE [OF a(3)] .
  obtain a3 d3 as3 where a3: "d2 = Ref a3" "mem h a3 = Some (OCons y d3)" "chain h d3 as3 [] NIL" using chain_ConsE [OF a2(3)] .
  have d3: "d3 = NIL" using chain_NilE [OF a3(3)] .
  note m = hext_mem [OF h a(2)] hext_mem [OF h a2(2)] hext_mem [OF h a3(2)]
  obtain c1 s1 cx where 1: "cp x c env False s = ret (c1, s1)" "built c (CHP s) ([] @ cx) (c1, s1)" "like R (lits_of c1) False ex cx"
    by (rule cp_run [OF assms(2) h b])
  obtain c2 where 2: "emit ipush [] (Ref a2) c1 s1 = ret (c2, s1)" "built c (CHP s) (([] @ cx) @ [word ipush]) (c2, s1)" "lits_of c2 = lits_of c1"
    by (rule emit_run [OF 1(2), of "[]"]) simp
  obtain c3 s3 cy where 3: "cp y c2 env False s1 = ret (c3, s3)" "built c (CHP s) ((([] @ cx) @ [word ipush]) @ cy) (c3, s3)"
    "like R (lits_of c3) False ey cy" "prefix (lits_of c2) (lits_of c3)" by (rule cp_run [OF assms(3) h 2(2)])
  obtain c4 where 4: "emit i [] NIL c3 s3 = ret (c4, s3)" "built c (CHP s) (((([] @ cx) @ [word ipush]) @ cy) @ [word i]) (c4, s3)"
    "lits_of c4 = lits_of c3" by (rule emit_run [OF 3(2), of "[]"]) simp
  have "like R (lits_of c4) False ex cx" using like_mono [OF 1(3)] 2(3) 3(4) 4(3) by simp
  then have "like R (lits_of c4) k (CPrim2 i ex ey) (fin k (cx @ [word ipush] @ cy @ [word i]))"
    using like_prim2 [OF assms(4)] 3(3) 4(3) by simp
  from good_cont [OF _ this] 4(2)
  show "yields (good R c (CHP s) k (CPrim2 i ex ey)) (inline_fixed i 2 (Suc (Suc (Suc n))) cp v c env k s)"
    using 1(1) 2(1) 3(1) 4(1) cell_read [OF b m(1)] cell_read [OF b m(2)] cell_read [OF 1(2) m(2)] cell_read [OF 2(2) m(3)] cell_read [OF 3(2) m(3)]
      a(1) a2(1) a3(1) d3 by (simp add: inline_fixed_def)
qed

text \<open>Folding an operation over the operands, the first result being in the value register.\<close>

lemma inlinen_run:
  assumes "list_all2 (compiles R env h0 cp) xs es" and "chain h0 v as xs NIL" and "hext h0 h" and "built c0 h (pre @ cacc) (c, s)"
    and "like R (lits_of c) False acc cacc" and "length xs < n" and "i \<in> {icons, iadd, isub, imul, idiv}"
  shows "\<exists>c' s' cd. inlinen_loop n cp i v c env s = ret (c', s') \<and> built c0 h (pre @ cd) (c', s') \<and>
    like R (lits_of c') False (foldl (CPrim2 i) acc es) cd \<and> (es \<noteq> [] \<longrightarrow> (\<forall>k. like R (lits_of c') k (foldl (CPrim2 i) acc es) (fin k cd)))"
  using assms(1,2,4-6)
proof (induction xs es arbitrary: v as c s acc cacc n rule: list_all2_induct)
  case Nil
  then show ?case using chain_NilE [OF Nil(1)] by (cases n) auto
next
  case (Cons x xs e es)
  obtain n' where n: "n = Suc n'" "length xs < n'" using Cons.prems(4) by (cases n) auto
  obtain a d as1 where a: "v = Ref a" "mem h0 a = Some (OCons x d)" "chain h0 d as1 xs NIL" using chain_ConsE [OF Cons.prems(1)] .
  note m = hext_mem [OF assms(3) a(2)]
  obtain c1 where 1: "emit ipush [] v c s = ret (c1, s)" "built c0 h ((pre @ cacc) @ [word ipush]) (c1, s)" "lits_of c1 = lits_of c"
    by (rule emit_run [OF Cons.prems(2), of "[]"]) simp
  obtain c2 s2 ce where 2: "cp x c1 env False s = ret (c2, s2)" "built c0 h (((pre @ cacc) @ [word ipush]) @ ce) (c2, s2)"
    "like R (lits_of c2) False e ce" "prefix (lits_of c1) (lits_of c2)" by (rule cp_run [OF Cons.hyps(1) assms(3) 1(2)])
  obtain c3 where 3: "emit i [] v c2 s2 = ret (c3, s2)" "built c0 h ((((pre @ cacc) @ [word ipush]) @ ce) @ [word i]) (c3, s2)"
    "lits_of c3 = lits_of c2" by (rule emit_run [OF 2(2), of "[]"]) simp
  have "like R (lits_of c3) False acc cacc" using like_mono [OF Cons.prems(3)] 1(3) 2(4) 3(3) by simp
  then have cd: "like R (lits_of c3) k (CPrim2 i acc e) (fin k (cacc @ [word ipush] @ ce @ [word i]))" for k
    using like_prim2 [OF assms(7)] 2(3) 3(3) by simp
  have b3: "built c0 h (pre @ (cacc @ [word ipush] @ ce @ [word i])) (c3, s2)" using 3(2) by simp
  have st: "inlinen_loop n cp i v c env s = inlinen_loop n' cp i d c3 env s2"
    using n(1) 1(1) 2(1) 3(1) cell_read [OF Cons.prems(2) m] cell_read [OF 1(2) m] cell_read [OF 3(2) m] a(1) by simp
  have cdF: "like R (lits_of c3) False (CPrim2 i acc e) (cacc @ [word ipush] @ ce @ [word i])" using cd [of False] by (simp add: fin_def)
  show ?case
  proof (cases "es = []")
    case True
    then have "xs = []" using Cons.hyps(2) by simp
    then have "d = NIL" using a(3) chain_NilE by blast
    then have "inlinen_loop n cp i v c env s = ret (c3, s2)" using st n(2) by (cases n') auto
    then show ?thesis using True b3 cd cdF by auto
  next
    case False
    then show ?thesis using Cons.IH [OF a(3) b3 cdF n(2)] st by simp
  qed
qed

lemma inlinen_good:
  assumes "chain h v as (f # xs) NIL" and "list_all2 (compiles R env h cp) xs es" and "es \<noteq> []" and "compiles R env h cp x e"
    and "length xs < n" and "i \<in> {icons, iadd, isub, imul, idiv}"
  shows "compiles R env h (\<lambda>v c env k s. compile_inlinen i n cp v c env k x s) v (foldl (CPrim2 i) e es)"
proof (rule compilesI)
  fix k c s assume b: "built c (CHP s) [] (c, s)" and h: "hext h (CHP s)"
  obtain a d as1 where a: "v = Ref a" "mem h a = Some (OCons f d)" "chain h d as1 xs NIL" using chain_ConsE [OF assms(1)] .
  obtain c1 s1 ce where 1: "cp x c env False s = ret (c1, s1)" "built c (CHP s) ([] @ ce) (c1, s1)" "like R (lits_of c1) False e ce"
    by (rule cp_run [OF assms(4) h b])
  obtain c2 s2 cd where 2: "inlinen_loop n cp i d c1 env s1 = ret (c2, s2)" "built c (CHP s) ([] @ cd) (c2, s2)"
    "like R (lits_of c2) k (foldl (CPrim2 i) e es) (fin k cd)"
    using inlinen_run [OF assms(2) a(3) h 1(2,3) assms(5,6)] assms(3) by blast
  show "yields (good R c (CHP s) k (foldl (CPrim2 i) e es)) (compile_inlinen i n cp v c env k x s)"
    using good_cont [OF _ 2(3)] 2(2) 1(1) 2(1) a(1) cell_read [OF 1(2) hext_mem [OF h a(2)]] by (simp add: compile_inlinen_def)
qed


subsection \<open>Forms\<close>

text \<open>Symbols without special syntax are left alone, and a form is copied cell by cell.\<close>

definition plain_sym :: "cprims \<Rightarrow> val \<Rightarrow> bool" where
  "plain_sym Q x \<longleftrightarrow> SYM_P x \<and> (\<forall>h. arc_ssexpand (c_sym2str Q) (c_read Q) x h = ret (NIL, h))"

lemma ssexpand_plain: "plain_sym Q x \<Longrightarrow> ssexpand Q x s = ret (NIL, s)"
  by (simp add: plain_sym_def ssexpand_def from_callee_def)

lemma ccons_ok:
  assumes "st_ok h s"
  obtains c where "ccons x y s = (Ref c, s \<lparr> CHP := snd (cons (CHP s) x y) \<rparr>)" "st_ok (CHP s) (s \<lparr> CHP := snd (cons (CHP s) x y) \<rparr>)"
    "mem (snd (cons (CHP s) x y)) c = Some (OCons x y)"
proof -
  obtain v h' where c: "cons (CHP s) x y = (v, h')" by fastforce
  have ok: "heap_ok (CHP s)" using assms by (simp add: st_ok_def)
  note p = cons_props [OF ok c]
  show ?thesis using that [of "brk (CHP s)"] c p assms cons_hext [OF ok, of x y] by (simp add: ccons_def st_ok_def)
qed

lemma expand_copy:
  assumes "\<forall>x \<in> set xs. SYM_P x \<longrightarrow> plain_sym Q x" and "chain (CHP s) v as xs NIL" and "chain (CHP s) acc bs ys NIL" and "st_ok h s"
    and "length xs < n"
  shows "\<exists>r s' cs. expand_elems Q n v acc s = ret (r, s') \<and> chain (CHP s') r cs (rev xs @ ys) NIL \<and> st_ok (CHP s) s'"
  using assms
proof (induction xs arbitrary: n v as acc bs ys s)
  case Nil
  then show ?case using chain_NilE [OF Nil.prems(2)] st_ok_here by (cases n) auto
next
  case (Cons x xs)
  obtain n' where n: "n = Suc n'" "length xs < n'" using Cons.prems(5) by (cases n) auto
  obtain a d as1 where a: "v = Ref a" "mem (CHP s) a = Some (OCons x d)" "chain (CHP s) d as1 xs NIL" using chain_ConsE [OF Cons.prems(2)] .
  let ?s = "s \<lparr> CHP := snd (cons (CHP s) x acc) \<rparr>"
  obtain c where c: "ccons x acc s = (Ref c, ?s)" "st_ok (CHP s) ?s" "mem (CHP ?s) c = Some (OCons x acc)"
    using ccons_ok [OF Cons.prems(4), of x acc] by auto
  have hx: "hext (CHP s) (CHP ?s)" using c(2) by (simp add: st_ok_def)
  have rd: "ccar (Ref a) s = ret x" "ccdr (Ref a) ?s = ret d"
    using a(2) hext_mem [OF hx a(2)] by (simp_all add: ccar_def ccdr_def car_def cdr_def)
  have "expand_elems Q n v acc s = expand_elems Q n' d (Ref c) ?s"
    using n(1) a(1) rd c(1) Cons.prems(1) ssexpand_plain [of Q x s] by auto
  moreover have "chain (CHP ?s) (Ref c) (c # bs) (x # ys) NIL" using c(3) chain_hext [OF Cons.prems(3) hx] by simp
  moreover have "\<forall>x \<in> set xs. SYM_P x \<longrightarrow> plain_sym Q x" using Cons.prems(1) by simp
  ultimately show ?case
    using Cons.IH [OF _ chain_hext [OF a(3) hx] _ st_ok_trans [OF Cons.prems(4) c(2)] n(2)] st_ok_trans [OF c(2)] by fastforce
qed

lemma reverse_chain:
  assumes "st_ok h s" and "chain (CHP s) v as xs NIL"
  shows "\<exists>r h' cs. arc_list_reverse (CHP s) v = ret (r, h') \<and> chain h' r cs (rev xs) NIL \<and> st_ok (CHP s) (s \<lparr> CHP := h' \<rparr>)"
proof -
  have ok: "heap_ok (CHP s)" using assms(1) by (simp add: st_ok_def)
  obtain r h' cs where r: "reverse_loop (CHP s) v NIL = Some (Inr (r, h'))" "heap_ok h'" "chain h' r cs (rev xs @ []) NIL"
    "\<forall>a < brk (CHP s). mem h' a = mem (CHP s) a"
    using reverse_loop_chain [OF ok assms(2), of NIL "[]" "[]"] by auto
  have "hext (CHP s) h'" using r(4) ok unfolding hext_def heap_ok_def by (metis not_None_eq linorder_not_less)
  then show ?thesis using r assms(1) by (auto simp: arc_list_reverse_def st_ok_def)
qed

text \<open>A form that is no special form is compiled from its copy.\<close>

lemma list_good:
  assumes "chain h v as (f # xs) NIL" and "\<forall>x \<in> set (f # xs). SYM_P x \<longrightarrow> plain_sym Q x" and "spform Q f = None" and "length (f # xs) < n"
    and sub: "\<And>h' v' as'. hext h h' \<Longrightarrow> chain h' v' as' (f # xs) NIL \<Longrightarrow> compiles R env h' (compile_form Q n cp) v' e"
  shows "compiles R env h (compile_list Q n cp) v e"
proof (rule compilesI)
  fix k c s assume b: "built c (CHP s) [] (c, s)" and h: "hext h (CHP s)"
  have st: "st_ok (CHP s) s" using b by (simp add: built_def)
  note ch = chain_hext [OF assms(1) h]
  obtain a d as1 where a: "v = Ref a" "mem h a = Some (OCons f d)" using chain_ConsE [OF assms(1)] .
  obtain r1 s1 cs1 where 1: "expand_elems Q n v NIL s = ret (r1, s1)" "chain (CHP s1) r1 cs1 (rev (f # xs) @ []) NIL" "st_ok (CHP s) s1"
    using expand_copy [OF assms(2) ch _ st assms(4), of NIL "[]" "[]"] by auto
  obtain r2 h2 cs2 where 2: "arc_list_reverse (CHP s1) r1 = ret (r2, h2)" "chain h2 r2 cs2 (f # xs) NIL" "st_ok (CHP s1) (s1 \<lparr> CHP := h2 \<rparr>)"
    using reverse_chain [OF 1(3,2)] by auto
  let ?s = "s1 \<lparr> CHP := h2 \<rparr>"
  have st2: "st_ok (CHP s) ?s" using st_ok_trans [OF 1(3) 2(3)] .
  have "hext h h2" using st2 h hext_trans by (auto simp: st_ok_def)
  then have "compiles R env h2 (compile_form Q n cp) r2 e" using sub 2(2) by blast
  moreover have "built c (CHP s) [] (c, ?s)" using b st2 by (simp add: built_def)
  moreover have "st_ok h2 ?s" using st_ok_here [OF st2] by simp
  ultimately have "yields (good R c (CHP ?s) k e) (compile_form Q n cp r2 c env k ?s)" unfolding compiles_def built_def by blast
  then have "yields (good R c h2 k e) (compile_form Q n cp r2 c env k ?s)" by simp
  then have "yields (good R c (CHP s) k e) (compile_form Q n cp r2 c env k ?s)"
    by (rule yields_mono) (use st2 st_ok_trans in \<open>auto simp: good_def built_def\<close>)
  then show "yields (good R c (CHP s) k e) (compile_list Q n cp v c env k s)"
    using a assms(3) 1(1) 2(1) cell_read [OF b hext_mem [OF h a(2)]] by (simp add: compile_list_def)
qed

text \<open>From a compound expression to its form.\<close>

lemma expr_list:
  assumes "mem h a = Some (OCons x d)" and "compiles R env h (compile_list Q n cp) (Ref a) e"
  shows "compiles R env h (compile_expr Q n cp) (Ref a) e"
proof (rule compilesI)
  fix k c s assume b: "built c (CHP s) [] (c, s)" and h: "hext h (CHP s)"
  have st: "st_ok h s" "ctx_ok c" using b h by (simp_all add: built_def st_ok_def)
  have "htype (CHP s) (Ref a) = T_CONS" using hext_mem [OF h assms(1)] by (simp add: htype_def)
  then show "yields (good R c (CHP s) k e) (compile_expr Q n cp (Ref a) c env k s)"
    using assms(2) st get_lineno_none [OF st(1)]
    by (simp add: compile_expr_def LITERAL_P_def SYM_P_def CONS_P_def compiles_def builtin_neq(4) [THEN not_sym])
qed

lemma spform_list:
  assumes "mem h a = Some (OCons f d)" and "spform Q f = Some fn" and "compiles R env h (fn n cp) d e"
  shows "compiles R env h (compile_expr Q n cp) (Ref a) e"
proof (rule expr_list [OF assms(1)], rule compilesI)
  fix k c s assume b: "built c (CHP s) [] (c, s)" and h: "hext h (CHP s)"
  show "yields (good R c (CHP s) k e) (compile_list Q n cp (Ref a) c env k s)"
    using cp_last [OF assms(3) h b, of k "good R c (CHP s) k e"] assms(2) cell_read [OF b hext_mem [OF h assms(1)]]
    by (auto simp: compile_list_def good_def)
qed

lemma inline_list:
  assumes "chain h v as (f # xs) NIL" and "\<forall>x \<in> set (f # xs). SYM_P x \<longrightarrow> plain_sym Q x" and "spform Q f = None" and "inline_func f = Some fn"
    and "length (f # xs) < n" and "\<And>h' v' as'. hext h h' \<Longrightarrow> chain h' v' as' (f # xs) NIL \<Longrightarrow> compiles R env h' (fn n cp) v' e"
  shows "compiles R env h (compile_expr Q n cp) v e"
proof -
  obtain a d as1 where a: "v = Ref a" "mem h a = Some (OCons f d)" using chain_ConsE [OF assms(1)] .
  have "compiles R env h (compile_list Q n cp) v e"
  proof (rule list_good [OF assms(1-3,5)])
    fix h' v' as' assume h: "hext h h'" "chain h' v' as' (f # xs) NIL"
    obtain a d as1 where a: "v' = Ref a" "mem h' a = Some (OCons f d)" using chain_ConsE [OF h(2)] .
    show "compiles R env h' (compile_form Q n cp) v' e"
    proof (rule compilesI)
      fix k c s assume b: "built c (CHP s) [] (c, s)" and h2: "hext h' (CHP s)"
      show "yields (good R c (CHP s) k e) (compile_form Q n cp v' c env k s)"
        using cp_last [OF assms(6) [OF h] h2 b, of k "good R c (CHP s) k e"] assms(4) a(1) cell_read [OF b hext_mem [OF h2 a(2)]]
        by (auto simp: compile_form_def good_def)
    qed
  qed
  then show ?thesis using expr_list [OF a(2)] a(1) by simp
qed


subsection \<open>Arithmetic\<close>

lemma compiles_mono: "compiles R env h cp v e \<Longrightarrow> hext h h' \<Longrightarrow> compiles R env h' cp v e"
  unfolding compiles_def st_ok_def using hext_trans by blast

lemma all_mono: "list_all2 (compiles R env h cp) xs es \<Longrightarrow> hext h h' \<Longrightarrow> list_all2 (compiles R env h' cp) xs es"
  by (erule list_all2_mono) (rule compiles_mono)

lemma rebase:
  assumes "built c (CHP s) [] (c, s)" and "st_ok (CHP s) s2" and "compiles R env (CHP s2) F v e"
  shows "yields (good R c (CHP s) k e) (F v c env k s2)"
proof -
  have "yields (good R c (CHP s2) k e) (F v c env k s2)"
    using assms(1,3) st_ok_here [OF assms(2)] unfolding compiles_def built_def by blast
  then show ?thesis by (rule yields_mono) (use assms(2) st_ok_trans in \<open>auto simp: good_def built_def\<close>)
qed

lemma inlinen2_good:
  assumes "chain h v as (f # x # xs) NIL" and "compiles R env h cp x e" and "list_all2 (compiles R env h cp) xs es" and "es \<noteq> []"
    and "length xs < n" and "i \<in> {icons, iadd, isub, imul, idiv}"
  shows "compiles R env h (\<lambda>v c env k s. compile_inlinen2 i n cp v c env k z s) v (foldl (CPrim2 i) e es)"
proof (rule compilesI)
  fix k c s assume b: "built c (CHP s) [] (c, s)" and h: "hext h (CHP s)"
  have st: "st_ok (CHP s) s" using b by (simp add: built_def)
  obtain a d as1 where a: "v = Ref a" "mem h a = Some (OCons f d)" "chain h d as1 (x # xs) NIL" using chain_ConsE [OF assms(1)] .
  obtain a2 d2 as2 where a2: "d = Ref a2" "mem h a2 = Some (OCons x d2)" "chain h d2 as2 xs NIL" using chain_ConsE [OF a(3)] .
  have len: "arc_list_length (CHP s) d = Some (int (Suc (length xs)))" "xs \<noteq> []"
    using length_loop_chain [OF chain_hext [OF a(3) h], of 0] assms(3,4) by (auto simp: arc_list_length_def)
  let ?s = "s \<lparr> CHP := snd (cons (CHP s) f d2) \<rparr>"
  obtain c2 where c2: "ccons f d2 s = (Ref c2, ?s)" "st_ok (CHP s) ?s" "mem (CHP ?s) c2 = Some (OCons f d2)"
    using ccons_ok [OF st, of f d2] by auto
  have h2: "hext h (CHP ?s)" using c2(2) h hext_trans by (auto simp: st_ok_def)
  have "chain (CHP ?s) (Ref c2) (c2 # as2) (f # xs) NIL" using c2(3) chain_hext [OF a2(3) h2] by simp
  from inlinen_good [OF this all_mono [OF assms(3) h2] assms(4) compiles_mono [OF assms(2) h2] assms(5,6)]
  have "yields (good R c (CHP s) k (foldl (CPrim2 i) e es)) (compile_inlinen i n cp (Ref c2) c env k x ?s)"
    using rebase [OF b c2(2), of R env "\<lambda>v c env k s. compile_inlinen i n cp v c env k x s"] by simp
  moreover have "compile_inlinen2 i n cp v c env k z s = compile_inlinen i n cp (Ref c2) c env k x ?s"
    using len c2(1) a(1) a2(1) cell_read [OF b hext_mem [OF h a(2)]] cell_read [OF b hext_mem [OF h a2(2)]]
    by (simp add: compile_inlinen2_def)
  ultimately show "yields (good R c (CHP s) k (foldl (CPrim2 i) e es)) (compile_inlinen2 i n cp v c env k z s)" by simp
qed

text \<open>One argument only: \<open>(- x)\<close> is \<open>0 - x\<close> and \<open>(/ x)\<close> is \<open>1 / x\<close>.\<close>

lemma inlinen2_one:
  assumes "chain h v as [f, x] NIL" and "compiles R env h cp x e" and "compiles R env h cp z ez"
    and "1 < n" and "i \<in> {icons, iadd, isub, imul, idiv}"
  shows "compiles R env h (\<lambda>v c env k s. compile_inlinen2 i n cp v c env k z s) v (CPrim2 i ez e)"
proof (rule compilesI)
  fix k c s assume b: "built c (CHP s) [] (c, s)" and h: "hext h (CHP s)"
  obtain a d as1 where a: "v = Ref a" "mem h a = Some (OCons f d)" "chain h d as1 [x] NIL" using chain_ConsE [OF assms(1)] .
  have len: "arc_list_length (CHP s) d = Some 1"
    using length_loop_chain [OF chain_hext [OF a(3) h], of 0] by (auto simp: arc_list_length_def)
  have "compiles R env h (\<lambda>v c env k s. compile_inlinen i n cp v c env k z s) v (foldl (CPrim2 i) ez [e])"
    by (rule inlinen_good [OF assms(1) _ _ assms(3) _ assms(5)]) (use assms(2,4) in auto)
  then have "yields (good R c (CHP s) k (CPrim2 i ez e)) (compile_inlinen i n cp v c env k z s)"
    using b h by (auto simp: compiles_def built_def st_ok_def)
  then show "yields (good R c (CHP s) k (CPrim2 i ez e)) (compile_inlinen2 i n cp v c env k z s)"
    using len a(1) cell_read [OF b hext_mem [OF h a(2)]] by (simp add: compile_inlinen2_def)
qed

lemma plus_good:
  assumes "chain h v as (f # xs) NIL"
  shows "xs = [] \<Longrightarrow> compiles R env h cp (Fix 0) e \<Longrightarrow> compiles R env h (inline_plus n cp) v e"
    and "xs = [x] \<Longrightarrow> compiles R env h cp x e \<Longrightarrow> compiles R env h (inline_plus n cp) v e"
    and "2 \<le> length xs \<Longrightarrow> compiles R env h (\<lambda>v c env k s. compile_inlinen2 iadd n cp v c env k (Fix 0) s) v e \<Longrightarrow>
      compiles R env h (inline_plus n cp) v e"
proof -
  obtain a d as1 where a: "v = Ref a" "mem h a = Some (OCons f d)" "chain h d as1 xs NIL" using chain_ConsE [OF assms] .
  have eq: "inline_plus n cp v c env k s = (if length xs = 0 then cp (Fix 0) c env k s
      else if length xs = 1 then rthen (ccar d s) (\<lambda>e. cp e c env k s) else compile_inlinen2 iadd n cp v c env k (Fix 0) s)"
    if "built c (CHP s) [] (c, s)" "hext h (CHP s)" for c s k
    using length_loop_chain [OF chain_hext [OF a(3) that(2)], of 0] a(1) cell_read [OF that(1) hext_mem [OF that(2) a(2)]]
    by (simp add: inline_plus_def arc_list_length_def)
  have run: "yields (good R c (CHP s) k e) (F u c env k s)" if "compiles R env h F u e" "built c (CHP s) [] (c, s)" "hext h (CHP s)" for F u c k s
    using that by (auto simp: compiles_def built_def st_ok_def)
  show "compiles R env h (inline_plus n cp) v e" if "xs = []" "compiles R env h cp (Fix 0) e"
    by (rule compilesI) (use that eq run in simp)
  show "compiles R env h (inline_plus n cp) v e" if "2 \<le> length xs"
    "compiles R env h (\<lambda>v c env k s. compile_inlinen2 iadd n cp v c env k (Fix 0) s) v e"
    by (rule compilesI) (use that eq run [OF that(2)] in auto)
  show "compiles R env h (inline_plus n cp) v e" if x: "xs = [x]" "compiles R env h cp x e"
  proof (rule compilesI)
    fix k c s assume b: "built c (CHP s) [] (c, s)" and h: "hext h (CHP s)"
    have "chain h d as1 [x] NIL" using a(3) x(1) by simp
    from chain_ConsE [OF this] obtain a2 d2 where "d = Ref a2" "mem h a2 = Some (OCons x d2)" by metis
    then show "yields (good R c (CHP s) k e) (inline_plus n cp v c env k s)"
      using eq [OF b h] x(1) run [OF x(2) b h] cell_read [OF b hext_mem [OF h, of a2]] by simp
  qed
qed


subsection \<open>Expressions in the heap\<close>

text \<open>All symbols among the elements are free of special syntax.\<close>

definition plains :: "cprims \<Rightarrow> val list \<Rightarrow> bool" where
  "plains Q xs \<longleftrightarrow> (\<forall>x \<in> set xs. SYM_P x \<longrightarrow> plain_sym Q x)"

definition selfev :: "val \<Rightarrow> bool" where
  "selfev v \<longleftrightarrow> v \<in> {ARC_BUILTIN S_NIL, NIL, ARC_BUILTIN S_T} \<or> (\<exists>i. v = Fix i)"

inductive src :: "cprims \<Rightarrow> cenv \<Rightarrow> heap \<Rightarrow> val \<Rightarrow> cx \<Rightarrow> bool"
  and src_if :: "cprims \<Rightarrow> cenv \<Rightarrow> heap \<Rightarrow> val \<Rightarrow> cx \<Rightarrow> bool"
  and src_set :: "cprims \<Rightarrow> cenv \<Rightarrow> heap \<Rightarrow> val \<Rightarrow> cx \<Rightarrow> bool"
  for Q env h where
  self: "selfev v \<Longrightarrow> quoted Q v = Some e \<Longrightarrow> src Q env h v e"
| literal: "LITERAL_P h (Ref a) \<Longrightarrow> mem h a = Some ob \<Longrightarrow> src Q env h (Ref a) (CLit (Ref a))"
| local: "plain_sym Q v \<Longrightarrow> \<not> selfev v \<Longrightarrow> find_var v env 0 = Some (l, i) \<Longrightarrow> 0 \<le> i \<Longrightarrow> src Q env h v (CLocal l (nat i))"
| global: "plain_sym Q v \<Longrightarrow> \<not> selfev v \<Longrightarrow> find_var v env 0 = None \<Longrightarrow> src Q env h v (CGlobal v)"
| quote: "mem h a = Some (OCons (ARC_BUILTIN S_QUOTE) (Ref b)) \<Longrightarrow> mem h b = Some (OCons x r) \<Longrightarrow> quoted Q x = Some e \<Longrightarrow>
    (case x of Ref p \<Rightarrow> mem h p \<noteq> None | _ \<Rightarrow> True) \<Longrightarrow> src Q env h (Ref a) e"
| cond: "mem h a = Some (OCons (ARC_BUILTIN S_IF) v) \<Longrightarrow> src_if Q env h v e \<Longrightarrow> src Q env h (Ref a) e"
| assign: "mem h a = Some (OCons (ARC_BUILTIN S_ASSIGN) v) \<Longrightarrow> src_set Q env h v e \<Longrightarrow> src Q env h (Ref a) e"
| car: "chain h v as [ARC_BUILTIN S_CAR, x] NIL \<Longrightarrow> plains Q [ARC_BUILTIN S_CAR, x] \<Longrightarrow> src Q env h x e \<Longrightarrow> src Q env h v (CPrim1 icar e)"
| cdr: "chain h v as [ARC_BUILTIN S_CDR, x] NIL \<Longrightarrow> plains Q [ARC_BUILTIN S_CDR, x] \<Longrightarrow> src Q env h x e \<Longrightarrow> src Q env h v (CPrim1 icdr e)"
| cons: "chain h v as [ARC_BUILTIN S_CONS, x, y] NIL \<Longrightarrow> plains Q [ARC_BUILTIN S_CONS, x, y] \<Longrightarrow> src Q env h x ex \<Longrightarrow>
    src Q env h y ey \<Longrightarrow> src Q env h v (CPrim2 icons ex ey)"
| plus0: "chain h v as [ARC_BUILTIN S_PLUS] NIL \<Longrightarrow> plains Q [ARC_BUILTIN S_PLUS] \<Longrightarrow> src Q env h v (CLit (Fix 0))"
| plus1: "chain h v as [ARC_BUILTIN S_PLUS, x] NIL \<Longrightarrow> plains Q [ARC_BUILTIN S_PLUS, x] \<Longrightarrow> src Q env h x e \<Longrightarrow> src Q env h v e"
| arith1: "(f, i, z) \<in> {(S_MINUS, isub, 0), (S_DIV, idiv, 1)} \<Longrightarrow> chain h v as [ARC_BUILTIN f, x] NIL \<Longrightarrow> plains Q [ARC_BUILTIN f, x] \<Longrightarrow>
    src Q env h x e \<Longrightarrow> src Q env h v (CPrim2 i (CLit (Fix z)) e)"
| arith: "(f, i) \<in> {(S_PLUS, iadd), (S_MINUS, isub), (S_DIV, idiv)} \<Longrightarrow> chain h v as (ARC_BUILTIN f # x # xs) NIL \<Longrightarrow>
    plains Q (ARC_BUILTIN f # x # xs) \<Longrightarrow> src Q env h x e \<Longrightarrow> list_all2 (src Q env h) xs es \<Longrightarrow> es \<noteq> [] \<Longrightarrow>
    src Q env h v (foldl (CPrim2 i) e es)"
| times: "chain h v as (ARC_BUILTIN S_TIMES # xs) NIL \<Longrightarrow> plains Q (ARC_BUILTIN S_TIMES # xs) \<Longrightarrow> list_all2 (src Q env h) xs es \<Longrightarrow>
    es \<noteq> [] \<Longrightarrow> src Q env h v (foldl (CPrim2 imul) (CLit (Fix 1)) es)"
| if_nil: "src_if Q env h NIL (CLit NIL)"
| if_one: "mem h a = Some (OCons x NIL) \<Longrightarrow> src Q env h x e \<Longrightarrow> src_if Q env h (Ref a) e"
| if_more: "mem h a = Some (OCons x (Ref b)) \<Longrightarrow> mem h b = Some (OCons y r) \<Longrightarrow> src Q env h x ex \<Longrightarrow> src Q env h y ey \<Longrightarrow>
    src_if Q env h r er \<Longrightarrow> src_if Q env h (Ref a) (CIf ex ey er)"
| set_last: "mem h a = Some (OCons x (Ref b)) \<Longrightarrow> mem h b = Some (OCons v NIL) \<Longrightarrow> assignable env x \<Longrightarrow> src Q env h v e \<Longrightarrow>
    src_set Q env h (Ref a) (assign_cx env x e)"
| set_more: "mem h a = Some (OCons x (Ref b)) \<Longrightarrow> mem h b = Some (OCons v r) \<Longrightarrow> assignable env x \<Longrightarrow> src Q env h v e \<Longrightarrow>
    src_set Q env h r er \<Longrightarrow> src_set Q env h (Ref a) (CSeq (assign_cx env x e) er)"

definition soon_ok :: "cprims \<Rightarrow> cenv \<Rightarrow> heap \<Rightarrow> val \<Rightarrow> cx \<Rightarrow> bool" where
  "soon_ok Q env h v e \<longleftrightarrow> soon (\<lambda>n. compiles (same_lit Q h) env h (arc_compile n Q) v e)"

text \<open>It is enough to consider one level of the compiler.\<close>

lemma soon_okI:
  assumes "soon X" and "\<And>n. X n \<Longrightarrow> compiles (same_lit Q h) env h (compile_expr Q n (arc_compile n Q)) v e"
  shows "soon_ok Q env h v e"
  unfolding soon_ok_def by (rule soon_Suc [THEN iffD1]) (rule soon_mono [OF assms(1)], simp add: assms(2))

lemma now_okI: "(\<And>n. compiles (same_lit Q h) env h (compile_expr Q n (arc_compile n Q)) v e) \<Longrightarrow> soon_ok Q env h v e"
  by (rule soon_okI [where X = "\<lambda>_. True"]) (simp_all add: soon_all)

lemma soon_list: "list_all2 (soon_ok Q env h) xs es \<Longrightarrow> soon (\<lambda>n. list_all2 (compiles (same_lit Q h) env h (arc_compile n Q)) xs es)"
  unfolding soon_ok_def by (rule soon_list_all2)

lemma spform_inline [simp]: "f \<in> {S_CAR, S_CDR, S_CONS, S_PLUS, S_TIMES, S_MINUS, S_DIV} \<Longrightarrow> spform Q (ARC_BUILTIN f) = None"
  by (auto simp: spform_def)

lemma selfev_good: "selfev v \<Longrightarrow> quoted Q v = Some e \<Longrightarrow> compiles R env h (compile_expr Q n cp) v e"
proof (rule compilesI)
  fix k c s assume v: "selfev v" "quoted Q v = Some e" and b: "built c (CHP s) [] (c, s)" and h: "hext h (CHP s)"
  have "LITERAL_P (CHP s) v" using v(1) by (auto simp: selfev_def LITERAL_P_def htype_def)
  then show "yields (good R c (CHP s) k e) (compile_expr Q n cp v c env k s)"
    using literal_good [OF b v(2)] v(1) b by (auto simp: compile_expr_def selfev_def built_def)
qed

lemma symbol_good:
  assumes "plain_sym Q v" and "\<not> selfev v"
    and "case find_var v env 0 of Some (l, i) \<Rightarrow> 0 \<le> i \<and> e = CLocal l (nat i) | None \<Rightarrow> e = CGlobal v" and q: "iscmp_ok (c_vm Q)"
  shows "compiles R env h (compile_expr Q n cp) v e"
proof (rule compilesI)
  fix k c s assume b: "built c (CHP s) [] (c, s)" and h: "hext h (CHP s)"
  have "SYM_P v" "\<not> LITERAL_P (CHP s) v" using assms(1,2)
    by (auto simp: plain_sym_def SYM_P_def selfev_def LITERAL_P_def htype_def split: val.splits)
  moreover have "stands Q (CHP s) (=) v" using calculation(1) assms(2)
    by (intro immediate_stands [OF q]) (auto simp: SYM_P_def selfev_def)
  ultimately show "yields (good R c (CHP s) k e) (compile_expr Q n cp v c env k s)"
    using ident_good [OF b, where v = v and env = env and e = e and Q = Q and R = R and k = k] assms(3) ssexpand_plain [OF assms(1)] b by (auto simp: compile_expr_def built_def split: option.splits)
qed


text \<open>The loops over the arguments have fuel of their own.\<close>

definition loop_ok :: "(nat \<Rightarrow> compiler \<Rightarrow> compiler) \<Rightarrow> cprims \<Rightarrow> cenv \<Rightarrow> heap \<Rightarrow> val \<Rightarrow> cx \<Rightarrow> bool" where
  "loop_ok F Q env h v e \<longleftrightarrow> (\<exists>k. \<forall>n N. k \<le> n \<longrightarrow> k \<le> N \<longrightarrow> compiles (same_lit Q h) env h (F n (arc_compile N Q)) v e)"

lemma loop_now: "loop_ok F Q env h v e \<Longrightarrow> soon (\<lambda>n. compiles (same_lit Q h) env h (F n (arc_compile n Q)) v e)"
  by (auto simp: loop_ok_def soon_def)

lemma loop_okI:
  assumes "\<And>n N. k \<le> n \<Longrightarrow> k \<le> N \<Longrightarrow> compiles (same_lit Q h) env h (F n (arc_compile N Q)) v e"
  shows "loop_ok F Q env h v e"
  using assms unfolding loop_ok_def by blast

lemma less_fuel: "Suc k \<le> n \<Longrightarrow> \<exists>n'. n = Suc n' \<and> k \<le> n'"
  by (cases n) auto

lemma if_loop_nil: "loop_ok compile_if Q env h NIL (CLit NIL)"
proof (rule loop_okI [of "Suc 0"])
  fix n N :: nat assume "Suc 0 \<le> n"
  then obtain n' where n': "n = Suc n'" using less_fuel by blast
  show "compiles (same_lit Q h) env h (compile_if n (arc_compile N Q)) NIL (CLit NIL)" unfolding n' by (rule comp_if_nil)
qed

lemma if_loop_one:
  assumes "mem h a = Some (OCons x NIL)" and "soon_ok Q env h x e"
  shows "loop_ok compile_if Q env h (Ref a) e"
proof -
  obtain k where k: "\<And>N. k \<le> N \<Longrightarrow> compiles (same_lit Q h) env h (arc_compile N Q) x e" using assms(2) by (auto simp: soon_ok_def soon_def)
  show ?thesis
  proof (rule loop_okI [of "Suc k"])
    fix n N assume n: "Suc k \<le> n" "Suc k \<le> N"
    then obtain n' where n': "n = Suc n'" using less_fuel by blast
    show "compiles (same_lit Q h) env h (compile_if n (arc_compile N Q)) (Ref a) e"
      unfolding n' by (rule comp_if_one [OF assms(1) k]) (use n(2) in linarith)
  qed
qed

lemma if_loop_more:
  assumes c: "mem h a = Some (OCons x (Ref b))" "mem h b = Some (OCons y r)"
    and s: "soon_ok Q env h x ex" "soon_ok Q env h y ey" "loop_ok compile_if Q env h r er"
  shows "loop_ok compile_if Q env h (Ref a) (CIf ex ey er)"
proof -
  obtain k1 where k1: "\<And>N. k1 \<le> N \<Longrightarrow> compiles (same_lit Q h) env h (arc_compile N Q) x ex" using s(1) by (auto simp: soon_ok_def soon_def)
  obtain k2 where k2: "\<And>N. k2 \<le> N \<Longrightarrow> compiles (same_lit Q h) env h (arc_compile N Q) y ey" using s(2) by (auto simp: soon_ok_def soon_def)
  obtain j where j: "\<And>n N. j \<le> n \<Longrightarrow> j \<le> N \<Longrightarrow> compiles (same_lit Q h) env h (compile_if n (arc_compile N Q)) r er"
    using s(3) by (auto simp: loop_ok_def)
  let ?k = "max (max k1 k2) j"
  show ?thesis
  proof (rule loop_okI [of "Suc ?k"])
    fix n N assume n: "Suc ?k \<le> n" "Suc ?k \<le> N"
    then obtain n' where n': "n = Suc n'" "?k \<le> n'" using less_fuel by blast
    have "k1 \<le> N" "k2 \<le> N" "j \<le> N" "j \<le> n'" using n(2) n'(2) by auto
    then show "compiles (same_lit Q h) env h (compile_if n (arc_compile N Q)) (Ref a) (CIf ex ey er)"
      unfolding n'(1) by (intro comp_if_more [OF c k1 k2 j])
  qed
qed

lemma set_loop:
  "iscmp_ok (c_vm Q) \<Longrightarrow> mem h a = Some (OCons x (Ref b)) \<Longrightarrow> mem h b = Some (OCons v NIL) \<Longrightarrow> assignable env x \<Longrightarrow> soon_ok Q env h v e \<Longrightarrow>
    loop_ok (compile_assign Q) Q env h (Ref a) (assign_cx env x e)"
  "iscmp_ok (c_vm Q) \<Longrightarrow> mem h a = Some (OCons x (Ref b)) \<Longrightarrow> mem h b = Some (OCons v r) \<Longrightarrow> assignable env x \<Longrightarrow> soon_ok Q env h v e \<Longrightarrow>
    loop_ok (compile_assign Q) Q env h r er \<Longrightarrow> loop_ok (compile_assign Q) Q env h (Ref a) (CSeq (assign_cx env x e) er)"
proof -
  have two: "\<exists>n'. n = Suc (Suc n') \<and> k \<le> Suc n'" if "Suc (Suc k) \<le> n" for n k
    using that by (intro exI [of _ "n - 2"]) auto
  show "loop_ok (compile_assign Q) Q env h (Ref a) (assign_cx env x e)"
    if c: "mem h a = Some (OCons x (Ref b))" "mem h b = Some (OCons v NIL)" "assignable env x" "soon_ok Q env h v e" and q: "iscmp_ok (c_vm Q)"
  proof -
    obtain k where k: "\<And>N. k \<le> N \<Longrightarrow> compiles (same_lit Q h) env h (arc_compile N Q) v e" using c(4) by (auto simp: soon_ok_def soon_def)
    show ?thesis
    proof (rule loop_okI [of "Suc (Suc k)"])
      fix n N assume n: "Suc (Suc k) \<le> n" "Suc (Suc k) \<le> N"
      then obtain n' where n': "n = Suc (Suc n')" using two by blast
      show "compiles (same_lit Q h) env h (compile_assign Q n (arc_compile N Q)) (Ref a) (assign_cx env x e)"
        unfolding n' by (rule assign_last [OF c(1,2) k c(3) q]) (use n(2) in simp)
    qed
  qed
  show "loop_ok (compile_assign Q) Q env h (Ref a) (CSeq (assign_cx env x e) er)"
    if c: "mem h a = Some (OCons x (Ref b))" "mem h b = Some (OCons v r)" "assignable env x" "soon_ok Q env h v e"
      "loop_ok (compile_assign Q) Q env h r er" and q: "iscmp_ok (c_vm Q)"
  proof -
    obtain k where k: "\<And>N. k \<le> N \<Longrightarrow> compiles (same_lit Q h) env h (arc_compile N Q) v e" using c(4) by (auto simp: soon_ok_def soon_def)
    obtain j where j: "\<And>n N. j \<le> n \<Longrightarrow> j \<le> N \<Longrightarrow> compiles (same_lit Q h) env h (compile_assign Q n (arc_compile N Q)) r er"
      using c(5) by (auto simp: loop_ok_def)
    show ?thesis
    proof (rule loop_okI [of "Suc (Suc (max k j))"])
      fix n N assume n: "Suc (Suc (max k j)) \<le> n" "Suc (Suc (max k j)) \<le> N"
      then obtain n' where n': "n = Suc (Suc n')" "max k j \<le> Suc n'" using two by blast
      have "k \<le> N" "j \<le> N" "j \<le> Suc n'" using n(2) n'(2) by auto
      then show "compiles (same_lit Q h) env h (compile_assign Q n (arc_compile N Q)) (Ref a) (CSeq (assign_cx env x e) er)"
        unfolding n'(1) by (intro assign_more [OF c(1,2) k c(3) q j]) simp_all
    qed
  qed
qed


lemma heap_literal_good:
  assumes "LITERAL_P h (Ref a)" and "mem h a = Some ob"
  shows "compiles (same_lit Q h) env h (compile_expr Q n cp) (Ref a) (CLit (Ref a))"
proof (rule compilesI)
  fix k c s assume b: "built c (CHP s) [] (c, s)" and h: "hext h (CHP s)"
  have m: "mem (CHP s) a = Some ob" by (rule hext_mem [OF h assms(2)])
  then have "LITERAL_P (CHP s) (Ref a)" using assms by (simp add: LITERAL_P_def htype_def)
  moreover have "quoted Q (Ref a) = Some (CLit (Ref a))" by (simp add: builtin_neq(4) [THEN not_sym])
  ultimately show "yields (good (same_lit Q h) c (CHP s) k (CLit (Ref a))) (compile_expr Q n cp (Ref a) c env k s)"
    using literal_good [OF b] object_stands [OF m h] b by (auto simp: compile_expr_def built_def)
qed

lemma quote_good:
  assumes "mem h b = Some (OCons x r)" and "quoted Q x = Some e" and "case x of Ref p \<Rightarrow> mem h p \<noteq> None | _ \<Rightarrow> True"
    and q: "iscmp_ok (c_vm Q)"
  shows "compiles (same_lit Q h) env h (compile_quote Q) (Ref b) e"
proof (rule compilesI)
  fix k c s assume b: "built c (CHP s) [] (c, s)" and h: "hext h (CHP s)"
  have "x = NIL \<or> stands Q (CHP s) (same_lit Q h) x"
  proof (cases "\<exists>p. x = Ref p")
    case True
    then obtain p ob where "x = Ref p" "mem h p = Some ob" using assms(3) by auto
    then show ?thesis using object_stands [OF hext_mem [OF h] h] by blast
  next
    case False
    then have "x \<noteq> NIL \<Longrightarrow> stands Q (CHP s) (=) x" using immediate_stands [OF q] by blast
    then show ?thesis by (auto simp: stands_def same_lit_def)
  qed
  then show "yields (good (same_lit Q h) c (CHP s) k e) (compile_quote Q (Ref b) c env k s)"
    using literal_good [OF b assms(2), of "same_lit Q h" k] cell_read(1) [OF b hext_mem [OF h assms(1)]]
    by (auto simp: compile_quote_def)
qed

text \<open>A form of an inline function, when its operands can be compiled.\<close>

lemma inline_soon:
  assumes "chain h v as (ARC_BUILTIN f # xs) NIL" and "plains Q (ARC_BUILTIN f # xs)"
    and "f \<in> {S_CAR, S_CDR, S_CONS, S_PLUS, S_TIMES, S_MINUS, S_DIV}" and "inline_func (ARC_BUILTIN f) = Some fn"
    and "soon X" and "\<And>n h' v' as'. X n \<Longrightarrow> length xs + 3 \<le> n \<Longrightarrow> hext h h' \<Longrightarrow> chain h' v' as' (ARC_BUILTIN f # xs) NIL \<Longrightarrow>
      compiles (same_lit Q h) env h' (fn n (arc_compile n Q)) v' e"
  shows "soon_ok Q env h v e"
proof (rule soon_okI [OF soon_conj [OF assms(5) soon_ge [of "length xs + 3"]]])
  fix n assume n: "X n \<and> length xs + 3 \<le> n"
  show "compiles (same_lit Q h) env h (compile_expr Q n (arc_compile n Q)) v e"
    by (rule inline_list [OF assms(1) _ spform_inline [OF assms(3)] assms(4)]) (use assms(2,6) n in \<open>auto simp: plains_def\<close>)
qed

lemma three: "3 \<le> n \<Longrightarrow> \<exists>n'. n = Suc (Suc (Suc n'))"
  by (intro exI [of _ "n - 3"]) auto

lemma prim1_soon:
  assumes "(f, i) \<in> {(S_CAR, icar), (S_CDR, icdr)}" and "chain h v as [ARC_BUILTIN f, x] NIL" and "plains Q [ARC_BUILTIN f, x]" and "soon_ok Q env h x e"
  shows "soon_ok Q env h v (CPrim1 i e)"
proof (rule inline_soon [OF assms(2,3) _ _ assms(4) [unfolded soon_ok_def]])
  show "f \<in> {S_CAR, S_CDR, S_CONS, S_PLUS, S_TIMES, S_MINUS, S_DIV}" "inline_func (ARC_BUILTIN f) = Some (inline_fixed i 1)"
    using assms(1) by (auto simp: inline_func_def)
next
  fix n h' v' as' assume c: "compiles (same_lit Q h) env h (arc_compile n Q) x e" "length [x] + 3 \<le> n" "hext h h'" "chain h' v' as' [ARC_BUILTIN f, x] NIL"
  obtain n' where n: "n = Suc (Suc n')" using three [of n] c(2) by auto
  have i: "i \<in> {icar, icdr}" using assms(1) by auto
  show "compiles (same_lit Q h) env h' (inline_fixed i 1 n (arc_compile n Q)) v' (CPrim1 i e)"
    using inline1 [OF c(4) compiles_mono [OF c(1,3)] i, of n'] unfolding n .
qed

lemma cons_soon:
  assumes "chain h v as [ARC_BUILTIN S_CONS, x, y] NIL" and "plains Q [ARC_BUILTIN S_CONS, x, y]" and "soon_ok Q env h x ex" and "soon_ok Q env h y ey"
  shows "soon_ok Q env h v (CPrim2 icons ex ey)"
proof (rule inline_soon [OF assms(1,2) _ _ soon_conj [OF assms(3,4) [unfolded soon_ok_def]]])
  fix n h' v' as' assume c: "compiles (same_lit Q h) env h (arc_compile n Q) x ex \<and> compiles (same_lit Q h) env h (arc_compile n Q) y ey" "length [x, y] + 3 \<le> n" "hext h h'"
    "chain h' v' as' [ARC_BUILTIN S_CONS, x, y] NIL"
  obtain n' where n: "n = Suc (Suc (Suc n'))" using three [of n] c(2) by auto
  have "compiles (same_lit Q h) env h' (arc_compile n Q) x ex" "compiles (same_lit Q h) env h' (arc_compile n Q) y ey" using c(1) compiles_mono [OF _ c(3)] by auto
  from inline2 [OF c(4) this, of icons n'] show "compiles (same_lit Q h) env h' (inline_fixed icons 2 n (arc_compile n Q)) v' (CPrim2 icons ex ey)"
    unfolding n by simp
qed (simp_all add: inline_func_def)

lemma arith1_soon:
  assumes "(f, i, z) \<in> {(S_MINUS, isub, 0), (S_DIV, idiv, 1)}" and "chain h v as [ARC_BUILTIN f, x] NIL" and "plains Q [ARC_BUILTIN f, x]"
    and "soon_ok Q env h x e"
  shows "soon_ok Q env h v (CPrim2 i (CLit (Fix z)) e)"
proof (rule inline_soon [OF assms(2,3) _ _ assms(4) [unfolded soon_ok_def]])
  show "f \<in> {S_CAR, S_CDR, S_CONS, S_PLUS, S_TIMES, S_MINUS, S_DIV}"
    "inline_func (ARC_BUILTIN f) = Some (if f = S_MINUS then inline_minus else inline_div)"
    using assms(1) by (auto simp: inline_func_def)
next
  fix n h' v' as' assume c: "compiles (same_lit Q h) env h (arc_compile n Q) x e" "length [x] + 3 \<le> n" "hext h h'" "chain h' v' as' [ARC_BUILTIN f, x] NIL"
  obtain n' where n: "n = Suc n'" using three [of n] c(2) by auto
  have z: "compiles (same_lit Q h) env h' (arc_compile n Q) (Fix z) (CLit (Fix z))"
    using selfev_good [of "Fix z" Q "CLit (Fix z)" "same_lit Q h" env h' n' "arc_compile n' Q"] n by (simp add: selfev_def builtin_neq(5) [THEN not_sym])
  have "compiles (same_lit Q h) env h' (\<lambda>v c env k s. compile_inlinen2 i n (arc_compile n Q) v c env k (Fix z) s) v' (CPrim2 i (CLit (Fix z)) e)"
    by (rule inlinen2_one [OF c(4) compiles_mono [OF c(1,3)] z]) (use c(2) assms(1) in auto)
  then show "compiles (same_lit Q h) env h' ((if f = S_MINUS then inline_minus else inline_div) n (arc_compile n Q)) v' (CPrim2 i (CLit (Fix z)) e)"
    using assms(1) by (auto simp: compiles_def inline_minus_def inline_div_def)
qed

lemma arith_soon:
  assumes "(f, i) \<in> {(S_PLUS, iadd), (S_MINUS, isub), (S_DIV, idiv)}" and "chain h v as (ARC_BUILTIN f # x # xs) NIL"
    and "plains Q (ARC_BUILTIN f # x # xs)" and "soon_ok Q env h x e" and "list_all2 (soon_ok Q env h) xs es" and "es \<noteq> []"
  shows "soon_ok Q env h v (foldl (CPrim2 i) e es)"
proof (rule inline_soon [OF assms(2,3) _ _ soon_conj [OF assms(4) [unfolded soon_ok_def] soon_list [OF assms(5)]]])
  let ?fn = "if f = S_PLUS then inline_plus else if f = S_MINUS then inline_minus else inline_div"
  show "f \<in> {S_CAR, S_CDR, S_CONS, S_PLUS, S_TIMES, S_MINUS, S_DIV}" "inline_func (ARC_BUILTIN f) = Some ?fn"
    using assms(1) by (auto simp: inline_func_def)
  fix n h' v' as'
  assume c: "compiles (same_lit Q h) env h (arc_compile n Q) x e \<and> list_all2 (compiles (same_lit Q h) env h (arc_compile n Q)) xs es" "length (x # xs) + 3 \<le> n" "hext h h'"
    "chain h' v' as' (ARC_BUILTIN f # x # xs) NIL"
  have sub: "compiles (same_lit Q h) env h' (arc_compile n Q) x e" "list_all2 (compiles (same_lit Q h) env h' (arc_compile n Q)) xs es"
    using c(1) compiles_mono [OF _ c(3)] all_mono [OF _ c(3)] by auto
  have i: "i \<in> {icons, iadd, isub, imul, idiv}" "length xs < n" using assms(1) c(2) by auto
  note two = inlinen2_good [OF c(4) sub assms(6) i(2,1)]
  have "2 \<le> length (x # xs)" using assms(5,6) by (cases xs) auto
  then have "f = S_PLUS \<Longrightarrow> compiles (same_lit Q h) env h' (inline_plus n (arc_compile n Q)) v' (foldl (CPrim2 i) e es)"
    using plus_good(3) [OF c(4)] two assms(1) by auto
  then show "compiles (same_lit Q h) env h' (?fn n (arc_compile n Q)) v' (foldl (CPrim2 i) e es)"
    using two assms(1) by (auto simp: compiles_def inline_minus_def inline_div_def)
qed


lemma times_soon:
  assumes "chain h v as (ARC_BUILTIN S_TIMES # xs) NIL" and "plains Q (ARC_BUILTIN S_TIMES # xs)" and "list_all2 (soon_ok Q env h) xs es" and "es \<noteq> []"
  shows "soon_ok Q env h v (foldl (CPrim2 imul) (CLit (Fix 1)) es)"
proof (rule inline_soon [OF assms(1,2) _ _ soon_list [OF assms(3)]])
  fix n h' v' as'
  assume c: "list_all2 (compiles (same_lit Q h) env h (arc_compile n Q)) xs es" "length xs + 3 \<le> n" "hext h h'" "chain h' v' as' (ARC_BUILTIN S_TIMES # xs) NIL"
  obtain n' where n: "n = Suc n'" using three [of n] c(2) by auto
  have z: "compiles (same_lit Q h) env h' (arc_compile n Q) (Fix 1) (CLit (Fix 1))"
    using selfev_good [of "Fix 1" Q "CLit (Fix 1)" "same_lit Q h" env h' n' "arc_compile n' Q"] n by (simp add: selfev_def builtin_neq(5) [THEN not_sym])
  show "compiles (same_lit Q h) env h' (inline_times n (arc_compile n Q)) v' (foldl (CPrim2 imul) (CLit (Fix 1)) es)"
    using inlinen_good [OF c(4) all_mono [OF c(1,3)] assms(4) z, of n imul] c(2) by (simp add: compiles_def inline_times_def)
qed (simp_all add: inline_func_def)

lemma plus0_soon:
  assumes "chain h v as [ARC_BUILTIN S_PLUS] NIL" and "plains Q [ARC_BUILTIN S_PLUS]"
  shows "soon_ok Q env h v (CLit (Fix 0))"
proof (rule inline_soon [OF assms _ _ soon_all [of "\<lambda>n. True"]])
  fix n h' v' as'
  assume c: "length ([] :: val list) + 3 \<le> n" "chain h' v' as' [ARC_BUILTIN S_PLUS] NIL"
  obtain n' where n: "n = Suc n'" using three [of n] c(1) by auto
  have z: "compiles (same_lit Q h) env h' (arc_compile n Q) (Fix 0) (CLit (Fix 0))"
    using selfev_good [of "Fix 0" Q "CLit (Fix 0)" "same_lit Q h" env h' n' "arc_compile n' Q"] n by (simp add: selfev_def builtin_neq(5) [THEN not_sym])
  show "compiles (same_lit Q h) env h' (inline_plus n (arc_compile n Q)) v' (CLit (Fix 0))" by (rule plus_good(1) [OF c(2) refl z])
qed (simp_all add: inline_func_def)

lemma plus1_soon:
  assumes "chain h v as [ARC_BUILTIN S_PLUS, x] NIL" and "plains Q [ARC_BUILTIN S_PLUS, x]" and "soon_ok Q env h x e"
  shows "soon_ok Q env h v e"
proof (rule inline_soon [OF assms(1,2) _ _ assms(3) [unfolded soon_ok_def]])
  fix n h' v' as'
  assume c: "compiles (same_lit Q h) env h (arc_compile n Q) x e" "hext h h'" "chain h' v' as' [ARC_BUILTIN S_PLUS, x] NIL"
  show "compiles (same_lit Q h) env h' (inline_plus n (arc_compile n Q)) v' e" by (rule plus_good(2) [OF c(3) refl compiles_mono [OF c(1,2)]])
qed (simp_all add: inline_func_def)

lemma src_compiles:
  assumes q: "iscmp_ok (c_vm Q)"
  shows "src Q env h v e \<Longrightarrow> soon_ok Q env h v e"
  "src_if Q env h v e \<Longrightarrow> loop_ok compile_if Q env h v e"
  "src_set Q env h v e \<Longrightarrow> loop_ok (compile_assign Q) Q env h v e"
proof (induction rule: src_src_if_src_set.inducts)
  case (self v e)
  show ?case by (rule now_okI) (rule selfev_good [OF self])
next
  case (literal a ob)
  show ?case by (rule now_okI) (rule heap_literal_good [OF literal])
next
  case (local v l i)
  show ?case by (rule now_okI) (use local q in \<open>auto intro!: symbol_good\<close>)
next
  case (global v)
  show ?case by (rule now_okI) (use global q in \<open>auto intro!: symbol_good\<close>)
next
  case (quote a b x r e)
  show ?case by (rule now_okI, rule spform_list [OF quote(1), where fn = "\<lambda>n cp. compile_quote Q"]) (simp_all add: spform_def quote_good [OF quote(2-4) q])
next
  case (cond a v e)
  show ?case by (rule soon_okI [OF loop_now [OF cond(3)]], rule spform_list [OF cond(1)]) (simp_all add: spform_def)
next
  case (assign a v e)
  show ?case by (rule soon_okI [OF loop_now [OF assign(3)]], rule spform_list [OF assign(1)]) (simp_all add: spform_def)
next
  case (car v as x e)
  show ?case by (rule prim1_soon [OF _ car(1,2,4)]) simp
next
  case (cdr v as x e)
  show ?case by (rule prim1_soon [OF _ cdr(1,2,4)]) simp
next
  case (cons v as x y ex ey)
  show ?case by (rule cons_soon [OF cons(1,2,4,6)])
next
  case (plus0 v as)
  show ?case by (rule plus0_soon [OF plus0])
next
  case (plus1 v as x e)
  show ?case by (rule plus1_soon [OF plus1(1,2,4)])
next
  case (arith1 f i z v as x e)
  show ?case by (rule arith1_soon [OF arith1(1-3,5)])
next
  case (arith f i v as x xs e es)
  have l: "list_all2 (\<lambda>x y. src Q env h x y \<and> soon_ok Q env h x y) xs es" and e: "soon_ok Q env h x e" "es \<noteq> []"
    and f: "(f, i) \<in> {(S_PLUS, iadd), (S_MINUS, isub), (S_DIV, idiv)}" "chain h v as (ARC_BUILTIN f # x # xs) NIL"
      "plains Q (ARC_BUILTIN f # x # xs)"
    by (fact arith)+
  have "list_all2 (soon_ok Q env h) xs es" by (rule list_all2_mono [OF l]) simp
  then show ?case by (rule arith_soon [OF f e(1) _ e(2)])
next
  case (times v as xs es)
  have "list_all2 (soon_ok Q env h) xs es" by (rule list_all2_mono [OF times(3)]) simp
  then show ?case using times_soon [OF times(1,2)] times(4) by blast
next
  case if_nil
  show ?case by (rule if_loop_nil)
next
  case (if_one a x e)
  show ?case by (rule if_loop_one [OF if_one(1,3)])
next
  case (if_more a x b y r ex ey er)
  show ?case by (rule if_loop_more [OF if_more(1,2,4,6,8)])
next
  case (set_last a x b v e)
  show ?case by (rule set_loop(1) [OF q set_last(1-3,5)])
next
  case (set_more a x b v r e er)
  show ?case by (rule set_loop(2) [OF q set_more(1-3,5,7)])
qed

lemma codes_run:
  assumes "codes L k e c" and "prims_ok P"
  shows "\<forall>m m1 fs w ws S pc. base w ws L S m fs \<and> ev P e m = ret m1 \<and> IP m = IPP (Ref w) (int pc) \<and> words_at ws pc c
    \<and> scoped (map length fs) e \<and> depth e < SP m \<longrightarrow> (\<exists>q. reaches P w m m1 q \<and> ends k ws (pc + length c) q)"
  using run_codes [OF assms] unfolding code_ok_def by blast



text \<open>
  The expression \<open>(cons "a" "a")\<close>, its strings two objects, with the comparison of strings: \<open>is\<close> calls
  them the same, and the code has one literal for both. The code is loaded into the heap of the expression.
\<close>

definition core_heap :: heap where
  "core_heap = \<lparr> mem = [4 \<mapsto> OCons (ARC_BUILTIN S_CONS) (Ref 5), 5 \<mapsto> OCons (Ref 7) (Ref 6), 6 \<mapsto> OCons (Ref 8) NIL,
     7 \<mapsto> OStr [97], 8 \<mapsto> OStr [97]], brk = 9 \<rparr>"

definition str_iscmp :: "heap \<Rightarrow> val \<Rightarrow> val \<Rightarrow> val" where
  "str_iscmp h a b =
     (case (a, b) of
        (Ref x, Ref y) \<Rightarrow> (case (mem h x, mem h y) of (Some (OStr s), Some (OStr t)) \<Rightarrow> if s = t then Sym 1 else NIL | _ \<Rightarrow> NIL)
      | _ \<Rightarrow> NIL)"

definition str_prims :: prims where
  "str_prims = demo_prims \<lparr> p_iscmp := str_iscmp \<rparr>"

definition str_cprims :: cprims where
  "str_cprims = demo_cprims \<lparr> c_vm := str_prims, c_sym2str := \<lambda>_. Some [99, 111, 110, 115] \<rparr>"

definition loaded :: "cctx \<Rightarrow> machine" where
  "loaded c = \<lparr> FUNR = Ref 3, ENVR = NIL, VALR = NIL, CONR = NIL, STK = replicate 8 NIL, SP = 7, SFN = 7, STALE = False,
     IP = IPP (Ref 1) 0, ARGC = 0, STATE = Tready, QUANTA = 0,
     HP = core_heap \<lparr> mem := (mem core_heap)(1 \<mapsto> OBlk T_VECTOR (code_of c), 2 \<mapsto> OBlk T_CODE (Ref 1 # NIL # lits_of c),
       3 \<mapsto> OBlk T_CLOS [Ref 2, NIL]) \<rparr>,
     GENV = \<lambda>_. None \<rparr>"

lemma loaded_base: "base 1 (code_of c) (lits_of c) {1, 2, 3} (loaded c) []"
  by (simp add: base_def code_ctx_def loaded_def heap_ok_def core_heap_def)

lemma core_plain: "plains str_cprims [ARC_BUILTIN S_CONS, Ref 7, Ref 8]"
  by (simp add: plains_def plain_sym_def SYM_P_def str_cprims_def arc_ssexpand_def expand_ssyntax_def has_char_def ch_colon_def ch_tilde_def ch_dot_def ch_bang_def ch_and_def)

lemma core_src: "src str_cprims [] core_heap (Ref 4) (CPrim2 icons (CLit (Ref 7)) (CLit (Ref 8)))"
proof -
  have "src str_cprims [] core_heap (Ref 7) (CLit (Ref 7))" "src str_cprims [] core_heap (Ref 8) (CLit (Ref 8))"
    by (rule src_src_if_src_set.literal [where ob = "OStr [97]"]; simp add: core_heap_def LITERAL_P_def htype_def)+
  moreover have "chain core_heap (Ref 4) [4, 5, 6] [ARC_BUILTIN S_CONS, Ref 7, Ref 8] NIL"
    by (simp add: core_heap_def)
  ultimately show ?thesis using core_plain by (blast intro: src_src_if_src_set.cons)
qed


end
