(* ===== verification/Quasi.thy ===== *)
theory Quasi
  imports CompileCore
begin

text \<open>
  Quasiquotation, from \<open>src/src/compiler.c\<close>: the functions \<open>qq*\<close>, which turn a template in the
  heap into the expression that builds it, and \<open>arc_rreduce\<close> of \<open>src/src/cons.c\<close>, which they use.
  The C functions call each other through the machine; here they are called directly, with fuel.
  The theorem says what the expression builds.
\<close>

subsection \<open>The expander\<close>

fun splicing :: "nat \<Rightarrow> val \<Rightarrow> cst \<Rightarrow> val run" where
  "splicing 0 expr s = None"
| "splicing (Suc n) expr s =
     (if \<not> CONS_P expr s then ret NIL
      else rthen (ccar expr s) (\<lambda>x.
        if x = ARC_BUILTIN S_UNQUOTESP then ret CTRUE
        else if x = ARC_BUILTIN S_UNQUOTE then rthen (ccadr expr s) (\<lambda>y. splicing n y s)
        else ret NIL))"

text \<open>The list \<open>(x y)\<close> and the list \<open>(x y z)\<close>.\<close>

definition clist2 :: "val \<Rightarrow> val \<Rightarrow> cst \<Rightarrow> val \<times> cst" where
  "clist2 x y s = (let (t, s) = ccons y NIL s in ccons x t s)"

definition clist3 :: "val \<Rightarrow> val \<Rightarrow> val \<Rightarrow> cst \<Rightarrow> val \<times> cst" where
  "clist3 x y z s = (let (t, s) = ccons z NIL s; (t, s) = ccons y t s in ccons x t s)"

text \<open>Called with one or two arguments.\<close>

definition qqappend :: "val list \<Rightarrow> cst \<Rightarrow> (val \<times> cst) run" where
  "qqappend args s =
     (case args of
        [expr1] \<Rightarrow> ret (clist3 (ARC_BUILTIN S_APPEND) expr1 NIL s)
      | [expr1, expr2] \<Rightarrow> ret (clist3 (ARC_BUILTIN S_APPEND) expr1 (if expr2 = UNBOUND then NIL else expr2) s)
      | [] \<Rightarrow> err ''too few arguments''
      | _ \<Rightarrow> err ''too many arguments'')"

text \<open>The arguments of a call given as a list.\<close>

fun arglist :: "nat \<Rightarrow> val \<Rightarrow> cst \<Rightarrow> val list run" where
  "arglist 0 xs s = None"
| "arglist (Suc n) xs s =
     (if xs = NIL then ret []
      else rthen (ccar xs s) (\<lambda>x. rthen (ccdr xs s) (\<lambda>d. rthen (arglist n d s) (\<lambda>r. ret (x # r)))))"

fun arc_rreduce :: "(val list \<Rightarrow> cst \<Rightarrow> (val \<times> cst) run) \<Rightarrow> nat \<Rightarrow> val \<Rightarrow> cst \<Rightarrow> (val \<times> cst) run" where
  "arc_rreduce f 0 xs s = None"
| "arc_rreduce f (Suc n) xs s =
     (if \<not> CONS_P xs s then err ''arg 2 of rreduce must be a list''
      else rthen (ccdr xs s) (\<lambda>d.
        rthen (if d \<noteq> NIL then rthen (ccddr xs s) (\<lambda>dd. ret (dd \<noteq> NIL)) else ret False) (\<lambda>more.
          if more then rthen (arc_rreduce f n d s) (\<lambda>(r, s). rthen (ccar xs s) (\<lambda>x. f [x, r] s))
          else rthen (arglist n xs s) (\<lambda>args. f args s))))"

definition qqappends :: "nat \<Rightarrow> val \<Rightarrow> cst \<Rightarrow> (val \<times> cst) run" where
  "qqappends n exprs s =
     rthen (arc_rreduce qqappend n exprs s) (\<lambda>(exprs, s).
     rthen (splicing n exprs s) (\<lambda>b.
     if b = NIL then ret (exprs, s) else ret (clist2 (ARC_BUILTIN S_APPEND) exprs s)))"

definition qqcons :: "nat \<Rightarrow> val \<Rightarrow> val \<Rightarrow> cst \<Rightarrow> (val \<times> cst) run" where
  "qqcons n expr1 expr2 s =
     rthen (splicing n expr1 s) (\<lambda>b.
     ret (clist3 (if b = NIL then ARC_BUILTIN S_CONS else ARC_BUILTIN S_DLIST) expr1 expr2 s))"

definition qqlist :: "nat \<Rightarrow> val \<Rightarrow> cst \<Rightarrow> (val \<times> cst) run" where
  "qqlist n expr s = qqcons n expr NIL s"

text \<open>Symbols compared with the first element.\<close>

definition starts :: "bsym \<Rightarrow> val \<Rightarrow> cst \<Rightarrow> bool run" where
  "starts b expr s = rthen (ccar expr s) (\<lambda>x. ret (x = ARC_BUILTIN b))"

definition qqtransform :: "nat \<Rightarrow> (val \<Rightarrow> cst \<Rightarrow> (val \<times> cst) run) \<Rightarrow> val \<Rightarrow> cst \<Rightarrow> (val \<times> cst) run" where
  "qqtransform n expand expr s =
     rthen (head_is S_UNQUOTE expr s) (\<lambda>b. if b then rthen (ccadr expr s) (\<lambda>x. qqlist n x s) else
     rthen (head_is S_UNQUOTESP expr s) (\<lambda>b. if b then rthen (ccadr expr s) (\<lambda>x. ret (x, s)) else
     rthen (head_is S_QQUOTE expr s) (\<lambda>b.
       if b then
         rthen (ccadr expr s) (\<lambda>x. rthen (expand x s) (\<lambda>(expansion, s).
         let (l, s) = clist2 (ARC_BUILTIN S_QQUOTE) expansion s in qqlist n l s))
       else rthen (expand expr s) (\<lambda>(r, s). qqlist n r s))))"

fun qqexpandlist :: "nat \<Rightarrow> (val \<Rightarrow> cst \<Rightarrow> (val \<times> cst) run) \<Rightarrow> val \<Rightarrow> cst \<Rightarrow> (val \<times> cst) run" where
  "qqexpandlist 0 expand expr s = None"
| "qqexpandlist (Suc n) expand expr s =
     (if \<not> CONS_P expr s then
        let (q, s) = clist2 (ARC_BUILTIN S_QUOTE) expr s in ret (ccons q NIL s)
      else
        rthen (starts S_UNQUOTE expr s) (\<lambda>b. if b then rthen (ccadr expr s) (\<lambda>x. ret (ccons x NIL s)) else
        rthen (starts S_UNQUOTESP expr s) (\<lambda>b. if b then err ''invalid use of unquote-splicing'' else
        rthen (ccar expr s) (\<lambda>x. rthen (qqtransform n expand x s) (\<lambda>(trans, s).
        rthen (ccdr expr s) (\<lambda>d. rthen (qqexpandlist n expand d s) (\<lambda>(rest, s).
        ret (ccons trans rest s))))))))"

fun qqexpand :: "nat \<Rightarrow> val \<Rightarrow> cst \<Rightarrow> (val \<times> cst) run" where
  "qqexpand 0 expr s = None"
| "qqexpand (Suc n) expr s =
     (if \<not> CONS_P expr s then ret (clist2 (ARC_BUILTIN S_QUOTE) expr s)
      else
        rthen (starts S_UNQUOTE expr s) (\<lambda>b. if b then rthen (ccadr expr s) (\<lambda>x. ret (x, s)) else
        rthen (starts S_UNQUOTESP expr s) (\<lambda>b. if b then err ''invalid use of unquote-splicing'' else
        rthen (starts S_QQUOTE expr s) (\<lambda>b.
          if b then rthen (ccadr expr s) (\<lambda>x. rthen (qqexpand n x s) (\<lambda>(r, s).
            let (l, s) = clist2 (ARC_BUILTIN S_QQUOTE) r s in ret (clist2 (ARC_BUILTIN S_EVAL) l s)))
          else rthen (qqexpandlist n (qqexpand n) expr s) (\<lambda>(r, s). qqappends n r s)))))"

definition arc_quasiquote :: "nat \<Rightarrow> val \<Rightarrow> cst \<Rightarrow> (val \<times> cst) run" where
  "arc_quasiquote n expr s = qqexpand n expr s"

subsection \<open>Templates and what they build\<close>

text \<open>Values as trees.\<close>

datatype tree = TAtom val | TPair tree tree

fun join :: "tree \<Rightarrow> tree \<Rightarrow> tree" where
  "join (TAtom a) t = t"
| "join (TPair x y) t = TPair x (join y t)"

text \<open>A template: atoms, unquoted expressions, and pairs whose first part may be spliced.\<close>

datatype tmpl = QAtom val | QUnq val | QPair tmpl tmpl | QSplice val tmpl

fun fill :: "(val \<Rightarrow> tree) \<Rightarrow> tmpl \<Rightarrow> tree" where
  "fill \<rho> (QAtom a) = TAtom a"
| "fill \<rho> (QUnq x) = \<rho> x"
| "fill \<rho> (QPair t u) = TPair (fill \<rho> t) (fill \<rho> u)"
| "fill \<rho> (QSplice x u) = join (\<rho> x) (fill \<rho> u)"

text \<open>A proper list.\<close>

fun listy :: "tree \<Rightarrow> bool" where
  "listy (TAtom a) \<longleftrightarrow> a = NIL"
| "listy (TPair x y) \<longleftrightarrow> listy y"

text \<open>The unquoted expressions, and those that are spliced.\<close>

fun unquoted :: "tmpl \<Rightarrow> val set" where
  "unquoted (QAtom a) = {}"
| "unquoted (QUnq x) = {x}"
| "unquoted (QPair t u) = unquoted t \<union> unquoted u"
| "unquoted (QSplice x u) = insert x (unquoted u)"

fun spliced :: "tmpl \<Rightarrow> val set" where
  "spliced (QPair t u) = spliced t \<union> spliced u"
| "spliced (QSplice x u) = insert x (spliced u)"
| "spliced _ = {}"

definition atomic :: "heap \<Rightarrow> val \<Rightarrow> bool" where
  "atomic h v \<longleftrightarrow> htype h v \<noteq> T_CONS \<and> (\<forall>a. v = Ref a \<longrightarrow> mem h a \<noteq> None)"

text \<open>A value that is not itself an unquotation.\<close>

definition no_unquote :: "heap \<Rightarrow> val \<Rightarrow> bool" where
  "no_unquote h v \<longleftrightarrow> v \<noteq> UNBOUND \<and> (atomic h v
     \<or> (\<exists>a x d. v = Ref a \<and> mem h a = Some (OCons x d) \<and> x \<notin> {ARC_BUILTIN S_UNQUOTE, ARC_BUILTIN S_UNQUOTESP}))"

text \<open>The template in the heap. Nested quasiquotations are left out.\<close>

inductive tmpl_rep :: "heap \<Rightarrow> val \<Rightarrow> tmpl \<Rightarrow> bool" for h where
  atom: "atomic h v \<Longrightarrow> tmpl_rep h v (QAtom v)"
| unq: "mem h a = Some (OCons (ARC_BUILTIN S_UNQUOTE) (Ref b)) \<Longrightarrow> mem h b = Some (OCons x r) \<Longrightarrow> no_unquote h x \<Longrightarrow>
    tmpl_rep h (Ref a) (QUnq x)"
| pair: "mem h a = Some (OCons x d) \<Longrightarrow> x \<notin> {ARC_BUILTIN S_UNQUOTE, ARC_BUILTIN S_UNQUOTESP, ARC_BUILTIN S_QQUOTE} \<Longrightarrow>
    tmpl_rep h x t \<Longrightarrow> tmpl_rep h d u \<Longrightarrow> tmpl_rep h (Ref a) (QPair t u)"
| splice: "mem h a = Some (OCons (Ref b) d) \<Longrightarrow> mem h b = Some (OCons (ARC_BUILTIN S_UNQUOTESP) (Ref e)) \<Longrightarrow>
    mem h e = Some (OCons x r) \<Longrightarrow> tmpl_rep h d u \<Longrightarrow> tmpl_rep h (Ref a) (QSplice x u)"

text \<open>
  Expressions that build a tree: what the operators of the expansion and the unquoted expressions
  \<open>U\<close> in it compute. \<open>append\<close> and \<open>cons\<close> are the functions of \<open>cons.c\<close>.
\<close>

inductive builds :: "(val \<Rightarrow> tree) \<Rightarrow> val set \<Rightarrow> heap \<Rightarrow> val \<Rightarrow> tree \<Rightarrow> bool" for \<rho> U h where
  quote: "chain h v as [ARC_BUILTIN S_QUOTE, a] NIL \<Longrightarrow> atomic h a \<Longrightarrow> builds \<rho> U h v (TAtom a)"
| nil: "builds \<rho> U h NIL (TAtom NIL)"
| user: "x \<in> U \<Longrightarrow> builds \<rho> U h x (\<rho> x)"
| cons: "chain h v as [ARC_BUILTIN S_CONS, x, y] NIL \<Longrightarrow> builds \<rho> U h x t \<Longrightarrow> builds \<rho> U h y u \<Longrightarrow> builds \<rho> U h v (TPair t u)"
| append: "chain h v as [ARC_BUILTIN S_APPEND, x, y] NIL \<Longrightarrow> builds \<rho> U h x t \<Longrightarrow> listy t \<Longrightarrow> builds \<rho> U h y u \<Longrightarrow>
    builds \<rho> U h v (join t u)"

lemma atomic_hext: "atomic h v \<Longrightarrow> hext h h' \<Longrightarrow> atomic h' v"
  unfolding atomic_def hext_def htype_def by (cases v) auto

lemma no_unquote_hext: "no_unquote h v \<Longrightarrow> hext h h' \<Longrightarrow> no_unquote h' v"
  unfolding no_unquote_def using atomic_hext hext_mem by metis

lemma builds_hext: "builds \<rho> U h v t \<Longrightarrow> hext h h' \<Longrightarrow> builds \<rho> U h' v t"
  by (induction rule: builds.induct) (blast intro: builds.intros chain_hext atomic_hext)+

text \<open>The forms that are appended.\<close>

inductive forms :: "(val \<Rightarrow> tree) \<Rightarrow> val set \<Rightarrow> heap \<Rightarrow> val list \<Rightarrow> tree \<Rightarrow> bool" for \<rho> U h where
  last: "builds \<rho> U h f t \<Longrightarrow> f \<noteq> UNBOUND \<Longrightarrow> forms \<rho> U h [f] t"
| more: "builds \<rho> U h f t \<Longrightarrow> listy t \<Longrightarrow> forms \<rho> U h fs u \<Longrightarrow> forms \<rho> U h (f # fs) (join t u)"

lemma forms_hext: "forms \<rho> U h fs t \<Longrightarrow> hext h h' \<Longrightarrow> forms \<rho> U h' fs t"
  by (induction rule: forms.induct) (blast intro: forms.intros builds_hext)+

subsection \<open>Steps of the expander\<close>

lemma clist_ok:
  assumes "st_ok h s" and "chain (CHP s) v as xs NIL"
  shows "\<exists>c s'. ccons x v s = (Ref c, s') \<and> st_ok (CHP s) s' \<and> chain (CHP s') (Ref c) (c # as) (x # xs) NIL"
proof -
  obtain c where c: "ccons x v s = (Ref c, s \<lparr> CHP := snd (cons (CHP s) x v) \<rparr>)" "st_ok (CHP s) (s \<lparr> CHP := snd (cons (CHP s) x v) \<rparr>)"
    "mem (snd (cons (CHP s) x v)) c = Some (OCons x v)" using ccons_ok [OF assms(1)] by blast
  have "hext (CHP s) (snd (cons (CHP s) x v))" using c(2) by (simp add: st_ok_def)
  then show ?thesis using c chain_hext [OF assms(2)] by auto
qed

lemma clist2_ok:
  assumes "st_ok h s"
  shows "\<exists>c s' as. clist2 x y s = (Ref c, s') \<and> st_ok (CHP s) s' \<and> chain (CHP s') (Ref c) as [x, y] NIL"
proof -
  obtain c1 s1 where 1: "ccons y NIL s = (Ref c1, s1)" "st_ok (CHP s) s1" "chain (CHP s1) (Ref c1) [c1] [y] NIL"
    using clist_ok [OF assms, of NIL "[]" "[]" y] by auto
  obtain c2 s2 where 2: "ccons x (Ref c1) s1 = (Ref c2, s2)" "st_ok (CHP s1) s2" "chain (CHP s2) (Ref c2) [c2, c1] [x, y] NIL"
    using clist_ok [OF 1(2,3), of x] by auto
  show ?thesis using 1(1) 2 st_ok_trans [OF 1(2) 2(2)] by (auto simp: clist2_def simp del: chain.simps)
qed

lemma clist3_ok:
  assumes "st_ok h s"
  shows "\<exists>c s' as. clist3 x y z s = (Ref c, s') \<and> st_ok (CHP s) s' \<and> chain (CHP s') (Ref c) as [x, y, z] NIL"
proof -
  obtain c1 s1 as1 where 1: "clist2 y z s = (Ref c1, s1)" "st_ok (CHP s) s1" "chain (CHP s1) (Ref c1) as1 [y, z] NIL"
    using clist2_ok [OF assms] by blast
  obtain c2 s2 where 2: "ccons x (Ref c1) s1 = (Ref c2, s2)" "st_ok (CHP s1) s2" "chain (CHP s2) (Ref c2) (c2 # as1) [x, y, z] NIL"
    using clist_ok [OF 1(2,3), of x] by auto
  have "clist3 x y z s = (case clist2 y z s of (t, s) \<Rightarrow> ccons x t s)" by (simp add: clist3_def clist2_def Let_def split_beta)
  then show ?thesis using 1(1) 2 st_ok_trans [OF 1(2) 2(2)] by (auto simp del: chain.simps)
qed

lemma st_cell:
  assumes "st_ok h s" and "mem h a = Some (OCons x d)"
  shows "ccar (Ref a) s = ret x" and "ccdr (Ref a) s = ret d" and "CONS_P (Ref a) s"
proof -
  have "mem (CHP s) a = Some (OCons x d)" using assms hext_mem by (auto simp: st_ok_def)
  then show "ccar (Ref a) s = ret x" and "ccdr (Ref a) s = ret d" and "CONS_P (Ref a) s"
    by (simp_all add: ccar_def ccdr_def car_def cdr_def CONS_P_def htype_def)
qed

lemma st_atom: "atomic h v \<Longrightarrow> st_ok h s \<Longrightarrow> \<not> CONS_P v s"
  using atomic_hext [of h v "CHP s"] by (auto simp: st_ok_def CONS_P_def atomic_def)

lemma splicing_no: "no_unquote h v \<Longrightarrow> st_ok h s \<Longrightarrow> splicing (Suc n) v s = ret NIL"
proof (unfold no_unquote_def, elim conjE disjE exE)
  assume "atomic h v" "st_ok h s"
  then show "splicing (Suc n) v s = ret NIL" using st_atom by simp
next
  fix a x d assume "v = Ref a" "mem h a = Some (OCons x d)" "x \<notin> {ARC_BUILTIN S_UNQUOTE, ARC_BUILTIN S_UNQUOTESP}" "st_ok h s"
  then show "splicing (Suc n) v s = ret NIL" using st_cell [of h s a x d] by simp
qed

lemma chain_no_unquote:
  "chain h (Ref c) as (x # xs) NIL \<Longrightarrow> x \<notin> {ARC_BUILTIN S_UNQUOTE, ARC_BUILTIN S_UNQUOTESP} \<Longrightarrow> no_unquote h (Ref c)"
  by (erule chain_ConsE) (auto simp: no_unquote_def)

text \<open>One element, as a list.\<close>

lemma qqlist_ok:
  assumes "st_ok h s" and "no_unquote h x" and "builds \<rho> U (CHP s) x t"
  shows "\<exists>c s'. qqlist (Suc n) x s = ret (Ref c, s') \<and> st_ok (CHP s) s' \<and> builds \<rho> U (CHP s') (Ref c) (TPair t (TAtom NIL))"
proof -
  obtain c s' as where c: "clist3 (ARC_BUILTIN S_CONS) x NIL s = (Ref c, s')" "st_ok (CHP s) s'"
    "chain (CHP s') (Ref c) as [ARC_BUILTIN S_CONS, x, NIL] NIL" using clist3_ok [OF assms(1)] by blast
  have "hext (CHP s) (CHP s')" using c(2) by (simp add: st_ok_def)
  then have "builds \<rho> U (CHP s') (Ref c) (TPair t (TAtom NIL))"
    using builds.cons [OF c(3) builds_hext [OF assms(3)] builds.nil] by blast
  then show ?thesis using c splicing_no [OF assms(2,1)] by (simp add: qqlist_def qqcons_def del: splicing.simps)
qed

text \<open>Appending the forms.\<close>

lemma qqappend_ok:
  assumes "st_ok h s" and "builds \<rho> U (CHP s) x t" and "listy t" and "builds \<rho> U (CHP s) y u" and "y \<noteq> UNBOUND"
  shows "\<exists>c s'. qqappend [x, y] s = ret (Ref c, s') \<and> st_ok (CHP s) s' \<and> builds \<rho> U (CHP s') (Ref c) (join t u) \<and> no_unquote (CHP s') (Ref c)"
proof -
  obtain c s' as where c: "clist3 (ARC_BUILTIN S_APPEND) x y s = (Ref c, s')" "st_ok (CHP s) s'"
    "chain (CHP s') (Ref c) as [ARC_BUILTIN S_APPEND, x, y] NIL" using clist3_ok [OF assms(1)] by blast
  have h: "hext (CHP s) (CHP s')" using c(2) by (simp add: st_ok_def)
  have "builds \<rho> U (CHP s') (Ref c) (join t u)"
    using builds.append [OF c(3) builds_hext [OF assms(2) h] assms(3) builds_hext [OF assms(4) h]] .
  moreover have "no_unquote (CHP s') (Ref c)" by (rule chain_no_unquote [OF c(3)]) simp
  ultimately show ?thesis using c(1,2) assms(5) by (simp add: qqappend_def)
qed

lemma arglist_chain: "chain (CHP s) v as xs NIL \<Longrightarrow> length xs < n \<Longrightarrow> arglist n v s = ret xs"
proof (induction xs arbitrary: v as n)
  case Nil
  then show ?case using chain_NilE [OF Nil(1)] by (cases n) auto
next
  case (Cons x xs)
  obtain n' where n: "n = Suc n'" "length xs < n'" using Cons.prems(2) by (cases n) auto
  obtain a d as1 where a: "v = Ref a" "mem (CHP s) a = Some (OCons x d)" "chain (CHP s) d as1 xs NIL" using chain_ConsE [OF Cons.prems(1)] .
  then show ?case using Cons.IH [OF a(3) n(2)] n(1) by (simp add: ccar_def ccdr_def car_def cdr_def)
qed

lemma rreduce_ok:
  assumes "forms \<rho> U (CHP s) fs t" and "chain (CHP s) v as fs NIL" and "2 \<le> length fs" and "st_ok h s" and "Suc (length fs) < n"
  shows "\<exists>c s'. arc_rreduce qqappend n v s = ret (Ref c, s') \<and> st_ok (CHP s) s' \<and> builds \<rho> U (CHP s') (Ref c) t \<and> no_unquote (CHP s') (Ref c)"
  using assms(1,2,3,5)
proof (induction arbitrary: v as n rule: forms.induct)
  case (last f t)
  then show ?case by simp
next
  case (more f t fs u)
  obtain n' where n: "n = Suc n'" "Suc (length fs) < n'" using more.prems(3) by (cases n) auto
  obtain a d as1 where a: "v = Ref a" "mem (CHP s) a = Some (OCons f d)" "chain (CHP s) d as1 fs NIL" using chain_ConsE [OF more.prems(1)] .
  obtain f2 fs2 where f2: "fs = f2 # fs2" using more.prems(2) by (cases fs) auto
  obtain a2 d2 as2 where a2: "d = Ref a2" "mem (CHP s) a2 = Some (OCons f2 d2)" "chain (CHP s) d2 as2 fs2 NIL"
    using chain_ConsE [OF a(3) [unfolded f2]] .
  have hd: "\<And>F. arc_rreduce F n v s = (if fs2 \<noteq> [] then rthen (arc_rreduce F n' d s) (\<lambda>(r, s). rthen (ccar v s) (\<lambda>x. F [x, r] s))
      else rthen (arglist n' v s) (\<lambda>args. F args s))"
    using n(1) a a2 chain_nil_iff [OF a2(3)]
    by (simp add: CONS_P_def htype_def ccdr_def cdr_def ccddr_def)
  show ?case
  proof (cases "fs2 = []")
    case True
    then have l: "arglist n' v s = ret [f, f2]" using arglist_chain [OF more.prems(1), of n'] f2 n(2) more.prems(3) n(1) by simp
    have "builds \<rho> U (CHP s) f2 u \<and> f2 \<noteq> UNBOUND" using more.hyps(3) f2 True by (auto elim: forms.cases)
    then show ?thesis using qqappend_ok [OF assms(4) more.hyps(1,2)] hd l True by simp
  next
    case False
    then have "2 \<le> length fs" using f2 by (cases fs2) auto
    from more.IH [OF a(3) this n(2)] obtain c s1 where 1: "arc_rreduce qqappend n' d s = ret (Ref c, s1)" "st_ok (CHP s) s1"
      "builds \<rho> U (CHP s1) (Ref c) u" by blast
    have h: "hext (CHP s) (CHP s1)" using 1(2) by (simp add: st_ok_def)
    obtain c2 s2 where 2: "qqappend [f, Ref c] s1 = ret (Ref c2, s2)" "st_ok (CHP s1) s2" "builds \<rho> U (CHP s2) (Ref c2) (join t u)"
      "no_unquote (CHP s2) (Ref c2)"
      using qqappend_ok [OF 1(2) builds_hext [OF more.hyps(1) h] more.hyps(2) 1(3)] by blast
    then show ?thesis using hd False 1(1) st_cell(1) [OF 1(2) a(2)] a(1) st_ok_trans [OF 1(2) 2(2)] by simp
  qed
qed


subsection \<open>The expansion builds the template\<close>

definition gives :: "(val \<Rightarrow> tree) \<Rightarrow> val set \<Rightarrow> heap \<Rightarrow> (val \<Rightarrow> cst \<Rightarrow> (val \<times> cst) run) \<Rightarrow> val \<Rightarrow> tmpl \<Rightarrow> bool" where
  "gives \<rho> U h E v t \<longleftrightarrow> (\<forall>s. st_ok h s \<longrightarrow> (\<exists>r s'. E v s = ret (r, s') \<and> st_ok (CHP s) s' \<and> builds \<rho> U (CHP s') r (fill \<rho> t)
     \<and> no_unquote (CHP s') r))"

definition lists :: "(val \<Rightarrow> tree) \<Rightarrow> val set \<Rightarrow> heap \<Rightarrow> (val \<Rightarrow> cst \<Rightarrow> (val \<times> cst) run) \<Rightarrow> val \<Rightarrow> tmpl \<Rightarrow> nat \<Rightarrow> bool" where
  "lists \<rho> U h E v t l \<longleftrightarrow> (\<forall>s. st_ok h s \<longrightarrow> (\<exists>r s' as fs. E v s = ret (r, s') \<and> st_ok (CHP s) s' \<and> chain (CHP s') r as fs NIL
     \<and> forms \<rho> U (CHP s') fs (fill \<rho> t) \<and> length fs = l))"

fun spine :: "tmpl \<Rightarrow> nat" where
  "spine (QPair t u) = Suc (spine u)"
| "spine (QSplice x u) = Suc (spine u)"
| "spine _ = 1"

text \<open>The last element: an atom or an unquotation after a dot.\<close>

lemma list_atom: "atomic h v \<Longrightarrow> lists \<rho> U h (qqexpandlist (Suc n) E) v (QAtom v) 1"
  unfolding lists_def
proof (intro allI impI)
  fix s assume v: "atomic h v" and st: "st_ok h s"
  obtain c1 s1 as1 where 1: "clist2 (ARC_BUILTIN S_QUOTE) v s = (Ref c1, s1)" "st_ok (CHP s) s1" "chain (CHP s1) (Ref c1) as1 [ARC_BUILTIN S_QUOTE, v] NIL"
    using clist2_ok [OF st] by blast
  obtain c2 s2 where 2: "ccons (Ref c1) NIL s1 = (Ref c2, s2)" "st_ok (CHP s1) s2" "chain (CHP s2) (Ref c2) [c2] [Ref c1] NIL"
    using clist_ok [OF 1(2), of NIL "[]" "[]" "Ref c1"] by auto
  have h: "hext (CHP s1) (CHP s2)" "hext h (CHP s2)" using 2(2) st st_ok_trans [OF st st_ok_trans [OF 1(2) 2(2)]] by (simp_all add: st_ok_def)
  have "builds \<rho> U (CHP s2) (Ref c1) (TAtom v)" by (rule builds.quote [OF chain_hext [OF 1(3) h(1)] atomic_hext [OF v h(2)]])
  then have "forms \<rho> U (CHP s2) [Ref c1] (fill \<rho> (QAtom v))" by (intro forms.last) simp_all
  moreover have "qqexpandlist (Suc n) E v s = ret (Ref c2, s2)" using st_atom [OF v st] 1(1) 2(1) by simp
  moreover have "length [Ref c1] = 1" by simp
  ultimately show "\<exists>r s' as fs. qqexpandlist (Suc n) E v s = ret (r, s') \<and> st_ok (CHP s) s' \<and> chain (CHP s') r as fs NIL
     \<and> forms \<rho> U (CHP s') fs (fill \<rho> (QAtom v)) \<and> length fs = 1" using 2(3) st_ok_trans [OF 1(2) 2(2)] by blast
qed

lemma list_unq:
  assumes "mem h a = Some (OCons (ARC_BUILTIN S_UNQUOTE) (Ref b))" and "mem h b = Some (OCons x r)" and "x \<in> U" and "x \<noteq> UNBOUND"
  shows "lists \<rho> U h (qqexpandlist (Suc n) E) (Ref a) (QUnq x) 1"
  unfolding lists_def
proof (intro allI impI)
  fix s assume st: "st_ok h s"
  obtain c2 s2 where 2: "ccons x NIL s = (Ref c2, s2)" "st_ok (CHP s) s2" "chain (CHP s2) (Ref c2) [c2] [x] NIL"
    using clist_ok [OF st, of NIL "[]" "[]" x] by auto
  have "forms \<rho> U (CHP s2) [x] (fill \<rho> (QUnq x))" using assms(3,4) by (auto intro: forms.last builds.user)
  moreover have "qqexpandlist (Suc n) E (Ref a) s = ret (Ref c2, s2)"
    using st_cell [OF st assms(1)] st_cell [OF st assms(2)] 2(1) by (simp add: starts_def ccadr_def)
  moreover have "length [x] = 1" by simp
  ultimately show "\<exists>r s' as fs. qqexpandlist (Suc n) E (Ref a) s = ret (r, s') \<and> st_ok (CHP s) s' \<and> chain (CHP s') r as fs NIL
     \<and> forms \<rho> U (CHP s') fs (fill \<rho> (QUnq x)) \<and> length fs = 1" using 2(2,3) by blast
qed

text \<open>An element before the last: its form, and those of the rest.\<close>

lemma list_step:
  assumes "mem h a = Some (OCons x d)" and "x \<notin> {ARC_BUILTIN S_UNQUOTE, ARC_BUILTIN S_UNQUOTESP}"
    and el: "\<And>s. st_ok h s \<Longrightarrow> \<exists>r s' t. qqtransform n E x s = ret (r, s') \<and> st_ok (CHP s) s' \<and> builds \<rho> U (CHP s') r t \<and> listy t
      \<and> fill \<rho> w = join t (fill \<rho> u)"
    and rest: "lists \<rho> U h (qqexpandlist n E) d u l"
  shows "lists \<rho> U h (qqexpandlist (Suc n) E) (Ref a) w (Suc l)"
  unfolding lists_def
proof (intro allI impI)
  fix s assume st: "st_ok h s"
  obtain r1 s1 t where 1: "qqtransform n E x s = ret (r1, s1)" "st_ok (CHP s) s1" "builds \<rho> U (CHP s1) r1 t" "listy t"
    "fill \<rho> w = join t (fill \<rho> u)" using el [OF st] by blast
  have st1: "st_ok h s1" using st_ok_trans [OF st 1(2)] .
  obtain r2 s2 as fs where 2: "qqexpandlist n E d s1 = ret (r2, s2)" "st_ok (CHP s1) s2" "chain (CHP s2) r2 as fs NIL"
    "forms \<rho> U (CHP s2) fs (fill \<rho> u)" "length fs = l" using rest st1 unfolding lists_def by blast
  obtain c3 s3 where 3: "ccons r1 r2 s2 = (Ref c3, s3)" "st_ok (CHP s2) s3" "chain (CHP s3) (Ref c3) (c3 # as) (r1 # fs) NIL"
    using clist_ok [OF 2(2,3)] by blast
  have h: "hext (CHP s1) (CHP s3)" "hext (CHP s2) (CHP s3)"
    using st_ok_trans [OF 2(2) 3(2)] 3(2) by (simp_all add: st_ok_def)
  have "forms \<rho> U (CHP s3) (r1 # fs) (fill \<rho> w)"
    unfolding 1(5) by (rule forms.more [OF builds_hext [OF 1(3) h(1)] 1(4) forms_hext [OF 2(4) h(2)]])
  moreover have "qqexpandlist (Suc n) E (Ref a) s = ret (Ref c3, s3)"
    using st_cell [OF st assms(1)] st_cell [OF st1 assms(1)] assms(2) 1(1) 2(1) 3(1) by (simp add: starts_def)
  moreover have "length (r1 # fs) = Suc l" using 2(5) by simp
  ultimately show "\<exists>r s' as fs. qqexpandlist (Suc n) E (Ref a) s = ret (r, s') \<and> st_ok (CHP s) s' \<and> chain (CHP s') r as fs NIL
     \<and> forms \<rho> U (CHP s') fs (fill \<rho> w) \<and> length fs = Suc l"
    using 3(3) st_ok_trans [OF 1(2) st_ok_trans [OF 2(2) 3(2)]] by blast
qed


lemma head_is_cell: "st_ok h s \<Longrightarrow> mem h a = Some (OCons x d) \<Longrightarrow> head_is b (Ref a) s = ret (x = ARC_BUILTIN b)"
  using st_cell [of h s a x d] by (simp add: head_is_def)

lemma head_is_atom: "st_ok h s \<Longrightarrow> atomic h v \<Longrightarrow> head_is b v s = ret False"
  using st_atom [of h v s] by (simp add: head_is_def)

text \<open>An element becomes a form that builds a list of one.\<close>

lemma elem_expand:
  assumes "\<And>b. b \<in> {S_UNQUOTE, S_UNQUOTESP, S_QQUOTE} \<Longrightarrow> head_is b x s = ret False" and "gives \<rho> U h E x t" and "st_ok h s"
  shows "\<exists>r s'. qqtransform (Suc n) E x s = ret (r, s') \<and> st_ok (CHP s) s' \<and> builds \<rho> U (CHP s') r (TPair (fill \<rho> t) (TAtom NIL))"
proof -
  obtain r s1 where 1: "E x s = ret (r, s1)" "st_ok (CHP s) s1" "builds \<rho> U (CHP s1) r (fill \<rho> t)" "no_unquote (CHP s1) r"
    using assms(2,3) unfolding gives_def by blast
  obtain c s2 where 2: "qqlist (Suc n) r s1 = ret (Ref c, s2)" "st_ok (CHP s1) s2" "builds \<rho> U (CHP s2) (Ref c) (TPair (fill \<rho> t) (TAtom NIL))"
    using qqlist_ok [OF st_ok_here [OF 1(2)] 1(4,3)] by blast
  show ?thesis using assms(1) 1(1) 2 st_ok_trans [OF 1(2) 2(2)] by (auto simp: qqtransform_def)
qed

lemma elem_ok:
  assumes "tmpl_rep h x t" and "gives \<rho> U h E x t" and "unquoted t \<subseteq> U" and st: "st_ok h s"
  shows "\<exists>r s'. qqtransform (Suc n) E x s = ret (r, s') \<and> st_ok (CHP s) s' \<and> builds \<rho> U (CHP s') r (TPair (fill \<rho> t) (TAtom NIL))"
  using assms(1)
proof cases
  case atom
  show ?thesis by (rule elem_expand [OF head_is_atom [OF st atom(2)] assms(2) st])
next
  case (unq a b y r)
  have "builds \<rho> U (CHP s) y (\<rho> y)" using assms(3) unq(2) by (intro builds.user) simp
  from qqlist_ok [OF st unq(5) this, of n] show ?thesis
    using unq st_cell [OF st unq(3)] st_cell [OF st unq(4)] head_is_cell [OF st unq(3)] by (auto simp: qqtransform_def ccadr_def)
next
  case (pair a y d t1 u)
  show ?thesis
    by (rule elem_expand [OF _ assms(2) st]) (use pair(1,4) head_is_cell [OF st pair(3)] in auto)
next
  case (splice a b d e y r u)
  show ?thesis
    by (rule elem_expand [OF _ assms(2) st]) (use splice(1) head_is_cell [OF st splice(3)] in \<open>auto simp: builtin_neq(4) [THEN not_sym]\<close>)
qed

lemma splice_ok:
  assumes "mem h b = Some (OCons (ARC_BUILTIN S_UNQUOTESP) (Ref e))" and "mem h e = Some (OCons x r)" and "x \<in> U" and st: "st_ok h s"
  shows "qqtransform n E (Ref b) s = ret (x, s) \<and> builds \<rho> U (CHP s) x (\<rho> x)"
  using st_cell [OF st assms(1)] st_cell [OF st assms(2)] head_is_cell [OF st assms(1)] builds.user [OF assms(3)]
  by (simp add: qqtransform_def ccadr_def)

text \<open>A whole list: appending its forms.\<close>

lemma node_gives:
  assumes "lists \<rho> U h (qqexpandlist n (qqexpand n)) (Ref a) t l" and "2 \<le> l" and "Suc l < n"
    and "mem h a = Some (OCons x d)" and "x \<notin> {ARC_BUILTIN S_UNQUOTE, ARC_BUILTIN S_UNQUOTESP, ARC_BUILTIN S_QQUOTE}"
  shows "gives \<rho> U h (qqexpand (Suc n)) (Ref a) t"
  unfolding gives_def
proof (intro allI impI)
  fix s assume st: "st_ok h s"
  obtain r1 s1 as fs where 1: "qqexpandlist n (qqexpand n) (Ref a) s = ret (r1, s1)" "st_ok (CHP s) s1" "chain (CHP s1) r1 as fs NIL"
    "forms \<rho> U (CHP s1) fs (fill \<rho> t)" "length fs = l" using assms(1) st unfolding lists_def by blast
  obtain c s2 where 2: "arc_rreduce qqappend n r1 s1 = ret (Ref c, s2)" "st_ok (CHP s1) s2" "builds \<rho> U (CHP s2) (Ref c) (fill \<rho> t)"
    "no_unquote (CHP s2) (Ref c)"
    using rreduce_ok [OF 1(4,3) _ 1(2)] 1(5) assms(2,3) by blast
  have "splicing n (Ref c) s2 = ret NIL" using splicing_no [OF 2(4) st_ok_here [OF 2(2)]] assms(3) by (cases n) auto
  then have "qqexpand (Suc n) (Ref a) s = ret (Ref c, s2)"
    using st_cell [OF st assms(4)] assms(5) 1(1) 2(1) by (simp add: starts_def qqappends_def)
  then show "\<exists>r s'. qqexpand (Suc n) (Ref a) s = ret (r, s') \<and> st_ok (CHP s) s' \<and> builds \<rho> U (CHP s') r (fill \<rho> t) \<and> no_unquote (CHP s') r"
    using 2(3,4) st_ok_trans [OF 1(2) 2(2)] by blast
qed

lemma atom_gives: "atomic h v \<Longrightarrow> gives \<rho> U h (qqexpand (Suc n)) v (QAtom v)"
  unfolding gives_def
proof (intro allI impI)
  fix s assume v: "atomic h v" and st: "st_ok h s"
  obtain c s1 as where 1: "clist2 (ARC_BUILTIN S_QUOTE) v s = (Ref c, s1)" "st_ok (CHP s) s1" "chain (CHP s1) (Ref c) as [ARC_BUILTIN S_QUOTE, v] NIL"
    using clist2_ok [OF st] by blast
  have "hext h (CHP s1)" using st_ok_trans [OF st 1(2)] by (simp add: st_ok_def)
  then have "builds \<rho> U (CHP s1) (Ref c) (TAtom v)" using builds.quote [OF 1(3)] atomic_hext [OF v] by blast
  moreover have "no_unquote (CHP s1) (Ref c)" by (rule chain_no_unquote [OF 1(3)]) simp
  ultimately show "\<exists>r s'. qqexpand (Suc n) v s = ret (r, s') \<and> st_ok (CHP s) s' \<and> builds \<rho> U (CHP s') r (fill \<rho> (QAtom v)) \<and> no_unquote (CHP s') r"
    using 1(1,2) st_atom [OF v st] by simp
qed

lemma unq_gives:
  assumes "mem h a = Some (OCons (ARC_BUILTIN S_UNQUOTE) (Ref b))" and "mem h b = Some (OCons x r)" and "no_unquote h x" and "x \<in> U"
  shows "gives \<rho> U h (qqexpand (Suc n)) (Ref a) (QUnq x)"
  unfolding gives_def
proof (intro allI impI)
  fix s assume st: "st_ok h s"
  have "no_unquote (CHP s) x" using no_unquote_hext [OF assms(3)] st by (simp add: st_ok_def)
  moreover have "qqexpand (Suc n) (Ref a) s = ret (x, s)"
    using st_cell [OF st assms(1)] st_cell [OF st assms(2)] by (simp add: starts_def ccadr_def)
  ultimately show "\<exists>r s'. qqexpand (Suc n) (Ref a) s = ret (r, s') \<and> st_ok (CHP s) s' \<and> builds \<rho> U (CHP s') r (fill \<rho> (QUnq x)) \<and> no_unquote (CHP s') r"
    using builds.user [OF assms(4)] st_ok_here [OF st] by auto
qed


definition E_ok :: "(val \<Rightarrow> tree) \<Rightarrow> val set \<Rightarrow> heap \<Rightarrow> val \<Rightarrow> tmpl \<Rightarrow> bool" where
  "E_ok \<rho> U h v t \<longleftrightarrow> (\<exists>k. \<forall>n \<ge> k. gives \<rho> U h (qqexpand n) v t)"

definition L_ok :: "(val \<Rightarrow> tree) \<Rightarrow> val set \<Rightarrow> heap \<Rightarrow> val \<Rightarrow> tmpl \<Rightarrow> bool" where
  "L_ok \<rho> U h v t \<longleftrightarrow> (\<exists>k. \<forall>n N. k \<le> n \<longrightarrow> k \<le> N \<longrightarrow> lists \<rho> U h (qqexpandlist n (qqexpand N)) v t (spine t))"

lemma E_okI: "(\<And>n. k \<le> n \<Longrightarrow> gives \<rho> U h (qqexpand (Suc n)) v t) \<Longrightarrow> E_ok \<rho> U h v t"
  unfolding E_ok_def by (rule exI [of _ "Suc k"]) (metis less_fuel)

lemma L_okI: "(\<And>n N. k \<le> n \<Longrightarrow> k \<le> N \<Longrightarrow> lists \<rho> U h (qqexpandlist (Suc n) (qqexpand N)) v t (spine t)) \<Longrightarrow> L_ok \<rho> U h v t"
proof -
  assume a: "\<And>n N. k \<le> n \<Longrightarrow> k \<le> N \<Longrightarrow> lists \<rho> U h (qqexpandlist (Suc n) (qqexpand N)) v t (spine t)"
  have "lists \<rho> U h (qqexpandlist n (qqexpand N)) v t (spine t)" if n: "Suc k \<le> n" "Suc k \<le> N" for n N
  proof -
    obtain n' where "n = Suc n'" "k \<le> n'" using less_fuel [OF n(1)] by blast
    then show ?thesis using a [of n' N] n(2) by simp
  qed
  then show ?thesis unfolding L_ok_def by blast
qed

lemma spine_pos: "1 \<le> spine t"
  by (cases t) simp_all

lemma node_E:
  assumes "L_ok \<rho> U h (Ref a) t" and "2 \<le> spine t"
    and "mem h a = Some (OCons x d)" and "x \<notin> {ARC_BUILTIN S_UNQUOTE, ARC_BUILTIN S_UNQUOTESP, ARC_BUILTIN S_QQUOTE}"
  shows "E_ok \<rho> U h (Ref a) t"
proof -
  obtain k where k: "\<And>n N. k \<le> n \<Longrightarrow> k \<le> N \<Longrightarrow> lists \<rho> U h (qqexpandlist n (qqexpand N)) (Ref a) t (spine t)"
    using assms(1) unfolding L_ok_def by blast
  show ?thesis
  proof (rule E_okI [of "max k (Suc (Suc (spine t)))"])
    fix n assume n: "max k (Suc (Suc (spine t))) \<le> n"
    then show "gives \<rho> U h (qqexpand (Suc n)) (Ref a) t"
      by (intro node_gives [OF k assms(2) _ assms(3,4)]) simp_all
  qed
qed

lemma pair_L:
  assumes "mem h a = Some (OCons x d)" and "x \<notin> {ARC_BUILTIN S_UNQUOTE, ARC_BUILTIN S_UNQUOTESP, ARC_BUILTIN S_QQUOTE}"
    and "tmpl_rep h x t" and "E_ok \<rho> U h x t" and "L_ok \<rho> U h d u" and "unquoted t \<subseteq> U"
  shows "L_ok \<rho> U h (Ref a) (QPair t u)"
proof -
  obtain k1 where k1: "\<And>n. k1 \<le> n \<Longrightarrow> gives \<rho> U h (qqexpand n) x t" using assms(4) unfolding E_ok_def by blast
  obtain k2 where k2: "\<And>n N. k2 \<le> n \<Longrightarrow> k2 \<le> N \<Longrightarrow> lists \<rho> U h (qqexpandlist n (qqexpand N)) d u (spine u)"
    using assms(5) unfolding L_ok_def by blast
  show ?thesis
  proof (rule L_okI [of "Suc (max k1 k2)"])
    fix n N assume n: "Suc (max k1 k2) \<le> n" "Suc (max k1 k2) \<le> N"
    obtain n' where n': "n = Suc n'" using less_fuel [OF n(1)] by blast
    have kN: "k1 \<le> N" using n(2) by simp
    have "x \<notin> {ARC_BUILTIN S_UNQUOTE, ARC_BUILTIN S_UNQUOTESP}" using assms(2) by blast
    then have "lists \<rho> U h (qqexpandlist (Suc n) (qqexpand N)) (Ref a) (QPair t u) (Suc (spine u))"
    proof (rule list_step [OF assms(1)])
      fix s assume st: "st_ok h s"
      obtain r s' where r: "qqtransform n (qqexpand N) x s = ret (r, s')" "st_ok (CHP s) s'" "builds \<rho> U (CHP s') r (TPair (fill \<rho> t) (TAtom NIL))"
        using elem_ok [OF assms(3) k1 [OF kN] assms(6) st, of n'] n' by blast
      have "fill \<rho> (QPair t u) = join (TPair (fill \<rho> t) (TAtom NIL)) (fill \<rho> u)" by simp
      moreover have "listy (TPair (fill \<rho> t) (TAtom NIL))" by simp
      ultimately show "\<exists>r s' ta. qqtransform n (qqexpand N) x s = ret (r, s') \<and> st_ok (CHP s) s' \<and> builds \<rho> U (CHP s') r ta \<and> listy ta
          \<and> fill \<rho> (QPair t u) = join ta (fill \<rho> u)" using r by blast
    next
      show "lists \<rho> U h (qqexpandlist n (qqexpand N)) d u (spine u)" by (rule k2) (use n in simp_all)
    qed
    then show "lists \<rho> U h (qqexpandlist (Suc n) (qqexpand N)) (Ref a) (QPair t u) (spine (QPair t u))" by simp
  qed
qed

lemma splice_L:
  assumes "mem h a = Some (OCons (Ref b) d)" and "mem h b = Some (OCons (ARC_BUILTIN S_UNQUOTESP) (Ref e))" and "mem h e = Some (OCons x r)"
    and "L_ok \<rho> U h d u" and "x \<in> U" and "listy (\<rho> x)"
  shows "L_ok \<rho> U h (Ref a) (QSplice x u)"
proof -
  obtain k2 where k2: "\<And>n N. k2 \<le> n \<Longrightarrow> k2 \<le> N \<Longrightarrow> lists \<rho> U h (qqexpandlist n (qqexpand N)) d u (spine u)"
    using assms(4) unfolding L_ok_def by blast
  show ?thesis
  proof (rule L_okI [of k2])
    fix n N assume n: "k2 \<le> n" "k2 \<le> N"
    have "lists \<rho> U h (qqexpandlist (Suc n) (qqexpand N)) (Ref a) (QSplice x u) (Suc (spine u))"
    proof (rule list_step [OF assms(1)])
      fix s assume st: "st_ok h s"
      show "\<exists>r s' t. qqtransform n (qqexpand N) (Ref b) s = ret (r, s') \<and> st_ok (CHP s) s' \<and> builds \<rho> U (CHP s') r t \<and> listy t
          \<and> fill \<rho> (QSplice x u) = join t (fill \<rho> u)"
        using splice_ok [OF assms(2,3,5) st] st_ok_here [OF st] assms(6) by auto
    qed (use n k2 builtin_neq(4) [THEN not_sym] in auto)
    then show "lists \<rho> U h (qqexpandlist (Suc n) (qqexpand N)) (Ref a) (QSplice x u) (spine (QSplice x u))" by simp
  qed
qed

lemma quasi_ok:
  assumes "tmpl_rep h v t" and "unquoted t \<subseteq> U" and "\<forall>x \<in> spliced t. listy (\<rho> x)"
  shows "E_ok \<rho> U h v t \<and> L_ok \<rho> U h v t"
  using assms
proof (induction rule: tmpl_rep.induct)
  case (atom v)
  have "E_ok \<rho> U h v (QAtom v)" by (rule E_okI [of 0]) (rule atom_gives [OF atom(1)])
  moreover have "L_ok \<rho> U h v (QAtom v)" by (rule L_okI [of 0]) (use list_atom [OF atom(1)] in simp)
  ultimately show ?case ..
next
  case (unq a b x r)
  have x: "x \<in> U" "x \<noteq> UNBOUND" using unq(3,4) by (simp_all add: no_unquote_def)
  have "E_ok \<rho> U h (Ref a) (QUnq x)" by (rule E_okI [of 0]) (rule unq_gives [OF unq(1-3) x(1)])
  moreover have "L_ok \<rho> U h (Ref a) (QUnq x)" by (rule L_okI [of 0]) (use list_unq [OF unq(1,2) x] in simp)
  ultimately show ?case ..
next
  case (pair a x d t u)
  then have i: "E_ok \<rho> U h x t" "L_ok \<rho> U h d u" "unquoted t \<subseteq> U" by auto
  have l: "L_ok \<rho> U h (Ref a) (QPair t u)" by (rule pair_L [OF pair.hyps(1-3) i])
  have "2 \<le> spine (QPair t u)" using spine_pos [of u] by simp
  then show ?case using node_E [OF l _ pair.hyps(1,2)] l by blast
next
  case (splice a b d e x r u)
  then have i: "L_ok \<rho> U h d u" "x \<in> U" "listy (\<rho> x)" by auto
  have l: "L_ok \<rho> U h (Ref a) (QSplice x u)" by (rule splice_L [OF splice.hyps(1-3) i])
  have "2 \<le> spine (QSplice x u)" using spine_pos [of u] by simp
  moreover have "Ref b \<notin> {ARC_BUILTIN S_UNQUOTE, ARC_BUILTIN S_UNQUOTESP, ARC_BUILTIN S_QQUOTE}" by (simp add: builtin_neq(4) [THEN not_sym])
  ultimately show ?case using node_E [OF l _ splice.hyps(1)] l by blast
qed


text \<open>The template \<open>`(a ,b ,@c)\<close>.\<close>

definition quasi_demo :: cst where
  "quasi_demo = \<lparr> CHP = \<lparr> mem = [1 \<mapsto> OCons (Sym 900) (Ref 2), 2 \<mapsto> OCons (Ref 5) (Ref 3), 3 \<mapsto> OCons (Ref 7) NIL,
       5 \<mapsto> OCons (ARC_BUILTIN S_UNQUOTE) (Ref 6), 6 \<mapsto> OCons (Sym 901) NIL,
       7 \<mapsto> OCons (ARC_BUILTIN S_UNQUOTESP) (Ref 8), 8 \<mapsto> OCons (Sym 902) NIL], brk = 9 \<rparr>,
     CGENV = \<lambda>_. None, LNDATA = None, UNIQ = 0 \<rparr>"

definition demo_values :: "val \<Rightarrow> tree" where
  "demo_values x = (if x = Sym 901 then TAtom (Fix 1) else TPair (TAtom (Fix 2)) (TAtom NIL))"

lemma quasi_demo_rep: "tmpl_rep (CHP quasi_demo) (Ref 1) (QPair (QAtom (Sym 900)) (QPair (QUnq (Sym 901)) (QSplice (Sym 902) (QAtom NIL))))"
proof -
  have a: "atomic (CHP quasi_demo) (Sym n)" "atomic (CHP quasi_demo) NIL" for n by (simp_all add: atomic_def htype_def)
  have u: "tmpl_rep (CHP quasi_demo) (Ref 5) (QUnq (Sym 901))"
    by (rule tmpl_rep.unq [of _ 5 6 "Sym 901" NIL]) (simp_all add: quasi_demo_def no_unquote_def atomic_def htype_def)
  have c: "tmpl_rep (CHP quasi_demo) (Ref 3) (QSplice (Sym 902) (QAtom NIL))"
    by (rule tmpl_rep.splice [OF _ _ _ tmpl_rep.atom [OF a(2)], of 3 7 8 "Sym 902" NIL]) (simp_all add: quasi_demo_def)
  have b: "tmpl_rep (CHP quasi_demo) (Ref 2) (QPair (QUnq (Sym 901)) (QSplice (Sym 902) (QAtom NIL)))"
    by (rule tmpl_rep.pair [OF _ _ u c, of 2]) (simp_all add: quasi_demo_def builtin_neq(4) [THEN not_sym])
  show ?thesis
    by (rule tmpl_rep.pair [OF _ _ tmpl_rep.atom [OF a(1)] b, of 1]) (simp_all add: quasi_demo_def ARC_BUILTIN_def builtin_syms_def)
qed


end
