(* ===== verification/Channel.thy ===== *)
theory Channel
  imports Machine
begin

text \<open>
  Channels between threads, \<open>src/src/chan.c\<close>: a slot for one value and the queues of the threads
  that wait to receive and to send, kept as cons queues in the heap. A C function that has to
  wait enqueues its thread, sets the state of the thread and yields; when it runs again it goes
  back to the test. So one run of a function up to its next yield or its return is one step:
  \<open>None\<close> is a yield. The operations refine a one-place buffer, and any number of threads using a
  channel get every value once and in order, and do not deadlock.
\<close>

subsection \<open>The C functions\<close>

text \<open>The heap and the states of the threads.\<close>

record world =
  WHP :: heap
  TSTATE :: "val \<Rightarrow> threadstate"

text \<open>\<open>CHAN_HASDATA\<close>, \<open>CHAN_DATA\<close>, and the heads of the two queues; the tails come next.\<close>

abbreviation cHASDATA :: int where "cHASDATA \<equiv> 0"
abbreviation cDATA :: int where "cDATA \<equiv> 1"
abbreviation cRHEAD :: int where "cRHEAD \<equiv> 2"
abbreviation cSHEAD :: int where "cSHEAD \<equiv> 4"

definition arc_mkchan :: "heap \<Rightarrow> val \<times> heap" where
  "arc_mkchan h = (let (a, h) = halloc h (OBlk T_CHAN (replicate 6 NIL)) in (Ref a, h))"

definition chan_queue :: "heap \<Rightarrow> val \<Rightarrow> int \<Rightarrow> (val \<times> val) res" where
  "chan_queue h chan i = rbind (blk_get h chan i) (\<lambda>hd. rbind (blk_get h chan (i + 1)) (\<lambda>tl. Inr (hd, tl)))"

definition chan_setqueue :: "heap \<Rightarrow> val \<Rightarrow> int \<Rightarrow> val \<times> val \<Rightarrow> heap res" where
  "chan_setqueue h chan i q = rbind (blk_set h chan i (fst q)) (\<lambda>h. blk_set h chan (i + 1) (snd q))"

text \<open>\<open>__arc_enqueue(c, thr, &head, &tail)\<close> and \<open>__arc_dequeue(c, &head, &tail)\<close> on the slots.\<close>

definition chan_enqueue :: "val \<Rightarrow> val \<Rightarrow> int \<Rightarrow> heap \<Rightarrow> heap res" where
  "chan_enqueue thr chan i h =
     rbind (chan_queue h chan i) (\<lambda>q. rbind (arc_enqueue h q thr) (\<lambda>(q, h). chan_setqueue h chan i q))"

definition chan_dequeue :: "val \<Rightarrow> int \<Rightarrow> heap \<Rightarrow> (val \<times> heap) res" where
  "chan_dequeue chan i h =
     rbind (chan_queue h chan i) (\<lambda>q. rbind (arc_dequeue h q) (\<lambda>(xthr, q). rbind (chan_setqueue h chan i q) (\<lambda>h. Inr (xthr, h))))"

definition set_state :: "val \<Rightarrow> threadstate \<Rightarrow> world \<Rightarrow> world" where
  "set_state thr st w = w \<lparr> TSTATE := (TSTATE w)(thr := st) \<rparr>"

definition wake :: "val \<Rightarrow> world \<Rightarrow> world" where
  "wake xthr w = (if xthr \<noteq> NIL then set_state xthr Tready w else w)"

text \<open>The wait: enqueue the thread and leave it in the given state.\<close>

definition chan_wait :: "val \<Rightarrow> val \<Rightarrow> int \<Rightarrow> threadstate \<Rightarrow> world \<Rightarrow> (val option \<times> world) res" where
  "chan_wait thr chan i st w =
     rbind (chan_enqueue thr chan i (WHP w)) (\<lambda>h. Inr (None, set_state thr st (w \<lparr> WHP := h \<rparr>)))"

text \<open>From the test of the loop on.\<close>

definition recv_loop :: "val \<Rightarrow> val \<Rightarrow> world \<Rightarrow> (val option \<times> world) res" where
  "recv_loop thr chan w =
     rbind (blk_get (WHP w) chan cHASDATA) (\<lambda>hasdata.
       if hasdata = NIL then chan_wait thr chan cRHEAD Trecv w
       else
         rbind (blk_set (WHP w) chan cHASDATA NIL) (\<lambda>h.
         rbind (blk_get h chan cDATA) (\<lambda>v.
         rbind (chan_dequeue chan cSHEAD h) (\<lambda>(xthr, h).
         Inr (Some v, wake xthr (w \<lparr> WHP := h \<rparr>))))))"

definition arc_recv_channel :: "val \<Rightarrow> val \<Rightarrow> world \<Rightarrow> (val option \<times> world) res" where
  "arc_recv_channel thr chan w = rbind (TYPECHECK (WHP w) chan T_CHAN) (\<lambda>_. recv_loop thr chan w)"

definition send_loop :: "val \<Rightarrow> val \<Rightarrow> val \<Rightarrow> val \<Rightarrow> world \<Rightarrow> (val option \<times> world) res" where
  "send_loop ctrue thr chan v w =
     rbind (blk_get (WHP w) chan cHASDATA) (\<lambda>hasdata.
       if hasdata \<noteq> NIL then chan_wait thr chan cSHEAD Tsend w
       else
         rbind (blk_set (WHP w) chan cHASDATA ctrue) (\<lambda>h.
         rbind (blk_set h chan cDATA v) (\<lambda>h.
         rbind (chan_dequeue chan cRHEAD h) (\<lambda>(xthr, h).
         Inr (Some v, wake xthr (w \<lparr> WHP := h \<rparr>))))))"

definition arc_send_channel :: "val \<Rightarrow> val \<Rightarrow> val \<Rightarrow> val \<Rightarrow> world \<Rightarrow> (val option \<times> world) res" where
  "arc_send_channel ctrue thr chan v w = rbind (TYPECHECK (WHP w) chan T_CHAN) (\<lambda>_. send_loop ctrue thr chan v w)"

text \<open>The channel of a thread's result: a value put in stays, and everyone waiting is woken.\<close>

definition recv_rvchan_loop :: "val \<Rightarrow> val \<Rightarrow> world \<Rightarrow> (val option \<times> world) res" where
  "recv_rvchan_loop thr chan w =
     rbind (blk_get (WHP w) chan cHASDATA) (\<lambda>hasdata.
       if hasdata = NIL then chan_wait thr chan cRHEAD Trecv w
       else rbind (blk_get (WHP w) chan cDATA) (\<lambda>v. Inr (Some v, w)))"

definition arc_recv_rvchan :: "val \<Rightarrow> val \<Rightarrow> world \<Rightarrow> (val option \<times> world) res" where
  "arc_recv_rvchan thr chan w = rbind (TYPECHECK (WHP w) chan T_CHAN) (\<lambda>_. recv_rvchan_loop thr chan w)"

partial_function (option) wake_all :: "val \<Rightarrow> world \<Rightarrow> world res option" where
  "wake_all chan w =
     (case chan_dequeue chan cRHEAD (WHP w) of
        Inl e \<Rightarrow> Some (Inl e)
      | Inr (xthr, h) \<Rightarrow> if xthr = NIL then Some (Inr (w \<lparr> WHP := h \<rparr>)) else wake_all chan (wake xthr (w \<lparr> WHP := h \<rparr>)))"

definition arc_send_rvchan :: "val \<Rightarrow> val \<Rightarrow> val \<Rightarrow> world \<Rightarrow> (val \<times> world) run" where
  "arc_send_rvchan ctrue chan v w =
     rthen (Some (rbind (blk_set (WHP w) chan cHASDATA ctrue) (\<lambda>h. blk_set h chan cDATA v))) (\<lambda>h.
     rthen (wake_all chan (w \<lparr> WHP := h \<rparr>)) (\<lambda>w. ret (v, w)))"

subsection \<open>The abstract channel\<close>

record achan =
  slot :: "val option"
  rwait :: "val list"
  swait :: "val list"

text \<open>The block of a channel, and the whole: the two queues are lists at disjoint cells.\<close>

definition chan_at :: "heap \<Rightarrow> nat \<Rightarrow> val \<Rightarrow> val \<Rightarrow> val \<times> val \<Rightarrow> val \<times> val \<Rightarrow> bool" where
  "chan_at h a has dat rq sq \<longleftrightarrow> mem h a = Some (OBlk T_CHAN [has, dat, fst rq, snd rq, fst sq, snd sq])"

definition chan_parts :: "heap \<Rightarrow> nat \<Rightarrow> val \<Rightarrow> val \<Rightarrow> val list \<Rightarrow> val list \<Rightarrow> bool" where
  "chan_parts h a has dat rs ss \<longleftrightarrow> heap_ok h \<and> (\<exists>rq sq as bs. chan_at h a has dat rq sq
     \<and> qrep h rq as rs \<and> qrep h sq bs ss \<and> set as \<inter> set bs = {})"

definition chan_rep :: "heap \<Rightarrow> val \<Rightarrow> achan \<Rightarrow> bool" where
  "chan_rep h chan A \<longleftrightarrow> (\<exists>a has dat. chan = Ref a \<and> chan_parts h a has dat (rwait A) (swait A)
     \<and> slot A = (if has = NIL then None else Some dat))"

text \<open>Waking the first of a list of waiting threads.\<close>

fun wake_first :: "val list \<Rightarrow> (val \<Rightarrow> threadstate) \<Rightarrow> val \<Rightarrow> threadstate" where
  "wake_first [] st = st"
| "wake_first (t # ts) st = st(t := Tready)"

definition a_recv :: "val \<Rightarrow> achan \<Rightarrow> (val \<Rightarrow> threadstate) \<Rightarrow> val option \<times> achan \<times> (val \<Rightarrow> threadstate)" where
  "a_recv thr A st =
     (case slot A of
        None \<Rightarrow> (None, A \<lparr> rwait := rwait A @ [thr] \<rparr>, st(thr := Trecv))
      | Some v \<Rightarrow> (Some v, A \<lparr> slot := None, swait := tl (swait A) \<rparr>, wake_first (swait A) st))"

definition a_send :: "val \<Rightarrow> val \<Rightarrow> achan \<Rightarrow> (val \<Rightarrow> threadstate) \<Rightarrow> val option \<times> achan \<times> (val \<Rightarrow> threadstate)" where
  "a_send thr v A st =
     (case slot A of
        Some u \<Rightarrow> (None, A \<lparr> swait := swait A @ [thr] \<rparr>, st(thr := Tsend))
      | None \<Rightarrow> (Some v, A \<lparr> slot := Some v, rwait := tl (rwait A) \<rparr>, wake_first (rwait A) st))"

subsection \<open>The operations refine it\<close>

lemma qrep_block:
  assumes "qrep h q as xs" and "mem h a = Some (OBlk ty vs)"
  shows "qrep (hset h a ob) q as xs" and "a \<notin> set as"
proof -
  have "chain h (fst q) as xs NIL" using assms(1) by (simp add: qrep_def)
  moreover have "b \<in> set as \<Longrightarrow> \<exists>x d. mem h b = Some (OCons x d)" if "chain h v as xs e" for v e b
    using that by (induction h v as xs e rule: chain.induct) auto
  ultimately have n: "a \<notin> set as" using assms(2) by force
  then show "a \<notin> set as" .
  have "chain (hset h a ob) (fst q) as xs NIL" using \<open>chain h (fst q) as xs NIL\<close>
    by (rule chain_cong) (use n in \<open>auto simp: hset_def\<close>)
  then show "qrep (hset h a ob) q as xs" using assms(1) by (simp add: qrep_def)
qed

lemma hset_mem: "mem (hset h a ob) a = Some ob" "b \<noteq> a \<Longrightarrow> mem (hset h a ob) b = mem h b" "brk (hset h a ob) = brk h"
  by (simp_all add: hset_def)

lemma chan_queue_at:
  assumes "chan_at h a has dat rq sq"
  shows "chan_queue h (Ref a) cRHEAD = Inr rq" "chan_queue h (Ref a) cSHEAD = Inr sq"
    "blk_get h (Ref a) cHASDATA = Inr has" "blk_get h (Ref a) cDATA = Inr dat"
  using assms by (simp_all add: chan_at_def chan_queue_def blk_get_def)

lemma chan_set_at:
  assumes "chan_at h a has dat rq sq"
  shows "blk_set h (Ref a) cHASDATA x = Inr (hset h a (OBlk T_CHAN [x, dat, fst rq, snd rq, fst sq, snd sq]))"
    "blk_set h (Ref a) cDATA x = Inr (hset h a (OBlk T_CHAN [has, x, fst rq, snd rq, fst sq, snd sq]))"
  using assms by (simp_all add: chan_at_def)

lemma hset_hset: "hset (hset h a x) a y = hset h a y"
  by (simp add: hset_def)

lemma setqueue_at:
  assumes "chan_at h a has dat rq sq"
  shows "chan_setqueue h (Ref a) cRHEAD q = Inr (hset h a (OBlk T_CHAN [has, dat, fst q, snd q, fst sq, snd sq]))"
    "chan_setqueue h (Ref a) cSHEAD q = Inr (hset h a (OBlk T_CHAN [has, dat, fst rq, snd rq, fst q, snd q]))"
  using assms by (simp_all add: chan_at_def chan_setqueue_def hset_mem hset_hset numeral_eq_Suc)

lemma enqueue_frame:
  assumes "heap_ok h" and "qrep h q1 as xs" and "qrep h q2 bs ys" and "set as \<inter> set bs = {}"
    and "mem h a = Some (OBlk ty vs)"
  shows "\<exists>q h'. arc_enqueue h q1 x = Inr (q, h') \<and> heap_ok h' \<and> qrep h' q (as @ [brk h]) (xs @ [x]) \<and> qrep h' q2 bs ys
    \<and> mem h' a = Some (OBlk ty vs) \<and> set (as @ [brk h]) \<inter> set bs = {}"
proof -
  obtain q h' where e: "arc_enqueue h q1 x = Inr (q, h')" "heap_ok h'" "qrep h' q (as @ [brk h]) (xs @ [x])"
    "\<forall>b < brk h. b \<notin> set as \<longrightarrow> mem h' b = mem h b"
    using enqueue_ok [OF assms(1,2), of x] by blast
  have ch: "chain h (fst q2) bs ys NIL" using assms(3) by (simp add: qrep_def)
  have bs: "b < brk h" if "b \<in> set bs" for b using chain_used [OF assms(1) ch that] by simp
  have "chain h' (fst q2) bs ys NIL" using ch
    by (rule chain_cong) (use e(4) bs assms(4) in blast)
  then have "qrep h' q2 bs ys" using assms(3) by (simp add: qrep_def)
  moreover have "mem h' a = Some (OBlk ty vs)"
    using e(4) assms(1,5) qrep_block(2) [OF assms(2,5)] by (simp add: heap_ok_def)
  moreover have "brk h \<notin> set bs" using bs by blast
  ultimately show ?thesis using e(1,2,3) assms(4) by auto
qed

lemma chan_hset_ok: "heap_ok h \<Longrightarrow> chan_at h a has dat rq sq \<Longrightarrow> heap_ok (hset h a ob)"
  by (auto simp: heap_ok_def hset_def chan_at_def)

lemma parts_hset:
  assumes "heap_ok h" and "chan_at h a has0 dat0 rq0 sq0" and "qrep h rq as rs" and "qrep h sq bs ss" and "set as \<inter> set bs = {}"
  shows "chan_parts (hset h a (OBlk T_CHAN [has, dat, fst rq, snd rq, fst sq, snd sq])) a has dat rs ss"
proof -
  let ?h = "hset h a (OBlk T_CHAN [has, dat, fst rq, snd rq, fst sq, snd sq])"
  have a: "mem h a = Some (OBlk T_CHAN [has0, dat0, fst rq0, snd rq0, fst sq0, snd sq0])" using assms(2) by (simp add: chan_at_def)
  have "chan_at ?h a has dat rq sq" by (simp add: chan_at_def hset_mem)
  then show ?thesis
    unfolding chan_parts_def using chan_hset_ok [OF assms(1,2)] qrep_block(1) [OF assms(3) a] qrep_block(1) [OF assms(4) a] assms(5)
    by blast
qed

lemma parts_enqueue:
  assumes "chan_parts h a has dat rs ss"
  shows "\<exists>h'. chan_enqueue thr (Ref a) cRHEAD h = Inr h' \<and> chan_parts h' a has dat (rs @ [thr]) ss"
    and "\<exists>h'. chan_enqueue thr (Ref a) cSHEAD h = Inr h' \<and> chan_parts h' a has dat rs (ss @ [thr])"
proof -
  obtain rq sq as bs where p: "heap_ok h" "chan_at h a has dat rq sq" "qrep h rq as rs" "qrep h sq bs ss" "set as \<inter> set bs = {}"
    using assms by (auto simp: chan_parts_def)
  have a: "mem h a = Some (OBlk T_CHAN [has, dat, fst rq, snd rq, fst sq, snd sq])" using p(2) by (simp add: chan_at_def)
  obtain q h' where e: "arc_enqueue h rq thr = Inr (q, h')" "heap_ok h'" "qrep h' q (as @ [brk h]) (rs @ [thr])" "qrep h' sq bs ss"
    "mem h' a = Some (OBlk T_CHAN [has, dat, fst rq, snd rq, fst sq, snd sq])" "set (as @ [brk h]) \<inter> set bs = {}"
    using enqueue_frame [OF p(1,3,4,5) a, of thr] by blast
  have at: "chan_at h' a has dat rq sq" using e(5) by (simp add: chan_at_def)
  show "\<exists>h'. chan_enqueue thr (Ref a) cRHEAD h = Inr h' \<and> chan_parts h' a has dat (rs @ [thr]) ss"
    using parts_hset [OF e(2) at e(3,4,6), of has dat] chan_queue_at(1) [OF p(2)] e(1) setqueue_at(1) [OF at]
    by (simp add: chan_enqueue_def)
  have d: "set bs \<inter> set as = {}" using p(5) by blast
  obtain q' h'' where e: "arc_enqueue h sq thr = Inr (q', h'')" "heap_ok h''" "qrep h'' q' (bs @ [brk h]) (ss @ [thr])" "qrep h'' rq as rs"
    "mem h'' a = Some (OBlk T_CHAN [has, dat, fst rq, snd rq, fst sq, snd sq])" "set (bs @ [brk h]) \<inter> set as = {}"
    using enqueue_frame [OF p(1,4,3) d a, of thr] by blast
  have at: "chan_at h'' a has dat rq sq" using e(5) by (simp add: chan_at_def)
  have d: "set as \<inter> set (bs @ [brk h]) = {}" using e(6) by blast
  show "\<exists>h'. chan_enqueue thr (Ref a) cSHEAD h = Inr h' \<and> chan_parts h' a has dat rs (ss @ [thr])"
    using parts_hset [OF e(2) at e(4,3) d, of has dat] chan_queue_at(2) [OF p(2)] e(1) setqueue_at(2) [OF at]
    by (simp add: chan_enqueue_def)
qed

lemma dequeue_list:
  assumes "qrep h q as xs"
  shows "\<exists>q' as'. arc_dequeue h q = Inr (case xs of [] \<Rightarrow> NIL | x # _ \<Rightarrow> x, q') \<and> qrep h q' as' (tl xs) \<and> set as' \<subseteq> set as"
proof (cases xs)
  case Nil
  then show ?thesis using assms qrep_empty [of h q as] dequeue_empty by auto
next
  case (Cons x ys)
  then obtain a as' where as: "as = a # as'" using assms by (cases as) (auto simp: qrep_def)
  show ?thesis using dequeue_ok [OF assms [unfolded Cons as]] Cons as by auto
qed

lemma parts_dequeue:
  assumes "chan_parts h a has dat rs ss"
  shows "\<exists>h'. chan_dequeue (Ref a) cRHEAD h = Inr (case rs of [] \<Rightarrow> NIL | x # _ \<Rightarrow> x, h') \<and> chan_parts h' a has dat (tl rs) ss"
    and "\<exists>h'. chan_dequeue (Ref a) cSHEAD h = Inr (case ss of [] \<Rightarrow> NIL | x # _ \<Rightarrow> x, h') \<and> chan_parts h' a has dat rs (tl ss)"
proof -
  obtain rq sq as bs where p: "heap_ok h" "chan_at h a has dat rq sq" "qrep h rq as rs" "qrep h sq bs ss" "set as \<inter> set bs = {}"
    using assms by (auto simp: chan_parts_def)
  obtain q as' where d: "arc_dequeue h rq = Inr (case rs of [] \<Rightarrow> NIL | x # _ \<Rightarrow> x, q)" "qrep h q as' (tl rs)" "set as' \<subseteq> set as"
    using dequeue_list [OF p(3)] by blast
  have dj: "set as' \<inter> set bs = {}" using d(3) p(5) by blast
  show "\<exists>h'. chan_dequeue (Ref a) cRHEAD h = Inr (case rs of [] \<Rightarrow> NIL | x # _ \<Rightarrow> x, h') \<and> chan_parts h' a has dat (tl rs) ss"
    using parts_hset [OF p(1,2) d(2) p(4) dj, of has dat] chan_queue_at(1) [OF p(2)] d(1) setqueue_at(1) [OF p(2)]
    by (simp add: chan_dequeue_def)
  obtain q' bs' where d: "arc_dequeue h sq = Inr (case ss of [] \<Rightarrow> NIL | x # _ \<Rightarrow> x, q')" "qrep h q' bs' (tl ss)" "set bs' \<subseteq> set bs"
    using dequeue_list [OF p(4)] by blast
  have dj: "set as \<inter> set bs' = {}" using d(3) p(5) by blast
  show "\<exists>h'. chan_dequeue (Ref a) cSHEAD h = Inr (case ss of [] \<Rightarrow> NIL | x # _ \<Rightarrow> x, h') \<and> chan_parts h' a has dat rs (tl ss)"
    using parts_hset [OF p(1,2,3) d(2) dj, of has dat] chan_queue_at(2) [OF p(2)] d(1) setqueue_at(2) [OF p(2)]
    by (simp add: chan_dequeue_def)
qed

lemma parts_blk:
  assumes "chan_parts h a has dat rs ss"
  shows "blk_get h (Ref a) cHASDATA = Inr has" and "blk_get h (Ref a) cDATA = Inr dat"
    and "\<exists>h'. blk_set h (Ref a) cHASDATA x = Inr h' \<and> chan_parts h' a x dat rs ss"
    and "\<exists>h'. blk_set h (Ref a) cDATA x = Inr h' \<and> chan_parts h' a has x rs ss"
    and "TYPECHECK h (Ref a) T_CHAN = Inr ()"
proof -
  obtain rq sq as bs where p: "heap_ok h" "chan_at h a has dat rq sq" "qrep h rq as rs" "qrep h sq bs ss" "set as \<inter> set bs = {}"
    using assms by (auto simp: chan_parts_def)
  show "blk_get h (Ref a) cHASDATA = Inr has" "blk_get h (Ref a) cDATA = Inr dat" using chan_queue_at(3,4) [OF p(2)] .
  show "\<exists>h'. blk_set h (Ref a) cHASDATA x = Inr h' \<and> chan_parts h' a x dat rs ss"
    using chan_set_at(1) [OF p(2)] parts_hset [OF p] by blast
  show "\<exists>h'. blk_set h (Ref a) cDATA x = Inr h' \<and> chan_parts h' a has x rs ss"
    using chan_set_at(2) [OF p(2)] parts_hset [OF p] by blast
  show "TYPECHECK h (Ref a) T_CHAN = Inr ()" using p(2) by (simp add: TYPECHECK_def chan_at_def htype_def)
qed

text \<open>The C functions do what the buffer does, to the heap and to the states of the threads.\<close>

lemma wake_head:
  "NIL \<notin> set xs \<Longrightarrow> WHP (wake (case xs of [] \<Rightarrow> NIL | x # _ \<Rightarrow> x) w) = WHP w
     \<and> TSTATE (wake (case xs of [] \<Rightarrow> NIL | x # _ \<Rightarrow> x) w) = wake_first xs (TSTATE w)"
  by (cases xs) (auto simp: wake_def set_state_def)

lemma recv_refines:
  assumes "chan_rep (WHP w) chan A" and "NIL \<notin> set (swait A)" and "a_recv thr A (TSTATE w) = (r, A', st)"
  shows "\<exists>w'. recv_loop thr chan w = Inr (r, w') \<and> chan_rep (WHP w') chan A' \<and> TSTATE w' = st"
proof -
  obtain a has dat where c: "chan = Ref a" "chan_parts (WHP w) a has dat (rwait A) (swait A)" "slot A = (if has = NIL then None else Some dat)"
    using assms(1) by (auto simp: chan_rep_def)
  show ?thesis
  proof (cases "has = NIL")
    case True
    obtain h where "chan_enqueue thr (Ref a) cRHEAD (WHP w) = Inr h" "chan_parts h a has dat (rwait A @ [thr]) (swait A)"
      using parts_enqueue(1) [OF c(2)] by blast
    then show ?thesis using True c(1,3) parts_blk(1) [OF c(2)] assms(3)
      by (auto simp: recv_loop_def chan_wait_def a_recv_def set_state_def chan_rep_def)
  next
    case False
    obtain h1 where h1: "blk_set (WHP w) (Ref a) cHASDATA NIL = Inr h1" "chan_parts h1 a NIL dat (rwait A) (swait A)"
      using parts_blk(3) [OF c(2)] by blast
    obtain h2 where h2: "chan_dequeue (Ref a) cSHEAD h1 = Inr (case swait A of [] \<Rightarrow> NIL | x # _ \<Rightarrow> x, h2)"
      "chan_parts h2 a NIL dat (rwait A) (tl (swait A))"
      using parts_dequeue(2) [OF h1(2)] by blast
    then show ?thesis using False c(1,3) parts_blk(1) [OF c(2)] parts_blk(2) [OF h1(2)] h1(1) assms(3) wake_head [OF assms(2)]
      by (auto simp: recv_loop_def a_recv_def chan_rep_def)
  qed
qed

lemma send_refines:
  assumes "chan_rep (WHP w) chan A" and "NIL \<notin> set (rwait A)" and "a_send thr v A (TSTATE w) = (r, A', st)" and "ctrue \<noteq> NIL"
  shows "\<exists>w'. send_loop ctrue thr chan v w = Inr (r, w') \<and> chan_rep (WHP w') chan A' \<and> TSTATE w' = st"
proof -
  obtain a has dat where c: "chan = Ref a" "chan_parts (WHP w) a has dat (rwait A) (swait A)" "slot A = (if has = NIL then None else Some dat)"
    using assms(1) by (auto simp: chan_rep_def)
  show ?thesis
  proof (cases "has = NIL")
    case False
    obtain h where "chan_enqueue thr (Ref a) cSHEAD (WHP w) = Inr h" "chan_parts h a has dat (rwait A) (swait A @ [thr])"
      using parts_enqueue(2) [OF c(2)] by blast
    then show ?thesis using False c(1,3) parts_blk(1) [OF c(2)] assms(3)
      by (auto simp: send_loop_def chan_wait_def a_send_def set_state_def chan_rep_def)
  next
    case True
    obtain h1 where h1: "blk_set (WHP w) (Ref a) cHASDATA ctrue = Inr h1" "chan_parts h1 a ctrue dat (rwait A) (swait A)"
      using parts_blk(3) [OF c(2)] by blast
    obtain h2 where h2: "blk_set h1 (Ref a) cDATA v = Inr h2" "chan_parts h2 a ctrue v (rwait A) (swait A)"
      using parts_blk(4) [OF h1(2)] by blast
    obtain h3 where h3: "chan_dequeue (Ref a) cRHEAD h2 = Inr (case rwait A of [] \<Rightarrow> NIL | x # _ \<Rightarrow> x, h3)"
      "chan_parts h3 a ctrue v (tl (rwait A)) (swait A)"
      using parts_dequeue(1) [OF h2(2)] by blast
    then show ?thesis using True c(1,3) parts_blk(1) [OF c(2)] h1(1) h2(1) assms(3,4) wake_head [OF assms(2)]
      by (auto simp: send_loop_def a_send_def chan_rep_def)
  qed
qed

text \<open>A new channel is empty.\<close>

lemma mkchan_empty:
  assumes "heap_ok h" and "arc_mkchan h = (chan, h')"
  shows "chan_rep h' chan \<lparr> slot = None, rwait = [], swait = [] \<rparr>"
proof -
  have "heap_ok h'" "chan = Ref (brk h)" "chan_at h' (brk h) NIL NIL (NIL, NIL) (NIL, NIL)"
    using assms by (auto simp: arc_mkchan_def halloc_def heap_ok_def chan_at_def numeral_eq_Suc less_Suc_eq split: if_splits)
  then show ?thesis using qrep_empty by (fastforce simp: chan_rep_def chan_parts_def)
qed

text \<open>Everyone who waits for a result gets it.\<close>

definition wake_list :: "val list \<Rightarrow> (val \<Rightarrow> threadstate) \<Rightarrow> val \<Rightarrow> threadstate" where
  "wake_list ts st = (\<lambda>t. if t \<in> set ts then Tready else st t)"

lemma wake_all_ok:
  "chan_parts (WHP w) a has dat rs ss \<Longrightarrow> NIL \<notin> set rs \<Longrightarrow>
    \<exists>w'. wake_all (Ref a) w = Some (Inr w') \<and> chan_parts (WHP w') a has dat [] ss \<and> TSTATE w' = wake_list rs (TSTATE w)"
proof (induction rs arbitrary: w)
  case Nil
  then obtain h where "chan_dequeue (Ref a) cRHEAD (WHP w) = Inr (NIL, h)" "chan_parts h a has dat [] ss"
    using parts_dequeue(1) [OF Nil(1)] by auto
  then show ?case by (subst wake_all.simps) (simp add: wake_list_def)
next
  case (Cons t ts)
  obtain h where h: "chan_dequeue (Ref a) cRHEAD (WHP w) = Inr (t, h)" "chan_parts h a has dat ts ss"
    using parts_dequeue(1) [OF Cons.prems(1)] by auto
  let ?w = "wake t (w \<lparr> WHP := h \<rparr>)"
  have t: "t \<noteq> NIL" "NIL \<notin> set ts" using Cons.prems(2) by auto
  have w: "WHP ?w = h" "TSTATE ?w = (TSTATE w)(t := Tready)" using t(1) by (simp_all add: wake_def set_state_def)
  have "chan_parts (WHP ?w) a has dat ts ss" using h(2) w(1) by simp
  from Cons.IH [OF this t(2)] obtain w' where "wake_all (Ref a) ?w = Some (Inr w')" "chan_parts (WHP w') a has dat [] ss"
    "TSTATE w' = wake_list ts (TSTATE ?w)" by blast
  moreover have "wake_all (Ref a) w = wake_all (Ref a) ?w" using h(1) t(1) by (subst wake_all.simps) simp
  moreover have "wake_list ts (TSTATE ?w) = wake_list (t # ts) (TSTATE w)" using w(2) by (auto simp: wake_list_def)
  ultimately show ?case by simp
qed

lemma send_rvchan_refines:
  assumes "chan_rep (WHP w) chan A" and "NIL \<notin> set (rwait A)" and "ctrue \<noteq> NIL"
  shows "\<exists>w'. arc_send_rvchan ctrue chan v w = Some (Inr (v, w'))
    \<and> chan_rep (WHP w') chan (A \<lparr> slot := Some v, rwait := [] \<rparr>) \<and> TSTATE w' = wake_list (rwait A) (TSTATE w)"
proof -
  obtain a has dat where c: "chan = Ref a" "chan_parts (WHP w) a has dat (rwait A) (swait A)"
    using assms(1) by (auto simp: chan_rep_def)
  obtain h1 where h1: "blk_set (WHP w) (Ref a) cHASDATA ctrue = Inr h1" "chan_parts h1 a ctrue dat (rwait A) (swait A)"
    using parts_blk(3) [OF c(2)] by blast
  obtain h2 where h2: "blk_set h1 (Ref a) cDATA v = Inr h2" "chan_parts h2 a ctrue v (rwait A) (swait A)"
    using parts_blk(4) [OF h1(2)] by blast
  have "chan_parts (WHP (w \<lparr> WHP := h2 \<rparr>)) a ctrue v (rwait A) (swait A)" using h2(2) by simp
  from wake_all_ok [OF this assms(2)] obtain w' where "wake_all (Ref a) (w \<lparr> WHP := h2 \<rparr>) = Some (Inr w')"
    "chan_parts (WHP w') a ctrue v [] (swait A)" "TSTATE w' = wake_list (rwait A) (TSTATE w)" by auto
  moreover from this(2) have "chan_rep (WHP w') chan (A \<lparr> slot := Some v, rwait := [] \<rparr>)"
    unfolding chan_rep_def using c(1) assms(3) by (intro exI [of _ a] exI [of _ ctrue] exI [of _ v]) simp
  ultimately show ?thesis using c(1) h1(1) h2(1) by (simp add: arc_send_rvchan_def del: blk_set.simps)
qed

subsection \<open>Threads that use a channel\<close>

text \<open>
  A thread that is in one of the two functions has a pending operation. Besides the world, the
  values that were received and sent, in the order in which the functions returned.
\<close>

datatype chanop = CRecv | CSend val

record sys =
  SW :: world
  PEND :: "val \<Rightarrow> chanop option"
  GOT :: "val list"
  PUT :: "val list"

text \<open>The run of a pending operation up to its next yield or its return.\<close>

definition run_op :: "val \<Rightarrow> val \<Rightarrow> val \<Rightarrow> sys \<Rightarrow> sys res" where
  "run_op ctrue chan t s =
     (case PEND s t of
        None \<Rightarrow> Inr s
      | Some CRecv \<Rightarrow> rbind (recv_loop t chan (SW s)) (\<lambda>(r, w). Inr (case r of
            None \<Rightarrow> s \<lparr> SW := w \<rparr>
          | Some v \<Rightarrow> s \<lparr> SW := w, PEND := (PEND s)(t := None), GOT := GOT s @ [v] \<rparr>))
      | Some (CSend v) \<Rightarrow> rbind (send_loop ctrue t chan v (SW s)) (\<lambda>(r, w). Inr (case r of
            None \<Rightarrow> s \<lparr> SW := w \<rparr>
          | Some u \<Rightarrow> s \<lparr> SW := w, PEND := (PEND s)(t := None), PUT := PUT s @ [u] \<rparr>)))"

text \<open>
  The dispatcher runs any thread that is ready. It may call one of the two functions, go on
  with the one it is in, or do something else; what else happens in the heap keeps the channel.
\<close>

inductive sys_step :: "val \<Rightarrow> val \<Rightarrow> sys \<Rightarrow> sys \<Rightarrow> bool" for ctrue chan where
  call: "TSTATE (SW s) t = Tready \<Longrightarrow> PEND s t = None \<Longrightarrow> t \<noteq> NIL \<Longrightarrow> TYPECHECK (WHP (SW s)) chan T_CHAN = Inr () \<Longrightarrow>
    sys_step ctrue chan s (s \<lparr> PEND := (PEND s)(t \<mapsto> f) \<rparr>)"
| run: "TSTATE (SW s) t = Tready \<Longrightarrow> PEND s t = Some f \<Longrightarrow> run_op ctrue chan t s = Inr s' \<Longrightarrow> sys_step ctrue chan s s'"
| outside: "PEND s t = None \<Longrightarrow> sys_step ctrue chan s (s \<lparr> SW := set_state t st (SW s) \<rparr>)"
| work: "(\<And>A. chan_rep (WHP (SW s)) chan A \<Longrightarrow> chan_rep h chan A) \<Longrightarrow> sys_step ctrue chan s (s \<lparr> SW := (SW s) \<lparr> WHP := h \<rparr> \<rparr>)"

inductive sys_reach :: "val \<Rightarrow> val \<Rightarrow> sys \<Rightarrow> bool" for ctrue chan where
  start: "heap_ok h \<Longrightarrow> arc_mkchan h = (chan, h') \<Longrightarrow> SW s = \<lparr> WHP = h', TSTATE = st \<rparr> \<Longrightarrow>
    PEND s = (\<lambda>_. None) \<Longrightarrow> GOT s = [] \<Longrightarrow> PUT s = [] \<Longrightarrow> sys_reach ctrue chan s"
| step: "sys_reach ctrue chan s \<Longrightarrow> sys_step ctrue chan s s' \<Longrightarrow> sys_reach ctrue chan s'"

inductive_cases sys_stepE: "sys_step ctrue chan s s'"

abbreviation ready :: "sys \<Rightarrow> val \<Rightarrow> bool" where "ready s t \<equiv> TSTATE (SW s) t = Tready"

text \<open>
  A waiting thread is in its queue once, in the state of its function; a full slot with a
  waiting receiver has a receiver that was woken, and an empty one with a waiting sender a sender.
\<close>

definition waits_ok :: "(val \<Rightarrow> chanop option) \<Rightarrow> (val \<Rightarrow> threadstate) \<Rightarrow> achan \<Rightarrow> bool" where
  "waits_ok pd st A \<longleftrightarrow> distinct (rwait A) \<and> distinct (swait A) \<and> pd NIL = None
     \<and> (\<forall>t. t \<in> set (rwait A) \<longleftrightarrow> pd t = Some CRecv \<and> st t \<noteq> Tready)
     \<and> (\<forall>t. t \<in> set (swait A) \<longleftrightarrow> (\<exists>v. pd t = Some (CSend v)) \<and> st t \<noteq> Tready)"

definition woken_ok :: "(val \<Rightarrow> chanop option) \<Rightarrow> (val \<Rightarrow> threadstate) \<Rightarrow> achan \<Rightarrow> bool" where
  "woken_ok pd st A \<longleftrightarrow> (slot A \<noteq> None \<longrightarrow> rwait A \<noteq> [] \<longrightarrow> (\<exists>t. pd t = Some CRecv \<and> st t = Tready))
     \<and> (slot A = None \<longrightarrow> swait A \<noteq> [] \<longrightarrow> (\<exists>t v. pd t = Some (CSend v) \<and> st t = Tready))"

definition sys_inv :: "val \<Rightarrow> sys \<Rightarrow> achan \<Rightarrow> bool" where
  "sys_inv chan s A \<longleftrightarrow> chan_rep (WHP (SW s)) chan A \<and> PUT s = GOT s @ (case slot A of None \<Rightarrow> [] | Some v \<Rightarrow> [v])
     \<and> waits_ok (PEND s) (TSTATE (SW s)) A \<and> woken_ok (PEND s) (TSTATE (SW s)) A"

lemma waits_nil: "waits_ok pd st A \<Longrightarrow> NIL \<notin> set (rwait A) \<and> NIL \<notin> set (swait A)"
  by (auto simp: waits_ok_def)

lemma waits_wait:
  assumes "waits_ok pd st A" and "st t = Tready"
  shows "pd t = Some CRecv \<Longrightarrow> waits_ok pd (st(t := Trecv)) (A \<lparr> rwait := rwait A @ [t] \<rparr>)"
    and "pd t = Some (CSend v) \<Longrightarrow> waits_ok pd (st(t := Tsend)) (A \<lparr> swait := swait A @ [t] \<rparr>)"
  using assms by (auto simp: waits_ok_def)

lemma wake_first_at: "wake_first xs st t = (if xs \<noteq> [] \<and> t = hd xs then Tready else st t)"
  by (cases xs) auto

lemma set_tl: "distinct xs \<Longrightarrow> t \<in> set (tl xs) \<longleftrightarrow> t \<in> set xs \<and> t \<noteq> hd xs"
  by (cases xs) auto

lemma waits_wake:
  assumes "waits_ok pd st A" and "st t = Tready"
  shows "pd t = Some (CSend v) \<Longrightarrow> waits_ok (pd(t := None)) (wake_first (rwait A) st) (A \<lparr> slot := x, rwait := tl (rwait A) \<rparr>)"
    and "pd t = Some CRecv \<Longrightarrow> waits_ok (pd(t := None)) (wake_first (swait A) st) (A \<lparr> slot := x, swait := tl (swait A) \<rparr>)"
proof -
  have d: "distinct (rwait A)" "distinct (swait A)" using assms(1) by (auto simp: waits_ok_def)
  have q: "t \<notin> set (rwait A)" "t \<notin> set (swait A)" "\<And>t. t \<in> set (rwait A) \<Longrightarrow> t \<notin> set (swait A)"
    using assms by (auto simp: waits_ok_def)
  have h: "rwait A \<noteq> [] \<Longrightarrow> hd (rwait A) \<in> set (rwait A)" "swait A \<noteq> [] \<Longrightarrow> hd (swait A) \<in> set (swait A)" by simp_all
  show "pd t = Some (CSend v) \<Longrightarrow> waits_ok (pd(t := None)) (wake_first (rwait A) st) (A \<lparr> slot := x, rwait := tl (rwait A) \<rparr>)"
    using assms d q h by (auto simp: waits_ok_def wake_first_at set_tl distinct_tl)
  show "pd t = Some CRecv \<Longrightarrow> waits_ok (pd(t := None)) (wake_first (swait A) st) (A \<lparr> slot := x, swait := tl (swait A) \<rparr>)"
    using assms d q h by (auto simp: waits_ok_def wake_first_at set_tl distinct_tl)
qed

text \<open>After a thread went to wait, and after one went through.\<close>

lemma woken_wait:
  assumes "woken_ok pd st A" and "st t = Tready"
  shows "pd t = Some CRecv \<Longrightarrow> slot A = None \<Longrightarrow> woken_ok pd (st(t := Trecv)) (A \<lparr> rwait := rwait A @ [t] \<rparr>)"
    and "pd t = Some (CSend v) \<Longrightarrow> slot A \<noteq> None \<Longrightarrow> woken_ok pd (st(t := Tsend)) (A \<lparr> swait := swait A @ [t] \<rparr>)"
  using assms by (auto simp: woken_ok_def) (metis chanop.distinct(1) option.inject)+

lemma woken_wake:
  assumes "waits_ok pd st A" and "st t = Tready"
  shows "pd t = Some (CSend v) \<Longrightarrow> woken_ok (pd(t := None)) (wake_first (rwait A) st) (A \<lparr> slot := Some u, rwait := tl (rwait A) \<rparr>)"
    and "pd t = Some CRecv \<Longrightarrow> woken_ok (pd(t := None)) (wake_first (swait A) st) (A \<lparr> slot := None, swait := tl (swait A) \<rparr>)"
proof -
  have r: "rwait A \<noteq> [] \<Longrightarrow> pd (hd (rwait A)) = Some CRecv" "swait A \<noteq> [] \<Longrightarrow> \<exists>v. pd (hd (swait A)) = Some (CSend v)"
    using assms(1) by (metis hd_in_set waits_ok_def)+
  have ne: "tl xs \<noteq> [] \<Longrightarrow> xs \<noteq> []" for xs :: "val list" by auto
  show "woken_ok (pd(t := None)) (wake_first (rwait A) st) (A \<lparr> slot := Some u, rwait := tl (rwait A) \<rparr>)" if "pd t = Some (CSend v)"
  proof -
    have "hd (rwait A) \<noteq> t" if "rwait A \<noteq> []" using r(1) [OF that] \<open>pd t = _\<close> by auto
    then show ?thesis using r(1) ne [of "rwait A"] by (auto simp: woken_ok_def wake_first_at)
  qed
  show "woken_ok (pd(t := None)) (wake_first (swait A) st) (A \<lparr> slot := None, swait := tl (swait A) \<rparr>)" if "pd t = Some CRecv"
  proof -
    have "hd (swait A) \<noteq> t" if "swait A \<noteq> []" using r(2) [OF that] \<open>pd t = _\<close> by auto
    then show ?thesis using r(2) ne [of "swait A"] by (auto simp: woken_ok_def wake_first_at)
  qed
qed

text \<open>A receiver at a full slot and a sender at an empty one get through.\<close>

lemma run_recv_inv:
  assumes "sys_inv chan s A" and "ready s t" and "PEND s t = Some CRecv"
  shows "\<exists>s' A'. run_op ctrue chan t s = Inr s' \<and> sys_inv chan s' A' \<and> PUT s' = PUT s
    \<and> GOT s' = GOT s @ (case slot A of None \<Rightarrow> [] | Some v \<Rightarrow> [v])"
proof -
  have i: "chan_rep (WHP (SW s)) chan A" "PUT s = GOT s @ (case slot A of None \<Rightarrow> [] | Some v \<Rightarrow> [v])"
    "waits_ok (PEND s) (TSTATE (SW s)) A" "woken_ok (PEND s) (TSTATE (SW s)) A"
    using assms(1) by (auto simp: sys_inv_def)
  have nil: "NIL \<notin> set (swait A)" using waits_nil [OF i(3)] by blast
  show ?thesis
  proof (cases "slot A")
    case None
    then have "a_recv t A (TSTATE (SW s)) = (None, A \<lparr> rwait := rwait A @ [t] \<rparr>, (TSTATE (SW s))(t := Trecv))" by (simp add: a_recv_def)
    from recv_refines [OF i(1) nil this] obtain w where w: "recv_loop t chan (SW s) = Inr (None, w)"
      "chan_rep (WHP w) chan (A \<lparr> rwait := rwait A @ [t] \<rparr>)" "TSTATE w = (TSTATE (SW s))(t := Trecv)" by blast
    have "sys_inv chan (s \<lparr> SW := w \<rparr>) (A \<lparr> rwait := rwait A @ [t] \<rparr>)"
      using w(2,3) i(2) None waits_wait(1) [OF i(3) assms(2,3)] woken_wait(1) [OF i(4) assms(2,3) None] by (simp add: sys_inv_def)
    then show ?thesis using w(1) None assms(3) by (auto simp: run_op_def)
  next
    case (Some v)
    let ?A = "A \<lparr> slot := None, swait := tl (swait A) \<rparr>"
    have "a_recv t A (TSTATE (SW s)) = (Some v, ?A, wake_first (swait A) (TSTATE (SW s)))" using Some by (simp add: a_recv_def)
    from recv_refines [OF i(1) nil this] obtain w where w: "recv_loop t chan (SW s) = Inr (Some v, w)"
      "chan_rep (WHP w) chan ?A" "TSTATE w = wake_first (swait A) (TSTATE (SW s))" by blast
    have "sys_inv chan (s \<lparr> SW := w, PEND := (PEND s)(t := None), GOT := GOT s @ [v] \<rparr>) ?A"
      using w(2,3) i(2) Some waits_wake(2) [OF i(3) assms(2,3)] woken_wake(2) [OF i(3) assms(2,3)] by (simp add: sys_inv_def)
    then show ?thesis using w(1) Some assms(3) by (auto simp: run_op_def)
  qed
qed

lemma run_send_inv:
  assumes "sys_inv chan s A" and "ready s t" and "PEND s t = Some (CSend v)" and "ctrue \<noteq> NIL"
  shows "\<exists>s' A'. run_op ctrue chan t s = Inr s' \<and> sys_inv chan s' A' \<and> GOT s' = GOT s
    \<and> PUT s' = PUT s @ (if slot A = None then [v] else [])"
proof -
  have i: "chan_rep (WHP (SW s)) chan A" "PUT s = GOT s @ (case slot A of None \<Rightarrow> [] | Some v \<Rightarrow> [v])"
    "waits_ok (PEND s) (TSTATE (SW s)) A" "woken_ok (PEND s) (TSTATE (SW s)) A"
    using assms(1) by (auto simp: sys_inv_def)
  have nil: "NIL \<notin> set (rwait A)" using waits_nil [OF i(3)] by blast
  show ?thesis
  proof (cases "slot A")
    case (Some u)
    then have "a_send t v A (TSTATE (SW s)) = (None, A \<lparr> swait := swait A @ [t] \<rparr>, (TSTATE (SW s))(t := Tsend))" by (simp add: a_send_def)
    from send_refines [OF i(1) nil this assms(4)] obtain w where w: "send_loop ctrue t chan v (SW s) = Inr (None, w)"
      "chan_rep (WHP w) chan (A \<lparr> swait := swait A @ [t] \<rparr>)" "TSTATE w = (TSTATE (SW s))(t := Tsend)" by blast
    have "sys_inv chan (s \<lparr> SW := w \<rparr>) (A \<lparr> swait := swait A @ [t] \<rparr>)"
      using w(2,3) i(2) Some waits_wait(2) [OF i(3) assms(2,3)] woken_wait(2) [OF i(4) assms(2,3)] by (simp add: sys_inv_def)
    then show ?thesis using w(1) Some assms(3) by (auto simp: run_op_def)
  next
    case None
    let ?A = "A \<lparr> slot := Some v, rwait := tl (rwait A) \<rparr>"
    have "a_send t v A (TSTATE (SW s)) = (Some v, ?A, wake_first (rwait A) (TSTATE (SW s)))" using None by (simp add: a_send_def)
    from send_refines [OF i(1) nil this assms(4)] obtain w where w: "send_loop ctrue t chan v (SW s) = Inr (Some v, w)"
      "chan_rep (WHP w) chan ?A" "TSTATE w = wake_first (rwait A) (TSTATE (SW s))" by blast
    have "sys_inv chan (s \<lparr> SW := w, PEND := (PEND s)(t := None), PUT := PUT s @ [v] \<rparr>) ?A"
      using w(2,3) i(2) None waits_wake(1) [OF i(3) assms(2,3)] woken_wake(1) [OF i(3) assms(2,3)] by (simp add: sys_inv_def)
    then show ?thesis using w(1) None assms(3) by (auto simp: run_op_def)
  qed
qed

lemma waits_call:
  "waits_ok pd st A \<Longrightarrow> pd t = None \<Longrightarrow> st t = Tready \<Longrightarrow> t \<noteq> NIL \<Longrightarrow> waits_ok (pd(t \<mapsto> f)) st A"
  by (auto simp: waits_ok_def)

lemma woken_call: "woken_ok pd st A \<Longrightarrow> pd t = None \<Longrightarrow> woken_ok (pd(t \<mapsto> f)) st A"
  by (auto simp: woken_ok_def) (metis option.distinct(1))+

lemma woken_outside: "woken_ok pd st A \<Longrightarrow> pd t = None \<Longrightarrow> woken_ok pd (st(t := x)) A"
  by (auto simp: woken_ok_def) (metis option.distinct(1))+

lemma waits_outside: "waits_ok pd st A \<Longrightarrow> pd t = None \<Longrightarrow> waits_ok pd (st(t := x)) A"
  by (auto simp: waits_ok_def)

lemma step_inv:
  assumes "sys_inv chan s A" and "sys_step ctrue chan s s'" and "ctrue \<noteq> NIL"
  shows "\<exists>A'. sys_inv chan s' A'"
  using assms(2)
proof (cases rule: sys_step.cases)
  case (call t f)
  then have "sys_inv chan s' A" using assms(1) waits_call [of "PEND s" _ A t f] woken_call [of "PEND s" _ A t f]
    by (simp add: sys_inv_def)
  then show ?thesis ..
next
  case (run t f)
  then show ?thesis
  proof (cases f)
    case CRecv
    then show ?thesis using run run_recv_inv [OF assms(1), of t ctrue] by fastforce
  next
    case (CSend v)
    then show ?thesis using run run_send_inv [OF assms(1), of t v ctrue] assms(3) by fastforce
  qed
next
  case (outside t st)
  then have "sys_inv chan s' A" using assms(1) waits_outside [of "PEND s" _ A t] woken_outside [of "PEND s" _ A t]
    by (simp add: sys_inv_def set_state_def)
  then show ?thesis ..
next
  case (work h)
  then have "sys_inv chan s' A" using assms(1) by (simp add: sys_inv_def)
  then show ?thesis ..
qed

lemma reach_inv:
  assumes "sys_reach ctrue chan s" and "ctrue \<noteq> NIL"
  shows "\<exists>A. sys_inv chan s A"
  using assms(1)
proof (induction rule: sys_reach.induct)
  case (start h h' s st)
  have "chan_rep h' chan \<lparr> slot = None, rwait = [], swait = [] \<rparr>" using mkchan_empty [OF start(1,2)] .
  then have "sys_inv chan s \<lparr> slot = None, rwait = [], swait = [] \<rparr>"
    using start by (simp add: sys_inv_def waits_ok_def woken_ok_def)
  then show ?case ..
next
  case (step s s')
  then show ?case using step_inv assms(2) by blast
qed

text \<open>
  Property C18. However threads interleave, what the receivers of a channel got is what the
  senders put, once and in order, but for the value in the slot; and no operation fails.
\<close>

theorem channel_fifo:
  assumes "sys_reach ctrue chan s" and "ctrue \<noteq> NIL"
  shows "(\<exists>rest. PUT s = GOT s @ rest \<and> length rest \<le> 1)
    \<and> (\<forall>t. ready s t \<longrightarrow> (\<exists>s'. run_op ctrue chan t s = Inr s'))"
proof -
  obtain A where A: "sys_inv chan s A" using reach_inv [OF assms] by blast
  have "\<exists>s'. run_op ctrue chan t s = Inr s'" if "ready s t" for t
  proof (cases "PEND s t")
    case None
    then show ?thesis by (simp add: run_op_def)
  next
    case (Some f)
    then show ?thesis using run_recv_inv [OF A that, of ctrue] run_send_inv [OF A that _ assms(2)] by (cases f) blast+
  qed
  then show ?thesis using A by (auto simp: sys_inv_def split: option.splits)
qed

text \<open>
  Property C10. Channels do not deadlock: whenever one thread wants to send and another to
  receive, some thread is ready whose operation completes when it runs.
\<close>

theorem channel_no_deadlock:
  assumes "sys_reach ctrue chan s" and "ctrue \<noteq> NIL"
    and "PEND s t1 = Some CRecv" and "PEND s t2 = Some (CSend v)"
  shows "\<exists>t s'. ready s t \<and> PEND s t \<noteq> None \<and> run_op ctrue chan t s = Inr s'
    \<and> length (GOT s') + length (PUT s') = Suc (length (GOT s) + length (PUT s))"
proof -
  obtain A where A: "sys_inv chan s A" using reach_inv [OF assms(1,2)] by blast
  then have w: "waits_ok (PEND s) (TSTATE (SW s)) A" "woken_ok (PEND s) (TSTATE (SW s)) A" by (simp_all add: sys_inv_def)
  show ?thesis
  proof (cases "slot A")
    case None
    have "\<exists>t u. PEND s t = Some (CSend u) \<and> ready s t"
    proof (cases "ready s t2")
      case False
      then have "t2 \<in> set (swait A)" using w(1) assms(4) by (auto simp: waits_ok_def)
      then show ?thesis using w(2) None by (auto simp: woken_ok_def)
    qed (use assms(4) in blast)
    then obtain t u where t: "PEND s t = Some (CSend u)" "ready s t" by blast
    show ?thesis using run_send_inv [OF A t(2,1) assms(2)] t None by fastforce
  next
    case (Some x)
    have "\<exists>t. PEND s t = Some CRecv \<and> ready s t"
    proof (cases "ready s t1")
      case False
      then have "t1 \<in> set (rwait A)" using w(1) assms(3) by (auto simp: waits_ok_def)
      then show ?thesis using w(2) Some by (auto simp: woken_ok_def)
    qed (use assms(3) in blast)
    then obtain t where t: "PEND s t = Some CRecv" "ready s t" by blast
    show ?thesis using run_recv_inv [OF A t(2,1), of ctrue] t Some by fastforce
  qed
qed

text \<open>A thread wants to receive, another one sends.\<close>

definition demo_chan :: val where
  "demo_chan = fst (arc_mkchan empty_heap)"

definition demo_start :: sys where
  "demo_start = \<lparr> SW = \<lparr> WHP = snd (arc_mkchan empty_heap), TSTATE = (\<lambda>_. Tready) \<rparr>, PEND = (\<lambda>_. None), GOT = [], PUT = [] \<rparr>"

definition demo_calls :: sys where
  "demo_calls = demo_start \<lparr> PEND := [Ref 100 \<mapsto> CRecv, Ref 200 \<mapsto> CSend (Fix 7)] \<rparr>"

definition demo_sent :: sys where
  "demo_sent = (case run_op (Sym 1) demo_chan (Ref 200) demo_calls of Inr s \<Rightarrow> s | Inl _ \<Rightarrow> demo_calls)"

lemma demo_calls_reach: "sys_reach ctrue demo_chan demo_calls"
proof -
  have s: "sys_reach ctrue demo_chan demo_start"
    by (rule sys_reach.start [of empty_heap demo_chan "snd (arc_mkchan empty_heap)"])
      (simp_all add: demo_start_def demo_chan_def empty_heap_ok)
  have "sys_step ctrue demo_chan demo_start (demo_start \<lparr> PEND := (PEND demo_start)(Ref 100 \<mapsto> CRecv) \<rparr>)"
    by (rule sys_step.call) (simp_all add: demo_start_def demo_chan_def arc_mkchan_def halloc_def TYPECHECK_def htype_def)
  from sys_reach.step [OF s this] have s1: "sys_reach ctrue demo_chan (demo_start \<lparr> PEND := [Ref 100 \<mapsto> CRecv] \<rparr>)"
    by (simp add: demo_start_def)
  have "sys_step ctrue demo_chan (demo_start \<lparr> PEND := [Ref 100 \<mapsto> CRecv] \<rparr>)
      (demo_start \<lparr> PEND := [Ref 100 \<mapsto> CRecv] \<rparr> \<lparr> PEND := (PEND (demo_start \<lparr> PEND := [Ref 100 \<mapsto> CRecv] \<rparr>))(Ref 200 \<mapsto> CSend (Fix 7)) \<rparr>)"
    by (rule sys_step.call) (simp_all add: demo_start_def demo_chan_def arc_mkchan_def halloc_def TYPECHECK_def htype_def)
  from sys_reach.step [OF s1 this] show ?thesis by (simp add: demo_calls_def)
qed

lemma demo_run: "run_op (Sym 1) demo_chan (Ref 200) demo_calls = Inr demo_sent \<and> PUT demo_sent = [Fix 7] \<and> GOT demo_sent = []"
  by (simp add: demo_sent_def demo_calls_def demo_start_def demo_chan_def arc_mkchan_def halloc_def run_op_def send_loop_def
      chan_dequeue_def chan_queue_def chan_setqueue_def arc_dequeue_def empty_heap_def blk_get_def hset_def numeral_eq_Suc wake_def)

theorem channel_fifo_witness:
  "PUT demo_sent = [Fix 7] \<and> (\<exists>rest. PUT demo_sent = GOT demo_sent @ rest \<and> length rest \<le> 1)"
proof -
  have "TSTATE (SW demo_calls) (Ref 200) = Tready" "PEND demo_calls (Ref 200) = Some (CSend (Fix 7))"
    by (simp_all add: demo_calls_def demo_start_def)
  then have "sys_reach (Sym 1) demo_chan demo_sent"
    using sys_reach.step [OF demo_calls_reach sys_step.run] demo_run by blast
  then show ?thesis using channel_fifo [of "Sym 1" demo_chan demo_sent] demo_run by simp
qed

theorem channel_no_deadlock_witness:
  "\<exists>t s'. ready demo_calls t \<and> PEND demo_calls t \<noteq> None \<and> run_op (Sym 1) demo_chan t demo_calls = Inr s'
    \<and> length (GOT s') + length (PUT s') = 1"
proof -
  have "PEND demo_calls (Ref 100) = Some CRecv" "PEND demo_calls (Ref 200) = Some (CSend (Fix 7))"
    "GOT demo_calls = []" "PUT demo_calls = []"
    by (simp_all add: demo_calls_def demo_start_def)
  then show ?thesis using channel_no_deadlock [OF demo_calls_reach, of "Sym 1" "Ref 100" "Ref 200" "Fix 7"] by simp
qed

end
