(* ===== verification/Arith.thy ===== *)
theory Arith
  imports Strings "HOL-Library.Signed_Division"
begin

text \<open>
  Integer arithmetic of \<open>src/src/arith.c\<close>: the fixnum branches of the two-argument operators,
  the digits of a number in a base and back, and the parser of numbers of the reader. What the
  operators do with big, rational, floating and complex numbers is GMP or the C mathematics
  library and is the argument \<open>N\<close>; so is the parser of floating point numbers.
\<close>

subsection \<open>Numbers\<close>

text \<open>A \<open>long\<close>, and the fixnum that holds one.\<close>

definition clong :: "int \<Rightarrow> int" where
  "clong x = signed_take_bit 63 x"

definition mkfix :: "int \<Rightarrow> val" where
  "mkfix x = Fix (signed_take_bit 62 x)"

definition FIX_MAX :: int where
  "FIX_MAX = 2 ^ 62 - 1"

definition CABS :: "int \<Rightarrow> int" where
  "CABS x = (if x \<ge> 0 then x else clong (- x))"

text \<open>
  \<open>n_int h v\<close> is the integer that a number object holds. The operators \<open>n_add\<close>, \<open>\<dots>\<close> are the
  branches for arguments that are not both fixnums.
\<close>

type_synonym binop = "heap \<Rightarrow> val \<Rightarrow> val \<Rightarrow> (val \<times> heap) res"

record numops =
  n_int :: "heap \<Rightarrow> val \<Rightarrow> int option"
  n_mkbignum :: "heap \<Rightarrow> int \<Rightarrow> val \<times> heap"
  n_mkrational :: "heap \<Rightarrow> int \<Rightarrow> int \<Rightarrow> val \<times> heap"
  n_mul_bignum :: binop
  n_add :: binop
  n_sub :: binop
  n_mul :: binop
  n_div :: binop
  n_idiv :: binop
  n_mod :: binop
  n_neg :: "heap \<Rightarrow> val \<Rightarrow> (val \<times> heap) res"
  n_str2flonum :: "heap \<Rightarrow> rstr \<Rightarrow> (val \<times> heap) res"
  n_infinity :: "heap \<Rightarrow> int \<Rightarrow> val \<times> heap"
  n_nan :: "heap \<Rightarrow> val \<times> heap"

subsection \<open>The operators\<close>

fun hibit_loop :: "nat \<Rightarrow> nat \<Rightarrow> nat" where
  "hibit_loop n r = (if n div 2 = 0 then r else hibit_loop (n div 2) (Suc r))"

declare hibit_loop.simps [simp del]

definition hibit :: "nat \<Rightarrow> nat" where
  "hibit n = (if n = 0 then 0 else hibit_loop n 1)"

definition arc_add2 :: "numops \<Rightarrow> binop" where
  "arc_add2 N h arg1 arg2 =
     (case (arg1, arg2) of
        (Fix x, Fix y) \<Rightarrow>
          (let fixnum_sum = clong (x + y) in
           if CABS fixnum_sum > FIX_MAX then Inr (n_mkbignum N h fixnum_sum) else Inr (mkfix fixnum_sum, h))
      | _ \<Rightarrow> n_add N h arg1 arg2)"

definition arc_sub2 :: "numops \<Rightarrow> binop" where
  "arc_sub2 N h arg1 arg2 =
     (case (arg1, arg2) of
        (Fix x, Fix y) \<Rightarrow>
          (let fixnum_diff = clong (x - y) in
           if CABS fixnum_diff > FIX_MAX then Inr (n_mkbignum N h fixnum_diff) else Inr (mkfix fixnum_diff, h))
      | _ \<Rightarrow> n_sub N h arg1 arg2)"

definition arc_mul2 :: "numops \<Rightarrow> binop" where
  "arc_mul2 N h arg1 arg2 =
     (case (arg1, arg2) of
        (Fix x, Fix y) \<Rightarrow>
          if hibit (nat (CABS x)) + hibit (nat (CABS y)) \<ge> hibit (nat FIX_MAX) then
            (let (b1, h) = n_mkbignum N h x; (b2, h) = n_mkbignum N h y in n_mul_bignum N h b1 b2)
          else Inr (mkfix (clong (x * y)), h)
      | _ \<Rightarrow> n_mul N h arg1 arg2)"

definition arc_div2 :: "numops \<Rightarrow> binop" where
  "arc_div2 N h arg1 arg2 =
     (case (arg1, arg2) of
        (Fix x, Fix y) \<Rightarrow>
          if y = 0 then Inl (ArcErr ''Division by zero'')
          else if x smod y = 0 then
            (if CABS (x sdiv y) > FIX_MAX then Inr (n_mkbignum N h (x sdiv y)) else Inr (mkfix (x sdiv y), h))
          else Inr (n_mkrational N h x y)
      | _ \<Rightarrow> n_div N h arg1 arg2)"

definition arc_idiv2 :: "numops \<Rightarrow> binop" where
  "arc_idiv2 N h arg1 arg2 =
     (if arg2 = Fix 0 then Inl (ArcErr ''Division by zero'')
      else case (arg1, arg2) of
        (Fix x, Fix y) \<Rightarrow> Inr (mkfix (x sdiv y), h)
      | _ \<Rightarrow> n_idiv N h arg1 arg2)"

definition arc_mod2 :: "numops \<Rightarrow> binop" where
  "arc_mod2 N h arg1 arg2 =
     (if arg2 = Fix 0 then Inl (ArcErr ''Division by zero'')
      else case (arg1, arg2) of
        (Fix x, Fix y) \<Rightarrow>
          (let rem = x smod y;
               rem = (if x < 0 \<and> y > 0 \<or> x > 0 \<and> y < 0 then clong (rem + y) smod y else rem) in
           Inr (mkfix rem, h))
      | _ \<Rightarrow> n_mod N h arg1 arg2)"

definition arc_neg :: "numops \<Rightarrow> heap \<Rightarrow> val \<Rightarrow> (val \<times> heap) res" where
  "arc_neg N h arg = (case arg of Fix x \<Rightarrow> Inr (mkfix (clong (- x)), h) | _ \<Rightarrow> n_neg N h arg)"

subsection \<open>Digits\<close>

definition c_isdigit :: "int \<Rightarrow> bool" where
  "c_isdigit r \<longleftrightarrow> 48 \<le> r \<and> r \<le> 57"

definition c_isalpha :: "int \<Rightarrow> bool" where
  "c_isalpha r \<longleftrightarrow> 65 \<le> r \<and> r \<le> 90 \<or> 97 \<le> r \<and> r \<le> 122"

definition c_tolower :: "int \<Rightarrow> int" where
  "c_tolower r = (if 65 \<le> r \<and> r \<le> 90 then r + 32 else r)"

definition c_toupper :: "int \<Rightarrow> int" where
  "c_toupper r = (if 97 \<le> r \<and> r \<le> 122 then r - 32 else r)"

text \<open>\<open>__arc_itoa\<close>: the digits come out in reverse; the loop does not end in base 1.\<close>

definition itoa_digit :: "bool \<Rightarrow> int \<Rightarrow> int res" where
  "itoa_digit uc d =
     (if 0 \<le> d \<and> d < 10 then Inr (48 + d)
      else if 10 \<le> d \<and> d < 36 then Inr ((if uc then 65 else 97) + d - 10)
      else if d = 36 then Inr 0 else Inl UB)"

partial_function (option) itoa_loop :: "numops \<Rightarrow> heap \<Rightarrow> bool \<Rightarrow> val \<Rightarrow> val \<Rightarrow> rstr \<Rightarrow> rstr res option" where
  "itoa_loop N h uc base num str =
     (case num of
        Fix n \<Rightarrow>
          if n > 0 then
            (case arc_mod2 N h num base of
               Inr (Fix d, h') \<Rightarrow>
                 (case itoa_digit uc d of
                    Inl e \<Rightarrow> Some (Inl e)
                  | Inr ch \<Rightarrow>
                      (case arc_idiv2 N h' num base of
                         Inr (num', h'') \<Rightarrow> itoa_loop N h'' uc base num' (arc_strcatc str ch)
                       | Inl e \<Rightarrow> Some (Inl e)))
             | Inl e \<Rightarrow> Some (Inl e)
             | _ \<Rightarrow> Some (Inl UB))
          else Some (Inr str)
      | _ \<Rightarrow> Some (Inl UB))"

definition arc_itoa :: "numops \<Rightarrow> heap \<Rightarrow> int \<Rightarrow> val \<Rightarrow> bool \<Rightarrow> bool \<Rightarrow> rstr res option" where
  "arc_itoa N h onum base uc sf =
     (if onum = 0 then Some (Inr [48])
      else case itoa_loop N h uc base (mkfix (if onum < 0 then - onum else onum)) [] of
             Some (Inr str) \<Rightarrow>
               Some (Inr (rev (if onum < 0 then arc_strcatc str 45 else if sf then arc_strcatc str 43 else str)))
           | r \<Rightarrow> r)"

text \<open>\<open>__arc_str2int\<close> on the runes from \<open>strptr\<close> to \<open>limit\<close>; \<open>None\<close> is \<open>noconv\<close>.\<close>

definition str2int_digit :: "int \<Rightarrow> int option" where
  "str2int_digit r =
     (if c_isdigit r then Some (r - 48) else if c_isalpha r then Some (c_toupper r - 65 + 10) else None)"

fun str2int_loop :: "numops \<Rightarrow> int \<Rightarrow> rstr \<Rightarrow> val \<Rightarrow> heap \<Rightarrow> (val option \<times> heap) res" where
  "str2int_loop N base [] acc h = Inr (Some acc, h)"
| "str2int_loop N base (r # s) acc h =
     (case str2int_digit r of
        None \<Rightarrow> Inr (None, h)
      | Some d \<Rightarrow>
          if d > base then Inr (None, h)
          else rbind (arc_mul2 N h acc (Fix base)) (\<lambda>(acc, h).
               rbind (arc_add2 N h acc (Fix d)) (\<lambda>(acc, h). str2int_loop N base s acc h)))"

definition arc_str2int :: "numops \<Rightarrow> heap \<Rightarrow> rstr \<Rightarrow> int \<Rightarrow> (val \<times> heap) res" where
  "arc_str2int N h s base =
     (case s of
        [] \<Rightarrow> Inr (NIL, h)
      | r # s' \<Rightarrow>
          (let (negative, t) = (if r = 45 then (True, s') else if r = 43 then (False, s') else (False, s)) in
           rbind (str2int_loop N base t (Fix 0) h) (\<lambda>(v, h).
             case v of
               None \<Rightarrow> Inr (NIL, h)
             | Some v \<Rightarrow> if t = [] then Inr (NIL, h) else if negative then arc_neg N h v else Inr (v, h))))"

subsection \<open>The parser of numbers\<close>

text \<open>The radix is compared as it is passed: \<open>arc_string2num\<close> passes the tagged fixnum.\<close>

definition rune2dig :: "int \<Rightarrow> int \<Rightarrow> int option" where
  "rune2dig r radix =
     (if \<not> ucisalnum r then None
      else
        (let rl = c_tolower r in
         if 0x30 \<le> rl \<and> rl \<le> 0x39 then (if rl - 0x30 > radix then None else Some (rl - 0x30))
         else if 0x61 \<le> rl \<and> rl \<le> 0x7a then (if rl - 0x61 + 10 > radix then None else Some (rl - 0x61 + 10))
         else None))"

definition tagged :: "int \<Rightarrow> int" where
  "tagged i = 2 * i + 1"

text \<open>
  \<open>__arc_strgetc\<close> at an index into \<open>str\<close>: the runes from there on. A rune equal to
  \<open>Runeerror\<close> ends the string. The states are those of the code; 3 and 6 are never entered.
\<close>

definition strgetc :: "rstr \<Rightarrow> (int \<times> rstr) option" where
  "strgetc rest = (case rest of [] \<Rightarrow> None | ch # rest \<Rightarrow> if ch = Runeerror then None else Some (ch, rest))"

definition four_more :: "rstr \<Rightarrow> rstr \<Rightarrow> bool" where
  "four_more rest pat \<longleftrightarrow> take 4 rest = pat"

definition s2n_end :: "numops \<Rightarrow> nat \<Rightarrow> int \<Rightarrow> val \<Rightarrow> heap \<Rightarrow> (val \<times> heap) res" where
  "s2n_end N state sg nval h = (if state \<ge> 3 then arc_mul2 N h nval (Fix sg) else Inr (NIL, h))"

function s2n :: "numops \<Rightarrow> rstr \<Rightarrow> bool \<Rightarrow> nat \<Rightarrow> int \<Rightarrow> val \<Rightarrow> val \<Rightarrow> rstr \<Rightarrow> heap \<Rightarrow> (val \<times> heap) res" where
  "s2n N str rational state sg nval radix rest h =
     (case strgetc rest of
        None \<Rightarrow> s2n_end N state sg nval h
      | Some (ch, rest') \<Rightarrow>
          if state = 1 then
            if ch = 45 then s2n N str rational 2 (- 1) nval radix rest' h
            else if ch = 43 then s2n N str rational 2 1 nval radix rest' h
            else if ch = 46 then n_str2flonum N h str
            else if \<not> c_isdigit ch then Inr (NIL, h)
            else s2n N str rational 2 sg nval radix rest h
          else if state = 2 then
            if ch = 46 then n_str2flonum N h str
            else if c_tolower ch = 105 then
              Inr (if four_more rest' [110, 102, 46, 48] then n_infinity N h sg else (NIL, h))
            else if c_tolower ch = 110 then
              Inr (if four_more rest' [97, 110, 46, 48] then n_nan N h else (NIL, h))
            else if \<not> c_isdigit ch then Inr (NIL, h)
            else s2n N str rational 4 sg nval radix rest h
          else if state = 4 then
            if ch = 46 \<or> ch = 101 \<or> ch = 69 then n_str2flonum N h str
            else if ch = 114 then
              (case (radix, nval) of
                 (Fix r, Fix n) \<Rightarrow>
                   if r = 10 \<and> 2 \<le> n \<and> n \<le> 36 then s2n N str rational 5 sg (Fix 0) nval rest' h
                   else Inr (NIL, h)
               | _ \<Rightarrow> Inr (NIL, h))
            else if ch = 47 then
              if rational then Inr (NIL, h)
              else
                (case s2n N str True 1 1 (Fix 0) (Fix 10) rest' h of
                   Inl e \<Rightarrow> Inl e
                 | Inr (denom, h) \<Rightarrow>
                     if htype h denom = T_FIXNUM \<or> htype h denom = T_BIGNUM then
                       rbind (arc_mul2 N h (Fix sg) nval) (\<lambda>(num, h). arc_div2 N h num denom)
                     else Inr (NIL, h))
            else if ch \<in> {105, 73, 106, 74, 43, 45} then n_str2flonum N h str
            else
              (case rune2dig ch (case radix of Fix r \<Rightarrow> tagged r | _ \<Rightarrow> 0) of
                 None \<Rightarrow> Inr (NIL, h)
               | Some d \<Rightarrow>
                   (case rbind (arc_mul2 N h nval radix) (\<lambda>(v, h). arc_add2 N h v (Fix d)) of
                      Inl e \<Rightarrow> Inl e
                    | Inr (nval, h) \<Rightarrow> s2n N str rational 4 sg nval radix rest' h))
          else if state = 5 then
            (case rune2dig ch (case radix of Fix r \<Rightarrow> tagged r | _ \<Rightarrow> 0) of
               None \<Rightarrow> Inr (NIL, h)
             | Some d \<Rightarrow>
                 (case rbind (arc_mul2 N h nval radix) (\<lambda>(v, h). arc_add2 N h v (Fix d)) of
                    Inl e \<Rightarrow> Inl e
                  | Inr (nval, h) \<Rightarrow> s2n N str rational 5 sg nval radix rest' h))
          else Inl UB)"
  by pat_completeness auto
termination
  by (relation "measures [\<lambda>(N, str, rational, state, sg, nval, radix, rest, h). length rest,
      \<lambda>(N, str, rational, state, sg, nval, radix, rest, h). 5 - state]")
    (auto simp: strgetc_def split: list.splits if_splits)

declare s2n.simps [simp del]

definition arc_string2num :: "numops \<Rightarrow> heap \<Rightarrow> rstr \<Rightarrow> (val \<times> heap) res" where
  "arc_string2num N h str = s2n N str False 1 1 (Fix 0) (Fix 10) str h"

subsection \<open>The operators are exact\<close>

lemma hibit_loop_bound: "n < 2 ^ k \<longrightarrow> n \<noteq> 0 \<longrightarrow> k \<ge> 1 \<longrightarrow> hibit_loop n r < r + k"
  and hibit_loop_covers: "n < 2 ^ (hibit_loop n r + 1 - r) \<and> r \<le> hibit_loop n r"
proof (induction n r arbitrary: k rule: hibit_loop.induct)
  case (1 n r)
  {
    case 1
    show ?case
    proof (intro impI)
      assume a: "n < 2 ^ k" "n \<noteq> 0" "1 \<le> k"
      then obtain k' where k: "k = Suc k'" by (cases k) auto
      show "hibit_loop n r < r + k"
      proof (cases "n div 2 = 0")
        case False
        then have "k' \<noteq> 0" using a(1) k by (cases k') auto
        moreover have "n div 2 < 2 ^ k'" using a(1) k by simp
        ultimately show ?thesis using "1.IH"(1) [OF False, of k'] False k
          by (subst hibit_loop.simps) auto
      qed (use a in \<open>subst hibit_loop.simps; simp\<close>)
    qed
  next
    case 2
    show ?case
    proof (cases "n div 2 = 0")
      case True
      then have "n < 2" by simp
      then show ?thesis using True by (subst (1 2) hibit_loop.simps) simp
    next
      case False
      have e: "hibit_loop n r = hibit_loop (n div 2) (Suc r)" using False by (subst hibit_loop.simps) simp
      have "n div 2 < 2 ^ (hibit_loop (n div 2) (Suc r) + 1 - Suc r)" "Suc r \<le> hibit_loop (n div 2) (Suc r)"
        using "1.IH"(2) [OF False] by auto
      moreover from this have "hibit_loop (n div 2) (Suc r) + 1 - r = Suc (hibit_loop (n div 2) (Suc r) + 1 - Suc r)" by simp
      moreover have "n div 2 < m \<Longrightarrow> n < 2 * m" for m :: nat by linarith
      ultimately show ?thesis unfolding e by simp
    qed
  }
qed

lemma hibit_covers: "n < 2 ^ hibit n"
  using hibit_loop_covers [of n 1] by (auto simp: hibit_def)

lemma hibit_le: "n < 2 ^ k \<Longrightarrow> hibit n \<le> k"
  using hibit_loop_bound [of n k 1] by (cases k) (auto simp: hibit_def)

lemma hibit_ge: "2 ^ k \<le> n \<Longrightarrow> k < hibit n"
  by (metis hibit_covers linorder_not_less order_le_less_trans power_increasing_iff one_less_numeral_iff semiring_norm(76) not_le)

lemma hibit_max: "hibit (nat FIX_MAX) = 62"
  using hibit_le [of "nat FIX_MAX" 62] hibit_ge [of 61 "nat FIX_MAX"] by (simp add: FIX_MAX_def)

lemma clong_id: "- (2 ^ 63) \<le> x \<Longrightarrow> x < 2 ^ 63 \<Longrightarrow> clong x = x"
  by (simp add: clong_def signed_take_bit_int_eq_self)

lemma mkfix_id: "- (2 ^ 62) \<le> x \<Longrightarrow> x < 2 ^ 62 \<Longrightarrow> mkfix x = Fix x"
  by (simp add: mkfix_def signed_take_bit_int_eq_self)

lemma fix_simps: "\<bar>x\<bar> \<le> FIX_MAX \<Longrightarrow> mkfix x = Fix x" "\<bar>x\<bar> \<le> 2 * FIX_MAX \<Longrightarrow> clong x = x"
  "\<bar>x\<bar> \<le> 2 * FIX_MAX \<Longrightarrow> CABS x = \<bar>x\<bar>"
  by (auto simp: FIX_MAX_def mkfix_id clong_id CABS_def)

text \<open>A later heap has all that an earlier one had.\<close>

definition grown :: "heap \<Rightarrow> heap \<Rightarrow> bool" where
  "grown h h' \<longleftrightarrow> heap_ok h' \<and> brk h \<le> brk h' \<and> (\<forall>a < brk h. mem h' a = mem h a)"

lemma grown_refl: "heap_ok h \<Longrightarrow> grown h h"
  by (simp add: grown_def)

lemma grown_trans: "grown h h1 \<Longrightarrow> grown h1 h2 \<Longrightarrow> grown h h2"
  by (auto simp: grown_def)

lemma grown_ok: "grown h h' \<Longrightarrow> heap_ok h'"
  by (simp add: grown_def)

lemma halloc_grown: "heap_ok h \<Longrightarrow> halloc h ob = (a, h') \<Longrightarrow> grown h h' \<and> a = brk h \<and> mem h' a = Some ob"
  by (auto simp: halloc_def grown_def heap_ok_def less_Suc_eq split: if_splits)

lemma cons_grown: "heap_ok h \<Longrightarrow> cons h x y = (c, h') \<Longrightarrow> grown h h' \<and> c = Ref (brk h) \<and> mem h' (brk h) = Some (OCons x y)"
  using halloc_grown [of h "OCons x y"] by (auto simp: cons_def split: prod.splits)

text \<open>
  What is relied on of GMP: objects are new, hold the integers they are made of and keep them,
  and the product of two is their product, as a fixnum where it fits.
\<close>

definition gmp_ok :: "numops \<Rightarrow> bool" where
  "gmp_ok N \<longleftrightarrow> (\<forall>h i. n_int N h (Fix i) = Some i)
     \<and> (\<forall>h h' v i. heap_ok h \<longrightarrow> grown h h' \<longrightarrow> n_int N h v = Some i \<longrightarrow> n_int N h' v = Some i)
     \<and> (\<forall>h i. heap_ok h \<longrightarrow> (\<exists>v h'. n_mkbignum N h i = (v, h') \<and> grown h h' \<and> n_int N h' v = Some i))
     \<and> (\<forall>h a b i j. heap_ok h \<longrightarrow> n_int N h a = Some i \<longrightarrow> n_int N h b = Some j \<longrightarrow>
          (\<exists>v h'. n_mul_bignum N h a b = Inr (v, h') \<and> grown h h' \<and> n_int N h' v = Some (i * j)
             \<and> (\<bar>i * j\<bar> \<le> FIX_MAX \<longrightarrow> v = Fix (i * j))))"

lemma gmpD:
  assumes "gmp_ok N"
  shows "n_int N h (Fix i) = Some i"
    and "heap_ok h \<Longrightarrow> grown h h' \<Longrightarrow> n_int N h u = Some j \<Longrightarrow> n_int N h' u = Some j"
    and "heap_ok h \<Longrightarrow> \<exists>v h'. n_mkbignum N h i = (v, h') \<and> grown h h' \<and> n_int N h' v = Some i"
    and "heap_ok h \<Longrightarrow> n_int N h a = Some i \<Longrightarrow> n_int N h b = Some j \<Longrightarrow>
      \<exists>v h'. n_mul_bignum N h a b = Inr (v, h') \<and> grown h h' \<and> n_int N h' v = Some (i * j) \<and> (\<bar>i * j\<bar> \<le> FIX_MAX \<longrightarrow> v = Fix (i * j))"
  using assms unfolding gmp_ok_def by blast+

text \<open>The result of an operator: the exact integer, and the fixnum where it fits one.\<close>

definition exact :: "numops \<Rightarrow> heap \<Rightarrow> (val \<times> heap) res \<Rightarrow> int \<Rightarrow> bool" where
  "exact N h r i \<longleftrightarrow> (\<exists>v h'. r = Inr (v, h') \<and> grown h h' \<and> n_int N h' v = Some i \<and> (\<bar>i\<bar> \<le> FIX_MAX \<longrightarrow> v = Fix i))"

lemma exact_small: "exact N h r i \<Longrightarrow> \<bar>i\<bar> \<le> FIX_MAX \<Longrightarrow> \<exists>h'. r = Inr (Fix i, h') \<and> grown h h'"
  by (auto simp: exact_def)

lemma exact_fix: "gmp_ok N \<Longrightarrow> heap_ok h \<Longrightarrow> exact N h (Inr (Fix i, h)) i"
  by (simp add: exact_def gmpD(1) grown_refl)

lemma exact_big: "gmp_ok N \<Longrightarrow> heap_ok h \<Longrightarrow> \<bar>i\<bar> > FIX_MAX \<Longrightarrow> exact N h (Inr (n_mkbignum N h i)) i"
  using gmpD(3) [of N h i] by (auto simp: exact_def)

lemma add_exact:
  assumes "gmp_ok N" and "heap_ok h" and "\<bar>x\<bar> \<le> FIX_MAX" and "\<bar>y\<bar> \<le> FIX_MAX"
  shows "exact N h (arc_add2 N h (Fix x) (Fix y)) (x + y)"
proof -
  have b: "\<bar>x + y\<bar> \<le> 2 * FIX_MAX" using assms(3,4) by simp
  show ?thesis using fix_simps(1) [of "x + y"] fix_simps(2,3) [OF b] exact_big [OF assms(1,2), of "x + y"] exact_fix [OF assms(1,2)]
    by (cases "\<bar>x + y\<bar> > FIX_MAX") (simp_all add: arc_add2_def)
qed

lemma sub_exact:
  assumes "gmp_ok N" and "heap_ok h" and "\<bar>x\<bar> \<le> FIX_MAX" and "\<bar>y\<bar> \<le> FIX_MAX"
  shows "exact N h (arc_sub2 N h (Fix x) (Fix y)) (x - y)"
proof -
  have b: "\<bar>x - y\<bar> \<le> 2 * FIX_MAX" using assms(3,4) by simp
  show ?thesis using fix_simps(1) [of "x - y"] fix_simps(2,3) [OF b] exact_big [OF assms(1,2), of "x - y"] exact_fix [OF assms(1,2)]
    by (cases "\<bar>x - y\<bar> > FIX_MAX") (simp_all add: arc_sub2_def)
qed

lemma small_product:
  assumes "hibit (nat \<bar>x\<bar>) + hibit (nat \<bar>y\<bar>) < 62"
  shows "\<bar>x * y\<bar> \<le> FIX_MAX"
proof -
  have "nat \<bar>x\<bar> * nat \<bar>y\<bar> \<le> 2 ^ hibit (nat \<bar>x\<bar>) * 2 ^ hibit (nat \<bar>y\<bar>)"
    using hibit_covers by (intro mult_le_mono less_imp_le)
  also have "\<dots> = 2 ^ (hibit (nat \<bar>x\<bar>) + hibit (nat \<bar>y\<bar>))" by (simp add: power_add)
  also have "\<dots> \<le> 2 ^ 61" using assms by (intro power_increasing) simp_all
  finally have "nat (\<bar>x\<bar> * \<bar>y\<bar>) \<le> 2 ^ 61" by (simp add: nat_mult_distrib)
  then show ?thesis by (simp add: abs_mult FIX_MAX_def nat_le_iff)
qed

lemma mul_exact:
  assumes "gmp_ok N" and "heap_ok h" and "\<bar>x\<bar> \<le> FIX_MAX" and "\<bar>y\<bar> \<le> FIX_MAX"
  shows "exact N h (arc_mul2 N h (Fix x) (Fix y)) (x * y)"
proof -
  have a: "CABS x = \<bar>x\<bar>" "CABS y = \<bar>y\<bar>" using assms(3,4) fix_simps(3) by simp_all
  show ?thesis
  proof (cases "hibit (nat \<bar>x\<bar>) + hibit (nat \<bar>y\<bar>) \<ge> 62")
    case True
    obtain b1 h1 where b1: "n_mkbignum N h x = (b1, h1)" "grown h h1" "n_int N h1 b1 = Some x"
      using gmpD(3) [OF assms(1,2)] by blast
    obtain b2 h2 where b2: "n_mkbignum N h1 y = (b2, h2)" "grown h1 h2" "n_int N h2 b2 = Some y"
      using gmpD(3) [OF assms(1) grown_ok [OF b1(2)]] by blast
    have "n_int N h2 b1 = Some x" using gmpD(2) [OF assms(1) grown_ok [OF b1(2)] b2(2) b1(3)] .
    from gmpD(4) [OF assms(1) grown_ok [OF b2(2)] this b2(3)]
    obtain v h3 where m: "n_mul_bignum N h2 b1 b2 = Inr (v, h3)" "grown h2 h3" "n_int N h3 v = Some (x * y)"
      "\<bar>x * y\<bar> \<le> FIX_MAX \<longrightarrow> v = Fix (x * y)" by blast
    have "grown h h3" using grown_trans [OF grown_trans [OF b1(2) b2(2)] m(2)] .
    then show ?thesis using True a b1(1) b2(1) m hibit_max by (auto simp: exact_def arc_mul2_def)
  next
    case False
    then have "\<bar>x * y\<bar> \<le> FIX_MAX" using small_product by simp
    then show ?thesis using False a hibit_max fix_simps(1,2) [of "x * y"] exact_fix [OF assms(1,2)]
      by (simp add: arc_mul2_def)
  qed
qed

lemma sdiv_bound: "\<bar>x\<bar> \<le> M \<Longrightarrow> \<bar>(x::int) sdiv y\<bar> \<le> M"
proof -
  assume "\<bar>x\<bar> \<le> M"
  moreover have "nat (\<bar>x\<bar> div \<bar>y\<bar>) \<le> nat \<bar>x\<bar>" by (simp add: nat_div_distrib)
  moreover have "0 \<le> \<bar>x\<bar> div \<bar>y\<bar>" by (simp add: div_int_pos_iff)
  ultimately show ?thesis by (cases "y = 0") (auto simp: signed_divide_int_def abs_mult sgn_if)
qed

lemma smod_zero: "y \<noteq> 0 \<Longrightarrow> x smod y = 0 \<longleftrightarrow> (y::int) dvd x"
  by (simp add: smod_int_alt_def sgn_0_0 flip: dvd_eq_mod_eq_0) auto

lemma sdiv_dvd:
  assumes "(y::int) dvd x"
  shows "x sdiv y = x div y"
proof (cases "y = 0")
  case False
  obtain k where k: "x = y * k" using assms by blast
  have "\<bar>x\<bar> div \<bar>y\<bar> = \<bar>k\<bar>" using k False by (simp add: abs_mult)
  moreover have "sgn x * sgn y * \<bar>k\<bar> = k" using k False by (auto simp: sgn_if abs_if mult_less_0_iff zero_less_mult_iff)
  ultimately show ?thesis using k False by (simp add: signed_divide_int_def)
qed (simp add: signed_divide_int_def)

text \<open>The correction of the remainder makes it that of the division that rounds down.\<close>

lemma smod_floor:
  assumes "(y::int) \<noteq> 0"
  shows "(if x < 0 \<and> y > 0 \<or> x > 0 \<and> y < 0 then (x smod y + y) smod y else x smod y) = x mod y"
proof -
  consider "x \<ge> 0" "y > 0" | "x < 0" "y > 0" | "x > 0" "y < 0" | "x \<le> 0" "y < 0" using assms by linarith
  then show ?thesis
  proof cases
    case 1
    then show ?thesis by (auto simp: smod_int_alt_def sgn_if)
  next
    case 2
    have p: "0 \<le> x mod y" "x mod y < y" using 2 by simp_all
    have "x smod y = - (- x mod y)" using 2 by (simp add: smod_int_alt_def)
    also have "\<dots> = (if x mod y = 0 then 0 else x mod y - y)" by (simp add: zmod_zminus1_eq_if)
    finally show ?thesis using 2 p by (auto simp: smod_int_alt_def)
  next
    case 3
    have p: "y < x mod y \<and> x mod y \<le> 0" using 3 by simp
    have "x smod y = x mod (- y)" using 3 by (simp add: smod_int_alt_def)
    also have "\<dots> = (if x mod y = 0 then 0 else x mod y - y)" by (simp add: zmod_zminus2_eq_if)
    finally have s: "x smod y = (if x mod y = 0 then 0 else x mod y - y)" .
    show ?thesis
    proof (cases "x mod y = 0")
      case False
      then have "x smod y + y = x mod y" "x mod y < 0" using s p by auto
      then show ?thesis using 3 p by (simp add: smod_int_alt_def)
    qed (use 3 s in \<open>simp add: smod_int_alt_def\<close>)
  next
    case 4
    then show ?thesis by (cases "x = 0") (auto simp: smod_int_alt_def mod_minus_minus)
  qed
qed

lemma mod_exact:
  assumes "\<bar>x\<bar> \<le> FIX_MAX" and "\<bar>y\<bar> \<le> FIX_MAX" and "y \<noteq> 0"
  shows "arc_mod2 N h (Fix x) (Fix y) = Inr (Fix (x mod y), h)"
proof -
  define m where "m = \<bar>x\<bar> mod \<bar>y\<bar>"
  have m: "m < \<bar>y\<bar>" "0 \<le> m" "x smod y = sgn x * m" using assms(3) by (simp_all add: m_def smod_int_alt_def)
  then have "\<bar>x smod y\<bar> \<le> FIX_MAX" using assms(2) by (auto simp: sgn_if)
  then have l: "clong (x smod y + y) = x smod y + y" using assms(2) by (intro fix_simps(2)) simp
  have "\<bar>x mod y\<bar> \<le> FIX_MAX" using assms(2,3) abs_mod_less [of y x] by linarith
  then have "mkfix (x mod y) = Fix (x mod y)" by (rule fix_simps(1))
  then show ?thesis using smod_floor [OF assms(3), of x] assms(3) l by (auto simp: arc_mod2_def Let_def split: if_split_asm)
qed

text \<open>
  Property C22. Arithmetic on fixnums is exact: sums, differences and products are the integers
  they should be, fixnums where they fit and big numbers where not, and nothing overflows a
  \<open>long\<close> on the way; a division is the integer when it is exact and otherwise the rational; the
  modulus is that of the division that rounds down; and dividing by 0 is an error.
\<close>

theorem fixnum_ops_exact:
  assumes "gmp_ok N" and "heap_ok h" and "\<bar>x\<bar> \<le> FIX_MAX" and "\<bar>y\<bar> \<le> FIX_MAX"
  shows "exact N h (arc_add2 N h (Fix x) (Fix y)) (x + y) \<and> exact N h (arc_sub2 N h (Fix x) (Fix y)) (x - y)
    \<and> exact N h (arc_mul2 N h (Fix x) (Fix y)) (x * y)
    \<and> arc_div2 N h (Fix x) (Fix y) =
        (if y = 0 then Inl (ArcErr ''Division by zero'')
         else Inr (if y dvd x then (Fix (x div y), h) else n_mkrational N h x y))
    \<and> arc_mod2 N h (Fix x) (Fix y) = (if y = 0 then Inl (ArcErr ''Division by zero'') else Inr (Fix (x mod y), h))"
proof -
  have b: "\<bar>x sdiv y\<bar> \<le> FIX_MAX" using sdiv_bound [OF assms(3)] .
  have c: "CABS (x sdiv y) = \<bar>x sdiv y\<bar>" using b by (intro fix_simps(3)) simp
  have "arc_div2 N h (Fix x) (Fix y) = Inr (if y dvd x then (Fix (x div y), h) else n_mkrational N h x y)" if "y \<noteq> 0"
    using that b c smod_zero [OF that, of x] fix_simps(1) [OF b] sdiv_dvd [of y x] by (cases "y dvd x") (auto simp: arc_div2_def)
  then show ?thesis using add_exact [OF assms] sub_exact [OF assms] mul_exact [OF assms] mod_exact [OF assms(3,4)]
    by (auto simp: arc_div2_def arc_mod2_def)
qed

text \<open>
  The integer quotient of fixnums rounds towards 0, so it does not belong to that modulus (nor
  to the quotient of big numbers, which rounds down).
\<close>

lemma idiv_truncates:
  assumes "\<bar>x\<bar> \<le> FIX_MAX" and "y \<noteq> 0"
  shows "arc_idiv2 N h (Fix x) (Fix y) = Inr (Fix (x sdiv y), h)"
  using assms sdiv_bound [OF assms(1), of y] fix_simps(1) by (simp add: arc_idiv2_def)

lemma idiv_mod_mismatch:
  "\<exists>q r. arc_idiv2 N h (Fix (- 7)) (Fix 2) = Inr (Fix q, h) \<and> arc_mod2 N h (Fix (- 7)) (Fix 2) = Inr (Fix r, h) \<and> q * 2 + r \<noteq> - 7"
  using idiv_truncates [of "- 7" 2 N h] mod_exact [of "- 7" 2 N h] by (simp add: FIX_MAX_def)

subsection \<open>Numerals\<close>

text \<open>The digits of a number in a base, the first one first, and the number they stand for.\<close>

fun radix_digits :: "nat \<Rightarrow> nat \<Rightarrow> nat list" where
  "radix_digits b n = (if b < 2 \<or> n = 0 then [] else radix_digits b (n div b) @ [n mod b])"

declare radix_digits.simps [simp del]

definition from_digits :: "nat \<Rightarrow> nat \<Rightarrow> nat list \<Rightarrow> nat" where
  "from_digits b a ds = foldl (\<lambda>a d. a * b + d) a ds"

definition digit_char :: "bool \<Rightarrow> nat \<Rightarrow> int" where
  "digit_char uc d = (if d < 10 then 48 + int d else (if uc then 65 else 97) + int d - 10)"

lemma from_digits_simps: "from_digits b a [] = a" "from_digits b a (d # ds) = from_digits b (a * b + d) ds"
  "from_digits b a (ds @ [d]) = from_digits b a ds * b + d"
  by (simp_all add: from_digits_def)

lemma from_radix_digits: "2 \<le> b \<Longrightarrow> from_digits b 0 (radix_digits b n) = n"
proof (induction b n rule: radix_digits.induct)
  case (1 b n)
  then show ?case by (subst radix_digits.simps) (simp add: from_digits_simps)
qed

lemma radix_digits_less: "d \<in> set (radix_digits b n) \<Longrightarrow> d < b"
proof (induction b n rule: radix_digits.induct)
  case (1 b n)
  then show ?case by (subst (asm) radix_digits.simps) (auto split: if_splits)
qed

lemma radix_digits_nonempty: "2 \<le> b \<Longrightarrow> 0 < n \<Longrightarrow> radix_digits b n \<noteq> []"
  by (subst radix_digits.simps) simp

lemma from_digits_mono: "1 \<le> b \<Longrightarrow> a \<le> from_digits b a ds"
proof (induction ds arbitrary: a)
  case (Cons d ds)
  have "a * b + d \<le> from_digits b (a * b + d) ds" using Cons by simp
  moreover have "a * 1 \<le> a * b" using Cons.prems by (intro mult_le_mono) simp_all
  ultimately show ?case unfolding from_digits_simps by linarith
qed (simp add: from_digits_simps)

text \<open>\<open>%ld\<close> of \<open>snprintf\<close>.\<close>

definition ld_runes :: "int \<Rightarrow> rstr" where
  "ld_runes i = (if i = 0 then [48] else (if i < 0 then [45] else []) @ map (digit_char False) (radix_digits 10 (nat \<bar>i\<bar>)))"

text \<open>One more digit: the step of all the loops that read numbers.\<close>

lemma digit_step:
  assumes "gmp_ok N" and "heap_ok h" and "2 \<le> b" and "b \<le> 36" and "int (a * b + d) \<le> FIX_MAX" and "d \<le> 36"
  shows "\<exists>h'. rbind (arc_mul2 N h (Fix (int a)) (Fix (int b))) (\<lambda>(v, h). arc_add2 N h v (Fix (int d)))
    = Inr (Fix (int (a * b + d)), h') \<and> grown h h'"
proof -
  have "int (a * 1) \<le> int (a * b)" using assms(3) by (intro of_nat_mono mult_le_mono) simp_all
  then have a: "\<bar>int a\<bar> \<le> FIX_MAX" "\<bar>int b\<bar> \<le> FIX_MAX" "\<bar>int d\<bar> \<le> FIX_MAX" "\<bar>int a * int b\<bar> \<le> FIX_MAX"
    "\<bar>int a * int b + int d\<bar> \<le> FIX_MAX"
    using assms(4,5,6) by (auto simp: FIX_MAX_def)
  obtain h1 where h1: "arc_mul2 N h (Fix (int a)) (Fix (int b)) = Inr (Fix (int a * int b), h1)" "grown h h1"
    using exact_small [OF mul_exact [OF assms(1,2) a(1,2)] a(4)] by blast
  obtain h2 where h2: "arc_add2 N h1 (Fix (int a * int b)) (Fix (int d)) = Inr (Fix (int a * int b + int d), h2)" "grown h1 h2"
    using exact_small [OF add_exact [OF assms(1) grown_ok [OF h1(2)] a(4,3)] a(5)] by blast
  show ?thesis using h1(1) h2(1) grown_trans [OF h1(2) h2(2)] by simp
qed

lemma digit_chars:
  assumes "d < 36"
  shows "str2int_digit (digit_char uc d) = Some (int d)" and "digit_char uc d \<noteq> 45" "digit_char uc d \<noteq> 43"
  using assms by (auto simp: str2int_digit_def digit_char_def c_isdigit_def c_isalpha_def c_toupper_def)

lemma str2int_digits:
  "gmp_ok N \<Longrightarrow> heap_ok h \<Longrightarrow> 2 \<le> b \<Longrightarrow> b \<le> 36 \<Longrightarrow> \<forall>d \<in> set ds. d < b \<Longrightarrow> int (from_digits b a ds) \<le> FIX_MAX \<Longrightarrow>
    \<exists>h'. str2int_loop N (int b) (map (digit_char uc) ds) (Fix (int a)) h = Inr (Some (Fix (int (from_digits b a ds))), h')"
proof (induction ds arbitrary: a h)
  case (Cons d ds)
  have d: "d < 36" "d \<le> b" "d \<le> 36" using Cons.prems(4,5) by auto
  have "int (a * b + d) \<le> FIX_MAX"
    using Cons.prems(3,6) from_digits_mono [of b "a * b + d" ds] by (simp add: from_digits_simps del: of_nat_mult of_nat_add)
  from digit_step [OF Cons.prems(1-4) this d(3)] obtain h1 where
    h1: "rbind (arc_mul2 N h (Fix (int a)) (Fix (int b))) (\<lambda>(v, h). arc_add2 N h v (Fix (int d))) = Inr (Fix (int (a * b + d)), h1)"
      "grown h h1" by blast
  then obtain v h2 where m: "arc_mul2 N h (Fix (int a)) (Fix (int b)) = Inr (v, h2)"
      "arc_add2 N h2 v (Fix (int d)) = Inr (Fix (int (a * b + d)), h1)" by (auto simp: rbind_eq_Inr)
  have "\<exists>h'. str2int_loop N (int b) (map (digit_char uc) ds) (Fix (int (a * b + d))) h1 =
      Inr (Some (Fix (int (from_digits b (a * b + d) ds))), h')"
    using Cons.prems grown_ok [OF h1(2)] by (intro Cons.IH) (simp_all add: from_digits_simps)
  then show ?case using m d digit_chars(1) [OF d(1), of uc] by (simp add: from_digits_simps del: of_nat_mult of_nat_add)
qed (simp add: from_digits_simps)

lemma neg_small: "\<bar>x\<bar> \<le> FIX_MAX \<Longrightarrow> arc_neg N h (Fix x) = Inr (Fix (- x), h)"
  using fix_simps(1) [of "- x"] fix_simps(2) [of "- x"] by (simp add: arc_neg_def)

lemma itoa_loop_digits:
  "2 \<le> b \<Longrightarrow> b \<le> 36 \<Longrightarrow> int n \<le> FIX_MAX \<Longrightarrow>
    itoa_loop N h uc (Fix (int b)) (Fix (int n)) str = Some (Inr (str @ map (digit_char uc) (rev (radix_digits b n))))"
proof (induction b n arbitrary: str rule: radix_digits.induct)
  case (1 b n)
  show ?case
  proof (cases "n = 0")
    case True
    then show ?thesis by (subst itoa_loop.simps) (simp add: radix_digits.simps)
  next
    case False
    have b: "\<bar>int b\<bar> \<le> FIX_MAX" "int b \<noteq> 0" "\<bar>int n\<bar> \<le> FIX_MAX" using "1.prems" by (auto simp: FIX_MAX_def)
    have "arc_mod2 N h (Fix (int n)) (Fix (int b)) = Inr (Fix (int (n mod b)), h)"
      using mod_exact [OF b(3,1,2)] by (simp add: zmod_int)
    moreover have "arc_idiv2 N h (Fix (int n)) (Fix (int b)) = Inr (Fix (int (n div b)), h)"
      using idiv_truncates [OF b(3,2)] by (simp add: signed_divide_int_def sgn_if zdiv_int)
    moreover have "itoa_digit uc (int (n mod b)) = Inr (digit_char uc (n mod b))"
    proof -
      have "n mod b < 36" using "1.prems" mod_less_divisor [of b n] by linarith
      then show ?thesis by (auto simp: itoa_digit_def digit_char_def)
    qed
    moreover have "int (n div b) \<le> FIX_MAX" using b(3) div_le_dividend [of n b] by linarith
    moreover have "radix_digits b n = radix_digits b (n div b) @ [n mod b]"
      using False "1.prems" by (subst radix_digits.simps) simp
    ultimately show ?thesis using False "1.IH" [of "str @ [digit_char uc (n mod b)]"] "1.prems"
      by (subst itoa_loop.simps) (simp add: arc_strcatc_def)
  qed
qed

lemma itoa_form:
  assumes "2 \<le> b" and "b \<le> 36" and "\<bar>i\<bar> \<le> FIX_MAX"
  shows "arc_itoa N h i (Fix (int b)) uc sf = Some (Inr (if i = 0 then [48]
    else (if i < 0 then [45] else if sf then [43] else []) @ map (digit_char uc) (radix_digits b (nat \<bar>i\<bar>))))"
proof (cases "i = 0")
  case False
  have "mkfix (if i < 0 then - i else i) = Fix (int (nat \<bar>i\<bar>))" using fix_simps(1) [of "\<bar>i\<bar>"] assms(3) by (auto simp: abs_if)
  then show ?thesis using itoa_loop_digits [OF assms(1,2), of "nat \<bar>i\<bar>" N h uc "[]"] False assms(3)
    by (simp add: arc_itoa_def arc_strcatc_def rev_map)
qed (simp add: arc_itoa_def)

text \<open>
  Writing a fixnum in a base from 2 to 36 returns, and reading its digits in the
  same base gives it back.
\<close>

lemma itoa_roundtrip:
  assumes "gmp_ok N" and "heap_ok h" and "2 \<le> b" and "b \<le> 36" and "\<bar>i\<bar> \<le> FIX_MAX"
  shows "\<exists>str h'. arc_itoa N h i (Fix (int b)) uc sf = Some (Inr str) \<and> arc_str2int N h str (int b) = Inr (Fix i, h')"
proof (cases "i = 0")
  case True
  have "\<exists>h'. str2int_loop N (int b) (map (digit_char False) [0]) (Fix (int 0)) h = Inr (Some (Fix (int (from_digits b 0 [0]))), h')"
    using assms(3,4) by (intro str2int_digits [OF assms(1,2)]) (simp_all add: from_digits_simps FIX_MAX_def)
  then obtain h' where "str2int_loop N (int b) [48] (Fix 0) h = Inr (Some (Fix 0), h')"
    by (auto simp: digit_char_def from_digits_simps)
  then show ?thesis using True by (simp add: arc_itoa_def arc_str2int_def)
next
  case False
  let ?n = "nat \<bar>i\<bar>"
  let ?ds = "map (digit_char uc) (radix_digits b ?n)"
  have n: "int ?n \<le> FIX_MAX" "0 < ?n" using assms(5) False by simp_all
  have w: "arc_itoa N h i (Fix (int b)) uc sf = Some (Inr ((if i < 0 then [45] else if sf then [43] else []) @ ?ds))"
    using itoa_form [OF assms(3-5)] False by simp
  obtain d r where ds: "radix_digits b ?n = d # r" using radix_digits_nonempty [OF assms(3) n(2)] by (cases "radix_digits b ?n") auto
  have "d < 36" using radix_digits_less [of d b ?n] ds assms(4) by simp
  note c = digit_chars(2,3) [OF this, of uc]
  have "\<exists>h'. str2int_loop N (int b) ?ds (Fix (int 0)) h = Inr (Some (Fix (int (from_digits b 0 (radix_digits b ?n)))), h')"
    using assms(3,4) n(1) radix_digits_less from_radix_digits [OF assms(3)] by (intro str2int_digits [OF assms(1,2)]) auto
  then obtain h' where r: "str2int_loop N (int b) ?ds (Fix 0) h = Inr (Some (Fix \<bar>i\<bar>), h')"
    using from_radix_digits [OF assms(3)] by auto
  have "arc_str2int N h ((if i < 0 then [45] else if sf then [43] else []) @ ?ds) (int b) = Inr (Fix i, h')"
  proof (cases "i < 0")
    case True
    then show ?thesis using r neg_small [of "- i" N h'] assms(5) ds by (simp add: arc_str2int_def)
  next
    case False
    then show ?thesis using r c ds by (cases sf) (simp_all add: arc_str2int_def)
  qed
  then show ?thesis using w by blast
qed

text \<open>The reader's parser on the decimal form of a fixnum.\<close>

lemma decimal_char:
  assumes "d < 10"
  shows "c_isdigit (digit_char False d)" "digit_char False d \<notin> {45, 43, 46, 101, 69, 114, 47, 105, 73, 106, 74, Runeerror}"
    "rune2dig (digit_char False d) (tagged 10) = Some (int d)" "c_tolower (digit_char False d) \<notin> {105, 110}"
  using assms by (auto simp: digit_char_def c_isdigit_def rune2dig_def ucisalnum_def c_tolower_def tagged_def Runeerror_def)

lemma s2n_digits:
  "gmp_ok N \<Longrightarrow> heap_ok h \<Longrightarrow> \<forall>d \<in> set ds. d < 10 \<Longrightarrow> int (from_digits 10 a ds) \<le> FIX_MAX \<Longrightarrow>
    \<exists>h'. s2n N str rational 4 sg (Fix (int a)) (Fix 10) (map (digit_char False) ds) h =
      arc_mul2 N h' (Fix (int (from_digits 10 a ds))) (Fix sg) \<and> grown h h'"
proof (induction ds arbitrary: a h)
  case Nil
  show ?case using grown_refl [OF Nil(2)] by (subst s2n.simps) (auto simp: strgetc_def s2n_end_def from_digits_simps)
next
  case (Cons d ds)
  have d: "d < 10" "d \<le> 36" using Cons.prems(3) by auto
  note c = decimal_char [OF d(1)]
  have "int (a * 10 + d) \<le> FIX_MAX"
    using Cons.prems(4) from_digits_mono [of 10 "a * 10 + d" ds] by (simp add: from_digits_simps del: of_nat_mult of_nat_add)
  from digit_step [OF Cons.prems(1,2) _ _ this d(2)] obtain h1 where
    h1: "rbind (arc_mul2 N h (Fix (int a)) (Fix 10)) (\<lambda>(v, h). arc_add2 N h v (Fix (int d))) = Inr (Fix (int (a * 10 + d)), h1)"
      "grown h h1" by auto
  have "\<exists>h'. s2n N str rational 4 sg (Fix (int (a * 10 + d))) (Fix 10) (map (digit_char False) ds) h1 =
      arc_mul2 N h' (Fix (int (from_digits 10 (a * 10 + d) ds))) (Fix sg) \<and> grown h1 h'"
    using Cons.prems grown_ok [OF h1(2)] by (intro Cons.IH) (simp_all add: from_digits_simps)
  then obtain h' where h': "s2n N str rational 4 sg (Fix (int (a * 10 + d))) (Fix 10) (map (digit_char False) ds) h1 =
      arc_mul2 N h' (Fix (int (from_digits 10 (a * 10 + d) ds))) (Fix sg)" "grown h1 h'" by blast
  show ?case using h1(1) c h'(1) grown_trans [OF h1(2) h'(2)]
    by (intro exI [of _ h'], subst s2n.simps) (simp add: strgetc_def from_digits_simps del: of_nat_mult of_nat_add)
qed

lemma string2num_ld:
  assumes "gmp_ok N" and "heap_ok h" and "\<bar>i\<bar> \<le> FIX_MAX"
  shows "\<exists>h'. arc_string2num N h (ld_runes i) = Inr (Fix i, h') \<and> grown h h'"
proof -
  let ?ds = "if i = 0 then [0] else radix_digits 10 (nat \<bar>i\<bar>)"
  have v: "from_digits 10 0 ?ds = nat \<bar>i\<bar>" using from_radix_digits [of 10 "nat \<bar>i\<bar>"] by (simp add: from_digits_simps)
  have l: "\<forall>d \<in> set ?ds. d < 10" using radix_digits_less by auto
  obtain d r where ds: "?ds = d # r" using radix_digits_nonempty [of 10 "nat \<bar>i\<bar>"] by (cases "i = 0"; cases ?ds) auto
  have d: "d < 10" using l ds by auto
  note c = decimal_char [OF d]
  have form: "ld_runes i = (if i < 0 then [45] else []) @ map (digit_char False) ?ds" by (simp add: ld_runes_def digit_char_def)
  have two: "\<exists>h'. s2n N str False 2 sg (Fix 0) (Fix 10) (map (digit_char False) ?ds) h = arc_mul2 N h' (Fix \<bar>i\<bar>) (Fix sg) \<and> grown h h'" for str sg
    using s2n_digits [OF assms(1,2) l, of 0 str False sg] v assms(3) c unfolding ds
    by (subst s2n.simps) (simp add: strgetc_def)
  have "s2n N str False 1 1 (Fix 0) (Fix 10) (map (digit_char False) ?ds) h =
      s2n N str False 2 1 (Fix 0) (Fix 10) (map (digit_char False) ?ds) h" for str
    using c unfolding ds by (subst s2n.simps) (simp add: strgetc_def)
  moreover have "s2n N str False 1 1 (Fix 0) (Fix 10) (45 # map (digit_char False) ?ds) h =
      s2n N str False 2 (- 1) (Fix 0) (Fix 10) (map (digit_char False) ?ds) h" for str
    by (subst s2n.simps) (simp add: strgetc_def Runeerror_def)
  ultimately have "arc_string2num N h (ld_runes i) = s2n N (ld_runes i) False 2 (if i < 0 then - 1 else 1) (Fix 0) (Fix 10) (map (digit_char False) ?ds) h"
    unfolding arc_string2num_def form by (cases "i < 0") simp_all
  then obtain h' where h': "arc_string2num N h (ld_runes i) = arc_mul2 N h' (Fix \<bar>i\<bar>) (Fix (if i < 0 then - 1 else 1))" "grown h h'"
    using two by auto
  have "exact N h' (arc_mul2 N h' (Fix \<bar>i\<bar>) (Fix (if i < 0 then - 1 else 1))) (\<bar>i\<bar> * (if i < 0 then - 1 else 1))"
    using assms grown_ok [OF h'(2)] by (intro mul_exact) (auto simp: FIX_MAX_def)
  moreover have "\<bar>i\<bar> * (if i < 0 then - 1 else 1) = i" by (simp add: abs_if)
  ultimately obtain h2 where "arc_mul2 N h' (Fix \<bar>i\<bar>) (Fix (if i < 0 then - 1 else 1)) = Inr (Fix i, h2)" "grown h' h2"
    using exact_small [of N h' _ i] assms(3) by auto
  then show ?thesis using h' grown_trans by metis
qed

text \<open>
  The letters up to the tagged radix pass for digits: the symbol \<open>1a\<close> is read as the number 20.
\<close>

lemma letters_are_digits:
  assumes "gmp_ok N" and "heap_ok h"
  shows "\<exists>h'. arc_string2num N h [49, 97] = Inr (Fix 20, h')"
proof -
  obtain h1 where h1: "rbind (arc_mul2 N h (Fix 0) (Fix 10)) (\<lambda>(v, h). arc_add2 N h v (Fix 1)) = Inr (Fix 1, h1)" "heap_ok h1"
    using digit_step [OF assms, of 10 0 1] by (auto simp: FIX_MAX_def dest: grown_ok)
  obtain h2 where h2: "rbind (arc_mul2 N h1 (Fix 1) (Fix 10)) (\<lambda>(v, h). arc_add2 N h v (Fix 10)) = Inr (Fix 20, h2)" "heap_ok h2"
    using digit_step [OF assms(1) h1(2), of 10 1 10] by (auto simp: FIX_MAX_def dest: grown_ok)
  obtain h3 where "arc_mul2 N h2 (Fix 20) (Fix 1) = Inr (Fix 20, h3)"
    using exact_small [OF mul_exact [OF assms(1) h2(2), of 20 1]] by (auto simp: FIX_MAX_def)
  then show ?thesis using h1 h2
    by (simp add: arc_string2num_def s2n.simps strgetc_def s2n_end_def Runeerror_def c_isdigit_def c_tolower_def
        rune2dig_def ucisalnum_def c_isalpha_def tagged_def)
qed

text \<open>Numbers as GMP makes them: an object that holds the integer.\<close>

definition demo_int :: "heap \<Rightarrow> val \<Rightarrow> int option" where
  "demo_int h v = (case v of Fix i \<Rightarrow> Some i
     | Ref a \<Rightarrow> (case mem h a of Some (OBlk T_BIGNUM [Fix i]) \<Rightarrow> Some i | _ \<Rightarrow> None) | _ \<Rightarrow> None)"

definition demo_big :: "heap \<Rightarrow> int \<Rightarrow> val \<times> heap" where
  "demo_big h i = (let (a, h) = halloc h (OBlk T_BIGNUM [Fix i]) in (Ref a, h))"

definition demo_nums :: numops where
  "demo_nums =
     (let none = (\<lambda>h a b. Inl (ArcErr ''not a number'')) in
      \<lparr> n_int = demo_int, n_mkbignum = demo_big,
        n_mkrational = (\<lambda>h x y. let (a, h) = halloc h (OBlk T_RATIONAL [Fix x, Fix y]) in (Ref a, h)),
        n_mul_bignum = (\<lambda>h a b. case (demo_int h a, demo_int h b) of
            (Some i, Some j) \<Rightarrow> Inr (if \<bar>i * j\<bar> \<le> FIX_MAX then (Fix (i * j), h) else demo_big h (i * j)) | _ \<Rightarrow> Inl UB),
        n_add = none, n_sub = none, n_mul = none, n_div = none, n_idiv = none, n_mod = none,
        n_neg = (\<lambda>h a. Inl (ArcErr ''not a number'')), n_str2flonum = (\<lambda>h s. Inr (NIL, h)),
        n_infinity = (\<lambda>h s. (NIL, h)), n_nan = (\<lambda>h. (NIL, h)) \<rparr>)"

lemma demo_sel: "n_int demo_nums = demo_int" "n_mkbignum demo_nums = demo_big"
  "n_mul_bignum demo_nums h a b = (case (demo_int h a, demo_int h b) of
     (Some i, Some j) \<Rightarrow> Inr (if \<bar>i * j\<bar> \<le> FIX_MAX then (Fix (i * j), h) else demo_big h (i * j)) | _ \<Rightarrow> Inl UB)"
  by (simp_all add: demo_nums_def Let_def)

lemma demo_int_grown: "heap_ok h \<Longrightarrow> grown h h' \<Longrightarrow> demo_int h v = Some i \<Longrightarrow> demo_int h' v = Some i"
proof (cases v)
  case (Ref a)
  assume a: "heap_ok h" "grown h h'" "demo_int h v = Some i"
  then have "a < brk h" using Ref by (auto simp: demo_int_def heap_ok_def split: option.splits)
  then show ?thesis using a Ref by (simp add: grown_def demo_int_def)
qed (auto simp: demo_int_def)

lemma demo_big_ok: "heap_ok h \<Longrightarrow> \<exists>v h'. demo_big h i = (v, h') \<and> grown h h' \<and> demo_int h' v = Some i"
  using halloc_grown [of h "OBlk T_BIGNUM [Fix i]"] by (auto simp: demo_big_def demo_int_def split: prod.splits)

lemma demo_mul_ok:
  assumes "heap_ok h" and "demo_int h a = Some i" and "demo_int h b = Some j"
  shows "\<exists>v h'. n_mul_bignum demo_nums h a b = Inr (v, h') \<and> grown h h' \<and> demo_int h' v = Some (i * j)
    \<and> (\<bar>i * j\<bar> \<le> FIX_MAX \<longrightarrow> v = Fix (i * j))"
proof (cases "\<bar>i * j\<bar> \<le> FIX_MAX")
  case True
  then show ?thesis using assms grown_refl [OF assms(1)] by (simp add: demo_sel(3)) (simp add: demo_int_def)
next
  case False
  then show ?thesis using assms(2,3) demo_big_ok [OF assms(1), of "i * j"] by (auto simp: demo_sel(3))
qed

lemma demo_gmp: "gmp_ok demo_nums"
proof -
  have "\<forall>h i. demo_int h (Fix i) = Some i" by (simp add: demo_int_def)
  then show ?thesis unfolding gmp_ok_def demo_sel(1,2)
    using demo_int_grown demo_big_ok demo_mul_ok by blast
qed

theorem fixnum_ops_exact_witness:
  "exact demo_nums empty_heap (arc_mul2 demo_nums empty_heap (Fix (2 ^ 40)) (Fix (- (2 ^ 40)))) (2 ^ 40 * - (2 ^ 40))
    \<and> arc_mod2 demo_nums empty_heap (Fix (2 ^ 40)) (Fix (- (2 ^ 40))) = Inr (Fix 0, empty_heap)"
  using fixnum_ops_exact [OF demo_gmp empty_heap_ok, of "2 ^ 40" "- (2 ^ 40)"] by (simp add: FIX_MAX_def)

end
