(* ===== verification/Ports.thy ===== *)
theory Ports
  imports Arith
begin

text \<open>
  Ports, \<open>src/src/io.c\<close>, with the string ports of \<open>src/src/sio.c\<close>. A port is a record of the
  fields of \<open>struct io_t\<close> and of its device. \<open>Str s i\<close> is a string port: the string, nil at
  first in an output port, and the index. \<open>Bytes bs\<close> is a port that delivers bytes, such as a
  file: those still to come. A call through \<open>io_ops\<close> is a case distinction on the device.
\<close>

datatype device = Str "rstr option" int | Bytes "int list"

record port =
  OUTP :: bool
  UNGET :: int
  CLOSED :: bool
  DEV :: device

text \<open>\<open>struct io_t\<close> of \<open>arc_instring\<close> and \<open>arc_outstring\<close>.\<close>

definition mkstringio :: "bool \<Rightarrow> rstr option \<Rightarrow> port" where
  "mkstringio outp str = \<lparr> OUTP = outp, UNGET = - 1, CLOSED = False, DEV = Str str 0 \<rparr>"

definition arc_instring :: "rstr \<Rightarrow> port" where
  "arc_instring str = mkstringio False (Some str)"

definition arc_outstring :: port where
  "arc_outstring = mkstringio True None"

definition arc_inside :: "port \<Rightarrow> rstr res" where
  "arc_inside p = (case DEV p of Str None _ \<Rightarrow> Inr [] | Str (Some s) _ \<Rightarrow> Inr s | _ \<Rightarrow> Inl UB)"

subsection \<open>String devices\<close>

definition sio_getb :: "rstr option \<Rightarrow> int \<Rightarrow> (int option \<times> int) res" where
  "sio_getb str i =
     (case str of
        None \<Rightarrow> Inl UB
      | Some s \<Rightarrow>
          if i \<ge> int (arc_strlen s) then Inr (None, i)
          else if i < 0 then Inl UB
          else Inr (Some (s ! nat i), i + 1))"

definition sio_putb :: "rstr option \<Rightarrow> int \<Rightarrow> int \<Rightarrow> (rstr \<times> int) res" where
  "sio_putb str i byte =
     (let s = (case str of None \<Rightarrow> [] | Some s \<Rightarrow> s); len = int (arc_strlen s) in
      if i \<ge> len then Inr (arc_strcatc s byte, len + 1)
      else if i < 0 then Inl UB
      else rbind (arc_strsetindex s (nat i) byte) (\<lambda>(_, s). Inr (s, i)))"

datatype whence = SEEK_SET | SEEK_CUR | SEEK_END | SEEK_OTHER

definition sio_seek :: "rstr option \<Rightarrow> int \<Rightarrow> val \<Rightarrow> whence \<Rightarrow> (bool \<times> int) res" where
  "sio_seek str i offset whence =
     (case offset of
        Fix ofs \<Rightarrow>
          (case str of
             None \<Rightarrow> Inl UB
           | Some s \<Rightarrow>
               let len = int (arc_strlen s) in
               (if whence = SEEK_OTHER then Inl (ArcErr ''invalid seek whence argument'')
                else
                  let noffset = (case whence of SEEK_SET \<Rightarrow> ofs | SEEK_CUR \<Rightarrow> ofs + len | _ \<Rightarrow> len - ofs) in
                  if noffset \<ge> len \<or> noffset < 0 then Inr (False, i) else Inr (True, noffset)))
      | _ \<Rightarrow> Inl (ArcErr ''invalid seek offset for sio (must be fixnum)''))"

subsection \<open>Characters\<close>

definition CHECK_CLOSED :: "port \<Rightarrow> unit res" where
  "CHECK_CLOSED p = (if CLOSED p then Inl (ArcErr ''port is closed'') else Inr ())"

text \<open>\<open>getb\<close> and \<open>putb\<close> of the device; \<open>fgetc\<close> of a file is the next byte.\<close>

definition dev_getb :: "device \<Rightarrow> (int option \<times> device) res" where
  "dev_getb d =
     (case d of
        Str s i \<Rightarrow> rbind (sio_getb s i) (\<lambda>(r, i). Inr (r, Str s i))
      | Bytes [] \<Rightarrow> Inr (None, d)
      | Bytes (b # bs) \<Rightarrow> Inr (Some b, Bytes bs))"

text \<open>
  \<open>arc_readb\<close> as \<open>arc_readc\<close> calls it, when no rune was put back. The bytes of a rune are
  collected until \<open>fullrune\<close> is content; \<open>junk\<close> is what is behind them in \<open>cbuf\<close>.
\<close>

definition arc_readb :: "port \<Rightarrow> (int option \<times> port) res" where
  "arc_readb p =
     rbind (CHECK_CLOSED p) (\<lambda>_. rbind (dev_getb (DEV p)) (\<lambda>(b, d). Inr (b, p \<lparr> DEV := d \<rparr>)))"

fun readc_loop :: "nat \<Rightarrow> int list \<Rightarrow> int list \<Rightarrow> port \<Rightarrow> (int option \<times> port) res" where
  "readc_loop 0 junk buf p = Inr (None, p)"
| "readc_loop (Suc n) junk buf p =
     rbind (arc_readb p) (\<lambda>(chr, p).
       case chr of
         None \<Rightarrow> Inr (None, p)
       | Some b \<Rightarrow>
           let buf = buf @ [b] in
           if fullrune buf (length buf) then
             (case chartorune (buf @ drop (length buf) junk) of
                None \<Rightarrow> Inl UB
              | Some (r, _) \<Rightarrow> Inr (Some r, p))
           else readc_loop n junk buf p)"

definition arc_readc :: "int list \<Rightarrow> port \<Rightarrow> (int option \<times> port) res" where
  "arc_readc junk p =
     rbind (CHECK_CLOSED p) (\<lambda>_.
       if UNGET p \<ge> 0 then Inr (Some (UNGET p), p \<lparr> UNGET := - 1 \<rparr>)
       else case DEV p of
         Str s i \<Rightarrow> rbind (sio_getb s i) (\<lambda>(r, i). Inr (r, p \<lparr> DEV := Str s i \<rparr>))
       | Bytes _ \<Rightarrow> readc_loop UTFmax junk [] p)"

definition arc_ungetc_rune :: "int \<Rightarrow> port \<Rightarrow> port" where
  "arc_ungetc_rune r p = p \<lparr> UNGET := r \<rparr>"

definition arc_peekc :: "int list \<Rightarrow> port \<Rightarrow> (int \<times> port) res" where
  "arc_peekc junk p =
     rbind (arc_readc junk p) (\<lambda>(ch, p). case ch of None \<Rightarrow> Inl UB | Some r \<Rightarrow> Inr (r, arc_ungetc_rune r p))"

text \<open>Writing a rune to a string port.\<close>

definition arc_writec :: "int \<Rightarrow> port \<Rightarrow> port res" where
  "arc_writec chr p =
     (if \<not> OUTP p then Inl (ArcErr ''argument is not an output port'')
      else rbind (CHECK_CLOSED p) (\<lambda>_.
        case DEV p of
          Str s i \<Rightarrow> rbind (sio_putb s i chr) (\<lambda>(s, i). Inr (p \<lparr> DEV := Str (Some s) i \<rparr>))
        | Bytes _ \<Rightarrow> Inl UB))"

definition arc_seek :: "port \<Rightarrow> val \<Rightarrow> whence \<Rightarrow> (bool \<times> port) res" where
  "arc_seek p offset whence =
     (case DEV p of
        Str s i \<Rightarrow> rbind (sio_seek s i offset whence) (\<lambda>(r, i). Inr (r, p \<lparr> DEV := Str s i \<rparr>))
      | Bytes _ \<Rightarrow> Inl UB)"

definition arc_tell :: "port \<Rightarrow> int res" where
  "arc_tell p = (case DEV p of Str s i \<Rightarrow> Inr i | Bytes _ \<Rightarrow> Inl UB)"

definition arc_close :: "port \<Rightarrow> port" where
  "arc_close p = p \<lparr> CLOSED := True \<rparr>"

subsection \<open>A port is a stream of runes\<close>

text \<open>Text that fits the decoder: runes of at most three bytes.\<close>

definition short_rune :: "int \<Rightarrow> bool" where
  "short_rune r \<longleftrightarrow> encodable r \<and> r \<le> Rune3"

fun dev_runes :: "device \<Rightarrow> int list \<Rightarrow> bool" where
  "dev_runes (Str s i) rs \<longleftrightarrow> (\<exists>t. s = Some t \<and> 0 \<le> i \<and> i \<le> int (length t) \<and> rs = drop (nat i) t)"
| "dev_runes (Bytes bs) rs \<longleftrightarrow> bs = concat (map runetochar rs) \<and> (\<forall>r \<in> set rs. short_rune r)"

text \<open>The port delivers \<open>rs\<close>: first what was put back, then what is in the device.\<close>

definition delivers :: "port \<Rightarrow> int list \<Rightarrow> bool" where
  "delivers p rs \<longleftrightarrow> \<not> CLOSED p
     \<and> (if UNGET p \<ge> 0 then rs \<noteq> [] \<and> hd rs = UNGET p \<and> dev_runes (DEV p) (tl rs) else dev_runes (DEV p) rs)"

text \<open>What readers of characters rely on; the second reading tells whether a rune may be put back.\<close>

fun read_all :: "('p \<Rightarrow> (int option \<times> 'p) res) \<Rightarrow> nat \<Rightarrow> 'p \<Rightarrow> int list res" where
  "read_all getc 0 p = Inr []"
| "read_all getc (Suc n) p =
     rbind (getc p) (\<lambda>(r, p). case r of None \<Rightarrow> Inr [] | Some r \<Rightarrow> rbind (read_all getc n p) (\<lambda>rs. Inr (r # rs)))"

locale rune_source =
  fixes rep :: "'p \<Rightarrow> int list \<Rightarrow> bool"
    and clean :: "'p \<Rightarrow> bool"
    and getc :: "'p \<Rightarrow> (int option \<times> 'p) res"
    and ungetc :: "int \<Rightarrow> 'p \<Rightarrow> 'p"
  assumes get_none: "rep p [] \<Longrightarrow> \<exists>p'. getc p = Inr (None, p') \<and> rep p' [] \<and> clean p'"
    and get_some: "rep p (r # rs) \<Longrightarrow> \<exists>p'. getc p = Inr (Some r, p') \<and> rep p' rs \<and> clean p'"
    and unget: "rep p rs \<Longrightarrow> clean p \<Longrightarrow> 0 \<le> r \<Longrightarrow> rep (ungetc r p) (r # rs)"
begin

lemma get: "rep p rs \<Longrightarrow> \<exists>p'. getc p = Inr (case rs of [] \<Rightarrow> None | r # _ \<Rightarrow> Some r, p') \<and> rep p' (tl rs) \<and> clean p'"
  using get_none get_some by (cases rs) auto

lemma peek:
  assumes "rep p (r # rs)" and "0 \<le> r"
  shows "\<exists>p'. getc p = Inr (Some r, p') \<and> rep (ungetc r p') (r # rs)"
  using get_some [OF assms(1)] unget assms(2) by blast

lemma read_all_rep: "rep p rs \<Longrightarrow> length rs \<le> n \<Longrightarrow> read_all getc n p = Inr rs"
proof (induction n arbitrary: p rs)
  case (Suc n)
  then show ?case using get [OF Suc.prems(1)] by (cases rs) fastforce+
qed simp

end

lemma short_bytes:
  assumes "short_rune r"
  shows "\<exists>b bs. runetochar r = b # bs \<and> length (runetochar r) \<le> 3
    \<and> (\<forall>k. 0 < k \<longrightarrow> k \<le> length (runetochar r) \<longrightarrow> fullrune (take k (runetochar r)) k = (k = length (runetochar r)))"
proof -
  have e: "encodable r" "r \<le> 0xFFFF" using assms by (simp_all add: short_rune_def Rune3_def)
  consider "0 \<le> r \<and> r \<le> 0x7F" | "0x7F < r \<and> r \<le> 0x7FF" | "0x7FF < r \<and> r < 0xFFFF"
    using e unfolding encodable_def by linarith
  then show ?thesis
  proof cases
    case 1
    then have "runetochar r = [r]" by (simp add: runetochar_def Rune1_def take_bit_int_eq_self)
    then show ?thesis using 1 by (auto simp: fullrune_def Tx_def le_Suc_eq)
  next
    case 2
    then obtain b c where "runetochar r = [b, c]" "T2 \<le> b" "b < T3"
      using runetochar2 [of r] enc2 [of r] by (simp add: utf_consts)
    then show ?thesis by (auto simp: fullrune_def utf_consts le_Suc_eq)
  next
    case 3
    then obtain b c d where "runetochar r = [b, c, d]" "T3 \<le> b" "b < T4"
      using runetochar3 [of r] enc3 [of r] by (simp add: utf_consts)
    then show ?thesis by (auto simp: fullrune_def utf_consts le_Suc_eq)
  qed
qed

text \<open>Reading a rune from bytes.\<close>

lemma readc_loop_step:
  assumes "short_rune r" and "\<not> CLOSED p"
  shows "k < length (runetochar r) \<Longrightarrow> length (runetochar r) - k \<le> n \<Longrightarrow> DEV p = Bytes (drop k (runetochar r) @ bs) \<Longrightarrow>
    readc_loop n junk (take k (runetochar r)) p = Inr (Some r, p \<lparr> DEV := Bytes bs \<rparr>)"
  using assms(2)
proof (induction n arbitrary: k p)
  case (Suc n)
  let ?e = "runetochar r"
  obtain b where b: "drop k ?e = b # drop (Suc k) ?e" using Suc.prems(1) by (metis Cons_nth_drop_Suc)
  have e: "take k ?e @ [b] = take (Suc k) ?e" using b Suc.prems(1) by (metis nth_via_drop take_Suc_conv_app_nth)
  have l: "length (take (Suc k) ?e) = Suc k" using Suc.prems(1) by simp
  have rd: "arc_readb p = Inr (Some b, p \<lparr> DEV := Bytes (drop (Suc k) ?e @ bs) \<rparr>)"
    using Suc.prems(3,4) b by (simp add: arc_readb_def CHECK_CLOSED_def dev_getb_def)
  have full: "fullrune (take (Suc k) ?e) (Suc k) = (Suc k = length ?e)"
    using short_bytes [OF assms(1)] Suc.prems(1) by auto
  show ?case
  proof (cases "Suc k = length ?e")
    case True
    have "chartorune (?e @ drop (length ?e) junk) = Some (r, length ?e)"
      using assms(1) by (intro rune_roundtrip_all) (simp add: short_rune_def)
    then show ?thesis using True rd full e by simp
  next
    case False
    have "readc_loop n junk (take (Suc k) ?e) (p \<lparr> DEV := Bytes (drop (Suc k) ?e @ bs) \<rparr>) =
        Inr (Some r, p \<lparr> DEV := Bytes (drop (Suc k) ?e @ bs) \<rparr> \<lparr> DEV := Bytes bs \<rparr>)"
      using False Suc.prems by (intro Suc.IH) simp_all
    then show ?thesis using False rd full e l by simp
  qed
qed simp

lemma bytes_readc:
  assumes "short_rune r" and "\<not> CLOSED p" and "UNGET p < 0" and "DEV p = Bytes (runetochar r @ bs)"
  shows "arc_readc junk p = Inr (Some r, p \<lparr> DEV := Bytes bs \<rparr>)"
proof -
  have "0 < length (runetochar r)" "length (runetochar r) - 0 \<le> UTFmax"
    using short_bytes [OF assms(1)] by (auto simp: UTFmax_def)
  from readc_loop_step [OF assms(1,2) this, of bs junk] show ?thesis using assms
    by (simp add: arc_readc_def CHECK_CLOSED_def)
qed

text \<open>String ports and byte ports are sources of runes.\<close>

lemma deliver_device:
  assumes "\<not> CLOSED p" and "UNGET p < 0" and "dev_runes (DEV p) rs"
  shows "\<exists>p'. arc_readc junk p = Inr (case rs of [] \<Rightarrow> None | r # _ \<Rightarrow> Some r, p') \<and> \<not> CLOSED p' \<and> UNGET p' < 0
    \<and> dev_runes (DEV p') (tl rs)"
proof (cases "DEV p")
  case (Str s i)
  then obtain t where t: "s = Some t" "0 \<le> i" "i \<le> int (length t)" "rs = drop (nat i) t" using assms(3) by auto
  show ?thesis
  proof (cases "i = int (length t)")
    case True
    then show ?thesis using assms Str t by (simp add: arc_readc_def CHECK_CLOSED_def sio_getb_def arc_strlen_def)
  next
    case False
    then have i: "nat i < length t" "nat (i + 1) = Suc (nat i)" using t(2,3) by simp_all
    then have "rs = t ! nat i # drop (Suc (nat i)) t" using t(4) by (metis Cons_nth_drop_Suc)
    then show ?thesis using assms Str t i False
      by (auto simp: arc_readc_def CHECK_CLOSED_def sio_getb_def arc_strlen_def)
  qed
next
  case (Bytes bs)
  show ?thesis
  proof (cases rs)
    case Nil
    then show ?thesis using assms Bytes
      by (simp add: arc_readc_def CHECK_CLOSED_def UTFmax_def numeral_eq_Suc arc_readb_def dev_getb_def)
  next
    case (Cons r rs')
    then have "short_rune r" "DEV p = Bytes (runetochar r @ concat (map runetochar rs'))" "\<forall>r \<in> set rs'. short_rune r"
      using assms(3) Bytes by auto
    then show ?thesis using bytes_readc [OF _ assms(1,2)] Cons assms(1,2) by auto
  qed
qed

lemma deliver_get:
  assumes "delivers p rs"
  shows "\<exists>p'. arc_readc junk p = Inr (case rs of [] \<Rightarrow> None | r # _ \<Rightarrow> Some r, p') \<and> delivers p' (tl rs) \<and> UNGET p' < 0"
proof (cases "UNGET p \<ge> 0")
  case True
  then show ?thesis using assms by (cases rs) (auto simp: delivers_def arc_readc_def CHECK_CLOSED_def)
next
  case False
  then obtain p' where "arc_readc junk p = Inr (case rs of [] \<Rightarrow> None | r # _ \<Rightarrow> Some r, p')" "\<not> CLOSED p'" "UNGET p' < 0"
    "dev_runes (DEV p') (tl rs)" using deliver_device [of p rs junk] assms by (auto simp: delivers_def)
  then show ?thesis by (intro exI [of _ p']) (simp add: delivers_def)
qed

lemma deliver_unget: "delivers p rs \<Longrightarrow> UNGET p < 0 \<Longrightarrow> 0 \<le> r \<Longrightarrow> delivers (arc_ungetc_rune r p) (r # rs)"
  by (auto simp: delivers_def arc_ungetc_rune_def)

interpretation port_source: rune_source delivers "\<lambda>p. UNGET p < 0" "arc_readc junk" arc_ungetc_rune for junk
proof unfold_locales
  show "\<exists>p'. arc_readc junk p = Inr (None, p') \<and> delivers p' [] \<and> UNGET p' < 0" if "delivers p []" for p
    using deliver_get [OF that, of junk] by simp
  show "\<exists>p'. arc_readc junk p = Inr (Some r, p') \<and> delivers p' rs \<and> UNGET p' < 0" if "delivers p (r # rs)" for p r rs
    using deliver_get [OF that, of junk] by simp
qed (simp add: deliver_unget)



text \<open>Writing to a string port that was only written to appends.\<close>

definition outport :: "port \<Rightarrow> rstr \<Rightarrow> bool" where
  "outport p s \<longleftrightarrow> OUTP p \<and> \<not> CLOSED p \<and> (DEV p = Str (Some s) (int (length s)) \<or> s = [] \<and> DEV p = Str None 0)"

lemma writec_appends: "outport p s \<Longrightarrow> \<exists>p'. arc_writec r p = Inr p' \<and> outport p' (s @ [r])"
  by (auto simp: outport_def arc_writec_def CHECK_CLOSED_def sio_putb_def arc_strlen_def arc_strcatc_def)

lemma outport_new: "outport arc_outstring []"
  by (simp add: outport_def arc_outstring_def mkstringio_def)

lemma outport_inside: "outport p s \<Longrightarrow> arc_inside p = Inr s"
  by (auto simp: outport_def arc_inside_def)

lemma instring_delivers: "delivers (arc_instring s) s"
  by (simp add: delivers_def arc_instring_def mkstringio_def)

text \<open>
  Seeking from the current position is measured from the end of the string instead, and writing
  over the middle of a string port does not move on: the second rune replaces the first.
\<close>

lemma seek_cur_from_end:
  "arc_seek (arc_instring [65, 66, 67]) (Fix 0) SEEK_CUR = Inr (False, arc_instring [65, 66, 67])
    \<and> arc_seek (arc_instring [65, 66, 67]) (Fix (- 1)) SEEK_CUR = Inr (True, (arc_instring [65, 66, 67]) \<lparr> DEV := Str (Some [65, 66, 67]) 2 \<rparr>)"
  by (simp add: arc_seek_def arc_instring_def mkstringio_def sio_seek_def arc_strlen_def)

lemma overwrite_does_not_advance:
  "\<exists>p. rbind (arc_writec 88 \<lparr> OUTP = True, UNGET = - 1, CLOSED = False, DEV = Str (Some [65, 66]) 0 \<rparr>) (arc_writec 89) = Inr p
    \<and> arc_inside p = Inr [89, 66]"
  by (simp add: arc_writec_def CHECK_CLOSED_def sio_putb_def arc_strlen_def arc_strsetindex_def arc_inside_def)

end
