(* ===== verification/Reader.thy ===== *)
theory Reader
  imports Ports Builtins Machine
begin

text \<open>
  The reader, \<open>src/src/sread.c\<close>: from the characters of a port to a datum in the heap. A
  foreign function that calls another one with \<open>AFCALL\<close> is a function call here. The state has
  the port, the heap, the symbol tables and the table of line numbers, if there is one. Loops and
  recursive calls run on fuel and are \<open>None\<close> when it is used up.
\<close>

subsection \<open>Line numbers\<close>

text \<open>
  The hash table \<open>lndata\<close> as a map from fixnums: -1 is the current line, -2 the file, -3 the
  line last reported, and a cons is known by the hash of its address.
\<close>

type_synonym lndata = "(int \<Rightarrow> val option) option"

definition visitkey :: "val \<Rightarrow> int" where
  "visitkey v = sint (FIX2INT (INT2FIX (arc_hash_final (arc_hash_update (arc_hash_init 0) (enc v)) 1)))"

definition ln_get :: "lndata \<Rightarrow> int \<Rightarrow> val" where
  "ln_get L k =
     (case L of None \<Rightarrow> UNBOUND
      | Some m \<Rightarrow> (case m k of None \<Rightarrow> Fix 1 | Some v \<Rightarrow> if v = NIL \<or> v = UNBOUND then Fix 1 else v))"

definition ln_put :: "lndata \<Rightarrow> int \<Rightarrow> val \<Rightarrow> lndata" where
  "ln_put L k v = map_option (\<lambda>m. m(k \<mapsto> v)) L"

definition get_lineno :: "lndata \<Rightarrow> val" where
  "get_lineno L = ln_get L (- 1)"

definition set_lineno :: "lndata \<Rightarrow> val \<Rightarrow> lndata" where
  "set_lineno L lineno = ln_put L (- 1) lineno"

definition inc_lineno :: "lndata \<Rightarrow> lndata" where
  "inc_lineno L = (case get_lineno L of Fix i \<Rightarrow> set_lineno L (mkfix (i + 1)) | _ \<Rightarrow> L)"

definition get_file :: "lndata \<Rightarrow> val" where
  "get_file L = (case L of None \<Rightarrow> UNBOUND | Some m \<Rightarrow> (case m (- 2) of None \<Rightarrow> NIL | Some v \<Rightarrow> if v = UNBOUND then NIL else v))"

definition set_file :: "lndata \<Rightarrow> val \<Rightarrow> lndata" where
  "set_file L file = (if L \<noteq> None \<and> get_file L = NIL then ln_put L (- 2) file else L)"

definition add_cons_lineno :: "lndata \<Rightarrow> val \<Rightarrow> val \<Rightarrow> lndata" where
  "add_cons_lineno L conscell linenum = ln_put L (visitkey conscell) linenum"

definition get_lineno2 :: "lndata \<Rightarrow> val" where
  "get_lineno2 L = ln_get L (- 3)"

definition set_lineno2 :: "lndata \<Rightarrow> val \<Rightarrow> lndata" where
  "set_lineno2 L lineno = ln_put L (- 3) lineno"

definition reset_lineno :: "lndata \<Rightarrow> lndata" where
  "reset_lineno L = set_lineno2 L (Fix 1)"

definition get_fileline :: "lndata \<Rightarrow> heap \<Rightarrow> val \<Rightarrow> val \<times> lndata \<times> heap" where
  "get_fileline L h obj =
     (case L of
        None \<Rightarrow> (UNBOUND, L, h)
      | Some m \<Rightarrow>
          let lineno = get_lineno2 L;
              (lineno, L) =
                (if htype h obj = T_CONS then
                   (case m (visitkey obj) of
                      None \<Rightarrow> (lineno, L)
                    | Some newln \<Rightarrow> if newln = UNBOUND then (lineno, L) else (newln, set_lineno2 L newln))
                 else (lineno, L));
              (c, h) = cons h (get_file L) lineno in
          (c, L, h))"

subsection \<open>The state\<close>

record rd =
  PT :: port
  PNAME :: val
  RHP :: heap
  RSYMS :: symbols
  LND :: lndata

text \<open>
  Arguments: numbers, the rest of \<open>cbuf\<close>, the rune behind a string, whether \<open>atstrings\<close> is
  declared, and the constructor of regular expressions with its two flags.
\<close>

record rparams =
  rp_nums :: numops
  rp_junk :: "int list"
  rp_pad :: int
  rp_atstrings :: bool
  rp_mkregexp :: "heap \<Rightarrow> rstr \<Rightarrow> bool \<Rightarrow> bool \<Rightarrow> (val \<times> heap) res"

type_synonym 'a rrun = "('a \<times> rd) res option"

definition readc :: "rparams \<Rightarrow> rd \<Rightarrow> int option rrun" where
  "readc P s = rthen (Some (arc_readc (rp_junk P) (PT s))) (\<lambda>(r, p). ret (r, s \<lparr> PT := p \<rparr>))"

definition ungetc :: "int \<Rightarrow> rd \<Rightarrow> rd" where
  "ungetc r s = s \<lparr> PT := arc_ungetc_rune r (PT s) \<rparr>"

definition rcons :: "val \<Rightarrow> val \<Rightarrow> rd \<Rightarrow> val \<times> rd" where
  "rcons x y s = (let (c, h) = cons (RHP s) x y in (c, s \<lparr> RHP := h \<rparr>))"

definition ralloc :: "obj \<Rightarrow> rd \<Rightarrow> val \<times> rd" where
  "ralloc ob s = (let (a, h) = halloc (RHP s) ob in (Ref a, s \<lparr> RHP := h \<rparr>))"

definition newline :: "int \<Rightarrow> rd \<Rightarrow> rd" where
  "newline r s = (if LND s \<noteq> None \<and> ucisnl r then s \<lparr> LND := inc_lineno (LND s) \<rparr> else s)"

text \<open>\<open>READC\<close> and \<open>READC2\<close>.\<close>

definition READC :: "rparams \<Rightarrow> rd \<Rightarrow> int rrun" where
  "READC P s = rthen (readc P s) (\<lambda>(ch, s).
     case ch of None \<Rightarrow> fail (ArcErr ''unexpected end of source'') | Some r \<Rightarrow> ret (r, s))"

definition READC2 :: "rparams \<Rightarrow> rd \<Rightarrow> (int option \<times> int) rrun" where
  "READC2 P s = rthen (readc P s) (\<lambda>(ch, s). ret ((ch, case ch of None \<Rightarrow> Runeerror | Some r \<Rightarrow> r), s))"

subsection \<open>Tokens\<close>

definition issym :: "int \<Rightarrow> bool" where
  "issym ch \<longleftrightarrow> \<not> ucisspace ch \<and> ch \<notin> {40, 41, 39, 59, 91, 93}"

text \<open>Scan for the first non-blank character.\<close>

fun scan :: "rparams \<Rightarrow> nat \<Rightarrow> rd \<Rightarrow> int option rrun" where
  "scan P 0 s = None"
| "scan P (Suc n) s = rthen (readc P s) (\<lambda>(ch, s).
     case ch of
       None \<Rightarrow> ret (None, s)
     | Some r \<Rightarrow> let s = newline r s in if ucisspace r then scan P n s else ret (Some r, s))"

fun read_comment :: "rparams \<Rightarrow> nat \<Rightarrow> rd \<Rightarrow> rd res option" where
  "read_comment P 0 s = None"
| "read_comment P (Suc n) s = rthen (READC2 P s) (\<lambda>((ch, r), s).
     if r = Runeerror then ret s
     else if ucisnl r then ret (newline r s)
     else read_comment P n s)"

text \<open>
  The automaton that reads a symbol, number or regular expression. A character is written to
  the string port \<open>buf\<close>; at the end of the source there is none to write.
\<close>

definition write_ch :: "int option \<Rightarrow> port \<Rightarrow> port res" where
  "write_ch ch buf = (case ch of None \<Rightarrow> Inl UB | Some r \<Rightarrow> arc_writec r buf)"

fun getsymbol_loop :: "rparams \<Rightarrow> nat \<Rightarrow> nat \<Rightarrow> bool \<Rightarrow> bool \<Rightarrow> port \<Rightarrow> rd \<Rightarrow> (nat \<times> bool \<times> bool \<times> port) rrun" where
  "getsymbol_loop P 0 st cf ml buf s = None"
| "getsymbol_loop P (Suc n) st cf ml buf s =
     rthen (READC2 P s) (\<lambda>((ch, r), s).
       if st = 1 \<and> r = 47 then getsymbol_loop P n 2 cf ml arc_outstring s
       else
         let st = (if st = 0 then (if r = 114 then 1 else 5) else if st = 1 then 5 else st);
             write = (\<lambda>st. rthen (Some (write_ch ch buf)) (\<lambda>buf. getsymbol_loop P n st cf ml buf s)) in
         if st = 2 then
           if r = 47 then getsymbol_loop P n 4 cf ml buf s
           else if r = 92 then write 3
           else if r = Runeerror then fail (ArcErr ''unexpected end of source while reading regex'')
           else write 2
         else if st = 3 then write 2
         else if st = 4 then
           if r = 105 \<and> \<not> cf then getsymbol_loop P n 4 True ml buf s
           else if r = 109 \<and> \<not> ml then getsymbol_loop P n 4 cf True buf s
           else if r = 105 \<or> r = 109 then fail (ArcErr ''regular expression flags used more than once'')
           else if ucisspace r then ret ((st, cf, ml, buf), s)
           else fail (ArcErr ''invalid regular expression flag %c'')
         else if r = Runeerror then ret ((st, cf, ml, buf), s)
         else if \<not> issym r then ret ((st, cf, ml, buf), ungetc r s)
         else write st)"

text \<open>The token is a string, or a regular expression made from one.\<close>

definition getsymbol :: "rparams \<Rightarrow> nat \<Rightarrow> rd \<Rightarrow> (rstr + val) rrun" where
  "getsymbol P n s =
     rthen (getsymbol_loop P n 0 False False arc_outstring s) (\<lambda>((st, cf, ml, buf), s).
       if st = 5 then rthen (Some (arc_inside buf)) (\<lambda>str. ret (Inl str, s))
       else if st = 4 then
         rthen (Some (arc_inside buf)) (\<lambda>rxstr.
         rthen (Some (rp_mkregexp P (RHP s) rxstr cf ml)) (\<lambda>(v, h). ret (Inr v, s \<lparr> RHP := h \<rparr>)))
       else fail (ArcErr ''invalid state while parsing symbol''))"

text \<open>
  The return of a regular expression leaves the value register as \<open>getsymbol\<close> set it. \<open>None\<close>
  is also a lookup in the symbol table that does not return.
\<close>

definition read_symbol :: "rparams \<Rightarrow> nat \<Rightarrow> rd \<Rightarrow> val rrun" where
  "read_symbol P n s =
     rthen (getsymbol P n s) (\<lambda>(tok, s).
       case tok of
         Inr rx \<Rightarrow> ret (rx, s)
       | Inl name \<Rightarrow>
           if arc_strcmp name [46] = 0 then ret (ARC_BUILTIN S_DOT, s)
           else
             rthen (Some (arc_string2num (rp_nums P) (RHP s) name)) (\<lambda>(num, h).
               let s = s \<lparr> RHP := h \<rparr> in
               if num \<noteq> NIL then ret (num, s)
               else
                 (case intern (ARC_BUILTIN S_NIL) (RSYMS s) (KStr name) of
                    None \<Rightarrow> None
                  | Some (v, c) \<Rightarrow> ret (v, s \<lparr> RSYMS := c \<rparr>))))"

subsection \<open>Character constants\<close>

text \<open>The array \<open>chartbl\<close>.\<close>

definition chartbl :: "(string \<times> int) list" where
  "chartbl = [(''null'', 0), (''nul'', 0), (''backspace'', 8), (''tab'', 9), (''newline'', 10), (''vtab'', 11),
     (''page'', 12), (''return'', 13), (''space'', 32), (''rubout'', 127)]"

definition str_runes :: "string \<Rightarrow> rstr" where
  "str_runes s = map of_char s"

definition charesc_char :: "rstr \<Rightarrow> int option" where
  "charesc_char tok = map_of (map (\<lambda>(n, c). (str_runes n, c)) chartbl) tok"

definition charesc_name :: "int \<Rightarrow> rstr option" where
  "charesc_name r = map_of (rev (map (\<lambda>(n, c). (c, str_runes n)) chartbl)) r"

definition c_isxdigit :: "int \<Rightarrow> bool" where
  "c_isxdigit r \<longleftrightarrow> c_isdigit r \<or> 65 \<le> r \<and> r \<le> 70 \<or> 97 \<le> r \<and> r \<le> 102"

definition octal_val :: "rstr \<Rightarrow> int option" where
  "octal_val ds = (if \<forall>d \<in> set ds. c_isdigit d then Some (foldl (\<lambda>v d. v * 8 + (d - 48)) 0 ds) else None)"

definition hex_val :: "rstr \<Rightarrow> int option" where
  "hex_val ds =
     (if \<forall>d \<in> set ds. c_isxdigit d then
        Some (foldl (\<lambda>v d. v * 16 + (let d = c_tolower d in if 48 \<le> d \<and> d \<le> 57 then d - 48 else d - 97 + 10)) 0 ds)
      else None)"

text \<open>The character a token of more than one rune stands for. The value is an \<open>int\<close> in C.\<close>

definition char_of_token :: "rparams \<Rightarrow> rstr \<Rightarrow> int res" where
  "char_of_token P tok =
     (let octal = (if arc_strlen tok = 3 then octal_val tok else None);
          hex = (if arc_strlen tok = 3 \<and> tok ! 0 = 120 then hex_val (drop 1 tok) else None);
          uni = (if c_tolower (arc_strindex (rp_pad P) tok 0) = 117 then hex_val (drop 1 tok) else None) in
      case octal of Some v \<Rightarrow> Inr v | None \<Rightarrow>
      (case hex of Some v \<Rightarrow> Inr v | None \<Rightarrow>
      (case uni of Some v \<Rightarrow> if v < 2 ^ 31 then Inr v else Inl UB | None \<Rightarrow>
      (case charesc_char tok of Some v \<Rightarrow> Inr v | None \<Rightarrow> Inl (ArcErr ''invalid character constant'')))))"

definition read_char :: "rparams \<Rightarrow> nat \<Rightarrow> rd \<Rightarrow> val rrun" where
  "read_char P n s =
     rthen (READC P s) (\<lambda>(r, s).
       if r \<noteq> 92 then fail (ArcErr ''invalid character constant'')
       else rthen (READC P s) (\<lambda>(r, s).
         if \<not> issym r then ret (ralloc (OChar r) s)
         else rthen (getsymbol P n (ungetc r s)) (\<lambda>(tok, s).
           case tok of
             Inr _ \<Rightarrow> fail UB
           | Inl tok \<Rightarrow>
               if arc_strlen tok = 1 then ret (ralloc (OChar (tok ! 0)) s)
               else rthen (Some (char_of_token P tok)) (\<lambda>r. ret (ralloc (OChar r) s)))))"

subsection \<open>Strings\<close>

definition string_escape :: "int \<Rightarrow> int option" where
  "string_escape r =
     (if r \<in> {39, 34, 92} then Some r
      else if r = 48 then Some 0 else if r = 97 then Some 7 else if r = 98 then Some 8 else if r = 116 then Some 9
      else if r = 110 then Some 10 else if r = 118 then Some 11 else if r = 102 then Some 12 else if r = 114 then Some 13
      else None)"

text \<open>The loop of \<open>read_string\<close> up to the closing quote, with its three states.\<close>

fun string_loop :: "rparams \<Rightarrow> nat \<Rightarrow> nat \<Rightarrow> port \<Rightarrow> int \<Rightarrow> nat \<Rightarrow> rd \<Rightarrow> port rrun" where
  "string_loop P 0 st buf escrune digcount s = None"
| "string_loop P (Suc n) st buf escrune digcount s =
     rthen (READC P s) (\<lambda>(r, s).
       if st = 1 then
         if r = 34 then ret (buf, s)
         else if r = 92 then string_loop P n 2 buf escrune digcount s
         else rthen (Some (arc_writec r buf)) (\<lambda>buf. string_loop P n 1 buf escrune digcount (newline r s))
       else if st = 2 then
         (case string_escape r of
            Some r \<Rightarrow> rthen (Some (arc_writec r buf)) (\<lambda>buf. string_loop P n 1 buf escrune digcount s)
          | None \<Rightarrow>
              if r = 85 \<or> r = 117 then string_loop P n 3 buf 0 0 s
              else fail (ArcErr ''unknown escape code''))
       else if digcount \<ge> 5 then
         rthen (Some (arc_writec escrune buf)) (\<lambda>buf. string_loop P n 1 buf escrune digcount (ungetc r s))
       else if c_isdigit r then string_loop P n 3 buf (escrune * 16 + (r - 48)) (digcount + 1) s
       else if 65 \<le> r \<and> r \<le> 70 then string_loop P n 3 buf (escrune * 16 + (r - 65 + 10)) (digcount + 1) s
       else if 97 \<le> r \<and> r \<le> 102 then string_loop P n 3 buf (escrune * 16 + (r - 97 + 10)) (digcount + 1) s
       else fail (ArcErr ''invalid character in Unicode escape''))"

text \<open>The first \<open>@\<close> from \<open>i\<close> on that is not doubled.\<close>

fun atpos :: "rstr \<Rightarrow> nat \<Rightarrow> nat option" where
  "atpos (x # y # r) i =
     (if x = 64 then (if y \<noteq> 64 then Some i else atpos r (i + 2)) else atpos (y # r) (i + 1))"
| "atpos _ i = None"

fun unescape_ats :: "rstr \<Rightarrow> rstr" where
  "unescape_ats (x # y # r) = (if x = 64 \<and> y = 64 then 64 # unescape_ats r else x # unescape_ats (y # r))"
| "unescape_ats s = s"

subsection \<open>Data\<close>

text \<open>
  The functions that read parts of a datum take the reader of a datum, \<open>rdr eof\<close>, as an
  argument; \<open>arc_sread\<close> ties the knot.
\<close>

type_synonym rdr = "val \<Rightarrow> rd \<Rightarrow> val rrun"

text \<open>The next character that is not blank and not in a comment.\<close>

fun next_start :: "rparams \<Rightarrow> nat \<Rightarrow> rd \<Rightarrow> int option rrun" where
  "next_start P 0 s = None"
| "next_start P (Suc n) s = rthen (scan P n s) (\<lambda>(ch, s).
     if ch = Some 59 then rthen (read_comment P n s) (\<lambda>s. next_start P n s) else ret (ch, s))"

text \<open>The next cell of the list that starts at \<open>tp\<close> and ends at \<open>lst\<close>.\<close>

definition add_cell :: "val \<Rightarrow> val \<Rightarrow> val \<Rightarrow> rd \<Rightarrow> ((val \<times> val) \<times> rd) res" where
  "add_cell tp lst v s =
     (let (c, s) = rcons v NIL s in
      if lst \<noteq> NIL then rbind (scdr (RHP s) lst c) (\<lambda>(_, h). Inr ((tp, c), s \<lparr> RHP := h \<rparr>))
      else Inr ((c, c), s))"

fun read_list :: "rparams \<Rightarrow> rdr \<Rightarrow> nat \<Rightarrow> val \<Rightarrow> val \<Rightarrow> val \<Rightarrow> bool \<Rightarrow> rd \<Rightarrow> val rrun" where
  "read_list P rdr 0 eof tp lst indot s = None"
| "read_list P rdr (Suc n) eof tp lst indot s =
     rthen (next_start P n s) (\<lambda>(ch, s).
       case ch of
         None \<Rightarrow> ret (eof, s)
       | Some r \<Rightarrow>
           if r = 41 then ret (tp, s)
           else if indot then fail (ArcErr ''illegal use of .'')
           else rthen (rdr eof (ungetc r s)) (\<lambda>(v, s).
             if v = ARC_BUILTIN S_DOT then
               rthen (rdr eof s) (\<lambda>(v, s).
                 if lst \<noteq> NIL then
                   rthen (Some (scdr (RHP s) lst v)) (\<lambda>(_, h). read_list P rdr n eof tp lst True (s \<lparr> RHP := h \<rparr>))
                 else fail (ArcErr ''illegal use of .''))
             else rthen (Some (add_cell tp lst v s)) (\<lambda>((tp, lst), s). read_list P rdr n eof tp lst indot s)))"

fun read_anonf :: "rparams \<Rightarrow> rdr \<Rightarrow> nat \<Rightarrow> val \<Rightarrow> val \<Rightarrow> val \<Rightarrow> rd \<Rightarrow> val rrun" where
  "read_anonf P rdr 0 eof tp lst s = None"
| "read_anonf P rdr (Suc n) eof tp lst s =
     rthen (next_start P n s) (\<lambda>(ch, s).
       case ch of
         None \<Rightarrow> ret (eof, s)
       | Some r \<Rightarrow>
           if r = 93 then
             (let (us, s) = rcons (ARC_BUILTIN S_US) NIL s; (body, s) = rcons tp NIL s; (c, s) = rcons us body s in
              ret (rcons (ARC_BUILTIN S_FN) c s))
           else rthen (rdr eof (ungetc r s)) (\<lambda>(v, s).
             rthen (Some (add_cell tp lst v s)) (\<lambda>((tp, lst), s). read_anonf P rdr n eof tp lst s)))"

definition readq :: "rdr \<Rightarrow> bsym \<Rightarrow> val \<Rightarrow> rd \<Rightarrow> val rrun" where
  "readq rdr qsym eof s =
     rthen (rdr eof s) (\<lambda>(v, s). let (c, s) = rcons v NIL s in ret (rcons (ARC_BUILTIN qsym) c s))"

definition read_comma :: "rparams \<Rightarrow> rdr \<Rightarrow> val \<Rightarrow> rd \<Rightarrow> val rrun" where
  "read_comma P rdr eof s =
     rthen (READC P s) (\<lambda>(r, s).
       if r = 64 then readq rdr S_UNQUOTESP eof s else readq rdr S_UNQUOTE eof (ungetc r s))"

text \<open>Strings with \<open>@\<close>: the port \<open>in\<close> is put in place of the port of the reader.\<close>

fun codestring :: "rdr \<Rightarrow> nat \<Rightarrow> rstr \<Rightarrow> rd \<Rightarrow> val rrun" where
  "codestring rdr 0 str s = None"
| "codestring rdr (Suc n) str s =
     (case atpos str 0 of
        None \<Rightarrow> (let (sv, s) = ralloc (OStr str) s in ret (rcons sv NIL s))
      | Some i \<Rightarrow>
          let (sv, s) = ralloc (OStr (take i str)) s; rest = drop (i + 1) str in
          rthen (rdr NIL (s \<lparr> PT := arc_instring rest, PNAME := ARC_BUILTIN S_STRING \<rparr>)) (\<lambda>(expr, s').
          rthen (Some (arc_tell (PT s'))) (\<lambda>j.
          rthen (Some (arc_substr rest j (int (arc_strlen rest)))) (\<lambda>rest.
          rthen (codestring rdr n rest (s' \<lparr> PT := PT s, PNAME := PNAME s \<rparr>)) (\<lambda>(tl, s).
            let (c, s) = rcons expr tl s in ret (rcons sv c s))))))"

fun unescape_cars :: "nat \<Rightarrow> val \<Rightarrow> heap \<Rightarrow> heap res option" where
  "unescape_cars 0 p h = None"
| "unescape_cars (Suc n) p h =
     (if p = NIL then ret h
      else rthen (Some (rep_cons h p)) (\<lambda>(x, d).
        case x of
          Ref a \<Rightarrow>
            (case mem h a of
               Some (OStr str) \<Rightarrow>
                 (let (b, h) = halloc h (OStr (unescape_ats str)) in
                  rthen (Some (scar h p (Ref b))) (\<lambda>(_, h). unescape_cars n d h))
             | _ \<Rightarrow> unescape_cars n d h)
        | _ \<Rightarrow> unescape_cars n d h))"

definition read_atstring :: "rdr \<Rightarrow> nat \<Rightarrow> rstr \<Rightarrow> rd \<Rightarrow> val rrun" where
  "read_atstring rdr n str s =
     (if atpos str 0 \<noteq> None then
        rthen (codestring rdr n str s) (\<lambda>(cs, s).
        rthen (unescape_cars n cs (RHP s)) (\<lambda>h. ret (rcons (ARC_BUILTIN S_STRING) cs (s \<lparr> RHP := h \<rparr>))))
      else ret (ralloc (OStr (unescape_ats str)) s))"

definition read_string :: "rparams \<Rightarrow> rdr \<Rightarrow> nat \<Rightarrow> rd \<Rightarrow> val rrun" where
  "read_string P rdr n s =
     rthen (string_loop P n 1 arc_outstring 0 0 s) (\<lambda>(buf, s).
     rthen (Some (arc_inside buf)) (\<lambda>str.
       if rp_atstrings P then read_atstring rdr n str s else ret (ralloc (OStr str) s)))"

definition read_datum :: "rparams \<Rightarrow> rdr \<Rightarrow> nat \<Rightarrow> val \<Rightarrow> int \<Rightarrow> rd \<Rightarrow> val rrun" where
  "read_datum P rdr n eof r s =
     (if r = 40 then read_list P rdr n eof NIL NIL False s
      else if r = 41 then fail (ArcErr ''misplaced right paren'')
      else if r = 91 then read_anonf P rdr n eof NIL NIL s
      else if r = 93 then fail (ArcErr ''misplaced right bracket'')
      else if r = 39 then readq rdr S_QUOTE eof s
      else if r = 96 then readq rdr S_QQUOTE eof s
      else if r = 44 then read_comma P rdr eof s
      else if r = 34 then read_string P rdr n s
      else if r = 35 then read_char P n s
      else read_symbol P n (ungetc r s))"

fun arc_sread :: "rparams \<Rightarrow> nat \<Rightarrow> val \<Rightarrow> rd \<Rightarrow> val rrun" where
  "arc_sread P 0 eof s = None"
| "arc_sread P (Suc n) eof s =
     rthen (next_start P n (s \<lparr> LND := set_file (LND s) (PNAME s) \<rparr>)) (\<lambda>(ch, s).
       case ch of
         None \<Rightarrow> ret (eof, s)
       | Some r \<Rightarrow>
           let linenum = get_lineno (LND s) in
           rthen (read_datum P (arc_sread P n) n eof r s) (\<lambda>(v, s).
             ret (v, if htype (RHP s) v = T_CONS then s \<lparr> LND := add_cons_lineno (LND s) v linenum \<rparr> else s)))"

end
