(* ===== verification/Printer.thy ===== *)
theory Printer
  imports Reader
begin

text \<open>
  The writer: \<open>__arc_disp_write\<close> of \<open>src/src/io.c\<close> and the printers of conses (\<open>cons.c\<close>),
  vectors (\<open>vector.c\<close>), tagged objects (\<open>arcueid.c\<close>), symbols (\<open>symbol.c\<close>), fixnums
  (\<open>arith.c\<close>), strings and characters (\<open>string.c\<close>). The table \<open>visithash\<close> of the objects that
  are being printed is a map from visit keys; a printer that is not given one makes an empty one,
  so the outermost call starts with the empty map.
\<close>

subsection \<open>Objects that are being visited\<close>

type_synonym visits = "int \<Rightarrow> val option"

definition visit2 :: "val \<Rightarrow> visits \<Rightarrow> val \<Rightarrow> val \<times> visits" where
  "visit2 v vh mykeyval =
     (let keyval = visitkey v; mykeyval = (if mykeyval = NIL then Fix keyval else mykeyval) in
      case vh keyval of None \<Rightarrow> (NIL, vh(keyval \<mapsto> mykeyval)) | Some w \<Rightarrow> (w, vh))"

definition visit :: "val \<Rightarrow> visits \<Rightarrow> val \<times> visits" where
  "visit v vh = visit2 v vh NIL"

definition visitp :: "val \<Rightarrow> visits \<Rightarrow> bool" where
  "visitp v vh \<longleftrightarrow> vh (visitkey v) \<noteq> None"

definition unvisit :: "val \<Rightarrow> visits \<Rightarrow> visits" where
  "unvisit v vh = vh(visitkey v := None)"

subsection \<open>Atoms\<close>

text \<open>
  Arguments: the symbol tables, the heap, the rune behind a string, and the printer of the other
  types.
\<close>

type_synonym out = "port \<times> visits"

record wparams =
  wp_syms :: symbols
  wp_heap :: heap
  wp_pad :: int
  wp_other :: "val \<Rightarrow> bool \<Rightarrow> out \<Rightarrow> out res option"

text \<open>Writing the runes of a string one by one, as \<open>string_pprint\<close> does.\<close>

fun emit_runes :: "rstr \<Rightarrow> port \<Rightarrow> port res" where
  "emit_runes [] p = Inr p"
| "emit_runes (r # t) p = rbind (arc_writec r p) (emit_runes t)"

definition put :: "rstr \<Rightarrow> out \<Rightarrow> out res option" where
  "put t = (\<lambda>(p, vh). Some (rbind (emit_runes t p) (\<lambda>p. Inr (p, vh))))"

definition str_pprint :: "wparams \<Rightarrow> rstr \<Rightarrow> bool \<Rightarrow> out \<Rightarrow> out res option" where
  "str_pprint W s disp w = rthen (string_pprint (wp_pad W) disp s) (\<lambda>t. put t w)"

definition disp_cstr :: "wparams \<Rightarrow> string \<Rightarrow> out \<Rightarrow> out res option" where
  "disp_cstr W s = str_pprint W (str_runes s) True"

definition symbol_pprint :: "wparams \<Rightarrow> val \<Rightarrow> out \<Rightarrow> out res option" where
  "symbol_pprint W v w =
     (case sym2name (wp_syms W) v of
        None \<Rightarrow> None
      | Some None \<Rightarrow> wp_other W UNBOUND True w
      | Some (Some (KStr s)) \<Rightarrow> str_pprint W s True w
      | Some (Some _) \<Rightarrow> fail UB)"

definition fixnum_pprint :: "wparams \<Rightarrow> int \<Rightarrow> out \<Rightarrow> out res option" where
  "fixnum_pprint W i = str_pprint W (ld_runes i) True"

definition char_pprint :: "wparams \<Rightarrow> int \<Rightarrow> bool \<Rightarrow> out \<Rightarrow> out res option" where
  "char_pprint W r disp w =
     (if disp then put [r] w
      else case charesc_name r of
        Some escape \<Rightarrow> rthen (disp_cstr W [CHR 0x23, CHR 0x5C] w) (str_pprint W escape True)
      | None \<Rightarrow> put [35, 92, r] w)"

subsection \<open>Compound data\<close>

text \<open>The printers take \<open>__arc_disp_write\<close> as an argument \<open>dw\<close>.\<close>

type_synonym writer = "val \<Rightarrow> bool \<Rightarrow> out \<Rightarrow> out res option"

definition dots :: "wparams \<Rightarrow> out \<Rightarrow> out res option" where
  "dots W = disp_cstr W ''(...)''"

text \<open>An element, or dots if it is being printed already.\<close>

definition elem_pprint :: "wparams \<Rightarrow> writer \<Rightarrow> val \<Rightarrow> bool \<Rightarrow> out \<Rightarrow> out res option" where
  "elem_pprint W dw v disp w = (if visitp v (snd w) then dots W w else dw v disp w)"

text \<open>The loop over the cells of a list; the result has what is left of the list.\<close>

fun cons_loop :: "wparams \<Rightarrow> writer \<Rightarrow> nat \<Rightarrow> val \<Rightarrow> bool \<Rightarrow> out \<Rightarrow> (val \<times> out) res option" where
  "cons_loop W dw 0 sexpr disp w = None"
| "cons_loop W dw (Suc n) sexpr disp w =
     (if htype (wp_heap W) sexpr = T_CONS then
        rthen (Some (rep_cons (wp_heap W) sexpr)) (\<lambda>(x, d).
        rthen (elem_pprint W dw x disp w) (\<lambda>w.
          if visitp d (snd w) then ret (d, w)
          else rthen (if d \<noteq> NIL then put [32] w else ret w) (cons_loop W dw n d disp)))
      else ret (sexpr, w))"

definition cons_pprint :: "wparams \<Rightarrow> writer \<Rightarrow> nat \<Rightarrow> val \<Rightarrow> bool \<Rightarrow> out \<Rightarrow> out res option" where
  "cons_pprint W dw n osexpr disp w =
     (let (seen, vh) = visit osexpr (snd w) in
      if seen \<noteq> NIL then dots W (fst w, vh)
      else
        rthen (put [40] (fst w, vh)) (\<lambda>w.
        rthen (cons_loop W dw n osexpr disp w) (\<lambda>(sexpr, w).
        rthen (if sexpr \<noteq> NIL then rthen (put [32, 46, 32] w) (dw sexpr disp) else ret w) (\<lambda>w.
        rthen (put [41] w) (\<lambda>w. ret (fst w, unvisit osexpr (snd w)))))))"

fun vector_loop :: "wparams \<Rightarrow> writer \<Rightarrow> val list \<Rightarrow> bool \<Rightarrow> out \<Rightarrow> out res option" where
  "vector_loop W dw [] disp w = ret w"
| "vector_loop W dw (v # vs) disp w =
     rthen (elem_pprint W dw v disp w) (\<lambda>w.
     rthen (if vs \<noteq> [] then put [32] w else ret w) (vector_loop W dw vs disp))"

definition vector_pprint :: "wparams \<Rightarrow> writer \<Rightarrow> val \<Rightarrow> val list \<Rightarrow> bool \<Rightarrow> out \<Rightarrow> out res option" where
  "vector_pprint W dw sexpr vs disp w =
     (let (seen, vh) = visit sexpr (snd w) in
      if seen \<noteq> NIL then dots W (fst w, vh)
      else
        rthen (put [35, 40] (fst w, vh)) (\<lambda>w.
        rthen (vector_loop W dw vs disp w) (\<lambda>w.
        rthen (put [41] w) (\<lambda>w. ret (fst w, unvisit sexpr (snd w))))))"

definition tagged_pprint :: "wparams \<Rightarrow> writer \<Rightarrow> val \<Rightarrow> val \<Rightarrow> val \<Rightarrow> bool \<Rightarrow> out \<Rightarrow> out res option" where
  "tagged_pprint W dw sexpr ty rep disp w =
     (let (seen, vh) = visit sexpr (snd w) in
      if seen \<noteq> NIL then dots W (fst w, vh)
      else
        rthen (disp_cstr W ''#(tagged '' (fst w, vh)) (\<lambda>w.
        rthen (dw ty disp w) (\<lambda>w.
        rthen (put [32] w) (\<lambda>w.
        rthen (dw rep disp w) (\<lambda>w.
        rthen (put [41] w) (\<lambda>w. ret (fst w, unvisit sexpr (snd w))))))))"

text \<open>Nil prints as its symbol; true is its symbol.\<close>

fun arc_disp_write :: "wparams \<Rightarrow> nat \<Rightarrow> writer" where
  "arc_disp_write W 0 arg disp w = None"
| "arc_disp_write W (Suc n) arg disp w =
     (let arg = (if arg = NIL then ARC_BUILTIN S_NIL else arg); dw = arc_disp_write W n in
      case arg of
        Fix i \<Rightarrow> fixnum_pprint W i w
      | Sym _ \<Rightarrow> symbol_pprint W arg w
      | Ref a \<Rightarrow>
          (case mem (wp_heap W) a of
             Some (OCons _ _) \<Rightarrow> cons_pprint W dw n arg disp w
           | Some (OStr s) \<Rightarrow> str_pprint W s disp w
           | Some (OChar r) \<Rightarrow> char_pprint W r disp w
           | Some (OBlk ty vs) \<Rightarrow>
               if ty = T_VECTOR then vector_pprint W dw arg vs disp w
               else if ty = T_TAGGED then (case vs of [t, r] \<Rightarrow> tagged_pprint W dw arg t r disp w | _ \<Rightarrow> fail UB)
               else wp_other W arg disp w
           | None \<Rightarrow> fail UB)
      | _ \<Rightarrow> wp_other W arg disp w)"

definition arc_disp :: "wparams \<Rightarrow> nat \<Rightarrow> val \<Rightarrow> port \<Rightarrow> port res option" where
  "arc_disp W n arg p = rthen (arc_disp_write W n arg True (p, \<lambda>_. None)) (\<lambda>w. ret (fst w))"

definition arc_write :: "wparams \<Rightarrow> nat \<Rightarrow> val \<Rightarrow> port \<Rightarrow> port res option" where
  "arc_write W n arg p = rthen (arc_disp_write W n arg False (p, \<lambda>_. None)) (\<lambda>w. ret (fst w))"

end
