(* ===== verification/ReadBack.thy ===== *)
theory ReadBack
  imports Printer
begin

text \<open>
  What the writer prints, the reader reads back. The data are trees of conses over nil,
  fixnums, symbols, strings and characters; \<open>text_of\<close> is their text.
\<close>

subsection \<open>Tokens are read as they are\<close>

lemma readc_some:
  assumes "delivers (PT s) (r # rs)"
  shows "\<exists>p. readc P s = ret (Some r, s \<lparr> PT := p \<rparr>) \<and> delivers p rs \<and> UNGET p < 0"
  using deliver_get [OF assms, of "rp_junk P"] by (auto simp: readc_def)

lemma readc_none:
  assumes "delivers (PT s) []"
  shows "\<exists>p. readc P s = ret (None, s \<lparr> PT := p \<rparr>) \<and> delivers p [] \<and> UNGET p < 0"
  using deliver_get [OF assms, of "rp_junk P"] by (auto simp: readc_def)

lemma nl_space: "ucisnl r \<Longrightarrow> ucisspace r"
  by (auto simp: ucisnl_def ucisspace_def)

lemma space32: "ucisspace 32" "\<not> ucisnl 32"
  by (simp_all add: ucisspace_def ucisnl_def)

lemma newline_other: "\<not> ucisnl r \<Longrightarrow> newline r s = s"
  by (simp add: newline_def)

text \<open>Blanks in front of a character are skipped.\<close>

lemma scan_blanks:
  "delivers (PT s) (replicate k 32 @ r # t) \<Longrightarrow> \<not> ucisspace r \<Longrightarrow> k < n \<Longrightarrow>
    \<exists>p. scan P n s = ret (Some r, s \<lparr> PT := p \<rparr>) \<and> delivers p t \<and> UNGET p < 0"
proof (induction k arbitrary: s n)
  case 0
  then obtain p where "readc P s = ret (Some r, s \<lparr> PT := p \<rparr>)" "delivers p t" "UNGET p < 0"
    using readc_some [of s r t P] by auto
  moreover have "\<not> ucisnl r" using 0(2) nl_space by blast
  ultimately show ?case using 0 by (cases n) (auto simp: newline_other)
next
  case (Suc k)
  obtain p where p: "readc P s = ret (Some 32, s \<lparr> PT := p \<rparr>)" "delivers p (replicate k 32 @ r # t)"
    using readc_some [of s 32 _ P] Suc.prems(1) by auto
  obtain m where n: "n = Suc m" "k < m" using Suc.prems(3) by (cases n) auto
  obtain q where "scan P m (s \<lparr> PT := p \<rparr>) = ret (Some r, s \<lparr> PT := p \<rparr> \<lparr> PT := q \<rparr>)" "delivers q t" "UNGET q < 0"
    using Suc.IH [of "s \<lparr> PT := p \<rparr>" m] p(2) n(2) Suc.prems(2) by auto
  then show ?case using p(1) n(1) by (auto simp: newline_other space32)
qed

lemma start_blanks:
  assumes "delivers (PT s) (replicate k 32 @ r # t)" and "\<not> ucisspace r" and "r \<noteq> 59" and "k + 1 < n"
  shows "\<exists>p. next_start P n s = ret (Some r, s \<lparr> PT := p \<rparr>) \<and> delivers p t \<and> UNGET p < 0"
proof -
  obtain m where n: "n = Suc m" "k < m" using assms(4) by (cases n) auto
  show ?thesis using scan_blanks [OF assms(1,2) n(2), of P] assms(3) n(1) by auto
qed

text \<open>What may follow a token.\<close>

definition ends :: "rstr \<Rightarrow> bool" where
  "ends rest \<longleftrightarrow> rest = [] \<or> \<not> issym (hd rest) \<and> 0 \<le> hd rest \<and> hd rest \<noteq> Runeerror"

definition token_chars :: "rstr \<Rightarrow> bool" where
  "token_chars t \<longleftrightarrow> (\<forall>r \<in> set t. issym r \<and> r \<noteq> Runeerror)"

declare getsymbol_loop.simps [simp del]

lemma sym_not: "issym r \<Longrightarrow> r \<notin> {40, 41, 39, 59, 91, 93}"
  by (simp add: issym_def)

lemma slash_sym: "issym 47"
  by (simp add: issym_def ucisspace_def)

lemma getsym_first:
  "readc P s = ret (Some r, s') \<Longrightarrow> issym r \<Longrightarrow> r \<noteq> Runeerror \<Longrightarrow> arc_writec r buf = Inr buf' \<Longrightarrow>
    getsymbol_loop P (Suc n) 0 cf ml buf s = getsymbol_loop P n (if r = 114 then 1 else 5) cf ml buf' s'"
  by (cases "r = 114"; subst getsymbol_loop.simps) (simp_all add: READC2_def write_ch_def)

lemma getsym_next:
  "readc P s = ret (Some r, s') \<Longrightarrow> issym r \<Longrightarrow> r \<noteq> Runeerror \<Longrightarrow> arc_writec r buf = Inr buf' \<Longrightarrow> st = 5 \<or> st = 1 \<and> r \<noteq> 47 \<Longrightarrow>
    getsymbol_loop P (Suc n) st cf ml buf s = getsymbol_loop P n 5 cf ml buf' s'"
  by (elim disjE conjE; subst getsymbol_loop.simps) (simp_all add: READC2_def write_ch_def)

lemma getsym_stop:
  "readc P s = ret (Some r, s') \<Longrightarrow> \<not> issym r \<Longrightarrow> r \<noteq> Runeerror \<Longrightarrow> st = 5 \<or> st = 1 \<Longrightarrow>
    getsymbol_loop P (Suc n) st cf ml buf s = ret ((5, cf, ml, buf), ungetc r s')"
  using slash_sym by (elim disjE; subst getsymbol_loop.simps; cases "r = 47") (simp_all add: READC2_def)

lemma getsym_eof:
  "readc P s = ret (None, s') \<Longrightarrow> st = 5 \<or> st = 1 \<Longrightarrow>
    getsymbol_loop P (Suc n) st cf ml buf s = ret ((5, cf, ml, buf), s')"
  by (elim disjE; subst getsymbol_loop.simps) (simp_all add: READC2_def Runeerror_def)

lemma getsym_end:
  assumes "delivers (PT s) rest" and "ends rest" and "st = 5 \<or> st = 1"
  shows "\<exists>p. getsymbol_loop P (Suc n) st cf ml buf s = ret ((5, cf, ml, buf), s \<lparr> PT := p \<rparr>) \<and> delivers p rest"
proof (cases rest)
  case Nil
  then obtain p where "readc P s = ret (None, s \<lparr> PT := p \<rparr>)" "delivers p rest" using readc_none [of s P] assms(1) by auto
  then show ?thesis using getsym_eof assms(3) by blast
next
  case (Cons r t)
  then obtain p where p: "readc P s = ret (Some r, s \<lparr> PT := p \<rparr>)" "delivers p t" "UNGET p < 0"
    using readc_some assms(1) by blast
  have r: "\<not> issym r" "0 \<le> r" "r \<noteq> Runeerror" using assms(2) Cons by (auto simp: ends_def)
  have "getsymbol_loop P (Suc n) st cf ml buf s = ret ((5, cf, ml, buf), s \<lparr> PT := arc_ungetc_rune r p \<rparr>)"
    using getsym_stop [OF p(1) r(1,3) assms(3)] by (simp add: ungetc_def)
  then show ?thesis using deliver_unget [OF p(2,3) r(2)] Cons by blast
qed

lemma getsym_body:
  "delivers (PT s) (t @ rest) \<Longrightarrow> token_chars t \<Longrightarrow> ends rest \<Longrightarrow> outport buf b \<Longrightarrow> length t < n \<Longrightarrow>
    \<exists>p buf'. getsymbol_loop P n 5 cf ml buf s = ret ((5, cf, ml, buf'), s \<lparr> PT := p \<rparr>) \<and> delivers p rest \<and> outport buf' (b @ t)"
proof (induction t arbitrary: s b buf n)
  case Nil
  obtain m where "n = Suc m" using Nil(5) by (cases n) auto
  moreover obtain p where "getsymbol_loop P (Suc m) 5 cf ml buf s = ret ((5, cf, ml, buf), s \<lparr> PT := p \<rparr>)" "delivers p rest"
    using getsym_end [of s rest 5 P m cf ml buf] Nil by auto
  ultimately show ?case using Nil(4) by auto
next
  case (Cons r t)
  obtain m where n: "n = Suc m" "length t < m" using Cons.prems(5) by (cases n) auto
  obtain p where p: "readc P s = ret (Some r, s \<lparr> PT := p \<rparr>)" "delivers p (t @ rest)"
    using readc_some Cons.prems(1) by fastforce
  have r: "issym r" "r \<noteq> Runeerror" "token_chars t" using Cons.prems(2) by (simp_all add: token_chars_def)
  obtain buf1 where w: "arc_writec r buf = Inr buf1" "outport buf1 (b @ [r])" using writec_appends [OF Cons.prems(4)] by blast
  have "delivers (PT (s \<lparr> PT := p \<rparr>)) (t @ rest)" using p(2) by simp
  from Cons.IH [OF this r(3) Cons.prems(3) w(2) n(2)]
  obtain q buf' where "getsymbol_loop P m 5 cf ml buf1 (s \<lparr> PT := p \<rparr>) = ret ((5, cf, ml, buf'), s \<lparr> PT := q \<rparr>)"
    "delivers q rest" "outport buf' (b @ r # t)" by auto
  then show ?case using getsym_next [OF p(1) r(1,2) w(1)] n(1) by auto
qed

definition token :: "rstr \<Rightarrow> bool" where
  "token t \<longleftrightarrow> t \<noteq> [] \<and> token_chars t \<and> take 2 t \<noteq> [114, 47]"

lemma getsymbol_token:
  assumes "delivers (PT s) (t @ rest)" and "token t" and "ends rest" and "length t < n"
  shows "\<exists>p. getsymbol P n s = ret (Inl t, s \<lparr> PT := p \<rparr>) \<and> delivers p rest"
proof -
  obtain r u where t: "t = r # u" using assms(2) by (auto simp: token_def neq_Nil_conv)
  have r: "issym r" "r \<noteq> Runeerror" "token_chars u" using assms(2) t by (simp_all add: token_def token_chars_def)
  obtain m where n: "n = Suc m" "length u < m" using assms(4) t by (cases n) auto
  obtain p where p: "readc P s = ret (Some r, s \<lparr> PT := p \<rparr>)" "delivers p (u @ rest)"
    using readc_some assms(1) t by fastforce
  obtain buf1 where w: "arc_writec r arc_outstring = Inr buf1" "outport buf1 [r]"
    using writec_appends [OF outport_new] by fastforce
  have d: "delivers (PT (s \<lparr> PT := p \<rparr>)) (u @ rest)" using p(2) by simp
  have "\<exists>q buf'. getsymbol_loop P m (if r = 114 then 1 else 5) False False buf1 (s \<lparr> PT := p \<rparr>)
      = ret ((5, False, False, buf'), s \<lparr> PT := q \<rparr>) \<and> delivers q rest \<and> outport buf' (r # u)"
  proof (cases "r = 114")
    case False
    then show ?thesis using getsym_body [OF d r(3) assms(3) w(2) n(2), of P False False] by auto
  next
    case True
    obtain m' where m: "m = Suc m'" using n(2) by (cases m) auto
    show ?thesis
    proof (cases u)
      case Nil
      then have "delivers (PT (s \<lparr> PT := p \<rparr>)) rest" using d by simp
      from getsym_end [OF this assms(3), of 1 P m' False False buf1] show ?thesis using True m Nil w(2) by auto
    next
      case (Cons x v)
      then have x: "issym x" "x \<noteq> Runeerror" "token_chars v" "x \<noteq> 47" "length v < m'"
        using r(3) assms(2) t True n(2) m by (auto simp: token_chars_def token_def numeral_eq_Suc)
      obtain q where q: "readc P (s \<lparr> PT := p \<rparr>) = ret (Some x, s \<lparr> PT := q \<rparr>)" "delivers q (v @ rest)"
        using readc_some [of "s \<lparr> PT := p \<rparr>" x "v @ rest" P] d Cons by auto
      obtain buf2 where w2: "arc_writec x buf1 = Inr buf2" "outport buf2 [r, x]" using writec_appends [OF w(2)] by fastforce
      have "delivers (PT (s \<lparr> PT := q \<rparr>)) (v @ rest)" using q(2) by simp
      from getsym_body [OF this x(3) assms(3) w2(2) x(5), of P False False]
      obtain q' buf' where "getsymbol_loop P m' 5 False False buf2 (s \<lparr> PT := q \<rparr>) = ret ((5, False, False, buf'), s \<lparr> PT := q' \<rparr>)"
        "delivers q' rest" "outport buf' (r # x # v)" by auto
      then show ?thesis using True m Cons getsym_next [OF q(1) x(1,2) w2(1), of 1] x(4) by auto
    qed
  qed
  then obtain q buf' where g: "getsymbol_loop P m (if r = 114 then 1 else 5) False False buf1 (s \<lparr> PT := p \<rparr>)
      = ret ((5, False, False, buf'), s \<lparr> PT := q \<rparr>)" "delivers q rest" "outport buf' (r # u)" by blast
  have "getsymbol_loop P n 0 False False arc_outstring s = ret ((5, False, False, buf'), s \<lparr> PT := q \<rparr>)"
    using getsym_first [OF p(1) r(1,2) w(1)] n(1) g(1) by simp
  then show ?thesis using t outport_inside [OF g(3)] g(2) by (auto simp: getsymbol_def)
qed

subsection \<open>Data and their text\<close>

datatype sx = XNil | XInt int | XSym rstr | XStr rstr | XChar int | XPair sx sx

definition char_text :: "int \<Rightarrow> rstr" where
  "char_text r = (case charesc_name r of None \<Rightarrow> [r] | Some n \<Rightarrow> n)"

fun text_of :: "sx \<Rightarrow> rstr" and tail_of :: "sx \<Rightarrow> rstr" where
  "text_of XNil = [110, 105, 108]"
| "text_of (XInt i) = ld_runes i"
| "text_of (XSym n) = n"
| "text_of (XStr t) = 34 # t @ [34]"
| "text_of (XChar r) = 35 # 92 # char_text r"
| "text_of (XPair a d) = 40 # text_of a @ tail_of d"
| "tail_of XNil = [41]"
| "tail_of (XPair a d) = 32 # text_of a @ tail_of d"
| "tail_of (XInt i) = [32, 32, 46, 32] @ ld_runes i @ [41]"
| "tail_of (XSym n) = [32, 32, 46, 32] @ n @ [41]"
| "tail_of (XStr t) = [32, 32, 46, 32] @ 34 # t @ [34, 41]"
| "tail_of (XChar r) = [32, 32, 46, 32] @ 35 # 92 # char_text r @ [41]"

text \<open>
  The data with a readable text: the names of symbols are tokens that no other rule of the
  reader claims, and are interned; strings have no quote, backslash or control character, which
  the writer does not escape; characters are not the one that stands for errors.
\<close>

definition plain_start :: "rstr \<Rightarrow> bool" where
  "plain_start t \<longleftrightarrow> 0 \<le> hd t \<and> hd t \<notin> {96, 44, 34, 35}"

definition symbol_text :: "rparams \<Rightarrow> symbols \<Rightarrow> rstr \<Rightarrow> bool" where
  "symbol_text P c n \<longleftrightarrow> token n \<and> plain_start n \<and> n \<noteq> [46] \<and> (\<forall>h. arc_string2num (rp_nums P) h n = Inr (NIL, h))"

fun readable :: "rparams \<Rightarrow> symbols \<Rightarrow> sx \<Rightarrow> bool" where
  "readable P c XNil \<longleftrightarrow> symbol_text P c [110, 105, 108] \<and> intern (ARC_BUILTIN S_NIL) c (KStr [110, 105, 108]) = Some (NIL, c)"
| "readable P c (XInt i) \<longleftrightarrow> \<bar>i\<bar> \<le> FIX_MAX"
| "readable P c (XSym n) \<longleftrightarrow> symbol_text P c n
     \<and> (\<exists>k. intern (ARC_BUILTIN S_NIL) c (KStr n) = Some (Sym k, c) \<and> Sym k \<noteq> ARC_BUILTIN S_DOT)"
| "readable P c (XStr t) \<longleftrightarrow> (\<forall>r \<in> set t. 32 \<le> r \<and> r \<noteq> 34 \<and> r \<noteq> 92)"
| "readable P c (XChar r) \<longleftrightarrow> 0 \<le> r \<and> r \<noteq> Runeerror"
| "readable P c (XPair a d) \<longleftrightarrow> readable P c a \<and> readable P c d"

text \<open>A value that is the datum, in cells from \<open>lo\<close> on.\<close>

fun datum :: "symbols \<Rightarrow> nat \<Rightarrow> heap \<Rightarrow> val \<Rightarrow> sx \<Rightarrow> bool" where
  "datum c lo h v XNil \<longleftrightarrow> v = NIL"
| "datum c lo h v (XInt i) \<longleftrightarrow> v = Fix i"
| "datum c lo h v (XSym n) \<longleftrightarrow> (\<exists>k. v = Sym k \<and> intern (ARC_BUILTIN S_NIL) c (KStr n) = Some (v, c))"
| "datum c lo h v (XStr t) \<longleftrightarrow> (\<exists>a \<ge> lo. v = Ref a \<and> mem h a = Some (OStr t))"
| "datum c lo h v (XChar r) \<longleftrightarrow> (\<exists>a \<ge> lo. v = Ref a \<and> mem h a = Some (OChar r))"
| "datum c lo h v (XPair x y) \<longleftrightarrow> (\<exists>a \<ge> lo. \<exists>u w. v = Ref a \<and> mem h a = Some (OCons u w) \<and> datum c lo h u x \<and> datum c lo h w y)"

lemma datum_mono:
  "datum c lo h v x \<Longrightarrow> lo' \<le> lo \<Longrightarrow> (\<forall>a \<ge> lo. mem h a \<noteq> None \<longrightarrow> mem h' a = mem h a) \<Longrightarrow> datum c lo' h' v x"
proof (induction x arbitrary: v)
  case (XPair x y)
  then obtain a u w where a: "a \<ge> lo" "v = Ref a" "mem h a = Some (OCons u w)" "datum c lo h u x" "datum c lo h w y" by auto
  then have "mem h' a = Some (OCons u w)" using XPair.prems(3) by simp
  moreover have "datum c lo' h' u x" "datum c lo' h' w y" using XPair a by blast+
  ultimately show ?case using a(1,2) XPair.prems(2) by (auto intro: le_trans)
qed (fastforce intro: le_trans)+

subsection \<open>Atoms\<close>

text \<open>
  Reading from the character \<open>r\<close> that was found: the datum \<open>x\<close> is read, the rest is left, the
  heap only grows and the symbol tables stay.
\<close>

definition reads :: "rd \<Rightarrow> rstr \<Rightarrow> sx \<Rightarrow> val rrun \<Rightarrow> bool" where
  "reads s rest x r \<longleftrightarrow> (\<exists>v s'. r = ret (v, s') \<and> delivers (PT s') rest \<and> RSYMS s' = RSYMS s
     \<and> grown (RHP s) (RHP s') \<and> datum (RSYMS s) (brk (RHP s)) (RHP s') v x \<and> v \<noteq> ARC_BUILTIN S_DOT)"

lemma readsI:
  "r = ret (v, s') \<Longrightarrow> delivers (PT s') rest \<Longrightarrow> RSYMS s' = RSYMS s \<Longrightarrow> grown (RHP s) (RHP s') \<Longrightarrow>
    datum (RSYMS s) (brk (RHP s)) (RHP s') v x \<Longrightarrow> v \<noteq> ARC_BUILTIN S_DOT \<Longrightarrow> reads s rest x r"
  unfolding reads_def by blast

lemma strcmp_dot: "arc_strcmp t [46] = 0 \<longleftrightarrow> t = [46]"
proof (cases t)
  case (Cons r u)
  then show ?thesis by (cases u) (auto simp: arc_strcmp_def Let_def)
qed (simp add: arc_strcmp_def)

lemma read_symbol_text:
  assumes "delivers (PT s) (t @ rest)" and "token t" and "ends rest" and "length t < n" and "t \<noteq> [46]"
    and "arc_string2num (rp_nums P) (RHP s) t = Inr (num, h)"
  shows "\<exists>p. delivers p rest \<and> read_symbol P n s =
    (if num \<noteq> NIL then ret (num, s \<lparr> PT := p, RHP := h \<rparr>)
     else (case intern (ARC_BUILTIN S_NIL) (RSYMS s) (KStr t) of None \<Rightarrow> None
       | Some (v, c) \<Rightarrow> ret (v, s \<lparr> PT := p, RHP := h, RSYMS := c \<rparr>)))"
proof -
  obtain p where "getsymbol P n s = ret (Inl t, s \<lparr> PT := p \<rparr>)" "delivers p rest"
    using getsymbol_token [OF assms(1-4)] by blast
  then show ?thesis using assms(5,6) strcmp_dot by (auto simp: read_symbol_def split: option.splits)
qed

lemma ralloc_eq:
  assumes "heap_ok (RHP s)"
  shows "\<exists>h. ralloc ob s = (Ref (brk (RHP s)), s \<lparr> RHP := h \<rparr>) \<and> grown (RHP s) h \<and> mem h (brk (RHP s)) = Some ob \<and> brk h = Suc (brk (RHP s))"
proof -
  obtain a h where h: "halloc (RHP s) ob = (a, h)" by fastforce
  then have "brk h = Suc (brk (RHP s))" by (auto simp: halloc_def)
  then show ?thesis using h halloc_grown [OF assms h] by (auto simp: ralloc_def)
qed

lemma reads_cong: "RHP s = RHP s1 \<Longrightarrow> RSYMS s = RSYMS s1 \<Longrightarrow> reads s1 rest x r \<Longrightarrow> reads s rest x r"
  by (simp add: reads_def)

lemma reads_alloc:
  assumes "heap_ok (RHP s)" and "delivers (PT s) rest" and "ob = OChar r \<and> x = XChar r \<or> ob = OStr t \<and> x = XStr t"
  shows "reads s rest x (ret (ralloc ob s))"
proof -
  obtain h where h: "ralloc ob s = (Ref (brk (RHP s)), s \<lparr> RHP := h \<rparr>)" "grown (RHP s) h" "mem h (brk (RHP s)) = Some ob"
    using ralloc_eq [OF assms(1), of ob] by blast
  show ?thesis unfolding h(1)
    by (rule readsI [where v = "Ref (brk (RHP s))" and s' = "s \<lparr> RHP := h \<rparr>"])
      (use h(2,3) assms(2,3) in \<open>auto simp: ARC_BUILTIN_def\<close>)
qed

text \<open>Characters.\<close>

definition char_names :: "(rstr \<times> int) list" where
  "char_names = map (\<lambda>(n, c). (str_runes n, c)) chartbl"

lemma char_names_eq:
  "char_names = [([110, 117, 108, 108], 0), ([110, 117, 108], 0), ([98, 97, 99, 107, 115, 112, 97, 99, 101], 8), ([116, 97, 98], 9),
     ([110, 101, 119, 108, 105, 110, 101], 10), ([118, 116, 97, 98], 11), ([112, 97, 103, 101], 12),
     ([114, 101, 116, 117, 114, 110], 13), ([115, 112, 97, 99, 101], 32), ([114, 117, 98, 111, 117, 116], 127)]"
  by (simp add: char_names_def chartbl_def str_runes_def)

lemma charesc_names:
  assumes "charesc_name r = Some t"
  shows "(t, r) \<in> set char_names"
proof -
  have "(r, t) \<in> set (rev (map (\<lambda>(n, c). (c, str_runes n)) chartbl))"
    using assms unfolding charesc_name_def by (rule map_of_SomeD)
  then show ?thesis by (auto simp: char_names_def)
qed

lemma names_back: "charesc_name r = Some t \<Longrightarrow> charesc_char t = Some r"
  unfolding charesc_char_def char_names_def [symmetric]
  by (drule charesc_names, rule map_of_is_SomeI) (simp_all add: char_names_eq)

lemma names_tokens: "\<forall>(t, r) \<in> set char_names. token t \<and> 2 \<le> length t \<and> length t \<le> 9 \<and> 0 \<le> hd t"
  unfolding char_names_eq by (simp add: token_def token_chars_def issym_def ucisspace_def Runeerror_def)

lemma names_no_number:
  "\<forall>(t, r) \<in> set char_names. octal_val t = None \<and> (t ! 0 = 120 \<longrightarrow> hex_val (drop 1 t) = None) \<and> c_tolower (t ! 0) \<noteq> 117"
  unfolding char_names_eq by (simp add: octal_val_def c_isdigit_def c_tolower_def)

lemma named_chars:
  assumes "charesc_name r = Some t"
  shows "token t" "2 \<le> length t" "char_of_token P t = Inr r" "length t \<le> 9" "0 \<le> hd t"
proof -
  have t: "(t, r) \<in> set char_names" using charesc_names [OF assms] .
  show tk: "token t" "2 \<le> length t" "length t \<le> 9" "0 \<le> hd t" using names_tokens t by blast+
  have n: "octal_val t = None" "t ! 0 = 120 \<longrightarrow> hex_val (drop 1 t) = None" "c_tolower (t ! 0) \<noteq> 117"
    using names_no_number t by blast+
  have "arc_strindex (rp_pad P) t 0 = t ! 0" using tk(2) by (auto simp: arc_strindex_def)
  then show "char_of_token P t = Inr r" using n names_back [OF assms] by (simp add: char_of_token_def Let_def)
qed

lemma token_start: "token (r # u) \<Longrightarrow> issym r \<and> r \<noteq> Runeerror"
  by (simp add: token_def token_chars_def)

lemma READC_some:
  assumes "delivers (PT s) (r # rs)"
  shows "\<exists>p. READC P s = ret (r, s \<lparr> PT := p \<rparr>) \<and> delivers p rs \<and> UNGET p < 0"
  using readc_some [OF assms, of P] by (auto simp: READC_def)

lemma char_reads:
  assumes "heap_ok (RHP s)" and "delivers (PT s) (92 # char_text r @ rest)" and "ends rest" and "0 \<le> r" and "r \<noteq> Runeerror" and "9 < n"
  shows "reads s rest (XChar r) (read_char P n s)"
proof -
  obtain r1 u where c: "char_text r = r1 # u" "0 \<le> r1"
    using assms(4) named_chars(2,5) [of r] by (cases "charesc_name r"; cases "char_text r") (auto simp: char_text_def)
  obtain p where p: "READC P s = ret (92, s \<lparr> PT := p \<rparr>)" "delivers p (r1 # u @ rest)" using READC_some assms(2) c by fastforce
  then have "delivers (PT (s \<lparr> PT := p \<rparr>)) (r1 # u @ rest)" by simp
  from READC_some [OF this, of P] obtain q where q: "READC P (s \<lparr> PT := p \<rparr>) = ret (r1, s \<lparr> PT := q \<rparr>)" "delivers q (u @ rest)" "UNGET q < 0"
    by auto
  show ?thesis
  proof (cases "issym r1")
    case False
    then have "charesc_name r = None" using c named_chars(1) token_start by (fastforce simp: char_text_def split: option.splits)
    then have "r1 = r" "u = []" using c by (auto simp: char_text_def)
    then have "reads (s \<lparr> PT := q \<rparr>) rest (XChar r) (ret (ralloc (OChar r1) (s \<lparr> PT := q \<rparr>)))"
      using assms(1) q(2) by (intro reads_alloc) simp_all
    then show ?thesis using p(1) q(1) False by (simp add: read_char_def reads_cong [of s "s \<lparr> PT := q \<rparr>"])
  next
    case True
    let ?s = "ungetc r1 (s \<lparr> PT := q \<rparr>)"
    have d: "delivers (PT ?s) ((r1 # u) @ rest)" using deliver_unget [OF q(2,3) c(2)] by (simp add: ungetc_def)
    have t: "token (r1 # u)" "length (r1 # u) < n"
      using True assms(5,6) c named_chars(1,4) [of r]
      by (cases "charesc_name r"; auto simp: char_text_def token_def token_chars_def)+
    obtain p2 where g: "getsymbol P n ?s = ret (Inl (r1 # u), ?s \<lparr> PT := p2 \<rparr>)" "delivers p2 rest"
      using getsymbol_token [OF d t(1) assms(3) t(2)] by blast
    have "reads (?s \<lparr> PT := p2 \<rparr>) rest (XChar r) (ret (ralloc (OChar r) (?s \<lparr> PT := p2 \<rparr>)))"
      using assms(1) g(2) by (intro reads_alloc) (simp_all add: ungetc_def)
    then have "reads s rest (XChar r) (ret (ralloc (OChar r) (?s \<lparr> PT := p2 \<rparr>)))"
      by (rule reads_cong [rotated 2]) (simp_all add: ungetc_def)
    moreover have "read_char P n s = ret (ralloc (OChar r) (?s \<lparr> PT := p2 \<rparr>))"
    proof (cases "charesc_name r")
      case None
      then have "r1 = r" "u = []" using c by (auto simp: char_text_def)
      then show ?thesis using p(1) q(1) True g(1) by (simp add: read_char_def arc_strlen_def)
    next
      case (Some nm)
      then have "char_of_token P (r1 # u) = Inr r" "u \<noteq> []" using named_chars(2,3) [OF Some] c by (auto simp: char_text_def)
      then show ?thesis using p(1) q(1) True g(1) by (simp add: read_char_def arc_strlen_def)
    qed
    ultimately show ?thesis by simp
  qed
qed

text \<open>Strings.\<close>

lemma string_loop_reads:
  "delivers (PT s) (t @ 34 # rest) \<Longrightarrow> \<forall>r \<in> set t. r \<noteq> 34 \<and> r \<noteq> 92 \<Longrightarrow> outport buf b \<Longrightarrow> length t < n \<Longrightarrow>
    \<exists>buf' s'. string_loop P n 1 buf e k s = ret (buf', s') \<and> outport buf' (b @ t) \<and> delivers (PT s') rest
      \<and> RHP s' = RHP s \<and> RSYMS s' = RSYMS s"
proof (induction t arbitrary: s b buf n)
  case Nil
  then obtain m p where "n = Suc m" "READC P s = ret (34, s \<lparr> PT := p \<rparr>)" "delivers p rest"
    using READC_some [of s 34 rest P] by (cases n) auto
  then show ?case using Nil(3) by simp
next
  case (Cons r t)
  obtain m where n: "n = Suc m" "length t < m" using Cons.prems(4) by (cases n) auto
  obtain p where p: "READC P s = ret (r, s \<lparr> PT := p \<rparr>)" "delivers p (t @ 34 # rest)" using READC_some Cons.prems(1) by fastforce
  obtain buf1 where w: "arc_writec r buf = Inr buf1" "outport buf1 (b @ [r])" using writec_appends [OF Cons.prems(3)] by blast
  let ?s = "newline r (s \<lparr> PT := p \<rparr>)"
  have f: "PT ?s = p" "RHP ?s = RHP s" "RSYMS ?s = RSYMS s" by (simp_all add: newline_def)
  have r: "r \<noteq> 34" "r \<noteq> 92" "\<forall>r \<in> set t. r \<noteq> 34 \<and> r \<noteq> 92" using Cons.prems(2) by simp_all
  have "delivers (PT ?s) (t @ 34 # rest)" using p(2) f(1) by simp
  from Cons.IH [OF this r(3) w(2) n(2)] show ?case using p(1) w(1) n(1) r(1,2) f by simp
qed

lemma string_reads:
  assumes "heap_ok (RHP s)" and "delivers (PT s) (t @ 34 # rest)" and "\<forall>r \<in> set t. r \<noteq> 34 \<and> r \<noteq> 92" and "length t < n"
    and "\<not> rp_atstrings P"
  shows "reads s rest (XStr t) (read_string P rdr n s)"
proof -
  obtain buf s' where l: "string_loop P n 1 arc_outstring 0 0 s = ret (buf, s')" "outport buf t" "delivers (PT s') rest"
    "RHP s' = RHP s" "RSYMS s' = RSYMS s"
    using string_loop_reads [OF assms(2,3) outport_new assms(4), of P 0 0] by auto
  have "reads s' rest (XStr t) (ret (ralloc (OStr t) s'))" using assms(1) l(3,4) by (intro reads_alloc) simp_all
  then have "reads s rest (XStr t) (ret (ralloc (OStr t) s'))" using l(4,5) by (intro reads_cong [of s s']) simp_all
  then show ?thesis using l(1) outport_inside [OF l(2)] assms(5) by (simp add: read_string_def)
qed

text \<open>Fixnums and symbols.\<close>

lemma ld_token:
  shows "token (ld_runes i)" "0 \<le> hd (ld_runes i)" "plain_start (ld_runes i)" "ld_runes i \<noteq> [46]"
proof -
  let ?ds = "if i = 0 then [0] else radix_digits 10 (nat \<bar>i\<bar>)"
  have form: "ld_runes i = (if i < 0 then [45] else []) @ map (digit_char False) ?ds" by (simp add: ld_runes_def digit_char_def)
  have "48 \<le> digit_char False d \<and> digit_char False d \<le> 57" if "d \<in> set ?ds" for d
    using that radix_digits_less [of d 10 "nat \<bar>i\<bar>"] by (auto simp: digit_char_def split: if_splits)
  then have r: "\<forall>r \<in> set (ld_runes i). r = 45 \<or> 48 \<le> r \<and> r \<le> 57" unfolding form by auto
  have ne: "ld_runes i \<noteq> []" using radix_digits_nonempty [of 10 "nat \<bar>i\<bar>"] by (auto simp: ld_runes_def)
  then obtain a u where a: "ld_runes i = a # u" by (cases "ld_runes i") auto
  have "\<forall>r \<in> set (ld_runes i). issym r \<and> r \<noteq> Runeerror" using r by (auto simp: issym_def ucisspace_def Runeerror_def)
  then show "token (ld_runes i)" "0 \<le> hd (ld_runes i)" "plain_start (ld_runes i)" "ld_runes i \<noteq> [46]"
    using r a by (auto simp: token_def token_chars_def plain_start_def)
qed

lemma read_datum_symbol:
  "issym r \<Longrightarrow> plain_start (r # u) \<Longrightarrow> read_datum P rdr n eof r s = read_symbol P n (ungetc r s)"
  using sym_not [of r] by (simp add: read_datum_def plain_start_def)

lemma symbol_reads:
  assumes "heap_ok (RHP s)" and "delivers (PT s) (u @ rest)" and "UNGET (PT s) < 0" and "ends rest"
    and "token (r # u)" and "plain_start (r # u)" and "r # u \<noteq> [46]" and "length (r # u) < n"
    and "arc_string2num (rp_nums P) (RHP s) (r # u) = Inr (num, h)"
  shows "\<exists>p. delivers p rest \<and> read_datum P rdr n eof r s =
    (if num \<noteq> NIL then ret (num, s \<lparr> PT := p, RHP := h \<rparr>)
     else (case intern (ARC_BUILTIN S_NIL) (RSYMS s) (KStr (r # u)) of None \<Rightarrow> None
       | Some (v, c) \<Rightarrow> ret (v, s \<lparr> PT := p, RHP := h, RSYMS := c \<rparr>)))"
proof -
  have r: "issym r" "0 \<le> r" using assms(5,6) token_start by (auto simp: plain_start_def)
  have "delivers (PT (ungetc r s)) ((r # u) @ rest)" using deliver_unget [OF assms(2,3) r(2)] by (simp add: ungetc_def)
  from read_symbol_text [OF this assms(5,4,8,7), of P num h] assms(9)
  obtain p where p: "delivers p rest" "read_symbol P n (ungetc r s) =
    (if num \<noteq> NIL then ret (num, (ungetc r s) \<lparr> PT := p, RHP := h \<rparr>)
     else (case intern (ARC_BUILTIN S_NIL) (RSYMS s) (KStr (r # u)) of None \<Rightarrow> None
       | Some (v, c) \<Rightarrow> ret (v, (ungetc r s) \<lparr> PT := p, RHP := h, RSYMS := c \<rparr>)))"
    by (auto simp: ungetc_def)
  have e: "(ungetc r s) \<lparr> PT := p, RHP := h \<rparr> = s \<lparr> PT := p, RHP := h \<rparr>"
    "\<And>c. (ungetc r s) \<lparr> PT := p, RHP := h, RSYMS := c \<rparr> = s \<lparr> PT := p, RHP := h, RSYMS := c \<rparr>" by (simp_all add: ungetc_def)
  show ?thesis using p read_datum_symbol [OF r(1) assms(6)] unfolding e by metis
qed

text \<open>Every datum but a pair, from its first character on.\<close>

lemma atom_reads:
  assumes P: "gmp_ok (rp_nums P)" "\<not> rp_atstrings P"
    and "heap_ok (RHP s)" and "text_of x = r # u" and "delivers (PT s) (u @ rest)" and "UNGET (PT s) < 0" and "ends rest"
    and "readable P (RSYMS s) x" and "\<forall>a d. x \<noteq> XPair a d" and "length u + 9 < n"
  shows "reads s rest x (read_datum P rdr n eof r s)"
proof (cases x)
  case XNil
  then have t: "r # u = [110, 105, 108]" using assms(4) by simp
  have y: "token (r # u)" "plain_start (r # u)" "r # u \<noteq> [46]" "arc_string2num (rp_nums P) (RHP s) (r # u) = Inr (NIL, RHP s)"
    "intern (ARC_BUILTIN S_NIL) (RSYMS s) (KStr (r # u)) = Some (NIL, RSYMS s)"
    using assms(8) XNil unfolding t by (simp_all add: symbol_text_def)
  have "length (r # u) < n" using assms(10) by simp
  from symbol_reads [OF assms(3,5,6,7) y(1-3) this y(4)] y(5)
  obtain p where "delivers p rest" "read_datum P rdr n eof r s = ret (NIL, s \<lparr> PT := p, RHP := RHP s, RSYMS := RSYMS s \<rparr>)"
    by (simp only: refl if_False not_True_eq_False option.case prod.case) blast
  then show ?thesis using XNil assms(3)
    by (intro readsI [where v = NIL and s' = "s \<lparr> PT := p \<rparr>"]) (simp_all add: grown_refl ARC_BUILTIN_def)
next
  case (XInt i)
  then have t: "r # u = ld_runes i" "\<bar>i\<bar> \<le> FIX_MAX" using assms(4,8) by simp_all
  obtain h where h: "arc_string2num (rp_nums P) (RHP s) (r # u) = Inr (Fix i, h)" "grown (RHP s) h"
    using string2num_ld [OF P(1) assms(3) t(2)] t(1) by metis
  have "length (r # u) < n" using assms(10) by simp
  from symbol_reads [OF assms(3,5,6,7) ld_token(1,3,4) [of i, folded t(1)] this h(1)]
  obtain p where "delivers p rest" "read_datum P rdr n eof r s = ret (Fix i, s \<lparr> PT := p, RHP := h \<rparr>)" by auto
  then show ?thesis using XInt h(2)
    by (intro readsI [where v = "Fix i" and s' = "s \<lparr> PT := p, RHP := h \<rparr>"]) (simp_all add: ARC_BUILTIN_def)
next
  case (XSym m)
  then have t: "r # u = m" using assms(4) by simp
  obtain k where y: "token (r # u)" "plain_start (r # u)" "r # u \<noteq> [46]" "arc_string2num (rp_nums P) (RHP s) (r # u) = Inr (NIL, RHP s)"
    "intern (ARC_BUILTIN S_NIL) (RSYMS s) (KStr (r # u)) = Some (Sym k, RSYMS s)" "Sym k \<noteq> ARC_BUILTIN S_DOT"
    using assms(8) XSym unfolding t by (auto simp: symbol_text_def)
  have "length (r # u) < n" using assms(10) by simp
  from symbol_reads [OF assms(3,5,6,7) y(1-3) this y(4)] y(5)
  obtain p where "delivers p rest" "read_datum P rdr n eof r s = ret (Sym k, s \<lparr> PT := p, RHP := RHP s, RSYMS := RSYMS s \<rparr>)"
    by (simp only: refl if_False not_True_eq_False option.case prod.case) blast
  then show ?thesis using XSym y(5,6) assms(3) t
    by (intro readsI [where v = "Sym k" and s' = "s \<lparr> PT := p \<rparr>"]) (simp_all add: grown_refl)
next
  case (XStr t)
  then have t: "r = 34" "u = t @ [34]" "\<forall>r \<in> set t. r \<noteq> 34 \<and> r \<noteq> 92" using assms(4,8) by auto
  then have "delivers (PT s) (t @ 34 # rest)" "length t < n" using assms(5,10) by simp_all
  from string_reads [OF assms(3) this(1) t(3) this(2) P(2)] show ?thesis using XStr t(1) by (simp add: read_datum_def)
next
  case (XChar q)
  then have t: "r = 35" "u = 92 # char_text q" "0 \<le> q" "q \<noteq> Runeerror" using assms(4,8) by auto
  have "delivers (PT s) (92 # char_text q @ rest)" "9 < n" using assms(5,10) t(2) by simp_all
  from char_reads [OF assms(3) this(1) assms(7) t(3,4) this(2)] show ?thesis using XChar t(1) by (simp add: read_datum_def)
qed (use assms(9) in simp)

subsection \<open>Lists\<close>

text \<open>Every text of a datum starts with a character that starts one.\<close>

definition starter :: "int \<Rightarrow> bool" where
  "starter r \<longleftrightarrow> 0 \<le> r \<and> \<not> ucisspace r \<and> r \<noteq> 59 \<and> r \<noteq> 41"

lemma token_starter: "token t \<Longrightarrow> plain_start t \<Longrightarrow> \<exists>r u. t = r # u \<and> starter r"
  by (cases t) (auto simp: token_def token_chars_def plain_start_def starter_def issym_def)

lemma text_starts:
  assumes "readable P c x"
  shows "\<exists>r u. text_of x = r # u \<and> starter r"
proof (cases x)
  case XNil
  then show ?thesis by (simp add: starter_def ucisspace_def)
next
  case (XInt i)
  then show ?thesis using token_starter [OF ld_token(1,3)] by simp
next
  case (XSym n)
  then show ?thesis using assms token_starter by (auto simp: symbol_text_def)
qed (simp_all add: starter_def ucisspace_def)

lemma ends_tail: "ends (tail_of x @ rest)"
  by (cases x) (simp_all add: ends_def issym_def space32 Runeerror_def)

text \<open>The text of an atom or a list, with up to three blanks in front, is read by \<open>rdr\<close>.\<close>

definition good :: "rparams \<Rightarrow> rdr \<Rightarrow> sx \<Rightarrow> bool" where
  "good P rdr x \<longleftrightarrow> (\<forall>s eof k rest. heap_ok (RHP s) \<longrightarrow> k \<le> 1 \<longrightarrow> delivers (PT s) (replicate k 32 @ text_of x @ rest) \<longrightarrow> ends rest \<longrightarrow>
     readable P (RSYMS s) x \<longrightarrow> reads s rest x (rdr eof s))"

definition reads_dot :: "rdr \<Rightarrow> bool" where
  "reads_dot rdr \<longleftrightarrow> (\<forall>s eof rest. heap_ok (RHP s) \<longrightarrow> delivers (PT s) (46 # rest) \<longrightarrow> ends rest \<longrightarrow>
     (\<exists>s'. rdr eof s = ret (ARC_BUILTIN S_DOT, s') \<and> delivers (PT s') rest \<and> RSYMS s' = RSYMS s \<and> RHP s' = RHP s))"

text \<open>
  Reading the rest of a list behind its last cell \<open>L\<close> so far: the cdr of that cell is set, the
  heap is otherwise only added to.
\<close>

definition list_reads :: "rd \<Rightarrow> nat \<Rightarrow> rstr \<Rightarrow> sx \<Rightarrow> val \<Rightarrow> val \<Rightarrow> val rrun \<Rightarrow> bool" where
  "list_reads s L rest x v tp r \<longleftrightarrow> (\<exists>s' w. r = ret (tp, s') \<and> delivers (PT s') rest \<and> RSYMS s' = RSYMS s
     \<and> heap_ok (RHP s') \<and> brk (RHP s) \<le> brk (RHP s') \<and> (\<forall>a < brk (RHP s). a \<noteq> L \<longrightarrow> mem (RHP s') a = mem (RHP s) a)
     \<and> mem (RHP s') L = Some (OCons v w) \<and> datum (RSYMS s) (brk (RHP s)) (RHP s') w x)"

definition good_tail :: "rparams \<Rightarrow> rdr \<Rightarrow> nat \<Rightarrow> sx \<Rightarrow> bool" where
  "good_tail P rdr n x \<longleftrightarrow> (\<forall>s eof rest L v tp. heap_ok (RHP s) \<longrightarrow> delivers (PT s) (tail_of x @ rest) \<longrightarrow> readable P (RSYMS s) x \<longrightarrow>
     mem (RHP s) L = Some (OCons v NIL) \<longrightarrow> list_reads s L rest x v tp (read_list P rdr n eof tp (Ref L) False s))"

lemma start_unget:
  assumes "delivers (PT s) (replicate k 32 @ (r # t))" and "\<not> ucisspace r" and "r \<noteq> 59" and "k + 1 < n" and "0 \<le> r"
  shows "\<exists>s'. next_start P n s = ret (Some r, s') \<and> delivers (PT s') t \<and> delivers (PT (ungetc r s')) (r # t)
    \<and> UNGET (PT s') < 0 \<and> RHP s' = RHP s \<and> RSYMS s' = RSYMS s \<and> RHP (ungetc r s') = RHP s \<and> RSYMS (ungetc r s') = RSYMS s"
proof -
  obtain p where p: "next_start P n s = ret (Some r, s \<lparr> PT := p \<rparr>)" "delivers p t" "UNGET p < 0"
    using start_blanks assms(1-4) by blast
  then show ?thesis using deliver_unget [OF p(2,3) assms(5)] by (auto simp: ungetc_def)
qed

declare read_list.simps [simp del] next_start.simps [simp del]

text \<open>The end of a list.\<close>

lemma list_end:
  assumes "delivers (PT s) (41 # rest)" and "3 < n"
  shows "\<exists>s'. read_list P rdr n eof tp lst indot s = ret (tp, s') \<and> delivers (PT s') rest \<and> RHP s' = RHP s \<and> RSYMS s' = RSYMS s"
proof -
  obtain m where n: "n = Suc m" "0 + 1 < m" using assms(2) by (cases n) auto
  have "delivers (PT s) (replicate 0 32 @ (41 # rest))" "\<not> ucisspace 41" using assms(1) by (simp_all add: ucisspace_def)
  from start_unget [OF this _ n(2), of P]
  obtain s' where "next_start P m s = ret (Some 41, s')" "delivers (PT s') rest" "RHP s' = RHP s" "RSYMS s' = RSYMS s" by auto
  then show ?thesis using n(1) by (auto simp: read_list.simps)
qed

text \<open>One more element of a list.\<close>

lemma list_element:
  assumes "good P rdr x" and "heap_ok (RHP s)" and "delivers (PT s) (replicate k 32 @ text_of x @ rest)" and "k \<le> 1" and "ends rest"
    and "readable P (RSYMS s) x" and "4 < n" and "lst = NIL \<or> lst = Ref L \<and> mem (RHP s) L = Some (OCons v0 NIL)"
  shows "\<exists>s' v C. read_list P rdr (Suc n) eof tp lst False s = read_list P rdr n eof (if lst = NIL then Ref C else tp) (Ref C) False s'
    \<and> delivers (PT s') rest \<and> RSYMS s' = RSYMS s \<and> heap_ok (RHP s') \<and> mem (RHP s') C = Some (OCons v NIL)
    \<and> brk (RHP s) \<le> C \<and> C < brk (RHP s') \<and> (\<forall>a < brk (RHP s). lst \<noteq> Ref a \<longrightarrow> mem (RHP s') a = mem (RHP s) a)
    \<and> (lst = Ref L \<longrightarrow> mem (RHP s') L = Some (OCons v0 (Ref C)))
    \<and> (\<forall>h. (\<forall>a. brk (RHP s) \<le> a \<and> a < brk (RHP s') \<and> a \<noteq> C \<longrightarrow> mem h a = mem (RHP s') a) \<longrightarrow> datum (RSYMS s) (brk (RHP s)) h v x)"
proof -
  obtain r u where x: "text_of x = r # u" "starter r" using text_starts [OF assms(6)] by blast
  have "delivers (PT s) (replicate k 32 @ (r # u @ rest))" "k + 1 < n" using assms(3,4,7) x(1) by simp_all
  from start_unget [OF this(1) _ _ this(2), of P] x(2)
  obtain s1 where s1: "next_start P n s = ret (Some r, s1)" "delivers (PT (ungetc r s1)) (text_of x @ rest)"
    "RHP (ungetc r s1) = RHP s" "RSYMS (ungetc r s1) = RSYMS s" using x(1) by (auto simp: starter_def)
  have "heap_ok (RHP (ungetc r s1))" "0 \<le> (1::nat)" "delivers (PT (ungetc r s1)) (replicate 0 32 @ text_of x @ rest)"
    "readable P (RSYMS (ungetc r s1)) x" using s1 assms(2,6) by simp_all
  from assms(1) [unfolded good_def, rule_format, OF this(1,2,3) assms(5) this(4), of eof]
  obtain v s2 where s2: "rdr eof (ungetc r s1) = ret (v, s2)" "delivers (PT s2) rest" "RSYMS s2 = RSYMS s"
    "grown (RHP s) (RHP s2)" "datum (RSYMS s) (brk (RHP s)) (RHP s2) v x" "v \<noteq> ARC_BUILTIN S_DOT"
    unfolding reads_def s1 by auto
  obtain h3 where c: "cons (RHP s2) v NIL = (Ref (brk (RHP s2)), h3)" "grown (RHP s2) h3" "mem h3 (brk (RHP s2)) = Some (OCons v NIL)"
    using cons_grown [OF grown_ok [OF s2(4)], of v NIL] by (cases "cons (RHP s2) v NIL") auto
  let ?C = "brk (RHP s2)"
  have b: "brk h3 = Suc ?C" using c(1) by (auto simp: cons_def halloc_def)
  let ?h = "if lst = NIL then h3 else hset h3 L (OCons v0 (Ref ?C))"
  have L: "L < brk (RHP s)" "mem h3 L = Some (OCons v0 NIL)" if "lst \<noteq> NIL"
  proof -
    have "mem (RHP s) L = Some (OCons v0 NIL)" using assms(8) that by simp
    moreover then show "L < brk (RHP s)" using assms(2) by (auto simp: heap_ok_def)
    ultimately show "mem h3 L = Some (OCons v0 NIL)" using s2(4) c(2) by (auto simp: grown_def)
  qed
  have step: "add_cell tp lst v s2 = Inr ((if lst = NIL then Ref ?C else tp, Ref ?C), s2 \<lparr> RHP := ?h \<rparr>)"
    using assms(8) L c(1) by (auto simp: add_cell_def rcons_def)
  have run: "read_list P rdr (Suc n) eof tp lst False s
      = read_list P rdr n eof (if lst = NIL then Ref ?C else tp) (Ref ?C) False (s2 \<lparr> RHP := ?h \<rparr>)"
    using s1(1) s2(1,6) x(2) step by (subst read_list.simps) (simp add: starter_def)
  have LC: "lst \<noteq> NIL \<Longrightarrow> L < ?C" using L(1) s2(4) by (auto simp: grown_def)
  have ok: "heap_ok ?h" using c(2) L(2) by (auto simp: grown_def heap_ok_def hset_def)
  have old: "\<forall>a < brk (RHP s). lst \<noteq> Ref a \<longrightarrow> mem ?h a = mem (RHP s) a"
    using s2(4) c(2) assms(8) by (auto simp: grown_def hset_def)
  have data: "datum (RSYMS s) (brk (RHP s)) h v x"
    if "\<forall>a. brk (RHP s) \<le> a \<and> a < brk ?h \<and> a \<noteq> ?C \<longrightarrow> mem h a = mem ?h a" for h
  proof (rule datum_mono [OF s2(5) le_refl], intro allI impI)
    fix a assume a: "brk (RHP s) \<le> a" "mem (RHP s2) a \<noteq> None"
    then have "a < ?C" using grown_ok [OF s2(4)] by (auto simp: heap_ok_def)
    then have "mem h a = mem ?h a" using that a b by (auto simp: hset_def)
    moreover have "mem ?h a = mem h3 a" using a L(1) by (auto simp: hset_def)
    ultimately show "mem h a = mem (RHP s2) a" using c(2) \<open>a < ?C\<close> by (auto simp: grown_def)
  qed
  have cell: "mem ?h ?C = Some (OCons v NIL)" using c(3) LC by (auto simp: hset_def)
  have more: "brk (RHP s) \<le> ?C" "?C < brk ?h" using s2(4) b by (auto simp: grown_def hset_def)
  show ?thesis
    by (rule exI [of _ "s2 \<lparr> RHP := ?h \<rparr>"], rule exI [of _ v], rule exI [of _ ?C])
      (use run s2(2,3) ok cell more old data assms(8) LC in \<open>auto simp: hset_def\<close>)
qed

text \<open>A dot and the last cdr.\<close>

lemma list_dot:
  assumes "good P rdr x" and "reads_dot rdr" and "heap_ok (RHP s)" and "delivers (PT s) ([32, 32, 46, 32] @ text_of x @ 41 # rest)"
    and "readable P (RSYMS s) x" and "5 < n" and "mem (RHP s) L = Some (OCons v NIL)"
  shows "list_reads s L rest x v tp (read_list P rdr n eof tp (Ref L) False s)"
proof -
  obtain m where n: "n = Suc m" "2 + 1 < m" "3 < m" using assms(6) by (cases n) auto
  have "delivers (PT s) (replicate 2 32 @ (46 # 32 # text_of x @ 41 # rest))" using assms(4) by (simp add: numeral_2_eq_2)
  from start_unget [OF this _ _ n(2), of P]
  obtain s1 where s1: "next_start P m s = ret (Some 46, s1)" "delivers (PT (ungetc 46 s1)) (46 # 32 # text_of x @ 41 # rest)"
    "RHP (ungetc 46 s1) = RHP s" "RSYMS (ungetc 46 s1) = RSYMS s" by (auto simp: ucisspace_def)
  have e: "ends (32 # text_of x @ 41 # rest)" by (simp add: ends_def issym_def space32 Runeerror_def)
  have "heap_ok (RHP (ungetc 46 s1))" using s1(3) assms(3) by simp
  from assms(2) [unfolded reads_dot_def, rule_format, OF this s1(2) e, of eof]
  obtain s2 where s2: "rdr eof (ungetc 46 s1) = ret (ARC_BUILTIN S_DOT, s2)" "delivers (PT s2) (32 # text_of x @ 41 # rest)"
    "RSYMS s2 = RSYMS s" "RHP s2 = RHP s" using s1 by auto
  have "heap_ok (RHP s2)" "1 \<le> (1::nat)" "delivers (PT s2) (replicate 1 32 @ text_of x @ 41 # rest)" "ends (41 # rest)" "readable P (RSYMS s2) x"
    using s2 assms(3,5) by (simp_all add: ends_def issym_def Runeerror_def)
  from assms(1) [unfolded good_def, rule_format, OF this, of eof]
  obtain w s3 where s3: "rdr eof s2 = ret (w, s3)" "delivers (PT s3) (41 # rest)" "RSYMS s3 = RSYMS s"
    "grown (RHP s) (RHP s3)" "datum (RSYMS s) (brk (RHP s)) (RHP s3) w x" unfolding reads_def s2 by auto
  have L: "L < brk (RHP s)" "mem (RHP s3) L = Some (OCons v NIL)" using assms(3,7) s3(4) by (auto simp: heap_ok_def grown_def)
  let ?h = "hset (RHP s3) L (OCons v w)"
  have "delivers (PT (s3 \<lparr> RHP := ?h \<rparr>)) (41 # rest)" using s3(2) by simp
  from list_end [OF this n(3), of P rdr eof tp "Ref L" True]
  obtain s4 where s4: "read_list P rdr m eof tp (Ref L) True (s3 \<lparr> RHP := ?h \<rparr>) = ret (tp, s4)" "delivers (PT s4) rest"
    "RHP s4 = ?h" "RSYMS s4 = RSYMS s" using s3(3) by auto
  have run: "read_list P rdr n eof tp (Ref L) False s = ret (tp, s4)"
    using n(1) s1(1) s2(1) s3(1) s4(1) L(2) by (simp add: read_list.simps)
  have d: "datum (RSYMS s) (brk (RHP s)) ?h w x"
    by (rule datum_mono [OF s3(5)]) (use L(1) in \<open>auto simp: hset_def\<close>)
  show ?thesis unfolding list_reads_def using run s4 d s3(4) L
    by (intro exI [of _ s4] exI [of _ w]) (auto simp: grown_def heap_ok_def hset_def)
qed

subsection \<open>The reader\<close>

lemma sread_start:
  assumes "delivers (PT s) (replicate k 32 @ r # t)" and "\<not> ucisspace r" and "r \<noteq> 59" and "k + 1 < n"
  shows "\<exists>s'. delivers (PT s') t \<and> UNGET (PT s') < 0 \<and> RHP s' = RHP s \<and> RSYMS s' = RSYMS s
    \<and> arc_sread P (Suc n) eof s = rthen (read_datum P (arc_sread P n) n eof r s') (\<lambda>(v, s).
        ret (v, if htype (RHP s) v = T_CONS then s \<lparr> LND := add_cons_lineno (LND s) v (get_lineno (LND s')) \<rparr> else s))"
proof -
  let ?s = "s \<lparr> LND := set_file (LND s) (PNAME s) \<rparr>"
  have "delivers (PT ?s) (replicate k 32 @ r # t)" using assms(1) by simp
  from start_blanks [OF this assms(2-4), of P] obtain p where
    "next_start P n ?s = ret (Some r, ?s \<lparr> PT := p \<rparr>)" "delivers p t" "UNGET p < 0" by blast
  then show ?thesis by (intro exI [of _ "?s \<lparr> PT := p \<rparr>"]) simp
qed

lemma reads_lineno:
  "reads s rest x r \<Longrightarrow> reads s rest x (rthen r (\<lambda>(v, s). ret (v, if f s v then s \<lparr> LND := g s v \<rparr> else s)))"
  by (auto simp: reads_def)

lemma sread_dot: "4 < n \<Longrightarrow> reads_dot (arc_sread P n)"
  unfolding reads_dot_def
proof (intro allI impI)
  fix s :: rd and eof rest
  assume a: "4 < n" "heap_ok (RHP s)" "delivers (PT s) (46 # rest)" "ends rest"
  obtain m where n: "n = Suc m" "0 + 1 < m" "length [46 :: int] < m" using a(1) by (cases n) auto
  have "delivers (PT s) (replicate 0 32 @ 46 # rest)" using a(3) by simp
  from sread_start [OF this _ _ n(2), of P eof]
  obtain s1 where s1: "delivers (PT s1) rest" "UNGET (PT s1) < 0" "RHP s1 = RHP s" "RSYMS s1 = RSYMS s"
    "arc_sread P n eof s = rthen (read_datum P (arc_sread P m) m eof 46 s1) (\<lambda>(v, s).
        ret (v, if htype (RHP s) v = T_CONS then s \<lparr> LND := add_cons_lineno (LND s) v (get_lineno (LND s1)) \<rparr> else s))"
    unfolding n(1) by (auto simp: ucisspace_def)
  have t: "token [46]" "issym 46" by (simp_all add: token_def token_chars_def issym_def ucisspace_def Runeerror_def)
  have "delivers (PT (ungetc 46 s1)) ([46] @ rest)" using deliver_unget [OF s1(1,2), of 46] by (simp add: ungetc_def)
  from getsymbol_token [OF this t(1) a(4) n(3), of P]
  obtain p where p: "getsymbol P m (ungetc 46 s1) = ret (Inl [46], (ungetc 46 s1) \<lparr> PT := p \<rparr>)" "delivers p rest" by blast
  have "read_datum P (arc_sread P m) m eof 46 s1 = ret (ARC_BUILTIN S_DOT, (ungetc 46 s1) \<lparr> PT := p \<rparr>)"
    using p(1) strcmp_dot by (simp add: read_datum_def read_symbol_def)
  then show "\<exists>s'. arc_sread P n eof s = ret (ARC_BUILTIN S_DOT, s') \<and> delivers (PT s') rest \<and> RSYMS s' = RSYMS s \<and> RHP s' = RHP s"
    using s1 p(2) by (simp add: ARC_BUILTIN_def htype_def ungetc_def)
qed

text \<open>The fuel: a text is read with a little more than its length.\<close>

lemma good_atom:
  assumes P: "gmp_ok (rp_nums P)" "\<not> rp_atstrings P" and "\<forall>a d. x \<noteq> XPair a d" and "length (text_of x) + 12 \<le> n"
  shows "good P (arc_sread P n) x"
  unfolding good_def
proof (intro allI impI)
  fix s :: rd and eof k rest
  assume a: "heap_ok (RHP s)" "k \<le> (1::nat)" "delivers (PT s) (replicate k 32 @ text_of x @ rest)" "ends rest" "readable P (RSYMS s) x"
  obtain r u where x: "text_of x = r # u" "starter r" using text_starts [OF a(5)] by blast
  obtain m where n: "n = Suc m" "k + 1 < m" "length u + 9 < m" using assms(4) x(1) a(2) by (cases n) auto
  have d: "delivers (PT s) (replicate k 32 @ r # u @ rest)" using a(3) x(1) by simp
  have r: "\<not> ucisspace r" "r \<noteq> 59" using x(2) by (simp_all add: starter_def)
  obtain s1 where s1: "delivers (PT s1) (u @ rest)" "UNGET (PT s1) < 0" "RHP s1 = RHP s" "RSYMS s1 = RSYMS s"
    "arc_sread P n eof s = rthen (read_datum P (arc_sread P m) m eof r s1) (\<lambda>(v, s).
        ret (v, if htype (RHP s) v = T_CONS then s \<lparr> LND := add_cons_lineno (LND s) v (get_lineno (LND s1)) \<rparr> else s))"
    using sread_start [OF d r n(2), of P eof] unfolding n(1) by blast
  have "heap_ok (RHP s1)" "readable P (RSYMS s1) x" using a(1,5) s1(3,4) by simp_all
  from atom_reads [OF P this(1) x(1) s1(1,2) a(4) this(2) assms(3) n(3), of "arc_sread P m" eof]
  have "reads s1 rest x (arc_sread P n eof s)" unfolding s1(5) by (rule reads_lineno)
  then show "reads s rest x (arc_sread P n eof s)" by (rule reads_cong [rotated 2]) (simp_all add: s1(3,4))
qed

lemma good_tail_atom:
  assumes "good P rdr x" and "reads_dot rdr" and "x \<noteq> XNil" and "\<forall>a d. x \<noteq> XPair a d" and "5 < n"
  shows "good_tail P rdr n x"
proof -
  have "tail_of x = [32, 32, 46, 32] @ text_of x @ [41]" using assms(3,4) by (cases x) auto
  then show ?thesis using list_dot [OF assms(1,2) _ _ _ assms(5)] unfolding good_tail_def by simp
qed

lemma good_tail_nil: "3 < n \<Longrightarrow> good_tail P rdr n XNil"
  unfolding good_tail_def list_reads_def using list_end [of _ _ n P rdr] by fastforce

lemma good_tail_pair:
  assumes "good P rdr a" and "good_tail P rdr n d" and "4 < n"
  shows "good_tail P rdr (Suc n) (XPair a d)"
  unfolding good_tail_def
proof (intro allI impI)
  fix s :: rd and eof rest L v tp
  assume h: "heap_ok (RHP s)" "delivers (PT s) (tail_of (XPair a d) @ rest)" "readable P (RSYMS s) (XPair a d)"
    "mem (RHP s) L = Some (OCons v NIL)"
  have L: "L < brk (RHP s)" using h(1,4) by (auto simp: heap_ok_def)
  have p: "delivers (PT s) (replicate 1 32 @ text_of a @ (tail_of d @ rest))" "readable P (RSYMS s) a" "readable P (RSYMS s) d"
    using h(2,3) by simp_all
  have "Ref L = NIL \<or> Ref L = Ref L \<and> mem (RHP s) L = Some (OCons v NIL)" using h(4) by simp
  from list_element [OF assms(1) h(1) p(1) le_refl ends_tail p(2) assms(3) this, of eof tp]
  obtain s1 u C where s1: "read_list P rdr (Suc n) eof tp (Ref L) False s = read_list P rdr n eof tp (Ref C) False s1"
    "delivers (PT s1) (tail_of d @ rest)" "RSYMS s1 = RSYMS s" "heap_ok (RHP s1)" "mem (RHP s1) C = Some (OCons u NIL)"
    "brk (RHP s) \<le> C" "C < brk (RHP s1)" "\<forall>b < brk (RHP s). b \<noteq> L \<longrightarrow> mem (RHP s1) b = mem (RHP s) b"
    "mem (RHP s1) L = Some (OCons v (Ref C))"
    "\<And>h. \<forall>b. brk (RHP s) \<le> b \<and> b < brk (RHP s1) \<and> b \<noteq> C \<longrightarrow> mem h b = mem (RHP s1) b \<Longrightarrow> datum (RSYMS s) (brk (RHP s)) h u a"
    by (simp only: val.distinct if_False val.inject) (metis val.inject(4))
  have "readable P (RSYMS s1) d" using p(3) s1(3) by simp
  from assms(2) [unfolded good_tail_def, rule_format, OF s1(4,2) this s1(5), of tp eof]
  obtain s2 w where s2: "read_list P rdr n eof tp (Ref C) False s1 = ret (tp, s2)" "delivers (PT s2) rest" "RSYMS s2 = RSYMS s"
    "heap_ok (RHP s2)" "brk (RHP s1) \<le> brk (RHP s2)" "\<forall>b < brk (RHP s1). b \<noteq> C \<longrightarrow> mem (RHP s2) b = mem (RHP s1) b"
    "mem (RHP s2) C = Some (OCons u w)" "datum (RSYMS s) (brk (RHP s1)) (RHP s2) w d"
    unfolding list_reads_def s1(3) by auto
  have "datum (RSYMS s) (brk (RHP s)) (RHP s2) u a" using s1(10) s2(6) by simp
  moreover have "datum (RSYMS s) (brk (RHP s)) (RHP s2) w d" using s2(8) by (rule datum_mono) (use s1(6,7) in auto)
  ultimately have "datum (RSYMS s) (brk (RHP s)) (RHP s2) (Ref C) (XPair a d)" using s1(6) s2(7) by auto
  then show "list_reads s L rest (XPair a d) v tp (read_list P rdr (Suc n) eof tp (Ref L) False s)"
    unfolding list_reads_def using s1 s2 L by (intro exI [of _ s2] exI [of _ "Ref C"]) auto
qed

lemma good_pair:
  assumes "good P (arc_sread P (Suc m)) a" and "good_tail P (arc_sread P (Suc m)) m d" and "4 < m"
  shows "good P (arc_sread P (Suc (Suc m))) (XPair a d)"
  unfolding good_def
proof (intro allI impI)
  fix s :: rd and eof k rest
  assume h: "heap_ok (RHP s)" "k \<le> (1::nat)" "delivers (PT s) (replicate k 32 @ text_of (XPair a d) @ rest)" "readable P (RSYMS s) (XPair a d)"
  let ?rdr = "arc_sread P (Suc m)"
  have "delivers (PT s) (replicate k 32 @ 40 # text_of a @ tail_of d @ rest)" "k + 1 < Suc m" using h(2,3) assms(3) by simp_all
  from sread_start [OF this(1) _ _ this(2), of P eof]
  obtain s1 where s1: "delivers (PT s1) (text_of a @ tail_of d @ rest)" "RHP s1 = RHP s" "RSYMS s1 = RSYMS s"
    "arc_sread P (Suc (Suc m)) eof s = rthen (read_datum P ?rdr (Suc m) eof 40 s1) (\<lambda>(v, s).
        ret (v, if htype (RHP s) v = T_CONS then s \<lparr> LND := add_cons_lineno (LND s) v (get_lineno (LND s1)) \<rparr> else s))"
    by (auto simp: ucisspace_def)
  have p: "heap_ok (RHP s1)" "delivers (PT s1) (replicate 0 32 @ text_of a @ (tail_of d @ rest))" "readable P (RSYMS s1) a"
    using h s1 by simp_all
  from list_element [OF assms(1) p(1,2) _ ends_tail p(3) assms(3), of NIL _ _ eof NIL]
  obtain s2 u C where s2: "read_datum P ?rdr (Suc m) eof 40 s1 = read_list P ?rdr m eof (Ref C) (Ref C) False s2"
    "delivers (PT s2) (tail_of d @ rest)" "RSYMS s2 = RSYMS s" "heap_ok (RHP s2)" "mem (RHP s2) C = Some (OCons u NIL)"
    "brk (RHP s) \<le> C" "C < brk (RHP s2)" "\<forall>b < brk (RHP s). mem (RHP s2) b = mem (RHP s) b"
    "\<And>h. \<forall>b. brk (RHP s) \<le> b \<and> b < brk (RHP s2) \<and> b \<noteq> C \<longrightarrow> mem h b = mem (RHP s2) b \<Longrightarrow> datum (RSYMS s) (brk (RHP s)) h u a"
    unfolding s1(2,3) by (auto simp: read_datum_def)
  have "readable P (RSYMS s2) d" using h(4) s2(3) by simp
  from assms(2) [unfolded good_tail_def, rule_format, OF s2(4,2) this s2(5), of "Ref C" eof]
  obtain s3 w where s3: "read_list P ?rdr m eof (Ref C) (Ref C) False s2 = ret (Ref C, s3)" "delivers (PT s3) rest" "RSYMS s3 = RSYMS s"
    "heap_ok (RHP s3)" "brk (RHP s2) \<le> brk (RHP s3)" "\<forall>b < brk (RHP s2). b \<noteq> C \<longrightarrow> mem (RHP s3) b = mem (RHP s2) b"
    "mem (RHP s3) C = Some (OCons u w)" "datum (RSYMS s) (brk (RHP s2)) (RHP s3) w d"
    unfolding list_reads_def s2(3) by auto
  have "datum (RSYMS s) (brk (RHP s)) (RHP s3) u a" using s2(9) s3(6) by simp
  moreover have "datum (RSYMS s) (brk (RHP s)) (RHP s3) w d" using s3(8) by (rule datum_mono) (use s2(6,7) in auto)
  ultimately have "datum (RSYMS s) (brk (RHP s)) (RHP s3) (Ref C) (XPair a d)" using s2(6) s3(7) by auto
  moreover have "grown (RHP s) (RHP s3)" using s2(6,7,8) s3(4,5,6) by (auto simp: grown_def)
  moreover have "Ref C \<noteq> ARC_BUILTIN S_DOT" by (simp add: ARC_BUILTIN_def)
  ultimately have "reads s rest (XPair a d) (ret (Ref C, s3))" using s3(2,3)
    by (intro readsI [where v = "Ref C" and s' = s3]) blast+
  then have "reads s rest (XPair a d) (read_datum P ?rdr (Suc m) eof 40 s1)" using s2(1) s3(1) by simp
  then show "reads s rest (XPair a d) (arc_sread P (Suc (Suc m)) eof s)" unfolding s1(4) by (rule reads_lineno)
qed

lemma text_nonempty: "readable P c x \<Longrightarrow> 0 < length (text_of x)"
  using text_starts by fastforce

lemma tail_longer: "\<forall>a d. x \<noteq> XPair a d \<Longrightarrow> x \<noteq> XNil \<Longrightarrow> length (tail_of x) = length (text_of x) + 5"
  by (cases x) simp_all

text \<open>
  Reading a datum. A text is never read with less fuel than its length and 12; each cell takes one
  unit from the list and one from the reader inside.
\<close>

lemma sread_good:
  assumes P: "gmp_ok (rp_nums P)" "\<not> rp_atstrings P"
  shows "(length (text_of x) + 12 \<le> n \<longrightarrow> good P (arc_sread P n) x)
    \<and> (length (tail_of x) + 5 \<le> m \<longrightarrow> length (tail_of x) + 12 \<le> n \<longrightarrow> good_tail P (arc_sread P n) m x)"
proof (induction x arbitrary: n m)
  case (XPair a d)
  have "good P (arc_sread P n) (XPair a d)" if l: "length (text_of (XPair a d)) + 12 \<le> n"
  proof -
    obtain k where n: "n = Suc (Suc k)" "length (text_of a) + 12 \<le> Suc k" "length (tail_of d) + 12 \<le> Suc k" "length (tail_of d) + 5 \<le> k" "4 < k"
      using l by (cases n; cases "n - 1") auto
    have "good P (arc_sread P (Suc k)) a" using XPair.IH(1) n(2) by blast
    moreover have "good_tail P (arc_sread P (Suc k)) k d" using XPair.IH(2) n(3,4) by blast
    ultimately show ?thesis using good_pair n(1,5) by blast
  qed
  moreover have "good_tail P (arc_sread P n) m (XPair a d)"
    if l: "length (tail_of (XPair a d)) + 5 \<le> m" "length (tail_of (XPair a d)) + 12 \<le> n"
  proof -
    obtain k where m: "m = Suc k" "length (tail_of d) + 5 \<le> k" "4 < k" using l(1) by (cases m) auto
    have n: "length (text_of a) + 12 \<le> n" "length (tail_of d) + 12 \<le> n" using l(2) by simp_all
    have "good P (arc_sread P n) a" using XPair.IH(1) n(1) by blast
    moreover have "good_tail P (arc_sread P n) k d" using XPair.IH(2) n(2) m(2) by blast
    ultimately show ?thesis using good_tail_pair m(1,3) by blast
  qed
  ultimately show ?case by blast
next
  case XNil
  show ?case using good_atom [OF P, of XNil n] good_tail_nil [of m P] by simp
qed (use good_atom [OF P] good_tail_atom sread_dot in \<open>simp_all add: numeral_eq_Suc\<close>)

subsection \<open>The writer\<close>

fun npairs :: "sx \<Rightarrow> nat" where
  "npairs (XPair a d) = Suc (npairs a + npairs d)"
| "npairs _ = 0"

text \<open>The values of a datum.\<close>

fun parts :: "heap \<Rightarrow> val \<Rightarrow> sx \<Rightarrow> val set" where
  "parts h v (XPair x y) = insert v (case rep_cons h v of Inr (u, w) \<Rightarrow> parts h u x \<union> parts h w y | Inl _ \<Rightarrow> {})"
| "parts h v _ = {v}"

lemma npairs_atom': "\<forall>a d. x \<noteq> XPair a d \<Longrightarrow> npairs x = 0"
  by (cases x) simp_all

lemma npairs_atom:
  assumes "datum c lo h v x" and "datum c lo h v y" and "\<forall>a d. x \<noteq> XPair a d"
  shows "npairs y = 0"
  using assms by (cases x; cases y) auto

lemma datum_npairs: "datum c lo h v x \<Longrightarrow> datum c lo h v y \<Longrightarrow> npairs x = npairs y"
proof (induction x arbitrary: v y)
  case (XPair a d)
  obtain b u w where b: "v = Ref b" "mem h b = Some (OCons u w)" "datum c lo h u a" "datum c lo h w d" using XPair.prems(1) by auto
  have "\<exists>a' d'. y = XPair a' d' \<and> datum c lo h u a' \<and> datum c lo h w d'" using XPair.prems(2) b(1,2) by (cases y) simp_all
  then obtain a' d' where y: "y = XPair a' d'" "datum c lo h u a'" "datum c lo h w d'" by blast
  then show ?case using XPair.IH(1) [OF b(3) y(2)] XPair.IH(2) [OF b(4) y(3)] by simp
qed (metis npairs.simps npairs_atom sx.distinct)+

lemma parts_datum: "v' \<in> parts h v x \<Longrightarrow> datum c lo h v x \<Longrightarrow> \<exists>y. datum c lo h v' y \<and> npairs y \<le> npairs x"
proof (induction x arbitrary: v)
  case (XPair a d)
  obtain b u w where b: "v = Ref b" "mem h b = Some (OCons u w)" "datum c lo h u a" "datum c lo h w d" using XPair.prems(2) by auto
  then consider "v' = v" | "v' \<in> parts h u a" | "v' \<in> parts h w d" using XPair.prems(1) by auto
  then show ?case
  proof cases
    case 1
    then show ?thesis using XPair.prems(2) by blast
  next
    case 2
    then show ?thesis using XPair.IH(1) [OF _ b(3)] by fastforce
  next
    case 3
    then show ?thesis using XPair.IH(2) [OF _ b(4)] by fastforce
  qed
qed (simp only: parts.simps singleton_iff; blast)+

lemma no_cycle:
  assumes "datum c lo h (Ref b) (XPair a d)" and "mem h b = Some (OCons u w)"
  shows "Ref b \<notin> parts h u a" "Ref b \<notin> parts h w d"
proof -
  have d: "datum c lo h u a" "datum c lo h w d" using assms by auto
  have n: "npairs y = Suc (npairs a + npairs d)" if "datum c lo h (Ref b) y" for y
    using datum_npairs [OF that assms(1)] by simp
  show "Ref b \<notin> parts h u a" using parts_datum [OF _ d(1), of "Ref b"] n by fastforce
  show "Ref b \<notin> parts h w d" using parts_datum [OF _ d(2), of "Ref b"] n by fastforce
qed

text \<open>Printing appends.\<close>

lemma emit_runes_appends: "outport p t \<Longrightarrow> \<exists>p'. emit_runes s p = Inr p' \<and> outport p' (t @ s)"
proof (induction s arbitrary: p t)
  case (Cons r s)
  obtain p1 where "arc_writec r p = Inr p1" "outport p1 (t @ [r])" using writec_appends [OF Cons.prems] by blast
  then show ?case using Cons.IH [of p1 "t @ [r]"] by simp
qed simp

definition appends :: "rstr \<Rightarrow> (out \<Rightarrow> out res option) \<Rightarrow> visits \<Rightarrow> bool" where
  "appends s f vh \<longleftrightarrow> (\<forall>p t. outport p t \<longrightarrow> (\<exists>p'. f (p, vh) = ret (p', vh) \<and> outport p' (t @ s)))"

lemma rthen_nest: "rthen (rthen r f) g = rthen r (\<lambda>x. rthen (f x) g)"
  by (cases r; cases "the r") (auto simp: rthen_def split: sum.splits)

lemma appends_put: "appends s (put s) vh"
  using emit_runes_appends [of _ _ s] by (fastforce simp: appends_def put_def)

lemma appends_then: "appends s f vh \<Longrightarrow> appends t g vh \<Longrightarrow> appends (s @ t) (\<lambda>w. rthen (f w) g) vh"
  unfolding appends_def by (metis append.assoc rthen_ret)

lemma pprint_disp: "string_pprint pad True s = Some (Inr s)"
proof -
  have "pprint_loop pad True s = Some (Inr s)" by (induction s) auto
  then show ?thesis by (simp add: string_pprint_def)
qed

lemma appends_disp: "appends s (str_pprint W s True) vh"
  using appends_put [of s vh] by (simp add: str_pprint_def [abs_def] pprint_disp)

lemma appends_write: "\<forall>r \<in> set s. 32 \<le> r \<Longrightarrow> appends (34 # s @ [34]) (str_pprint W s False) vh"
  using appends_put [of "34 # s @ [34]" vh] by (simp add: str_pprint_def [abs_def] pprint_plain)

text \<open>The symbols have their names.\<close>

fun named :: "symbols \<Rightarrow> sx \<Rightarrow> bool" where
  "named c XNil \<longleftrightarrow> sym2name c (ARC_BUILTIN S_NIL) = Some (Some (KStr [110, 105, 108]))"
| "named c (XSym n) \<longleftrightarrow> (\<exists>k. intern (ARC_BUILTIN S_NIL) c (KStr n) = Some (Sym k, c) \<and> sym2name c (Sym k) = Some (Some (KStr n)))"
| "named c (XPair a d) \<longleftrightarrow> named c a \<and> named c d"
| "named c x \<longleftrightarrow> True"

lemma appends_cong: "appends s g vh \<Longrightarrow> (\<And>p. f (p, vh) = g (p, vh)) \<Longrightarrow> appends s f vh"
  by (simp add: appends_def)

lemma appends_char: "appends (35 # 92 # char_text r) (char_pprint W r False) vh"
proof (cases "charesc_name r")
  case None
  then show ?thesis using appends_put [of "[35, 92, r]" vh] by (simp add: char_pprint_def [abs_def] char_text_def)
next
  case (Some e)
  have "appends [35, 92] (disp_cstr W [CHR 0x23, CHR 0x5C]) vh"
    using appends_disp [of "[35, 92]" W vh] by (simp add: disp_cstr_def str_runes_def)
  from appends_then [OF this appends_disp [of e W vh]] show ?thesis
    using Some by (simp add: char_pprint_def [abs_def] char_text_def)
qed

lemma atom_prints:
  assumes "datum (wp_syms W) lo (wp_heap W) v x" and "readable P (wp_syms W) x" and "named (wp_syms W) x"
    and "\<forall>a d. x \<noteq> XPair a d" and "0 < n"
  shows "appends (text_of x) (arc_disp_write W n v False) vh"
proof -
  obtain m where n: "n = Suc m" using assms(5) by (cases n) auto
  show ?thesis
  proof (cases x)
    case XNil
    then have "sym2name (wp_syms W) (ARC_BUILTIN S_NIL) = Some (Some (KStr [110, 105, 108]))" "v = NIL" using assms(1,3) by simp_all
    then show ?thesis using XNil n
      by (intro appends_cong [OF appends_disp [of _ W]]) (simp add: symbol_pprint_def ARC_BUILTIN_def)
  next
    case (XInt i)
    then show ?thesis using assms(1) n by (intro appends_cong [OF appends_disp [of _ W]]) (simp add: fixnum_pprint_def)
  next
    case (XSym t)
    then obtain k where "v = Sym k" "sym2name (wp_syms W) v = Some (Some (KStr t))" using assms(1,3) by auto
    then show ?thesis using XSym n by (intro appends_cong [OF appends_disp [of _ W]]) (simp add: symbol_pprint_def)
  next
    case (XStr t)
    then have "\<forall>r \<in> set t. 32 \<le> r" using assms(2) by simp
    from appends_write [OF this, of W vh] show ?thesis using XStr assms(1) n by (auto elim!: appends_cong)
  next
    case (XChar r)
    then show ?thesis using assms(1) n by (auto intro: appends_cong [OF appends_char [of r W]])
  qed (use assms(4) in simp)
qed

definition list_fin :: "writer \<Rightarrow> val \<times> out \<Rightarrow> out res option" where
  "list_fin dw = (\<lambda>(sexpr, w). rthen (if sexpr \<noteq> NIL then rthen (put [32, 46, 32] w) (dw sexpr False) else ret w) (put [41]))"

declare cons_loop.simps [simp del]

lemma cons_loop_fin: "htype (wp_heap W) v \<noteq> T_CONS \<Longrightarrow> 0 < m \<Longrightarrow> rthen (cons_loop W dw m v False w) (list_fin dw) = list_fin dw (v, w)"
  by (cases m) (simp_all add: cons_loop.simps)

lemma atom_type: "datum c lo h v x \<Longrightarrow> \<forall>a d. x \<noteq> XPair a d \<Longrightarrow> htype h v \<noteq> T_CONS"
  by (cases x) (auto simp: htype_def)

lemma fin_nil: "appends [41] (\<lambda>w. list_fin dw (NIL, w)) vh"
  using appends_put [of "[41]" vh] by (simp add: list_fin_def)

lemma fin_atom:
  assumes "appends t (dw v False) vh" and "v \<noteq> NIL"
  shows "appends ([32, 46, 32] @ t @ [41]) (\<lambda>w. list_fin dw (v, w)) vh"
  using appends_then [OF appends_then [OF appends_put [of "[32, 46, 32]" vh] assms(1)] appends_put [of "[41]" vh]] assms(2)
  by (simp add: list_fin_def)

lemma appends_elem: "appends t (dw v False) vh \<Longrightarrow> vh (visitkey v) = None \<Longrightarrow> appends t (elem_pprint W dw v False) vh"
  by (erule appends_cong) (simp add: elem_pprint_def visitp_def)

lemma part_self: "v \<in> parts h v x"
  by (cases x) simp_all

lemma atom_not_nil: "datum c lo h v x \<Longrightarrow> x \<noteq> XNil \<Longrightarrow> v \<noteq> NIL"
  by (cases x) auto

lemma tail_atom: "\<forall>a d. x \<noteq> XPair a d \<Longrightarrow> x \<noteq> XNil \<Longrightarrow> tail_of x = [32] @ [32, 46, 32] @ text_of x @ [41]"
  by (cases x) auto

text \<open>One turn of the loop over the cells.\<close>

lemma cons_loop_prints:
  assumes "mem (wp_heap W) b = Some (OCons u w)" and "appends (text_of a) (dw u False) vh" and "vh (visitkey u) = None" and "vh (visitkey w) = None"
    and "datum c lo (wp_heap W) w d"
    and "(\<forall>x y. d \<noteq> XPair x y) \<longrightarrow> 0 < m \<and> (d \<noteq> XNil \<longrightarrow> appends (text_of d) (dw w False) vh)"
    and "\<And>x y. d = XPair x y \<Longrightarrow> appends (text_of x @ tail_of y) (\<lambda>st. rthen (cons_loop W dw m w False st) (list_fin dw)) vh"
  shows "appends (text_of a @ tail_of d) (\<lambda>st. rthen (cons_loop W dw (Suc m) (Ref b) False st) (list_fin dw)) vh"
  unfolding appends_def
proof (intro allI impI)
  fix p t assume o: "outport p t"
  obtain p1 where p1: "elem_pprint W dw u False (p, vh) = ret (p1, vh)" "outport p1 (t @ text_of a)"
    using appends_elem [of "text_of a" dw u vh W, OF assms(2,3)] o unfolding appends_def by blast
  have step: "rthen (cons_loop W dw (Suc m) (Ref b) False (p, vh)) (list_fin dw)
      = rthen (if w \<noteq> NIL then put [32] (p1, vh) else ret (p1, vh)) (\<lambda>st. rthen (cons_loop W dw m w False st) (list_fin dw))"
    using p1(1) assms(1,4) by (simp add: cons_loop.simps htype_def visitp_def rthen_nest)
  have "appends (tail_of d) (\<lambda>st. rthen (if w \<noteq> NIL then put [32] st else ret st) (\<lambda>st. rthen (cons_loop W dw m w False st) (list_fin dw))) vh"
  proof (cases "\<exists>x y. d = XPair x y")
    case True
    then obtain x y where d: "d = XPair x y" by blast
    then have "w \<noteq> NIL" using assms(5) atom_not_nil by blast
    then show ?thesis using appends_then [OF appends_put [of "[32]" vh] assms(7) [OF d]] d by simp
  next
    case False
    then have n: "htype (wp_heap W) w \<noteq> T_CONS" "0 < m" using assms(5,6) atom_type by blast+
    show ?thesis
    proof (cases "d = XNil")
      case True
      then have "w = NIL" using assms(5) by simp
      then show ?thesis using fin_nil [of dw vh] True cons_loop_fin [OF n] by simp
    next
      case nn: False
      then have "w \<noteq> NIL" "appends (text_of d) (dw w False) vh" using assms(5,6) False atom_not_nil by blast+
      then show ?thesis using appends_then [OF appends_put [of "[32]" vh] fin_atom [of "text_of d" dw w vh]] cons_loop_fin [OF n]
          tail_atom [of d] False nn by simp
    qed
  qed
  then show "\<exists>p'. rthen (cons_loop W dw (Suc m) (Ref b) False (p, vh)) (list_fin dw) = ret (p', vh) \<and> outport p' (t @ text_of a @ tail_of d)"
    unfolding step using p1(2) unfolding appends_def by fastforce
qed

lemma cons_prints:
  assumes "appends t (\<lambda>st. rthen (cons_loop W dw n v False st) (list_fin dw)) (vh(visitkey v \<mapsto> Fix (visitkey v)))"
    and "vh (visitkey v) = None"
  shows "appends (40 # t) (cons_pprint W dw n v False) vh"
  unfolding appends_def
proof (intro allI impI)
  fix p s assume o: "outport p s"
  let ?vh = "vh(visitkey v \<mapsto> Fix (visitkey v))"
  obtain p2 where p2: "rthen (put [40] (p, ?vh)) (\<lambda>st. rthen (cons_loop W dw n v False st) (list_fin dw)) = ret (p2, ?vh)" "outport p2 (s @ 40 # t)"
    using appends_then [OF appends_put [of "[40]" ?vh] assms(1)] o unfolding appends_def by fastforce
  have "?vh(visitkey v := None) = vh" using assms(2) by auto
  moreover have "cons_pprint W dw n v False (p, vh) = rthen (rthen (put [40] (p, ?vh)) (\<lambda>st. rthen (cons_loop W dw n v False st) (list_fin dw)))
      (\<lambda>w. ret (fst w, unvisit v (snd w)))"
    using assms(2) by (simp add: cons_pprint_def visit_def visit2_def Let_def rthen_nest list_fin_def case_prod_unfold)
  ultimately show "\<exists>p'. cons_pprint W dw n v False (p, vh) = ret (p', vh) \<and> outport p' (s @ 40 # t)"
    using p2 by (simp add: unvisit_def)
qed

text \<open>Printing a datum; the cells inside are not known yet.\<close>

definition fresh_keys :: "visits \<Rightarrow> val set \<Rightarrow> bool" where
  "fresh_keys vh V \<longleftrightarrow> (\<forall>u \<in> V. vh (visitkey u) = None)"

lemma datum_prints:
  assumes "datum (wp_syms W) lo (wp_heap W) v x" and "readable P (wp_syms W) x" and "named (wp_syms W) x"
    and "inj_on visitkey (parts (wp_heap W) v x)"
  shows "(npairs x + 1 < n \<longrightarrow> fresh_keys vh (parts (wp_heap W) v x) \<longrightarrow> appends (text_of x) (arc_disp_write W n v False) vh)
    \<and> (\<forall>a d b u w m. x = XPair a d \<longrightarrow> v = Ref b \<longrightarrow> mem (wp_heap W) b = Some (OCons u w) \<longrightarrow> npairs x < m \<longrightarrow> npairs x < n \<longrightarrow>
         fresh_keys vh (parts (wp_heap W) u a \<union> parts (wp_heap W) w d) \<longrightarrow>
         appends (text_of a @ tail_of d) (\<lambda>st. rthen (cons_loop W (arc_disp_write W n) m v False st) (list_fin (arc_disp_write W n))) vh)"
  using assms
proof (induction x arbitrary: v vh n)
  case (XPair a d)
  obtain b u w where b: "v = Ref b" "mem (wp_heap W) b = Some (OCons u w)"
    "datum (wp_syms W) lo (wp_heap W) u a" "datum (wp_syms W) lo (wp_heap W) w d" using XPair.prems(1) by auto
  have r: "readable P (wp_syms W) a" "readable P (wp_syms W) d" "named (wp_syms W) a" "named (wp_syms W) d" using XPair.prems(2,3) by simp_all
  let ?U = "parts (wp_heap W) u a \<union> parts (wp_heap W) w d"
  have P: "parts (wp_heap W) v (XPair a d) = insert v ?U" using b(1,2) by simp
  have i: "inj_on visitkey (parts (wp_heap W) u a)" "inj_on visitkey (parts (wp_heap W) w d)"
    using XPair.prems(4) unfolding P by (auto intro: inj_on_subset)
  have A: "appends (text_of a) (arc_disp_write W k u False) vh'"
    if "npairs a + 1 < k" "fresh_keys vh' (parts (wp_heap W) u a)" for k vh'
    using XPair.IH(1) [OF b(3) r(1,3) i(1), of k vh'] that by blast
  have D: "appends (text_of d) (arc_disp_write W k w False) vh'"
    if "npairs d + 1 < k" "fresh_keys vh' (parts (wp_heap W) w d)" for k vh'
    using XPair.IH(2) [OF b(4) r(2,4) i(2), of k vh'] that by blast
  have D2: "appends (text_of x @ tail_of y) (\<lambda>st. rthen (cons_loop W (arc_disp_write W k) m w False st) (list_fin (arc_disp_write W k))) vh'"
    if "d = XPair x y" "w = Ref c" "mem (wp_heap W) c = Some (OCons u' w')" "npairs d < m" "npairs d < k"
      "fresh_keys vh' (parts (wp_heap W) u' x \<union> parts (wp_heap W) w' y)" for m k x y c u' w' vh'
    using XPair.IH(2) [OF b(4) r(2,4) i(2), of k vh'] that by blast
  have loop: "appends (text_of a @ tail_of d) (\<lambda>st. rthen (cons_loop W (arc_disp_write W k) m v False st) (list_fin (arc_disp_write W k))) vh'"
    if l: "npairs (XPair a d) < m" "npairs (XPair a d) < k" "fresh_keys vh' (parts (wp_heap W) u a \<union> parts (wp_heap W) w d)" for m k vh'
  proof -
    obtain m' where m: "m = Suc m'" "npairs d < m'" "0 < m'" using l(1) by (cases m) auto
    have f: "fresh_keys vh' (parts (wp_heap W) u a)" "fresh_keys vh' (parts (wp_heap W) w d)" using l(3) unfolding fresh_keys_def by blast+
    have g: "vh' (visitkey u) = None" "vh' (visitkey w) = None" using f part_self unfolding fresh_keys_def by blast+
    have p1: "appends (text_of a) (arc_disp_write W k u False) vh'" using A [of k vh'] l(2) f(1) by simp
    have p2: "appends (text_of d) (arc_disp_write W k w False) vh'" if "\<forall>x y. d \<noteq> XPair x y"
      using D [of k vh'] l(2) f(2) that npairs_atom' [of d] by simp
    have p3: "appends (text_of x @ tail_of y) (\<lambda>st. rthen (cons_loop W (arc_disp_write W k) m' w False st) (list_fin (arc_disp_write W k))) vh'"
      if d: "d = XPair x y" for x y
    proof -
      obtain c u' w' where c: "w = Ref c" "mem (wp_heap W) c = Some (OCons u' w')" using b(4) d by auto
      then have "fresh_keys vh' (parts (wp_heap W) u' x \<union> parts (wp_heap W) w' y)" using f(2) d by (simp add: fresh_keys_def)
      then show ?thesis using D2 [OF d c m(2)] l(2) by simp
    qed
    have p4: "(\<forall>x y. d \<noteq> XPair x y) \<longrightarrow> 0 < m' \<and> (d \<noteq> XNil \<longrightarrow> appends (text_of d) (arc_disp_write W k w False) vh')"
      using p2 m(3) by blast
    show ?thesis unfolding m(1) b(1) by (rule cons_loop_prints [OF b(2) p1 g b(4) p4 p3])
  qed
  have "appends (text_of (XPair a d)) (arc_disp_write W n v False) vh"
    if l: "npairs (XPair a d) + 1 < n" "fresh_keys vh (parts (wp_heap W) v (XPair a d))"
  proof -
    obtain k where k: "n = Suc k" "npairs (XPair a d) < k" using l(1) by (cases n) auto
    have "Ref b \<notin> parts (wp_heap W) u a" "Ref b \<notin> parts (wp_heap W) w d" using no_cycle XPair.prems(1) b(1,2) by blast+
    then have nz: "visitkey v \<noteq> visitkey z" if "z \<in> ?U" for z
      using inj_onD [OF XPair.prems(4) [unfolded P], of v z] that b(1) by blast
    have fz: "vh (visitkey z) = None" if "z \<in> insert v ?U" for z using bspec [OF l(2) [unfolded P fresh_keys_def] that] .
    have "fresh_keys (vh(visitkey v \<mapsto> Fix (visitkey v))) ?U"
      unfolding fresh_keys_def using nz fz by (metis fun_upd_other insertI2)
    from cons_prints [OF loop [OF k(2,2) this] fz [OF insertI1]]
    have "appends (text_of (XPair a d)) (cons_pprint W (arc_disp_write W k) k v False) vh" by simp
    then show ?thesis by (rule appends_cong) (simp add: b(1,2) k(1))
  qed
  moreover have "appends (text_of a' @ tail_of d') (\<lambda>st. rthen (cons_loop W (arc_disp_write W n) m v False st) (list_fin (arc_disp_write W n))) vh"
    if "XPair a d = XPair a' d'" "v = Ref b'" "mem (wp_heap W) b' = Some (OCons u' w')" "npairs (XPair a d) < m" "npairs (XPair a d) < n"
      "fresh_keys vh (parts (wp_heap W) u' a' \<union> parts (wp_heap W) w' d')" for a' d' b' u' w' m
    using loop [of m n vh] that b(1,2) by simp
  ultimately show ?case by blast
next
  case XNil
  then show ?case using atom_prints [of W lo v "XNil" P n vh] by simp
next
  case (XInt i)
  then show ?case using atom_prints [of W lo v "XInt i" P n vh] by simp
next
  case (XSym t)
  then show ?case using atom_prints [of W lo v "XSym t" P n vh] by simp
next
  case (XStr t)
  then show ?case using atom_prints [of W lo v "XStr t" P n vh] by simp
next
  case (XChar r)
  then show ?case using atom_prints [of W lo v "XChar r" P n vh] by simp
qed

subsection \<open>Round trip\<close>

lemma interned_symbol:
  assumes "syms_ok c" and "syms_fresh c" and "tbl_abs (symtable c) (KStr n) = Some i" and "Sym i \<noteq> ARC_BUILTIN S_NIL"
  shows "intern (ARC_BUILTIN S_NIL) c (KStr n) = Some (Sym i, c)" "sym2name c (Sym i) = Some (Some (KStr n))"
proof -
  note a = assms(1,2) [unfolded syms_ok_def syms_fresh_def]
  show "intern (ARC_BUILTIN S_NIL) c (KStr n) = Some (Sym i, c)"
    using arc_symbols.intern_known [OF a assms(3)] assms(4) by (simp add: intern_def)
  show "sym2name c (Sym i) = Some (Some (KStr n))"
    using arc_symbols.sym2name_ok [OF a] consistentD(5) [OF a(1) assms(3)] by (simp add: sym2name_def)
qed


definition demo_W :: wparams where
  "demo_W = \<lparr> wp_syms = init_symtabs, wp_heap = \<lparr> mem = [1 \<mapsto> OCons (Fix 7) (Ref 2), 2 \<mapsto> OStr [104, 105]], brk = 3 \<rparr>,
     wp_pad = 0, wp_other = (\<lambda>v d w. fail UB) \<rparr>"

definition demo_P :: rparams where
  "demo_P = \<lparr> rp_nums = demo_nums, rp_junk = [], rp_pad = 0, rp_atstrings = False, rp_mkregexp = (\<lambda>h s i m. Inl UB) \<rparr>"

definition demo_rd :: rd where
  "demo_rd = \<lparr> PT = arc_instring [], PNAME = NIL, RHP = empty_heap, RSYMS = init_symtabs, LND = None \<rparr>"

lemma demo_keys: "inj_on visitkey {Ref 1, Fix 7, Ref 2}"
proof -
  have "visitkey (Ref 1) \<noteq> visitkey (Fix 7)" by code_simp
  moreover have "visitkey (Ref 1) \<noteq> visitkey (Ref 2)" by code_simp
  moreover have "visitkey (Fix 7) \<noteq> visitkey (Ref 2)" by code_simp
  ultimately show ?thesis by (auto simp: inj_on_def)
qed


subsection \<open>A list that is not closed\<close>

definition open_text :: "sx list \<Rightarrow> rstr" where
  "open_text xs = concat (map (\<lambda>x. 32 # text_of x) xs)"

lemma start_none:
  assumes "delivers (PT s) []" and "1 < n"
  shows "\<exists>s'. next_start P n s = ret (None, s')"
proof -
  obtain m k where n: "n = Suc m" "m = Suc k" using assms(2) by (cases n; cases "n - 1") auto
  obtain p where "readc P s = ret (None, s \<lparr> PT := p \<rparr>)" using readc_none [OF assms(1)] by blast
  then show ?thesis using n by (simp add: next_start.simps)
qed

lemma ends_open: "ends (open_text xs)"
  by (cases xs) (simp_all add: open_text_def ends_def issym_def space32 Runeerror_def)

lemma open_list:
  "delivers (PT s) (open_text xs) \<Longrightarrow> heap_ok (RHP s) \<Longrightarrow> \<forall>x \<in> set xs. readable P (RSYMS s) x \<and> good P rdr x \<Longrightarrow>
    mem (RHP s) L = Some (OCons v NIL) \<Longrightarrow> length (open_text xs) + 5 \<le> n \<Longrightarrow>
    \<exists>s'. read_list P rdr n eof tp (Ref L) False s = ret (eof, s')"
proof (induction xs arbitrary: s L v n)
  case Nil
  obtain m where n: "n = Suc m" "1 < m" using Nil(5) by (cases n) auto
  have "delivers (PT s) []" using Nil(1) by (simp add: open_text_def)
  from start_none [OF this n(2), of P] show ?case using n(1) by (auto simp: read_list.simps)
next
  case (Cons x xs)
  have d: "delivers (PT s) (replicate 1 32 @ text_of x @ open_text xs)" "readable P (RSYMS s) x" "good P rdr x"
    using Cons.prems(1,3) by (simp_all add: open_text_def)
  have l: "Suc (length (text_of x) + length (open_text xs)) + 5 \<le> n" using Cons.prems(5) by (simp add: open_text_def)
  then obtain m where n: "n = Suc m" "length (open_text xs) + 5 \<le> m" "4 < m" by (cases n) auto
  have "Ref L = NIL \<or> Ref L = Ref L \<and> mem (RHP s) L = Some (OCons v NIL)" using Cons.prems(4) by simp
  from list_element [OF d(3) Cons.prems(2) d(1) le_refl ends_open d(2) n(3) this, of eof tp]
  obtain s1 u C where s1: "read_list P rdr n eof tp (Ref L) False s = read_list P rdr m eof tp (Ref C) False s1"
    "delivers (PT s1) (open_text xs)" "RSYMS s1 = RSYMS s" "heap_ok (RHP s1)" "mem (RHP s1) C = Some (OCons u NIL)"
    unfolding n(1) by (simp only: val.distinct if_False) blast
  have "\<forall>x \<in> set xs. readable P (RSYMS s1) x \<and> good P rdr x" using Cons.prems(3) s1(3) by simp
  from Cons.IH [OF s1(2,4) this s1(5) n(2)] show ?case unfolding s1(1) by blast
qed

text \<open>
  Property C25. A list whose closing parenthesis is missing is not an error: the reader returns what it
  was told to return at the end of the source, and the elements read so far are lost. So
  a truncated source cannot be told from one that is complete.
\<close>

theorem unclosed_list:
  assumes "gmp_ok (rp_nums P)" and "\<not> rp_atstrings P"
    and "delivers (PT s) (40 # text_of x @ concat (map (\<lambda>x. 32 # text_of x) xs))"
    and "heap_ok (RHP s)" and "list_all (readable P (RSYMS s)) (x # xs)"
    and "length (text_of x) + length (concat (map (\<lambda>x. 32 # text_of x) xs)) + 15 \<le> k"
  shows "\<exists>s'. arc_sread P k eof s = ret (eof, s')"
proof -
  have "2 \<le> k" using assms(6) by simp
  then obtain m where k: "k = Suc (Suc m)" by (metis Suc_diff_le add_2_eq_Suc le_add_diff_inverse)
  have m: "0 + 1 < Suc m" "4 < m" "length (open_text xs) + 5 \<le> m" "length (text_of x) + 12 \<le> Suc m"
    using assms(6) k by (simp_all add: open_text_def)
  let ?rdr = "arc_sread P (Suc m)"
  have "\<forall>y \<in> set xs. length (text_of y) \<le> length (open_text xs)" unfolding open_text_def by (induction xs) auto
  then have good: "good P ?rdr x" "\<forall>y \<in> set xs. good P ?rdr y"
    using sread_good [OF assms(1,2)] m(4) assms(6) k by (auto simp: open_text_def)
  have "delivers (PT s) (replicate 0 32 @ 40 # text_of x @ open_text xs)" using assms(3) by (simp add: open_text_def)
  from sread_start [OF this _ _ m(1), of P eof]
  obtain s1 where s1: "delivers (PT s1) (text_of x @ open_text xs)" "RHP s1 = RHP s" "RSYMS s1 = RSYMS s"
    "arc_sread P (Suc (Suc m)) eof s = rthen (read_datum P ?rdr (Suc m) eof 40 s1) (\<lambda>(v, s).
        ret (v, if htype (RHP s) v = T_CONS then s \<lparr> LND := add_cons_lineno (LND s) v (get_lineno (LND s1)) \<rparr> else s))"
    by (auto simp: ucisspace_def)
  have p: "heap_ok (RHP s1)" "delivers (PT s1) (replicate 0 32 @ text_of x @ open_text xs)" "readable P (RSYMS s1) x"
    using assms(4,5) s1 by simp_all
  from list_element [OF good(1) p(1,2) _ ends_open p(3) m(2), of NIL _ _ eof NIL]
  obtain s2 u C where s2: "read_datum P ?rdr (Suc m) eof 40 s1 = read_list P ?rdr m eof (Ref C) (Ref C) False s2"
    "delivers (PT s2) (open_text xs)" "RSYMS s2 = RSYMS s" "heap_ok (RHP s2)" "mem (RHP s2) C = Some (OCons u NIL)"
    unfolding s1(2,3) by (auto simp: read_datum_def)
  have "\<forall>y \<in> set xs. readable P (RSYMS s2) y \<and> good P ?rdr y" using assms(5) good(2) s2(3) by (simp add: list_all_iff)
  from open_list [OF s2(2,4) this s2(5) m(3), of eof "Ref C"]
  obtain s3 where "read_list P ?rdr m eof (Ref C) (Ref C) False s2 = ret (eof, s3)" by blast
  then show ?thesis unfolding k s1(4) s2(1) by simp
qed

theorem unclosed_list_witness: "\<exists>s'. arc_sread demo_P 30 UNDEF (demo_rd \<lparr> PT := arc_instring [40, 55] \<rparr>) = ret (UNDEF, s')"
proof -
  have t: "text_of (XInt 7) = [55]" by (simp add: ld_runes_def radix_digits.simps digit_char_def)
  show ?thesis
    by (rule unclosed_list [of demo_P _ "XInt 7" "[]"])
      (simp_all add: demo_P_def demo_gmp demo_rd_def empty_heap_ok t instring_delivers FIX_MAX_def del: text_of.simps)
qed

end
