(* ===== verification/Winds.thy ===== *)
theory Winds
  imports Machine "HOL-Library.Sublist"
begin

text \<open>
  Dynamic winds, the end of \<open>src/src/vmengine.c\<close>, and errors, \<open>src/src/err.c\<close>. The winds that were
  entered form a tree of conses whose pointers lead to the node where the thread is, \<open>TCH\<close>;
  \<open>__arc_reroot\<close> moves that place along the tree, turns the pointers round and calls the thunks on
  its way (the algorithm of Hanson and Lamping). What a called function does is a parameter; the
  functions that were called are noted in \<open>CALLS\<close>.
\<close>

subsection \<open>Rerooting\<close>

record wthr =
  WTHR :: val
  WHEAP :: heap
  TCH :: val
  TBCH :: val
  TEXH :: val
  WSTATE :: threadstate
  CALLS :: "val list"

type_synonym caller = "val \<Rightarrow> wthr \<Rightarrow> (val \<times> wthr) run"

definition invoke :: "caller \<Rightarrow> val \<Rightarrow> wthr \<Rightarrow> (val \<times> wthr) run" where
  "invoke call f s = call f (s \<lparr> CALLS := CALLS s @ [f] \<rparr>)"

definition dead :: val where
  "dead = Fix 0xdead"

text \<open>The part of \<open>__arc_reroot\<close> after the recursive call, when \<open>TCH\<close> is next to \<open>there\<close>.\<close>

definition reroot_step :: "caller \<Rightarrow> val \<Rightarrow> wthr \<Rightarrow> (val \<times> wthr) run" where
  "reroot_step call there s =
     (let h = WHEAP s in
      rthen (Some (rbind (car h there) (car h))) (\<lambda>before.
      rthen (Some (rbind (car h there) (cdr h))) (\<lambda>after.
      let (c, h) = cons h after before in
      rthen (Some (rbind (scar h (TCH s) c) (\<lambda>(_, h). scdr h (TCH s) there))) (\<lambda>(_, h).
      rthen (Some (rbind (scar h there dead) (\<lambda>(_, h). scdr h there NIL))) (\<lambda>(_, h).
      invoke call before (s \<lparr> WHEAP := h, TCH := there \<rparr>))))))"

partial_function (option) arc_reroot :: "caller \<Rightarrow> val \<Rightarrow> wthr \<Rightarrow> (val \<times> wthr) run" where
  "arc_reroot call there s =
     (if TCH s = there then ret (NIL, s)
      else case cdr (WHEAP s) there of
        Inl e \<Rightarrow> fail e
      | Inr nx \<Rightarrow> Option.bind (arc_reroot call nx s) (\<lambda>r. case r of Inl e \<Rightarrow> fail e | Inr (_, s) \<Rightarrow> reroot_step call there s))"

definition arc_dynamic_wind :: "caller \<Rightarrow> val \<Rightarrow> val \<Rightarrow> val \<Rightarrow> wthr \<Rightarrow> (val \<times> wthr) run" where
  "arc_dynamic_wind call before during after s =
     (let here = TCH s; (w, h) = cons (WHEAP s) before after; (node, h) = cons h w here in
      rthen (arc_reroot call node (s \<lparr> WHEAP := h \<rparr>)) (\<lambda>(_, s).
      rthen (invoke call during s) (\<lambda>(r, s).
      rthen (arc_reroot call here s) (\<lambda>(_, s). ret (r, s)))))"

text \<open>
  The function that \<open>ccc\<close> passes on, \<open>contwrapper\<close>, with the variables of \<open>arc_callcc\<close> it finds in its
  environment. It returns its argument, or goes on with a continuation.
\<close>

record ccenv =
  cc_tcr :: val
  cc_tch :: val
  cc_tbch :: val
  cc_thr :: val

datatype transfer = Return val | Jump val val | Broken

definition contwrapper :: "caller \<Rightarrow> ccenv \<Rightarrow> val \<Rightarrow> wthr \<Rightarrow> (transfer \<times> wthr) run" where
  "contwrapper call E arg s =
     (let s = (if WTHR s \<noteq> cc_thr E then s \<lparr> TCH := cc_tch E, TBCH := cc_tbch E \<rparr> else s) in
      rthen (arc_reroot call (cc_tch E) s) (\<lambda>(_, s).
        if cc_tcr E = NIL then ret (Return arg, s) else ret (Jump (cc_tcr E) arg, s)))"

subsection \<open>Errors\<close>

definition arc_mkexception :: "heap \<Rightarrow> val \<Rightarrow> val \<times> heap" where
  "arc_mkexception h str = (let (a, h) = halloc h (OBlk T_EXCEPTION [str]) in (Ref a, h))"

definition arc_details :: "heap \<Rightarrow> val \<Rightarrow> val res" where
  "arc_details h ex = blk_get h ex 0"

text \<open>
  Without a handler the thread is rerooted to its base and broken; with one, the exception is
  passed to the continuation of \<open>arc_on_err\<close>.
\<close>

definition arc_err :: "caller \<Rightarrow> val \<Rightarrow> wthr \<Rightarrow> (transfer \<times> wthr) run" where
  "arc_err call str s =
     (let (exc, h) = arc_mkexception (WHEAP s) str; s = s \<lparr> WHEAP := h \<rparr> in
      if TEXH s = NIL then
        rthen (arc_reroot call (TBCH s) s) (\<lambda>(_, s). ret (Broken, s \<lparr> WSTATE := Tbroken \<rparr>))
      else rthen (Some (car (WHEAP s) (TEXH s))) (\<lambda>cont. ret (Jump cont exc, s)))"

text \<open>
  The thunks around the body of \<open>arc_on_err\<close>, with the variable \<open>old\<close> they share, and what
  \<open>arc_on_err\<close> makes of the value that comes back: a result, or a call of the handler.
\<close>

definition savetexh :: "val \<Rightarrow> val \<Rightarrow> wthr \<Rightarrow> val \<times> wthr" where
  "savetexh cont handler s = (let (nexh, h) = cons (WHEAP s) cont handler in (TEXH s, s \<lparr> WHEAP := h, TEXH := nexh \<rparr>))"

definition restoretexh :: "val \<Rightarrow> wthr \<Rightarrow> wthr" where
  "restoretexh old s = s \<lparr> TEXH := old \<rparr>"

definition on_err_result :: "val \<Rightarrow> val \<Rightarrow> wthr \<Rightarrow> transfer" where
  "on_err_result handler r s = (if htype (WHEAP s) r \<noteq> T_EXCEPTION then Return r else Jump handler r)"

subsection \<open>The tree of winds\<close>

text \<open>
  Abstractly every node has a context, the nodes on the way to it from the base \<open>b\<close>, itself last;
  \<open>F\<close> gives a node its thunks. \<open>nd\<close> is the node of a context.
\<close>

definition nd :: "nat \<Rightarrow> nat list \<Rightarrow> nat" where
  "nd b ns = (if ns = [] then b else last ns)"

definition tree_ok :: "nat \<Rightarrow> (nat \<Rightarrow> nat list option) \<Rightarrow> bool" where
  "tree_ok b C \<longleftrightarrow> C b = Some []
     \<and> (\<forall>n ns. C n = Some ns \<longrightarrow> n = nd b ns \<and> (ns \<noteq> [] \<longrightarrow> C (nd b (butlast ns)) = Some (butlast ns)))"

text \<open>
  In the heap, when the thread is at the node of \<open>t\<close>: that node is dead, the nodes above it point
  to the next one on the way to it, with the thunks of that one swapped, and all others point to
  their parent, with their own thunks.
\<close>

definition wind_cell :: "heap \<Rightarrow> (nat \<Rightarrow> nat list option) \<Rightarrow> nat \<Rightarrow> val \<times> val \<Rightarrow> nat \<Rightarrow> bool" where
  "wind_cell h C n fs nx \<longleftrightarrow> (\<exists>p. mem h n = Some (OCons (Ref p) (Ref nx)) \<and> mem h p = Some (OCons (fst fs) (snd fs)) \<and> C p = None)"

definition wind_node :: "heap \<Rightarrow> nat \<Rightarrow> (nat \<Rightarrow> nat list option) \<Rightarrow> (nat \<Rightarrow> val \<times> val) \<Rightarrow> nat list \<Rightarrow> nat list \<Rightarrow> bool" where
  "wind_node h b C F t ns \<longleftrightarrow>
     (if ns = t then mem h (nd b ns) = Some (OCons dead NIL)
      else if prefix ns t then wind_cell h C (nd b ns) (prod.swap (F (t ! length ns))) (t ! length ns)
      else wind_cell h C (nd b ns) (F (last ns)) (nd b (butlast ns)))"

definition winds :: "heap \<Rightarrow> nat \<Rightarrow> (nat \<Rightarrow> nat list option) \<Rightarrow> (nat \<Rightarrow> val \<times> val) \<Rightarrow> nat list \<Rightarrow> bool" where
  "winds h b C F t \<longleftrightarrow> heap_ok h \<and> tree_ok b C \<and> C (nd b t) = Some t \<and> (\<forall>n ns. C n = Some ns \<longrightarrow> wind_node h b C F t ns)"

text \<open>The functions that are called return, and leave the winds and the place as they are.\<close>

definition calm :: "caller \<Rightarrow> bool" where
  "calm call \<longleftrightarrow> (\<forall>f s b C F t. winds (WHEAP s) b C F t \<longrightarrow> TCH s = Ref (nd b t) \<longrightarrow>
     (\<exists>v s'. call f s = ret (v, s') \<and> winds (WHEAP s') b C F t \<and> TCH s' = TCH s \<and> TBCH s' = TBCH s \<and> CALLS s' = CALLS s))"

lemma tree_node: "tree_ok b C \<Longrightarrow> C n = Some ns \<Longrightarrow> n = nd b ns"
  by (simp add: tree_ok_def)

lemma tree_parent: "tree_ok b C \<Longrightarrow> C (nd b (p @ [n])) = Some (p @ [n]) \<Longrightarrow> C (nd b p) = Some p"
  unfolding tree_ok_def by (metis butlast_snoc snoc_eq_iff_butlast)

lemma tree_prefix: "tree_ok b C \<Longrightarrow> C (nd b (p @ q)) = Some (p @ q) \<Longrightarrow> C (nd b p) = Some p"
proof (induction q rule: rev_induct)
  case (snoc x q)
  then show ?case using tree_parent [of b C "p @ q" x] by simp
qed simp

lemma nd_snoc [simp]: "nd b (p @ [n]) = n"
  by (simp add: nd_def)

lemma windsD:
  assumes "winds h b C F t"
  shows "heap_ok h" "tree_ok b C" "C (nd b t) = Some t" "C n = Some ns \<Longrightarrow> wind_node h b C F t ns"
  using assms by (auto simp: winds_def)

lemma node_used: "winds h b C F t \<Longrightarrow> C n = Some ns \<Longrightarrow> n < brk h \<and> (\<exists>x y. mem h n = Some (OCons x y))"
  using windsD(4) [of h b C F t n ns] windsD(1,2) [of h b C F t] tree_node [of b C n ns]
  by (auto simp: wind_node_def wind_cell_def heap_ok_def split: if_splits)

text \<open>The heap after a step: a new pair, the old place points to the new one.\<close>

definition step_heap :: "heap \<Rightarrow> nat \<Rightarrow> nat \<Rightarrow> val \<times> val \<Rightarrow> heap" where
  "step_heap h from to fs = hset (hset (snd (cons h (fst fs) (snd fs))) from (OCons (Ref (brk h)) (Ref to))) to (OCons dead NIL)"

lemma step_mem:
  "from \<noteq> to \<Longrightarrow> from < brk h \<Longrightarrow> to < brk h \<Longrightarrow> mem (step_heap h from to fs) from = Some (OCons (Ref (brk h)) (Ref to))"
  "to < brk h \<Longrightarrow> mem (step_heap h from to fs) to = Some (OCons dead NIL)"
  "from < brk h \<Longrightarrow> to < brk h \<Longrightarrow> mem (step_heap h from to fs) (brk h) = Some (OCons (fst fs) (snd fs))"
  "a \<noteq> from \<Longrightarrow> a \<noteq> to \<Longrightarrow> a \<noteq> brk h \<Longrightarrow> mem (step_heap h from to fs) a = mem h a"
  by (auto simp: step_heap_def cons_def halloc_def hset_def)

lemma step_ok: "heap_ok h \<Longrightarrow> from < brk h \<Longrightarrow> to < brk h \<Longrightarrow> mem h from \<noteq> None \<Longrightarrow> mem h to \<noteq> None \<Longrightarrow> heap_ok (step_heap h from to fs)"
  by (auto simp: step_heap_def cons_def halloc_def hset_def heap_ok_def less_Suc_eq)

lemma reroot_step_run:
  assumes "mem (WHEAP s) to = Some (OCons (Ref p) nx)" and "mem (WHEAP s) p = Some (OCons f g)"
    and "TCH s = Ref from" and "mem (WHEAP s) from = Some (OCons x y)" and "from < brk (WHEAP s)" and "to < brk (WHEAP s)" and "from \<noteq> to"
  shows "reroot_step call (Ref to) s = invoke call f (s \<lparr> WHEAP := step_heap (WHEAP s) from to (g, f), TCH := Ref to \<rparr>)"
  using assms by (simp add: reroot_step_def car_def cdr_def cons_def halloc_def step_heap_def hset_def Let_def)

text \<open>Cells that a step does not touch.\<close>

lemma cell_step:
  assumes "wind_cell h C n fs nx" and "n \<noteq> from" and "n \<noteq> to" and "heap_ok h" and "C from \<noteq> None" and "C to \<noteq> None"
  shows "wind_cell (step_heap h from to gs) C n fs nx"
proof -
  obtain p where p: "mem h n = Some (OCons (Ref p) (Ref nx))" "mem h p = Some (OCons (fst fs) (snd fs))" "C p = None"
    using assms(1) by (auto simp: wind_cell_def)
  have "n < brk h" "p < brk h" using p assms(4) by (auto simp: heap_ok_def)
  moreover have "p \<noteq> from" "p \<noteq> to" using p(3) assms(5,6) by auto
  ultimately have "mem (step_heap h from to gs) n = mem h n" "mem (step_heap h from to gs) p = mem h p"
    using assms(2,3) step_mem(4) by auto
  then show ?thesis using p by (auto simp: wind_cell_def)
qed

lemma prefix_child:
  "ns \<noteq> t @ [n] \<Longrightarrow> prefix ns (t @ [n]) \<longleftrightarrow> prefix ns t"
  "prefix ns t \<Longrightarrow> ns \<noteq> t \<Longrightarrow> (t @ [n]) ! length ns = t ! length ns"
  by (simp_all add: prefix_snoc) (auto simp: nth_append prefix_def)

lemma ctx_inj: "tree_ok b C \<Longrightarrow> C (nd b p) = Some p \<Longrightarrow> C (nd b q) = Some q \<Longrightarrow> nd b p = nd b q \<Longrightarrow> p = q"
  by (metis option.inject)

lemma new_not_node: "winds h b C F t \<Longrightarrow> C (brk h) = None"
  using node_used [of h b C F t "brk h"] by (cases "C (brk h)") auto

text \<open>Going down to a child, and up to the parent.\<close>

lemma winds_down:
  assumes "winds h b C F t" and "C n = Some (t @ [n])"
  shows "winds (step_heap h (nd b t) n (prod.swap (F n))) b C F (t @ [n])"
    and "\<exists>p. mem h n = Some (OCons (Ref p) (Ref (nd b t))) \<and> mem h p = Some (OCons (fst (F n)) (snd (F n)))"
proof -
  note W = windsD [OF assms(1)]
  let ?h = "step_heap h (nd b t) n (prod.swap (F n))"
  have c: "wind_cell h C n (F n) (nd b t)" using W(4) [OF assms(2)] by (simp add: wind_node_def)
  then show "\<exists>p. mem h n = Some (OCons (Ref p) (Ref (nd b t))) \<and> mem h p = Some (OCons (fst (F n)) (snd (F n)))"
    by (auto simp: wind_cell_def)
  have ne: "nd b t \<noteq> n" using W(3) assms(2) by auto
  have u: "nd b t < brk h" "n < brk h" "mem h (nd b t) \<noteq> None" "mem h n \<noteq> None"
    using node_used [OF assms(1) W(3)] node_used [OF assms(1,2)] by auto
  have "wind_node ?h b C F (t @ [n]) ns" if "C m = Some ns" for m ns
  proof -
    have m: "nd b ns = m" using tree_node [OF W(2) that] by simp
    consider "ns = t @ [n]" | "ns = t" | "ns \<noteq> t" "ns \<noteq> t @ [n]" by blast
    then show ?thesis
    proof cases
      case 1
      then show ?thesis using step_mem(2) [OF u(2)] by (simp add: wind_node_def)
    next
      case 2
      then have "wind_cell ?h C (nd b t) (prod.swap (F n)) n"
        unfolding wind_cell_def by (intro exI [of _ "brk h"] conjI step_mem(1) [OF ne u(1,2)] step_mem(3) [OF u(1,2)] new_not_node [OF assms(1)])
      then show ?thesis using 2 by (simp add: wind_node_def)
    next
      case 3
      have m': "m \<noteq> nd b t" "m \<noteq> n" using 3 that W(3) assms(2) by auto
      have e: "prefix ns (t @ [n]) \<longleftrightarrow> prefix ns t" "prefix ns t \<Longrightarrow> (t @ [n]) ! length ns = t ! length ns"
        using prefix_child(1) [OF 3(2)] prefix_child(2) [OF _ 3(1)] by simp_all
      have st: "wind_cell h C m fs nx \<Longrightarrow> wind_cell ?h C m fs nx" for fs nx using cell_step [OF _ m' W(1)] W(3) assms(2) by simp
      have "wind_node h b C F t ns" using W(4) [OF that] .
      then show ?thesis using 3 st unfolding wind_node_def m e(1) using e(2) by (metis (full_types))
    qed
  qed
  then show "winds ?h b C F (t @ [n])"
    using W(2) assms(2) step_ok [OF W(1) u] by (simp add: winds_def)
qed

lemma winds_up:
  assumes "winds h b C F (u @ [m])"
  shows "winds (step_heap h m (nd b u) (F m)) b C F u"
    and "\<exists>p. mem h (nd b u) = Some (OCons (Ref p) (Ref m)) \<and> mem h p = Some (OCons (snd (F m)) (fst (F m)))"
proof -
  note W = windsD [OF assms(1)]
  let ?h = "step_heap h m (nd b u) (F m)"
  have Cu: "C (nd b u) = Some u" using tree_parent [OF W(2,3)] .
  have Cm: "C m = Some (u @ [m])" using W(3) by simp
  have c: "wind_cell h C (nd b u) (prod.swap (F m)) m" using W(4) [OF Cu] by (simp add: wind_node_def)
  then show "\<exists>p. mem h (nd b u) = Some (OCons (Ref p) (Ref m)) \<and> mem h p = Some (OCons (snd (F m)) (fst (F m)))"
    by (auto simp: wind_cell_def)
  have ne: "m \<noteq> nd b u" using Cu Cm by auto
  have us: "m < brk h" "nd b u < brk h" "mem h m \<noteq> None" "mem h (nd b u) \<noteq> None"
    using node_used [OF assms(1) Cu] node_used [OF assms(1) Cm] by auto
  have "wind_node ?h b C F u ns" if "C k = Some ns" for k ns
  proof -
    have k: "nd b ns = k" using tree_node [OF W(2) that] by simp
    consider "ns = u" | "ns = u @ [m]" | "ns \<noteq> u" "ns \<noteq> u @ [m]" by blast
    then show ?thesis
    proof cases
      case 1
      then show ?thesis using step_mem(2) [OF us(2)] by (simp add: wind_node_def)
    next
      case 2
      then have "wind_cell ?h C m (F m) (nd b u)"
        unfolding wind_cell_def by (intro exI [of _ "brk h"] conjI step_mem(1) [OF ne us(1,2)] step_mem(3) [OF us(1,2)] new_not_node [OF assms(1)])
      then show ?thesis using 2 by (simp add: wind_node_def)
    next
      case 3
      have k': "k \<noteq> m" "k \<noteq> nd b u" using 3 that Cm Cu by auto
      have e: "prefix ns (u @ [m]) \<longleftrightarrow> prefix ns u" "prefix ns u \<Longrightarrow> (u @ [m]) ! length ns = u ! length ns"
        using prefix_child(1) [OF 3(2)] prefix_child(2) [OF _ 3(1)] by simp_all
      have st: "wind_cell h C k fs nx \<Longrightarrow> wind_cell ?h C k fs nx" for fs nx using cell_step [OF _ k' W(1)] Cu Cm by simp
      have "wind_node h b C F (u @ [m]) ns" using W(4) [OF that] .
      then show ?thesis using 3 st unfolding wind_node_def k e(1) using e(2) by (metis (full_types))
    qed
  qed
  then show "winds ?h b C F u" using W(2) Cu step_ok [OF W(1) us] by (simp add: winds_def)
qed

subsection \<open>What rerooting calls\<close>

definition at_node :: "wthr \<Rightarrow> nat \<Rightarrow> (nat \<Rightarrow> nat list option) \<Rightarrow> (nat \<Rightarrow> val \<times> val) \<Rightarrow> nat list \<Rightarrow> bool" where
  "at_node s b C F t \<longleftrightarrow> winds (WHEAP s) b C F t \<and> TCH s = Ref (nd b t)"

lemma calm_invoke:
  assumes "calm call" and "at_node s b C F t"
  shows "\<exists>v s'. invoke call f s = ret (v, s') \<and> at_node s' b C F t \<and> TBCH s' = TBCH s \<and> CALLS s' = CALLS s @ [f]"
  using assms(1) [unfolded calm_def, rule_format, of "s \<lparr> CALLS := CALLS s @ [f] \<rparr>" b C F t f] assms(2)
  by (auto simp: at_node_def invoke_def)

lemma step_down:
  assumes "calm call" and "at_node s b C F t" and "C n = Some (t @ [n])"
  shows "\<exists>v s'. reroot_step call (Ref n) s = ret (v, s') \<and> at_node s' b C F (t @ [n]) \<and> TBCH s' = TBCH s \<and> CALLS s' = CALLS s @ [fst (F n)]"
proof -
  have w: "winds (WHEAP s) b C F t" "TCH s = Ref (nd b t)" using assms(2) by (simp_all add: at_node_def)
  obtain p where p: "mem (WHEAP s) n = Some (OCons (Ref p) (Ref (nd b t)))" "mem (WHEAP s) p = Some (OCons (fst (F n)) (snd (F n)))"
    using winds_down(2) [OF w(1) assms(3)] by blast
  obtain x y where m: "nd b t < brk (WHEAP s)" "n < brk (WHEAP s)" "mem (WHEAP s) (nd b t) = Some (OCons x y)"
    using node_used [OF w(1) windsD(3) [OF w(1)]] node_used [OF w(1) assms(3)] by auto
  have ne: "nd b t \<noteq> n" using windsD(3) [OF w(1)] assms(3) by auto
  let ?s = "s \<lparr> WHEAP := step_heap (WHEAP s) (nd b t) n (prod.swap (F n)), TCH := Ref n \<rparr>"
  have "at_node ?s b C F (t @ [n])" using winds_down(1) [OF w(1) assms(3)] by (simp add: at_node_def)
  from calm_invoke [OF assms(1) this, of "fst (F n)"]
  obtain v s' where "invoke call (fst (F n)) ?s = ret (v, s')" "at_node s' b C F (t @ [n])" "TBCH s' = TBCH s" "CALLS s' = CALLS s @ [fst (F n)]" by auto
  moreover have "prod.swap (F n) = (snd (F n), fst (F n))" by (simp add: prod_eq_iff)
  ultimately show ?thesis using reroot_step_run [OF p w(2) m(3,1,2) ne, of call] by simp
qed

lemma step_up:
  assumes "calm call" and "at_node s b C F (u @ [m])"
  shows "\<exists>v s'. reroot_step call (Ref (nd b u)) s = ret (v, s') \<and> at_node s' b C F u \<and> TBCH s' = TBCH s \<and> CALLS s' = CALLS s @ [snd (F m)]"
proof -
  have w: "winds (WHEAP s) b C F (u @ [m])" "TCH s = Ref m" using assms(2) by (simp_all add: at_node_def)
  obtain p where p: "mem (WHEAP s) (nd b u) = Some (OCons (Ref p) (Ref m))" "mem (WHEAP s) p = Some (OCons (snd (F m)) (fst (F m)))"
    using winds_up(2) [OF w(1)] by blast
  have C: "C m = Some (u @ [m])" "C (nd b u) = Some u" using windsD(3) [OF w(1)] tree_parent [OF windsD(2,3) [OF w(1)]] by simp_all
  obtain x y where m: "m < brk (WHEAP s)" "nd b u < brk (WHEAP s)" "mem (WHEAP s) m = Some (OCons x y)"
    using node_used [OF w(1) C(1)] node_used [OF w(1) C(2)] by auto
  have ne: "m \<noteq> nd b u" using C by auto
  let ?s = "s \<lparr> WHEAP := step_heap (WHEAP s) m (nd b u) (F m), TCH := Ref (nd b u) \<rparr>"
  have "at_node ?s b C F u" using winds_up(1) [OF w(1)] by (simp add: at_node_def)
  from calm_invoke [OF assms(1) this, of "snd (F m)"]
  obtain v s' where "invoke call (snd (F m)) ?s = ret (v, s')" "at_node s' b C F u" "TBCH s' = TBCH s" "CALLS s' = CALLS s @ [snd (F m)]" by auto
  then show ?thesis using reroot_step_run [OF p w(2) m(3,1,2) ne, of call] by simp
qed

lemma reroot_via:
  assumes "TCH s \<noteq> there" and "cdr (WHEAP s) there = Inr nx" and "arc_reroot call nx s = ret (v1, s1)"
  shows "arc_reroot call there s = reroot_step call there s1"
  using assms by (subst arc_reroot.simps) simp

lemma reroot_path:
  assumes "calm call" and "C (nd b (p @ y)) = Some (p @ y)" and "x = [] \<or> y = [] \<or> hd x \<noteq> hd y" and "at_node s b C F (p @ x)"
  shows "\<exists>v s'. arc_reroot call (Ref (nd b (p @ y))) s = ret (v, s') \<and> at_node s' b C F (p @ y) \<and> TBCH s' = TBCH s
    \<and> CALLS s' = CALLS s @ rev (map (\<lambda>n. snd (F n)) x) @ map (\<lambda>n. fst (F n)) y"
  using assms(2-)
proof (induction "length x + length y" arbitrary: p x y)
  case 0
  then show ?case by (subst arc_reroot.simps) (simp add: at_node_def)
next
  case (Suc k)
  have w: "winds (WHEAP s) b C F (p @ x)" "TCH s = Ref (nd b (p @ x))" using Suc.prems(3) by (simp_all add: at_node_def)
  note W = windsD [OF w(1)]
  have ne: "nd b (p @ x) \<noteq> nd b (p @ y)"
  proof
    assume "nd b (p @ x) = nd b (p @ y)"
    then have "x = y" using ctx_inj [OF W(2,3) Suc.prems(1)] by simp
    then show False using Suc.prems(2) Suc.hyps(2) by auto
  qed
  show ?case
  proof (cases y rule: rev_exhaust)
    case (snoc y' n)
    have C': "C (nd b (p @ y')) = Some (p @ y')" using tree_parent [OF W(2), of "p @ y'" n] Suc.prems(1) snoc by simp
    have Cn: "C n = Some (p @ y)" using Suc.prems(1) snoc by (simp add: nd_def)
    have np: "\<not> prefix (p @ y) (p @ x)" using Suc.prems(2) snoc by (auto simp: prefix_def hd_append split: if_splits)
    then have "p @ y \<noteq> p @ x" by auto
    then have "wind_cell (WHEAP s) C n (F n) (nd b (p @ y'))"
      using W(4) [OF Cn] np snoc by (simp add: wind_node_def butlast_append nd_def split: if_splits)
    then have cd: "cdr (WHEAP s) (Ref n) = Inr (Ref (nd b (p @ y')))" by (auto simp: wind_cell_def cdr_def)
    have "k = length x + length y'" "x = [] \<or> y' = [] \<or> hd x \<noteq> hd y'"
      using Suc.hyps(2) Suc.prems(2) snoc by (auto simp: hd_append split: if_splits)
    from Suc.hyps(1) [OF this(1) C' this(2) Suc.prems(3)]
    obtain v1 s1 where r: "arc_reroot call (Ref (nd b (p @ y'))) s = ret (v1, s1)" "at_node s1 b C F (p @ y')" "TBCH s1 = TBCH s"
      "CALLS s1 = CALLS s @ rev (map (\<lambda>n. snd (F n)) x) @ map (\<lambda>n. fst (F n)) y'" by blast
    have n: "nd b (p @ y) = n" using snoc by (simp add: nd_def)
    have "arc_reroot call (Ref n) s = reroot_step call (Ref n) s1"
      by (rule reroot_via [OF _ cd r(1)]) (use w(2) ne n in simp)
    moreover have "C n = Some ((p @ y') @ [n])" using Cn snoc by simp
    ultimately show ?thesis using step_down [OF assms(1) r(2), of n] r(3,4) n snoc by (auto simp: append_assoc)
  next
    case Nil
    then obtain c x' where x: "x = c # x'" using Suc.hyps(2) by (cases x) auto
    have Cp: "C (nd b p) = Some p" using Suc.prems(1) Nil by simp
    have "wind_cell (WHEAP s) C (nd b p) (prod.swap (F c)) c" using W(4) [OF Cp] x by (simp add: wind_node_def)
    then have cd: "cdr (WHEAP s) (Ref (nd b p)) = Inr (Ref c)" by (auto simp: wind_cell_def cdr_def)
    have Cc: "C (nd b ((p @ [c]) @ [])) = Some ((p @ [c]) @ [])" using tree_prefix [OF W(2), of "p @ [c]" x'] W(3) x by simp
    have "k = length x' + length ([] :: nat list)" "at_node s b C F ((p @ [c]) @ x')" using Suc.hyps(2) Suc.prems(3) Nil x by simp_all
    from Suc.hyps(1) [OF this(1) Cc _ this(2)]
    obtain v1 s1 where r: "arc_reroot call (Ref c) s = ret (v1, s1)" "at_node s1 b C F (p @ [c])" "TBCH s1 = TBCH s"
      "CALLS s1 = CALLS s @ rev (map (\<lambda>n. snd (F n)) x')" by auto
    have "arc_reroot call (Ref (nd b p)) s = reroot_step call (Ref (nd b p)) s1"
      by (rule reroot_via [OF _ cd r(1)]) (use w(2) ne Nil in simp)
    then show ?thesis using step_up [OF assms(1) r(2)] r(3,4) x Nil by auto
  qed
qed

subsection \<open>Continuations, dynamic winds and errors\<close>

text \<open>A thread in one wind, with functions that return nil.\<close>

definition demo_call :: caller where
  "demo_call = (\<lambda>f s. ret (NIL, s))"

definition demo_C :: "nat \<Rightarrow> nat list option" where
  "demo_C = [1 \<mapsto> [], 3 \<mapsto> [3]]"

definition demo_F :: "nat \<Rightarrow> val \<times> val" where
  "demo_F = (\<lambda>_. (Fix 10, Fix 20))"

definition demo_wthr :: wthr where
  "demo_wthr = \<lparr> WTHR = Ref 9,
     WHEAP = \<lparr> mem = [1 \<mapsto> OCons (Ref 2) (Ref 3), 2 \<mapsto> OCons (Fix 20) (Fix 10), 3 \<mapsto> OCons dead NIL], brk = 4 \<rparr>,
     TCH = Ref 3, TBCH = Ref 1, TEXH = NIL, WSTATE = Tready, CALLS = [] \<rparr>"

lemma demo_calm: "calm demo_call"
  by (simp add: calm_def demo_call_def)

lemma demo_at: "at_node demo_wthr 1 demo_C demo_F [3]"
proof -
  have "heap_ok (WHEAP demo_wthr)" by (auto simp: heap_ok_def demo_wthr_def)
  moreover have "tree_ok 1 demo_C" by (auto simp: tree_ok_def demo_C_def nd_def)
  moreover have "wind_node (WHEAP demo_wthr) 1 demo_C demo_F [3] ns" if "demo_C n = Some ns" for n ns
    using that by (auto simp: demo_C_def demo_F_def wind_node_def wind_cell_def nd_def demo_wthr_def split: if_splits)
  ultimately show ?thesis by (simp add: at_node_def winds_def nd_def) (simp add: demo_C_def demo_wthr_def)
qed

text \<open>
  Property C6. Invoking a continuation that was captured at another place of the tree of winds leaves and
  enters exactly the winds between: the \<open>after\<close> thunks of the winds that only the place
  now is in run first, innermost first, then the \<open>before\<close> thunks of the winds that only the
  other place is in, outermost first. The thread is then at that place, the tree is as before,
  and the continuation gets the argument.
\<close>

theorem continuation_winds:
  assumes "calm call" and "at_node s b C F (p @ x)" and "C (nd b (p @ y)) = Some (p @ y)" and "x = [] \<or> y = [] \<or> hd x \<noteq> hd y"
    and "WTHR s = cc_thr E" and "cc_tch E = Ref (nd b (p @ y))"
  shows "\<exists>s'. contwrapper call E arg s = ret (if cc_tcr E = NIL then Return arg else Jump (cc_tcr E) arg, s')
    \<and> at_node s' b C F (p @ y) \<and> CALLS s' = CALLS s @ rev (map (\<lambda>n. snd (F n)) x) @ map (\<lambda>n. fst (F n)) y"
proof -
  obtain v s' where "arc_reroot call (cc_tch E) s = ret (v, s')" "at_node s' b C F (p @ y)"
    "CALLS s' = CALLS s @ rev (map (\<lambda>n. snd (F n)) x) @ map (\<lambda>n. fst (F n)) y"
    using reroot_path [OF assms(1,3,4,2)] assms(6) by auto
  then show ?thesis using assms(5) by (simp add: contwrapper_def)
qed

theorem continuation_winds_witness:
  "\<exists>s'. contwrapper demo_call \<lparr> cc_tcr = Ref 8, cc_tch = Ref 1, cc_tbch = Ref 1, cc_thr = Ref 9 \<rparr> (Fix 5) demo_wthr = ret (Jump (Ref 8) (Fix 5), s')
    \<and> CALLS s' = [Fix 20]"
proof -
  have "at_node demo_wthr 1 demo_C demo_F ([] @ [3])" "demo_C (nd 1 ([] @ [])) = Some ([] @ [])"
    using demo_at by (simp_all add: nd_def demo_C_def)
  from continuation_winds [OF demo_calm this, of "\<lparr> cc_tcr = Ref 8, cc_tch = Ref 1, cc_tbch = Ref 1, cc_thr = Ref 9 \<rparr>" "Fix 5"]
  show ?thesis by (auto simp: nd_def demo_wthr_def demo_F_def)
qed

lemma ctx_element: "tree_ok b C \<Longrightarrow> C (nd b t) = Some t \<Longrightarrow> k < length t \<Longrightarrow> C (t ! k) = Some (take (Suc k) t)"
  using tree_prefix [of b C "take (Suc k) t" "drop (Suc k) t"] unfolding append_take_drop_id by (simp add: take_Suc_conv_app_nth)

text \<open>A new wind below the current place.\<close>

lemma new_wind:
  assumes "at_node s b C F t" and "cons (WHEAP s) before after = (w, h1)" and "cons h1 w (TCH s) = (node, h2)"
  shows "\<exists>n. node = Ref n \<and> C n = None
    \<and> at_node (s \<lparr> WHEAP := h2 \<rparr>) b (C(n \<mapsto> t @ [n])) (F(n := (before, after))) t"
proof -
  let ?h = "WHEAP s" and ?n = "Suc (brk (WHEAP s))"
  let ?C = "C(?n \<mapsto> t @ [?n])" and ?F = "F(?n := (before, after))"
  have w: "winds ?h b C F t" "TCH s = Ref (nd b t)" using assms(1) by (simp_all add: at_node_def)
  note W = windsD [OF w(1)]
  have h: "w = Ref (brk ?h)" "node = Ref ?n" "mem h2 (brk ?h) = Some (OCons before after)" "mem h2 ?n = Some (OCons (Ref (brk ?h)) (Ref (nd b t)))"
    "\<forall>a < brk ?h. mem h2 a = mem ?h a" "heap_ok h2"
    using assms(2,3) W(1) w(2) by (auto simp: cons_def halloc_def heap_ok_def less_Suc_eq split: if_splits)
  have used: "k < brk ?h" if "C k \<noteq> None" for k using node_used [OF w(1)] that by auto
  have fresh: "C ?n = None" "C (brk ?h) = None" using used [of ?n] used [of "brk ?h"] by fastforce+
  have cell: "wind_cell h2 ?C m fs nx" if c: "wind_cell ?h C m fs nx" for m fs nx
  proof -
    obtain p where p: "mem ?h m = Some (OCons (Ref p) (Ref nx))" "mem ?h p = Some (OCons (fst fs) (snd fs))" "C p = None"
      using c by (auto simp: wind_cell_def)
    then have "m < brk ?h" "p < brk ?h" using W(1) by (auto simp: heap_ok_def)
    then show ?thesis using p h(5) by (auto simp: wind_cell_def)
  qed
  have node: "wind_node h2 b ?C ?F t ns" if c: "C m = Some ns" for m ns
  proof -
    have m: "nd b ns = m" "m < brk ?h" using tree_node [OF W(2) c] used [of m] c by simp_all
    have a: "?F (t ! length ns) = F (t ! length ns)" if "prefix ns t" "ns \<noteq> t"
    proof -
      have "length ns < length t" using that by (metis prefix_length_less prefix_order.order_iff_strict)
      then have "C (t ! length ns) \<noteq> None" using ctx_element [OF W(2,3)] by simp
      then show ?thesis using fresh(1) by auto
    qed
    have l: "?F (last ns) = F (last ns)" if "ns \<noteq> []" using that m by (simp add: nd_def)
    have "ns \<noteq> []" if "\<not> prefix ns t" using that by auto
    then show ?thesis using W(4) [OF c] a l h(5) m cell unfolding wind_node_def by (auto split: if_splits)
  qed
  have new: "wind_node h2 b ?C ?F t (t @ [?n])"
    using h(3,4) fresh by (auto simp: wind_node_def wind_cell_def)
  have "C b = Some []" using W(2) by (simp add: tree_ok_def)
  then have nb: "nd b t \<noteq> ?n" "b \<noteq> ?n" using W(3) fresh(1) by auto
  have "tree_ok b ?C"
  proof -
    have "m = nd b ns \<and> (ns \<noteq> [] \<longrightarrow> ?C (nd b (butlast ns)) = Some (butlast ns))" if "?C m = Some ns" for m ns
    proof (cases "m = ?n")
      case True
      then show ?thesis using that nb W(3) by auto
    next
      case False
      then have c: "C m = Some ns" using that by simp
      then have "m = nd b ns \<and> (ns \<noteq> [] \<longrightarrow> C (nd b (butlast ns)) = Some (butlast ns))" using W(2) by (simp add: tree_ok_def)
      then show ?thesis using fresh(1) by auto
    qed
    then show ?thesis using W(2) nb(2) by (simp add: tree_ok_def)
  qed
  moreover have "?C (nd b t) = Some t" using nb(1) W(3) by simp
  moreover have "wind_node h2 b ?C ?F t ns" if "?C m = Some ns" for m ns
    using that node new by (auto split: if_splits)
  ultimately have "winds h2 b ?C ?F t" using h(6) by (simp add: winds_def)
  then show ?thesis using h(2) fresh(1) w(2) by (auto simp: at_node_def)
qed

text \<open>
  Property C29. A dynamic wind whose functions return calls \<open>before\<close>, \<open>during\<close> and \<open>after\<close> in this order,
  leaves the thread at the place where it was, and returns what \<open>during\<close> returned.
\<close>

theorem dynamic_wind_calls:
  assumes "calm call" and "at_node s b C F t"
  shows "\<exists>n v s1 s2 s'. C n = None \<and> invoke call during s1 = ret (v, s2) \<and> CALLS s1 = CALLS s @ [before] \<and> TCH s1 = Ref n
    \<and> arc_dynamic_wind call before during after s = ret (v, s') \<and> CALLS s' = CALLS s @ [before, during, after]
    \<and> at_node s' b (C(n \<mapsto> t @ [n])) (F(n := (before, after))) t"
proof -
  obtain w h1 where c1: "cons (WHEAP s) before after = (w, h1)" by fastforce
  obtain node h2 where c2: "cons h1 w (TCH s) = (node, h2)" by fastforce
  obtain n where n: "node = Ref n" "C n = None" "at_node (s \<lparr> WHEAP := h2 \<rparr>) b (C(n \<mapsto> t @ [n])) (F(n := (before, after))) (t @ [])"
    using new_wind [OF assms(2) c1 c2] by auto
  let ?C = "C(n \<mapsto> t @ [n])" and ?F = "F(n := (before, after))"
  have Cn: "?C (nd b (t @ [n])) = Some (t @ [n])" by simp
  obtain v1 s1 where r1: "arc_reroot call (Ref n) (s \<lparr> WHEAP := h2 \<rparr>) = ret (v1, s1)" "at_node s1 b ?C ?F (t @ [n])" "CALLS s1 = CALLS s @ [before]"
    using reroot_path [OF assms(1) Cn _ n(3)] by auto
  obtain v s2 where r2: "invoke call during s1 = ret (v, s2)" "at_node s2 b ?C ?F (t @ [n])" "CALLS s2 = CALLS s @ [before, during]"
    using calm_invoke [OF assms(1) r1(2), of during] r1(3) by auto
  have Ct: "?C (nd b (t @ [])) = Some (t @ [])" using n(3) by (simp add: at_node_def winds_def)
  obtain v3 s3 where r3: "arc_reroot call (Ref (nd b t)) s2 = ret (v3, s3)" "at_node s3 b ?C ?F t" "CALLS s3 = CALLS s @ [before, during, after]"
    using reroot_path [OF assms(1) Ct _ r2(2)] r2(3) by auto
  have "TCH s = Ref (nd b t)" using assms(2) by (simp add: at_node_def)
  then have "arc_dynamic_wind call before during after s = ret (v, s3)"
    using c1 c2 n(1) r1(1) r2(1) r3(1) by (simp add: arc_dynamic_wind_def)
  moreover have "TCH s1 = Ref n" using r1(2) by (simp add: at_node_def)
  ultimately show ?thesis using n(2) r1(3) r2(1) r3(2,3) by blast
qed

theorem dynamic_wind_calls_witness:
  "\<exists>v s'. arc_dynamic_wind demo_call (Fix 1) (Fix 2) (Fix 3) demo_wthr = ret (v, s') \<and> CALLS s' = [Fix 1, Fix 2, Fix 3]"
  using dynamic_wind_calls [OF demo_calm demo_at, of "Fix 2" "Fix 1" "Fix 3"] by (auto simp: demo_wthr_def)

text \<open>
  Property C19. An error without a handler breaks the thread, but not before the \<open>after\<close> thunk of every wind
  it was in has run, innermost first.
\<close>

theorem uncaught_error_unwinds:
  assumes "calm call" and "at_node s b C F t" and "TEXH s = NIL" and "TBCH s = Ref b"
  shows "\<exists>s'. arc_err call str s = ret (Broken, s') \<and> WSTATE s' = Tbroken \<and> TCH s' = Ref b
    \<and> CALLS s' = CALLS s @ rev (map (\<lambda>n. snd (F n)) t)"
proof -
  obtain e h where e: "arc_mkexception (WHEAP s) str = (e, h)" by fastforce
  let ?s = "s \<lparr> WHEAP := h \<rparr>"
  have w: "winds (WHEAP s) b C F t" using assms(2) by (simp add: at_node_def)
  note W = windsD [OF w]
  have h: "heap_ok h" "\<forall>a < brk (WHEAP s). mem h a = mem (WHEAP s) a"
    using e W(1) by (auto simp: arc_mkexception_def halloc_def heap_ok_def less_Suc_eq split: if_splits)
  have cell: "wind_cell h C m fs nx" if "wind_cell (WHEAP s) C m fs nx" for m fs nx
    using that h(2) W(1) unfolding wind_cell_def heap_ok_def by (metis option.distinct(1))
  have "wind_node h b C F t ns" if "C m = Some ns" for m ns
  proof -
    have "nd b ns < brk (WHEAP s)" using node_used [OF w that] tree_node [OF W(2) that] by simp
    then show ?thesis using W(4) [OF that] h(2) cell unfolding wind_node_def by (auto split: if_splits)
  qed
  then have a: "at_node ?s b C F ([] @ t)" using assms(2) W h(1) by (simp add: at_node_def winds_def)
  have b: "C (nd b ([] @ [])) = Some ([] @ [])" using W(2) by (simp add: tree_ok_def nd_def)
  obtain v s' where "arc_reroot call (Ref b) ?s = ret (v, s')" "at_node s' b C F []" "CALLS s' = CALLS s @ rev (map (\<lambda>n. snd (F n)) t)"
    using reroot_path [OF assms(1) b _ a] by (auto simp: nd_def)
  then show ?thesis using e assms(3,4) by (auto simp: arc_err_def at_node_def nd_def)
qed

theorem uncaught_error_unwinds_witness:
  "\<exists>s'. arc_err demo_call (Fix 6) demo_wthr = ret (Broken, s') \<and> CALLS s' = [Fix 20]"
  using uncaught_error_unwinds [OF demo_calm demo_at, of "Fix 6"] by (auto simp: demo_wthr_def demo_F_def)

end
