(* ===== verification/Threads.thy ===== *)
theory Threads
  imports Channel
begin

text \<open>
  Threads, \<open>src/src/thread.c\<close>: the dispatcher with its queue of threads, a cons queue in the heap,
  spawning, killing, breaking and joining, and continuation marks. The fields of a thread are
  maps from its value. The clock, the system calls that wait, the collector and what a thread
  does when it runs are parameters.
\<close>

subsection \<open>The state\<close>

type_synonym u64 = "64 word"

record sched =
  WORLD :: world
  VMQ :: "val \<times> val"
  CURTHR :: val
  TVALR :: "val \<Rightarrow> val"
  TRVCH :: "val \<Rightarrow> val"
  TQUANTA :: "val \<Rightarrow> nat"
  TWAKEUP :: "val \<Rightarrow> u64"
  TACELL :: "val \<Rightarrow> bool"
  TCM :: "val \<Rightarrow> val \<Rightarrow> val option"
  TICK :: nat

text \<open>
  The \<open>k\<close>-th reading of \<open>__arc_milliseconds\<close>, \<open>c->quantum\<close>, \<open>c->gc\<close> with its status,
  \<open>process_iowait\<close>, \<open>nanosleep\<close>, the symbol \<open>t\<close>, and \<open>__arc_thr_trampoline\<close>.
\<close>

record os =
  os_clock :: "nat \<Rightarrow> u64"
  os_quantum :: nat
  os_gc :: "sched \<Rightarrow> int \<times> sched"
  os_iowait :: "val \<Rightarrow> int \<Rightarrow> sched \<Rightarrow> sched res"
  os_nap :: "u64 \<Rightarrow> sched \<Rightarrow> sched"
  os_true :: val
  os_run :: "val \<Rightarrow> sched \<Rightarrow> sched run"

definition state_of :: "sched \<Rightarrow> val \<Rightarrow> threadstate" where
  "state_of s t = TSTATE (WORLD s) t"

definition sheap :: "sched \<Rightarrow> heap" where
  "sheap s = WHP (WORLD s)"

definition put_state :: "val \<Rightarrow> threadstate \<Rightarrow> sched \<Rightarrow> sched" where
  "put_state t st s = s \<lparr> WORLD := set_state t st (WORLD s) \<rparr>"

definition put_heap :: "heap \<Rightarrow> sched \<Rightarrow> sched" where
  "put_heap h s = s \<lparr> WORLD := (WORLD s) \<lparr> WHP := h \<rparr> \<rparr>"

definition milliseconds :: "os \<Rightarrow> sched \<Rightarrow> u64 \<times> sched" where
  "milliseconds E s = (os_clock E (TICK s), s \<lparr> TICK := Suc (TICK s) \<rparr>)"

subsection \<open>One round of the dispatcher\<close>

record tally =
  nthreads :: nat
  nblocked :: nat
  niowait :: nat
  nsleep :: nat
  minsleep :: u64
  iowaitdata :: val

definition no_tally :: tally where
  "no_tally = \<lparr> nthreads = 0, nblocked = 0, niowait = 0, nsleep = 0, minsleep = - 1, iowaitdata = NIL \<rparr>"

text \<open>A dead thread leaves: those who wait for its value are woken, and it is unlinked from the queue.\<close>

definition retire :: "os \<Rightarrow> val \<Rightarrow> val \<Rightarrow> val \<Rightarrow> sched \<Rightarrow> sched run" where
  "retire E vmqueue prev thr s =
     rthen (if htype (sheap s) (TRVCH s thr) = T_CHAN
            then rthen (arc_send_rvchan (os_true E) (TRVCH s thr) (TVALR s thr) (WORLD s)) (\<lambda>(_, w). ret (s \<lparr> WORLD := w \<rparr>))
            else ret s) (\<lambda>s.
     let s = s \<lparr> TRVCH := (TRVCH s)(thr := TVALR s thr) \<rparr> in
     rthen (Some (cdr (sheap s) vmqueue)) (\<lambda>nx.
     rthen (if prev = NIL then ret (s \<lparr> VMQ := (nx, snd (VMQ s)) \<rparr>)
            else rthen (Some (scdr (sheap s) prev nx)) (\<lambda>(_, h). ret (put_heap h s))) (\<lambda>s.
     ret (if nx = NIL then s \<lparr> VMQ := (fst (VMQ s), prev) \<rparr> else s))))"

definition run_thread :: "os \<Rightarrow> val \<Rightarrow> sched \<Rightarrow> sched run" where
  "run_thread E thr s = os_run E thr (if TQUANTA s thr = 0 then s \<lparr> TQUANTA := (TQUANTA s)(thr := os_quantum E) \<rparr> else s)"

partial_function (option) critical_loop :: "os \<Rightarrow> val \<Rightarrow> sched \<Rightarrow> sched run" where
  "critical_loop E thr s =
     (if state_of s thr = Tcritical
      then Option.bind (run_thread E thr s) (\<lambda>r. case r of Inl e \<Rightarrow> fail e | Inr s \<Rightarrow> critical_loop E thr s)
      else ret s)"

text \<open>The body of the loop over the queue; the result is the new \<open>prev\<close>, the counts and the state.\<close>

definition dispatch_thread :: "os \<Rightarrow> val \<Rightarrow> val \<Rightarrow> tally \<Rightarrow> sched \<Rightarrow> (val \<times> tally \<times> sched) run" where
  "dispatch_thread E vmqueue prev t s =
     rthen (Some (car (sheap s) vmqueue)) (\<lambda>thr.
       let s = s \<lparr> CURTHR := thr \<rparr>; t = t \<lparr> nthreads := Suc (nthreads t) \<rparr> in
       case state_of s thr of
         Trelease \<Rightarrow> rthen (retire E vmqueue prev thr s) (\<lambda>s. ret (prev, t, s))
       | Tbroken \<Rightarrow> rthen (retire E vmqueue prev thr s) (\<lambda>s. ret (prev, t, s))
       | Talt \<Rightarrow> ret (vmqueue, t \<lparr> nblocked := Suc (nblocked t) \<rparr>, s)
       | Tsend \<Rightarrow> ret (vmqueue, t \<lparr> nblocked := Suc (nblocked t) \<rparr>, s)
       | Trecv \<Rightarrow> ret (vmqueue, t \<lparr> nblocked := Suc (nblocked t) \<rparr>, s)
       | Tsleep \<Rightarrow>
           (let (now, s) = milliseconds E s in
            if now \<ge> TWAKEUP s thr then
              rthen (run_thread E thr (put_state thr Tready (s \<lparr> TVALR := (TVALR s)(thr := NIL) \<rparr>))) (\<lambda>s. ret (vmqueue, t, s))
            else ret (vmqueue, t \<lparr> nsleep := Suc (nsleep t), minsleep := min (TWAKEUP s thr) (minsleep t) \<rparr>, s))
       | Tready \<Rightarrow> rthen (run_thread E thr s) (\<lambda>s. ret (vmqueue, t, s))
       | Tcritical \<Rightarrow> rthen (critical_loop E thr s) (\<lambda>s. ret (vmqueue, t, s))
       | Tiowait \<Rightarrow> (let (c, h) = cons (sheap s) thr (iowaitdata t) in
           ret (vmqueue, t \<lparr> niowait := Suc (niowait t), iowaitdata := c \<rparr>, put_heap h s)))"

partial_function (option) dispatch_round :: "os \<Rightarrow> val \<Rightarrow> val \<Rightarrow> tally \<Rightarrow> sched \<Rightarrow> (tally \<times> sched) run" where
  "dispatch_round E vmqueue prev t s =
     (if vmqueue = NIL then ret (t, s)
      else Option.bind (dispatch_thread E vmqueue prev t s) (\<lambda>r. case r of
             Inl e \<Rightarrow> fail e
           | Inr (prev, t, s) \<Rightarrow> (case cdr (sheap s) vmqueue of Inl e \<Rightarrow> fail e | Inr nx \<Rightarrow> dispatch_round E nx prev t s)))"

subsection \<open>Between rounds\<close>

text \<open>The time out of \<open>epoll_wait\<close> is an \<open>int\<close>, computed from \<open>unsigned long long\<close>.\<close>

definition eptimeout :: "os \<Rightarrow> int \<Rightarrow> tally \<Rightarrow> sched \<Rightarrow> int \<times> sched" where
  "eptimeout E gcstatus t s =
     (if gcstatus = 0 then (0, s)
      else if niowait t + nblocked t = nthreads t then (- 1, s)
      else if niowait t + nsleep t + nblocked t = nthreads t then
        (let (now, s) = milliseconds E s in (sint (ucast (minsleep t - now) :: 32 word), s))
      else (0, s))"

definition after_round :: "os \<Rightarrow> int \<Rightarrow> tally \<Rightarrow> sched \<Rightarrow> (int \<times> sched) res" where
  "after_round E gcstatus t s =
     rbind (if niowait t > 0 then (let (tmo, s) = eptimeout E gcstatus t s in os_iowait E (iowaitdata t) tmo s) else Inr s) (\<lambda>s.
     let s = (if nsleep t = nthreads t then (let (now, s) = milliseconds E s in os_nap E (minsleep t - now) s) else s) in
     Inr (os_gc E s))"

partial_function (option) thread_dispatch :: "os \<Rightarrow> int \<Rightarrow> sched \<Rightarrow> sched run" where
  "thread_dispatch E gcstatus s =
     Option.bind (dispatch_round E (fst (VMQ s)) NIL no_tally s) (\<lambda>r. case r of
       Inl e \<Rightarrow> fail e
     | Inr (t, s) \<Rightarrow>
         if nthreads t = 0 \<or> nthreads t = nblocked t then ret s
         else case after_round E gcstatus t s of Inl e \<Rightarrow> fail e | Inr (g, s) \<Rightarrow> thread_dispatch E g s)"

definition arc_thread_dispatch :: "os \<Rightarrow> sched \<Rightarrow> sched run" where
  "arc_thread_dispatch E s = thread_dispatch E 0 s"

subsection \<open>Operations on threads\<close>

text \<open>
  \<open>arc_mkthread\<close> as far as the dispatcher sees a thread. Applying the thunk is a parameter: it
  tells whether the status was \<open>TR_RESUME\<close>.
\<close>

definition arc_mkthread :: "sched \<Rightarrow> val \<times> sched" where
  "arc_mkthread s =
     (let (a, h) = halloc (sheap s) (OBlk T_THREAD []); thr = Ref a; (ch, h) = arc_mkchan h in
      (thr, put_state thr Tready (put_heap h (s \<lparr> TVALR := (TVALR s)(thr := NIL), TRVCH := (TRVCH s)(thr := ch),
         TQUANTA := (TQUANTA s)(thr := 0), TWAKEUP := (TWAKEUP s)(thr := 0), TACELL := (TACELL s)(thr := False),
         TCM := (TCM s)(thr := \<lambda>_. None) \<rparr>))))"

definition arc_spawn :: "(val \<Rightarrow> val \<Rightarrow> sched \<Rightarrow> (bool \<times> sched) res) option \<Rightarrow> val \<Rightarrow> sched \<Rightarrow> (val \<times> sched) res" where
  "arc_spawn apply thunk s =
     (case apply of
        None \<Rightarrow> Inl (ArcErr ''cannot apply thunk for spawn'')
      | Some app \<Rightarrow>
          (let (thr, s) = arc_mkthread s; s = s \<lparr> TVALR := (TVALR s)(thr := thunk) \<rparr> in
           rbind (app thr thunk s) (\<lambda>(resume, s).
             if \<not> resume then
               Inr (thr, put_state thr Trelease (s \<lparr> TRVCH := (TRVCH s)(thr := TVALR s thr) \<rparr>))
             else rbind (arc_enqueue (sheap s) (VMQ s) thr) (\<lambda>(q, h). Inr (thr, put_heap h (s \<lparr> VMQ := q \<rparr>))))))"

definition arc_dead :: "val \<Rightarrow> sched \<Rightarrow> bool" where
  "arc_dead thr s \<longleftrightarrow> state_of s thr = Trelease \<or> state_of s thr = Tbroken"

definition arc_atomic_cell :: "val \<Rightarrow> bool option \<Rightarrow> sched \<Rightarrow> bool \<times> sched" where
  "arc_atomic_cell thr v s = (case v of None \<Rightarrow> (TACELL s thr, s) | Some b \<Rightarrow> (b, s \<lparr> TACELL := (TACELL s)(thr := b) \<rparr>))"

text \<open>Killing up to the receive from \<open>__achan__\<close>, which is to be done when the result says so.\<close>

definition arc_kill_thread :: "val \<Rightarrow> sched \<Rightarrow> bool \<times> sched" where
  "arc_kill_thread tthr s =
     (let s = put_state tthr Tbroken s in
      if TACELL s tthr then (True, s \<lparr> TACELL := (TACELL s)(tthr := False) \<rparr>) else (False, s))"

text \<open>Whether the thread is made to call \<open>arc_err\<close> when it runs next.\<close>

definition arc_break_thread :: "val \<Rightarrow> sched \<Rightarrow> bool \<times> sched" where
  "arc_break_thread tthr s =
     (if state_of s tthr \<notin> {Tready, Tsleep, Tiowait} then (False, s) else (True, put_state tthr Tready s))"

text \<open>
  Joining: \<open>None\<close> is a yield. The loop tests the result channel again after a value was received
  from it; it is over when the dispatcher has put the value in its place.
\<close>

partial_function (option) arc_join_thread :: "val \<Rightarrow> val \<Rightarrow> sched \<Rightarrow> (val option \<times> sched) run" where
  "arc_join_thread thr jthr s =
     (if htype (sheap s) (TRVCH s jthr) = T_CHAN then
        (case recv_rvchan_loop thr (TRVCH s jthr) (WORLD s) of
           Inl e \<Rightarrow> fail e
         | Inr (None, w) \<Rightarrow> ret (None, s \<lparr> WORLD := w \<rparr>)
         | Inr (Some v, w) \<Rightarrow> arc_join_thread thr jthr (s \<lparr> WORLD := w \<rparr>))
      else ret (Some (TRVCH s jthr), s))"

text \<open>Continuation marks: a stack of values for each key.\<close>

definition arc_cmark :: "val \<Rightarrow> sched \<Rightarrow> val res" where
  "arc_cmark key s = (case TCM s (CURTHR s) key of None \<Rightarrow> Inr NIL | Some b \<Rightarrow> car (sheap s) b)"

definition arc_scmark :: "val \<Rightarrow> val \<Rightarrow> sched \<Rightarrow> val \<times> sched" where
  "arc_scmark key v s =
     (let t = CURTHR s; bind = (case TCM s t key of None \<Rightarrow> NIL | Some b \<Rightarrow> b); (c, h) = cons (sheap s) v bind in
      (v, put_heap h (s \<lparr> TCM := (TCM s)(t := (TCM s t)(key \<mapsto> c)) \<rparr>)))"

definition arc_ccmark :: "val \<Rightarrow> sched \<Rightarrow> (val \<times> sched) res" where
  "arc_ccmark key s =
     (let t = CURTHR s in
      case TCM s t key of
        None \<Rightarrow> Inr (NIL, s)
      | Some b \<Rightarrow>
          rbind (rep_cons (sheap s) b) (\<lambda>(v, d).
            Inr (v, s \<lparr> TCM := (TCM s)(t := (TCM s t)(key := (if d = NIL then None else Some d))) \<rparr>)))"

subsection \<open>When the dispatcher returns\<close>

definition blocked :: "threadstate \<Rightarrow> bool" where
  "blocked st \<longleftrightarrow> st = Talt \<or> st = Tsend \<or> st = Trecv"

text \<open>A thread is counted once, as blocked only if it is; then nothing else happens.\<close>

lemma dispatch_counts:
  assumes "dispatch_thread E vmqueue prev t s = ret (prev', t', s')"
  shows "nthreads t' = Suc (nthreads t) \<and> nblocked t' \<le> Suc (nblocked t)
    \<and> (nblocked t' = Suc (nblocked t) \<longrightarrow> (\<exists>thr. car (sheap s) vmqueue = Inr thr \<and> blocked (state_of s thr) \<and> s' = s \<lparr> CURTHR := thr \<rparr>))"
proof -
  obtain thr where c: "car (sheap s) vmqueue = Inr thr"
    using assms by (cases "car (sheap s) vmqueue") (simp_all add: dispatch_thread_def)
  have st: "state_of (s \<lparr> CURTHR := thr \<rparr>) thr = state_of s thr" by (simp add: state_of_def)
  note d = assms [unfolded dispatch_thread_def c, simplified, unfolded Let_def st]
  show ?thesis
  proof (cases "state_of s thr")
    case Tiowait
    then show ?thesis using d c by (auto simp: split: prod.splits)
  next
    case Tsleep
    then show ?thesis using d c by (auto simp: rthen_ret milliseconds_def split: if_splits)
  qed (use d c in \<open>auto simp: rthen_ret blocked_def\<close>)
qed

lemma blocked_step:
  assumes "car (sheap s) vmqueue = Inr thr" and "blocked (state_of s thr)"
  shows "dispatch_thread E vmqueue prev t s
    = ret (vmqueue, t \<lparr> nthreads := Suc (nthreads t), nblocked := Suc (nblocked t) \<rparr>, s \<lparr> CURTHR := thr \<rparr>)"
proof -
  have "state_of (s \<lparr> CURTHR := thr \<rparr>) thr = state_of s thr" by (simp add: state_of_def)
  then show ?thesis using assms by (auto simp: dispatch_thread_def blocked_def)
qed

text \<open>The cells from \<open>v\<close> on hold threads that are all blocked.\<close>

definition all_blocked :: "sched \<Rightarrow> val \<Rightarrow> bool" where
  "all_blocked s v \<longleftrightarrow> (\<exists>as ts. chain (sheap s) v as ts NIL \<and> (\<forall>t \<in> set ts. blocked (state_of s t)))"

lemma all_blocked_current: "all_blocked (s \<lparr> CURTHR := c \<rparr>) v \<longleftrightarrow> all_blocked s v"
  by (simp add: all_blocked_def sheap_def state_of_def)

lemma all_blocked_nil: "all_blocked s NIL"
  unfolding all_blocked_def by (rule exI [of _ "[]"], rule exI [of _ "[]"]) simp

lemma all_blocked_cons:
  assumes "car (sheap s) v = Inr t" and "cdr (sheap s) v = Inr nx" and "blocked (state_of s t)"
  shows "all_blocked s v \<longleftrightarrow> all_blocked s nx"
proof -
  obtain a where a: "v = Ref a" "mem (sheap s) a = Some (OCons t nx)"
    using assms(1,2) by (cases v) (auto simp: car_def cdr_def split: option.splits obj.splits)
  show ?thesis
  proof
    assume "all_blocked s nx"
    then obtain as ts where "chain (sheap s) nx as ts NIL" "\<forall>t \<in> set ts. blocked (state_of s t)" by (auto simp: all_blocked_def)
    then have "chain (sheap s) v (a # as) (t # ts) NIL \<and> (\<forall>u \<in> set (t # ts). blocked (state_of s u))" using a assms(3) by simp
    then show "all_blocked s v" unfolding all_blocked_def by blast
  next
    assume "all_blocked s v"
    then obtain as ts where c: "chain (sheap s) v as ts NIL" "\<forall>t \<in> set ts. blocked (state_of s t)" by (auto simp: all_blocked_def)
    then obtain as' ts' where "chain (sheap s) nx as' ts' NIL" "set ts' \<subseteq> set ts" using a by (cases as; cases ts) auto
    then show "all_blocked s nx" using c(2) unfolding all_blocked_def by blast
  qed
qed

definition round_blocks :: "val \<Rightarrow> tally \<Rightarrow> sched \<Rightarrow> fault + tally \<times> sched \<Rightarrow> bool" where
  "round_blocks q t s r \<longleftrightarrow> (case r of Inl _ \<Rightarrow> True | Inr (t', s') \<Rightarrow> nblocked t' + nthreads t \<le> nthreads t' + nblocked t
     \<and> (nblocked t' + nthreads t = nthreads t' + nblocked t \<longrightarrow> all_blocked s q \<and> (\<exists>c. s' = s \<lparr> CURTHR := c \<rparr>)))"

lemma round_blocks_step:
  assumes d: "dispatch_thread E q prev t s = ret (prev1, t1, s1)" and n: "cdr (sheap s1) q = Inr nx" and r: "round_blocks nx t1 s1 r"
  shows "round_blocks q t s r"
proof (cases r)
  case (Inr ts)
  obtain t' s' where ts: "ts = (t', s')" by fastforce
  note c = dispatch_counts [OF d]
  have r: "nblocked t' + nthreads t1 \<le> nthreads t' + nblocked t1"
    "nblocked t' + nthreads t1 = nthreads t' + nblocked t1 \<Longrightarrow> all_blocked s1 nx \<and> (\<exists>c. s' = s1 \<lparr> CURTHR := c \<rparr>)"
    using r Inr ts by (simp_all add: round_blocks_def)
  have "nblocked t' + nthreads t \<le> nthreads t' + nblocked t" using c r(1) by linarith
  moreover have "all_blocked s q \<and> (\<exists>c. s' = s \<lparr> CURTHR := c \<rparr>)" if e: "nblocked t' + nthreads t = nthreads t' + nblocked t"
  proof -
    have b: "nblocked t1 = Suc (nblocked t)" "nblocked t' + nthreads t1 = nthreads t' + nblocked t1" using c r(1) e by linarith+
    then obtain thr where thr: "car (sheap s) q = Inr thr" "blocked (state_of s thr)" "s1 = s \<lparr> CURTHR := thr \<rparr>" using c by blast
    obtain c' where s': "all_blocked s1 nx" "s' = s1 \<lparr> CURTHR := c' \<rparr>" using r(2) b(2) by blast
    have "cdr (sheap s) q = Inr nx" using n thr(3) by (simp add: sheap_def)
    then have "all_blocked s q" using all_blocked_cons [OF thr(1) _ thr(2)] s'(1) thr(3) all_blocked_current by blast
    moreover have "s' = s \<lparr> CURTHR := c' \<rparr>" using s'(2) thr(3) by simp
    ultimately show ?thesis by blast
  qed
  ultimately show ?thesis using Inr ts by (simp add: round_blocks_def)
qed (simp add: round_blocks_def)

lemma round_blocked:
  assumes "dispatch_round E q prev t s = Some r"
  shows "round_blocks q t s r"
  using assms
proof (rule dispatch_round.raw_induct [rotated])
  fix f E q prev t s r
  assume ih: "\<And>E q prev t s r. f E q prev t s = Some r \<Longrightarrow> round_blocks q t s r"
    and e: "(if q = NIL then ret (t, s)
      else Option.bind (dispatch_thread E q prev t s) (\<lambda>r. case r of
             Inl e \<Rightarrow> fail e
           | Inr (prev, t, s) \<Rightarrow> (case cdr (sheap s) q of Inl e \<Rightarrow> fail e | Inr nx \<Rightarrow> f E nx prev t s))) = Some r"
  show "round_blocks q t s r"
  proof (cases "q = NIL")
    case True
    then have "r = Inr (t, s)" using e by simp
    then show ?thesis using True all_blocked_nil by (auto simp: round_blocks_def intro: exI [of _ "CURTHR s"])
  next
    case False
    then obtain r1 where d: "dispatch_thread E q prev t s = Some r1" using e by (cases "dispatch_thread E q prev t s") simp_all
    show ?thesis
    proof (cases r1)
      case (Inl x)
      then show ?thesis using e False d by (auto simp: round_blocks_def)
    next
      case (Inr y)
      obtain prev1 t1 s1 where y: "y = (prev1, t1, s1)" by (cases y) auto
      show ?thesis
      proof (cases "cdr (sheap s1) q")
        case (Inl x)
        then show ?thesis using e False d Inr y by (auto simp: round_blocks_def)
      next
        case nx: (Inr nx)
        then have "f E nx prev1 t1 s1 = Some r" using e False d Inr y by simp
        then show ?thesis using round_blocks_step [OF _ nx ih] d Inr y by blast
      qed
    qed
  qed
qed

lemma round_all_blocked:
  "chain (sheap s) q as ts NIL \<Longrightarrow> \<forall>t \<in> set ts. blocked (state_of s t) \<Longrightarrow>
    \<exists>t' c. dispatch_round E q prev t s = ret (t', s \<lparr> CURTHR := c \<rparr>) \<and> nthreads t' = nthreads t + length ts \<and> nblocked t' = nblocked t + length ts"
proof (induction ts arbitrary: q as prev t s)
  case Nil
  then have "q = NIL" by (cases as) auto
  then show ?case by (subst dispatch_round.simps) (auto intro: exI [of _ "CURTHR s"])
next
  case (Cons u ts)
  then obtain a as' nx where a: "q = Ref a" "mem (sheap s) a = Some (OCons u nx)" "chain (sheap s) nx as' ts NIL" by (cases as) auto
  let ?t = "t \<lparr> nthreads := Suc (nthreads t), nblocked := Suc (nblocked t) \<rparr>" and ?s = "s \<lparr> CURTHR := u \<rparr>"
  have d: "dispatch_thread E q prev t s = ret (q, ?t, ?s)"
    using blocked_step [of s q u E prev t] a(1,2) Cons.prems(2) by (simp add: car_def)
  have "chain (sheap ?s) nx as' ts NIL" "\<forall>t \<in> set ts. blocked (state_of ?s t)" using a(3) Cons.prems(2) by (simp_all add: sheap_def state_of_def)
  from Cons.IH [OF this, of q ?t] obtain t' c where "dispatch_round E nx q ?t ?s = ret (t', ?s \<lparr> CURTHR := c \<rparr>)"
    "nthreads t' = nthreads ?t + length ts" "nblocked t' = nblocked ?t + length ts" by blast
  moreover have "cdr (sheap ?s) q = Inr nx" using a(1,2) by (simp add: cdr_def sheap_def)
  moreover have "q \<noteq> NIL" using a(1) by simp
  ultimately show ?case using d by (subst dispatch_round.simps) auto
qed

lemma dispatch_blocked:
  assumes "thread_dispatch E g s = Some r"
  shows "case r of Inl _ \<Rightarrow> True | Inr s' \<Rightarrow> all_blocked s' (fst (VMQ s'))"
  using assms
proof (rule thread_dispatch.raw_induct [rotated])
  fix f E g s r
  assume ih: "\<And>E g s r. f E g s = Some r \<Longrightarrow> case r of Inl _ \<Rightarrow> True | Inr s' \<Rightarrow> all_blocked s' (fst (VMQ s'))"
    and e: "Option.bind (dispatch_round E (fst (VMQ s)) NIL no_tally s) (\<lambda>r. case r of
       Inl e \<Rightarrow> fail e
     | Inr (t, s) \<Rightarrow>
         if nthreads t = 0 \<or> nthreads t = nblocked t then ret s
         else case after_round E g t s of Inl e \<Rightarrow> fail e | Inr (g, s) \<Rightarrow> f E g s) = Some r"
  obtain r1 where d: "dispatch_round E (fst (VMQ s)) NIL no_tally s = Some r1" using e by (cases "dispatch_round E (fst (VMQ s)) NIL no_tally s") simp_all
  note b = round_blocked [OF d]
  show "case r of Inl _ \<Rightarrow> True | Inr s' \<Rightarrow> all_blocked s' (fst (VMQ s'))"
  proof (cases r1)
    case (Inl x)
    then show ?thesis using e d by auto
  next
    case (Inr y)
    obtain t s1 where y: "y = (t, s1)" by fastforce
    show ?thesis
    proof (cases "nthreads t = 0 \<or> nthreads t = nblocked t")
      case True
      have "nblocked t \<le> nthreads t" "nblocked t = nthreads t \<longrightarrow> all_blocked s (fst (VMQ s)) \<and> (\<exists>c. s1 = s \<lparr> CURTHR := c \<rparr>)"
        using b Inr y by (simp_all add: round_blocks_def no_tally_def)
      moreover from this(1) have "nblocked t = nthreads t" using True by auto
      ultimately have "all_blocked s (fst (VMQ s)) \<and> (\<exists>c. s1 = s \<lparr> CURTHR := c \<rparr>)" by blast
      then have "all_blocked s1 (fst (VMQ s1))" by (auto simp: all_blocked_current)
      then show ?thesis using e d Inr y True by auto
    next
      case False
      then show ?thesis using e d Inr y ih by (cases "after_round E g t s1") auto
    qed
  qed
qed

lemma blocked_returns:
  assumes "all_blocked s (fst (VMQ s))"
  shows "\<exists>c. arc_thread_dispatch E s = ret (s \<lparr> CURTHR := c \<rparr>)"
proof -
  obtain as ts where c: "chain (sheap s) (fst (VMQ s)) as ts NIL" "\<forall>t \<in> set ts. blocked (state_of s t)"
    using assms by (auto simp: all_blocked_def)
  from round_all_blocked [OF c, of E NIL no_tally] obtain t' c where
    "dispatch_round E (fst (VMQ s)) NIL no_tally s = ret (t', s \<lparr> CURTHR := c \<rparr>)" "nthreads t' = nblocked t'"
    by (auto simp: no_tally_def)
  then show ?thesis unfolding arc_thread_dispatch_def by (subst thread_dispatch.simps) auto
qed

text \<open>
  Property C7. The dispatcher returns only when every thread that is left in its queue is blocked on a
  channel, or none is left: it does not stop as long as a thread can run, sleeps or waits for
  input or output. When that is so it does return, with nothing changed.
\<close>

theorem dispatch_returns:
  "(arc_thread_dispatch E s = ret s' \<longrightarrow> all_blocked s' (fst (VMQ s')))
    \<and> (all_blocked s (fst (VMQ s)) \<longrightarrow> (\<exists>c. arc_thread_dispatch E s = ret (s \<lparr> CURTHR := c \<rparr>)))"
  using dispatch_blocked [of E 0 s "Inr s'"] blocked_returns [of s E] by (auto simp: arc_thread_dispatch_def)

definition demo_os :: os where
  "demo_os = \<lparr> os_clock = (\<lambda>_. 0), os_quantum = 4096, os_gc = (\<lambda>s. (0, s)), os_iowait = (\<lambda>_ _ s. Inr s), os_nap = (\<lambda>_ s. s),
     os_true = Sym 1, os_run = (\<lambda>t s. ret (put_state t Trecv s)) \<rparr>"

definition demo_sched :: "threadstate \<Rightarrow> sched" where
  "demo_sched st = \<lparr> WORLD = \<lparr> WHP = \<lparr> mem = [1 \<mapsto> OCons (Ref 5) NIL, 5 \<mapsto> OBlk T_THREAD []], brk = 6 \<rparr>, TSTATE = (\<lambda>_. st) \<rparr>, VMQ = (Ref 1, Ref 1),
     CURTHR = NIL, TVALR = (\<lambda>_. NIL), TRVCH = (\<lambda>_. NIL), TQUANTA = (\<lambda>_. 0), TWAKEUP = (\<lambda>_. 0), TACELL = (\<lambda>_. False),
     TCM = (\<lambda>_ _. None), TICK = 0 \<rparr>"

theorem dispatch_returns_witness: "\<exists>c. arc_thread_dispatch demo_os (demo_sched Trecv) = ret (demo_sched Trecv \<lparr> CURTHR := c \<rparr>)"
proof -
  have "chain (sheap (demo_sched Trecv)) (fst (VMQ (demo_sched Trecv))) [1] [Ref 5] NIL \<and> (\<forall>t \<in> set [Ref 5]. blocked (state_of (demo_sched Trecv) t))"
    by (simp add: demo_sched_def sheap_def state_of_def blocked_def)
  then have "all_blocked (demo_sched Trecv) (fst (VMQ (demo_sched Trecv)))" unfolding all_blocked_def by blast
  then show ?thesis using dispatch_returns [of demo_os "demo_sched Trecv" "demo_sched Trecv"] by blast
qed

text \<open>
  Property C15. When the dispatcher gives up, the threads that are left in the operations of a channel all
  want the same: it never leaves a thread that wants to send beside one that wants to receive.
\<close>

theorem dispatch_leaves_one_side:
  assumes "arc_thread_dispatch E s = ret s'" and "sys_reach ctrue chan cs" and "ctrue \<noteq> NIL" and "SW cs = WORLD s'"
    and "chain (sheap s') (fst (VMQ s')) as ts NIL" and "\<forall>t. PEND cs t \<noteq> None \<longrightarrow> t \<in> set ts"
  shows "\<not> (PEND cs t1 = Some CRecv \<and> PEND cs t2 = Some (CSend v))"
proof
  assume p: "PEND cs t1 = Some CRecv \<and> PEND cs t2 = Some (CSend v)"
  obtain A where A: "sys_inv chan cs A" using reach_inv [OF assms(2,3)] by blast
  then have w: "waits_ok (PEND cs) (TSTATE (SW cs)) A" "woken_ok (PEND cs) (TSTATE (SW cs)) A" by (simp_all add: sys_inv_def)
  have "all_blocked s' (fst (VMQ s'))" using dispatch_blocked [of E 0 s "Inr s'"] assms(1) by (simp add: arc_thread_dispatch_def)
  then have b: "blocked (TSTATE (SW cs) t)" if "t \<in> set ts" for t
    using that assms(4,5) chain_det unfolding all_blocked_def state_of_def by metis
  have nr: "TSTATE (SW cs) t \<noteq> Tready" if "PEND cs t \<noteq> None" for t using b [of t] assms(6) that by (auto simp: blocked_def)
  then have "t1 \<in> set (rwait A)" "t2 \<in> set (swait A)" using p w(1) by (auto simp: waits_ok_def)
  then have "rwait A \<noteq> []" "swait A \<noteq> []" by auto
  then obtain t where "PEND cs t \<noteq> None" "TSTATE (SW cs) t = Tready" using w(2) by (cases "slot A") (auto simp: woken_ok_def)
  then show False using nr by blast
qed

text \<open>A thread in the queue waits to receive.\<close>

definition demo_heap :: heap where
  "demo_heap = \<lparr> mem = [1 \<mapsto> OCons (Ref 100) NIL], brk = 2 \<rparr>"

definition demo_asks :: sys where
  "demo_asks = \<lparr> SW = \<lparr> WHP = snd (arc_mkchan demo_heap), TSTATE = (\<lambda>_. Tready) \<rparr>, PEND = [Ref 100 \<mapsto> CRecv], GOT = [], PUT = [] \<rparr>"

definition demo_waits :: sys where
  "demo_waits = (case run_op (Sym 1) (Ref 2) (Ref 100) demo_asks of Inr s \<Rightarrow> s | Inl _ \<Rightarrow> demo_asks)"

lemma demo_waits_run:
  "run_op (Sym 1) (Ref 2) (Ref 100) demo_asks = Inr demo_waits \<and> mem (WHP (SW demo_waits)) 1 = Some (OCons (Ref 100) NIL)
    \<and> TSTATE (SW demo_waits) (Ref 100) = Trecv \<and> PEND demo_waits = [Ref 100 \<mapsto> CRecv]"
  by (simp add: demo_waits_def demo_asks_def demo_heap_def arc_mkchan_def halloc_def run_op_def recv_loop_def chan_wait_def
      chan_enqueue_def chan_queue_def chan_setqueue_def arc_enqueue_def cons_def blk_get_def hset_def numeral_eq_Suc set_state_def)

lemma demo_waits_reach: "sys_reach (Sym 1) (Ref 2) demo_waits"
proof -
  let ?s = "demo_asks \<lparr> PEND := (\<lambda>_. None) \<rparr>"
  have "heap_ok demo_heap" by (auto simp: heap_ok_def demo_heap_def)
  then have s: "sys_reach (Sym 1) (Ref 2) ?s"
    by (rule sys_reach.start [of demo_heap "Ref 2" "snd (arc_mkchan demo_heap)"])
      (simp_all add: demo_asks_def arc_mkchan_def halloc_def demo_heap_def)
  have "sys_step (Sym 1) (Ref 2) ?s (?s \<lparr> PEND := (PEND ?s)(Ref 100 \<mapsto> CRecv) \<rparr>)"
    by (rule sys_step.call) (simp_all add: demo_asks_def arc_mkchan_def halloc_def TYPECHECK_def htype_def demo_heap_def)
  from sys_reach.step [OF s this] have a: "sys_reach (Sym 1) (Ref 2) demo_asks" by (simp add: demo_asks_def)
  have "TSTATE (SW demo_asks) (Ref 100) = Tready" "PEND demo_asks (Ref 100) = Some CRecv" by (simp_all add: demo_asks_def)
  from sys_reach.step [OF a sys_step.run [OF this]] demo_waits_run show ?thesis by blast
qed

theorem dispatch_leaves_one_side_witness:
  "\<not> (PEND demo_waits (Ref 100) = Some CRecv \<and> PEND demo_waits (Ref 200) = Some (CSend (Fix 7)))"
proof -
  let ?s = "demo_sched Trecv \<lparr> WORLD := SW demo_waits \<rparr>"
  have c: "chain (sheap ?s) (fst (VMQ ?s)) [1] [Ref 100] NIL" using demo_waits_run by (simp add: demo_sched_def sheap_def)
  moreover have "\<forall>t \<in> set [Ref 100]. blocked (state_of ?s t)" using demo_waits_run by (simp add: state_of_def blocked_def)
  ultimately have "all_blocked ?s (fst (VMQ ?s))" unfolding all_blocked_def by blast
  then obtain c' where r: "arc_thread_dispatch demo_os ?s = ret (?s \<lparr> CURTHR := c' \<rparr>)" using blocked_returns by blast
  have "chain (sheap (?s \<lparr> CURTHR := c' \<rparr>)) (fst (VMQ (?s \<lparr> CURTHR := c' \<rparr>))) [1] [Ref 100] NIL" using c by (simp add: sheap_def)
  moreover have "SW demo_waits = WORLD (?s \<lparr> CURTHR := c' \<rparr>)" by simp
  moreover have "\<forall>t. PEND demo_waits t \<noteq> None \<longrightarrow> t \<in> set [Ref 100]" using demo_waits_run by simp
  moreover have "Sym 1 \<noteq> NIL" by simp
  ultimately show ?thesis using dispatch_leaves_one_side [OF r demo_waits_reach] by blast
qed

subsection \<open>Continuation marks are stacks\<close>

lemma cmark_push_pop:
  assumes "heap_ok (sheap s)" and "arc_scmark key v s = (r, s1)" and "\<forall>b. TCM s (CURTHR s) key = Some b \<longrightarrow> b \<noteq> NIL"
  shows "arc_cmark key s1 = Inr v \<and> (\<exists>s2. arc_ccmark key s1 = Inr (v, s2) \<and> TCM s2 = TCM s)"
proof -
  let ?b = "case TCM s (CURTHR s) key of None \<Rightarrow> NIL | Some b \<Rightarrow> b"
  obtain h where h: "cons (sheap s) v ?b = (Ref (brk (sheap s)), h)" "mem h (brk (sheap s)) = Some (OCons v ?b)"
    by (auto simp: cons_def halloc_def)
  then have s1: "s1 = put_heap h (s \<lparr> TCM := (TCM s)(CURTHR s := (TCM s (CURTHR s))(key \<mapsto> Ref (brk (sheap s)))) \<rparr>)"
    using assms(2) by (simp add: arc_scmark_def Let_def)
  have "(TCM s (CURTHR s))(key := if ?b = NIL then None else Some ?b) = TCM s (CURTHR s)"
    using assms(3) by (auto split: option.splits)
  then show ?thesis unfolding s1 arc_cmark_def arc_ccmark_def
    using h(2) by (simp add: put_heap_def sheap_def car_def Let_def)
qed

text \<open>
  A thread that is killed while it waits stays in the queue of the channel: the next sender
  wakes it, and its state is ready again.
\<close>

lemma killed_thread_revives:
  assumes "chan_rep (WHP (WORLD s)) chan A" and "NIL \<notin> set (rwait A)" and "slot A = None" and "rwait A = t # ts" and "ctrue \<noteq> NIL"
    and "arc_kill_thread t s = (b, s1)"
  shows "arc_dead t s1 \<and> (\<exists>w. send_loop ctrue thr chan v (WORLD s1) = Inr (Some v, w) \<and> TSTATE w t = Tready)"
proof -
  have w: "WHP (WORLD s1) = WHP (WORLD s)" "TSTATE (WORLD s1) = (TSTATE (WORLD s))(t := Tbroken)"
    using assms(6) by (auto simp: arc_kill_thread_def Let_def put_state_def set_state_def split: if_splits)
  have "a_send thr v A (TSTATE (WORLD s1)) = (Some v, A \<lparr> slot := Some v, rwait := ts \<rparr>, (TSTATE (WORLD s1))(t := Tready))"
    using assms(3,4) by (simp add: a_send_def)
  from send_refines [OF _ assms(2) this assms(5)] assms(1) w(1)
  obtain w' where "send_loop ctrue thr chan v (WORLD s1) = Inr (Some v, w')" "TSTATE w' = (TSTATE (WORLD s1))(t := Tready)" by auto
  then show ?thesis using w(2) by (simp add: arc_dead_def state_of_def)
qed

text \<open>
  When the time of the first sleeper comes between two readings of the clock, the difference
  wraps around, and the dispatcher sleeps for almost \<open>2\<^sup>6\<^sup>4\<close> milliseconds.
\<close>

lemma late_nap_wraps:
  assumes "nsleep t = nthreads t" and "niowait t = 0" and "os_clock E (TICK s) = minsleep t + 1"
  shows "after_round E g t s = Inr (os_gc E (os_nap E (- 1) (s \<lparr> TICK := Suc (TICK s) \<rparr>)))"
  using assms by (simp add: after_round_def milliseconds_def)

end
