(* ===== verification/Compare.thy ===== *)
theory Compare
  imports ReadBack
begin

text \<open>
  The generic comparisons of \<open>src/src/arcueid.c\<close>: \<open>is\<close>, \<open>iso\<close> with the comparisons of conses and
  vectors it calls, the order \<open>arc_cmp\<close> with \<open>>\<close> and \<open><\<close>, and \<open>sref\<close> and \<open>len\<close>. Recursion of
  \<open>iso\<close> has fuel; that the number of cells is enough, whatever their cycles, is proved.
\<close>

subsection \<open>Shallow comparison\<close>

text \<open>
  The field \<open>iscmp\<close> of the type of two objects, which strings, characters and numbers have; that
  of the number objects and regular expressions is the argument \<open>K\<close>.
\<close>

definition iscmp :: "(heap \<Rightarrow> val \<Rightarrow> val \<Rightarrow> bool) \<Rightarrow> heap \<Rightarrow> val \<Rightarrow> val \<Rightarrow> bool" where
  "iscmp K h a b =
     (case (a, b) of
        (Ref p, Ref q) \<Rightarrow>
          (case (mem h p, mem h q) of
             (Some (OStr s), Some (OStr t)) \<Rightarrow> string_iscmp s t
           | (Some (OChar r1), Some (OChar r2)) \<Rightarrow> r1 = r2
           | (Some (OBlk ty _), Some (OBlk _ _)) \<Rightarrow> ty \<in> {T_FLONUM, T_COMPLEX, T_BIGNUM, T_RATIONAL, T_REGEXP} \<and> K h a b
           | _ \<Rightarrow> False)
      | _ \<Rightarrow> False)"

definition is2 :: "(heap \<Rightarrow> val \<Rightarrow> val \<Rightarrow> bool) \<Rightarrow> heap \<Rightarrow> val \<Rightarrow> val \<Rightarrow> bool" where
  "is2 K h a b \<longleftrightarrow> a = b \<or> htype h a = htype h b \<and> iscmp K h a b"

text \<open>The loop \<open>pairwise\<close> over an argument list, which a predicate with state \<open>s\<close> is applied to.\<close>

partial_function (option) pairwise :: "(val \<Rightarrow> val \<Rightarrow> 's \<Rightarrow> (bool \<times> 's) run) \<Rightarrow> heap \<Rightarrow> val \<Rightarrow> 's \<Rightarrow> (bool \<times> 's) run" where
  "pairwise pred h lst s =
     (if lst = NIL then ret (True, s)
      else case rep_cons h lst of Inl e \<Rightarrow> fail e | Inr (x, d) \<Rightarrow>
        if d = NIL then ret (True, s)
        else case rep_cons h d of Inl e \<Rightarrow> fail e | Inr (y, dd) \<Rightarrow>
          Option.bind (pred x y s) (\<lambda>r. case r of Inl e \<Rightarrow> fail e | Inr (t, s) \<Rightarrow>
            if \<not> t then ret (False, s) else pairwise pred h dd s))"

definition arc_is :: "(heap \<Rightarrow> val \<Rightarrow> val \<Rightarrow> bool) \<Rightarrow> heap \<Rightarrow> val \<Rightarrow> bool run" where
  "arc_is K h l = rthen (pairwise (\<lambda>a b u. ret (is2 K h a b, u)) h l ()) (\<lambda>(t, _). ret t)"

subsection \<open>Structural comparison\<close>

type_synonym isovisits = "visits \<times> visits"
type_synonym iso = "val \<Rightarrow> val \<Rightarrow> isovisits \<Rightarrow> (bool \<times> isovisits) run"

text \<open>
  Arguments: the shallow comparison of numbers, the structural one of tables, and what
  \<open>__arc_vector_isocmp\<close> gets when it takes a key for the number of a variable.
\<close>

record isoparams =
  ip_iscmp :: "heap \<Rightarrow> val \<Rightarrow> val \<Rightarrow> bool"
  ip_table :: "heap \<Rightarrow> iso"
  ip_var :: "val \<Rightarrow> val"

text \<open>The visits at the start of the comparisons of conses and vectors: the answer, or the key.\<close>

definition iso_visit :: "val \<Rightarrow> val \<Rightarrow> isovisits \<Rightarrow> (bool + val) \<times> isovisits" where
  "iso_visit v1 v2 = (\<lambda>(vh1, vh2).
     case visit v1 vh1 of (vhh1, vh1) \<Rightarrow>
       if vhh1 \<noteq> NIL then (case visit v2 vh2 of (vhh2, vh2) \<Rightarrow> (Inl (vhh2 = vhh1), (vh1, vh2)))
       else (case visit v1 vh1 of (vhh1, vh1) \<Rightarrow> (Inr vhh1, (vh1, vh2))))"

definition cons_isocmp :: "heap \<Rightarrow> iso \<Rightarrow> iso" where
  "cons_isocmp h iso2 v1 v2 vh =
     (case iso_visit v1 v2 vh of
        (Inl t, vh) \<Rightarrow> ret (t, vh)
      | (Inr vhh1, (vh1, vh2)) \<Rightarrow>
          (case visit2 v2 vh2 vhh1 of (seen, vh2) \<Rightarrow>
             if seen \<noteq> NIL then ret (False, (vh1, vh2))
             else rthen (Some (rep_cons h v1)) (\<lambda>(x1, d1). rthen (Some (rep_cons h v2)) (\<lambda>(x2, d2).
                  rthen (iso2 x1 x2 (vh1, vh2)) (\<lambda>(t, vh).
                    if \<not> t then ret (False, vh) else iso2 d1 d2 vh)))))"

text \<open>
  The loop over the elements passes the fixnum \<open>i\<close> as an index, and so its word, \<open>2 i + 1\<close>. The
  variable \<open>vhh1\<close> is taken for one of the frame.
\<close>

fun vector_iso_loop :: "iso \<Rightarrow> val list \<Rightarrow> val list \<Rightarrow> nat \<Rightarrow> nat \<Rightarrow> isovisits \<Rightarrow> (bool \<times> isovisits) run" where
  "vector_iso_loop iso2 xs ys i 0 vh = ret (True, vh)"
| "vector_iso_loop iso2 xs ys i (Suc k) vh =
     (if 2 * i + 1 < length xs \<and> 2 * i + 1 < length ys then
        rthen (iso2 (xs ! (2 * i + 1)) (ys ! (2 * i + 1)) vh) (\<lambda>(t, vh).
          if \<not> t then ret (False, vh) else vector_iso_loop iso2 xs ys (Suc i) k vh)
      else fail UB)"

definition vector_isocmp :: "isoparams \<Rightarrow> heap \<Rightarrow> iso \<Rightarrow> iso" where
  "vector_isocmp K h iso2 v1 v2 vh =
     (case iso_visit v1 v2 vh of
        (Inl t, vh) \<Rightarrow> ret (t, vh)
      | (Inr vhh1, (vh1, vh2)) \<Rightarrow>
          (case visit2 v2 vh2 (ip_var K vhh1) of (seen, vh2) \<Rightarrow>
             if seen \<noteq> NIL then ret (False, (vh1, vh2))
             else rthen (Some (rep_blk h v1)) (\<lambda>xs. rthen (Some (rep_blk h v2)) (\<lambda>ys.
                  if length xs \<noteq> length ys then ret (False, (vh1, vh2))
                  else vector_iso_loop iso2 xs ys 0 (length xs) (vh1, vh2)))))"

fun arc_iso2 :: "isoparams \<Rightarrow> heap \<Rightarrow> nat \<Rightarrow> iso" where
  "arc_iso2 K h 0 a b vh = None"
| "arc_iso2 K h (Suc n) a b vh =
     (if a = b then ret (True, vh)
      else if htype h a \<noteq> htype h b then ret (False, vh)
      else case htype h a of
             T_CONS \<Rightarrow> cons_isocmp h (arc_iso2 K h n) a b vh
           | T_VECTOR \<Rightarrow> vector_isocmp K h (arc_iso2 K h n) a b vh
           | T_TABLE \<Rightarrow> ip_table K h a b vh
           | T_WTABLE \<Rightarrow> ip_table K h a b vh
           | _ \<Rightarrow> ret (iscmp (ip_iscmp K) h a b, vh))"

definition arc_iso :: "isoparams \<Rightarrow> heap \<Rightarrow> nat \<Rightarrow> val \<Rightarrow> bool run" where
  "arc_iso K h n l = rthen (pairwise (arc_iso2 K h n) h l (\<lambda>_. None, \<lambda>_. None)) (\<lambda>(t, _). ret t)"

subsection \<open>Every structural comparison returns\<close>

text \<open>
  The cells that are not yet visited bound the recursion: a visit of a first argument enters its
  key, and keys are never removed.
\<close>

definition todo :: "heap \<Rightarrow> isovisits \<Rightarrow> nat" where
  "todo h vh = card {p. p < brk h \<and> fst vh (visitkey (Ref p)) = None}"

definition grows :: "isovisits \<Rightarrow> isovisits \<Rightarrow> bool" where
  "grows vh vh' \<longleftrightarrow> (\<forall>k. fst vh k \<noteq> None \<longrightarrow> fst vh' k \<noteq> None) \<and> (\<forall>k. fst vh' k \<noteq> Some NIL)"

definition returns :: "isovisits \<Rightarrow> (bool \<times> isovisits) run \<Rightarrow> bool" where
  "returns vh r \<longleftrightarrow> (\<exists>x. r = Some x \<and> (\<forall>t vh'. x = Inr (t, vh') \<longrightarrow> grows vh vh'))"

lemma visits_grow_trans: "grows vh vh1 \<Longrightarrow> grows vh1 vh2 \<Longrightarrow> grows vh vh2"
  by (auto simp: grows_def)

lemma todo_grows: "grows vh vh' \<Longrightarrow> todo h vh' \<le> todo h vh"
  unfolding todo_def by (rule card_mono) (auto simp: grows_def)

lemma returns_step: "returns vh1 r \<Longrightarrow> grows vh vh1 \<Longrightarrow> returns vh r"
  unfolding returns_def by (blast intro: visits_grow_trans)

lemma returns_ret: "grows vh vh' \<Longrightarrow> returns vh (ret (t, vh'))"
  by (auto simp: returns_def)

lemma returns_fail: "returns vh (fail e)"
  by (simp add: returns_def)

lemma returns_then:
  assumes "returns vh r" and "\<And>t vh'. grows vh vh' \<Longrightarrow> returns vh' (f (t, vh'))"
  shows "returns vh (rthen r f)"
proof -
  obtain x where x: "r = Some x" "\<And>t vh'. x = Inr (t, vh') \<Longrightarrow> grows vh vh'" using assms(1) by (auto simp: returns_def)
  show ?thesis
  proof (cases x)
    case (Inl e)
    then show ?thesis using x(1) by (simp add: returns_def)
  next
    case (Inr p)
    obtain t vh' where p: "p = (t, vh')" by (cases p)
    have g: "grows vh vh'" using x(2) Inr p by blast
    then have "returns vh (f p)" using returns_step [OF assms(2) [OF g]] p by simp
    then show ?thesis using x(1) Inr by simp
  qed
qed

lemma returns_bind: "(\<And>x. y = Inr x \<Longrightarrow> returns vh (f x)) \<Longrightarrow> returns vh (rthen (Some y) f)"
  by (cases y) (simp_all add: returns_def)

lemma iso_visit_seen: "iso_visit v1 v2 vh = (Inl t, vh') \<Longrightarrow> fst vh' = fst vh"
  by (auto simp: iso_visit_def visit_def visit2_def Let_def split: prod.splits if_splits option.splits)

lemma iso_visit_new:
  assumes "iso_visit v1 v2 vh = (Inr k, vh')" and "\<forall>k. fst vh k \<noteq> Some NIL"
  shows "fst vh (visitkey v1) = None" "vh' = ((fst vh)(visitkey v1 \<mapsto> Fix (visitkey v1)), snd vh)" "k = Fix (visitkey v1)"
  using assms by (auto simp: iso_visit_def visit_def visit2_def Let_def split: prod.splits if_splits option.splits)

lemma todo_visit:
  assumes "p < brk h" and "fst vh (visitkey (Ref p)) = None"
  shows "todo h ((fst vh)(visitkey (Ref p) \<mapsto> k), w) < todo h vh"
  unfolding todo_def
proof (rule psubset_card_mono)
  show "finite {q. q < brk h \<and> fst vh (visitkey (Ref q)) = None}" by simp
  show "{q. q < brk h \<and> fst ((fst vh)(visitkey (Ref p) \<mapsto> k), w) (visitkey (Ref q)) = None} \<subset> {q. q < brk h \<and> fst vh (visitkey (Ref q)) = None}"
    using assms by (auto simp: fun_upd_def)
qed

lemma vector_loop_returns:
  assumes "\<And>a b vh'. grows vh vh' \<Longrightarrow> returns vh' (f a b vh')"
  shows "grows vh vh' \<Longrightarrow> returns vh' (vector_iso_loop f xs ys i k vh')"
proof (induction k arbitrary: i vh')
  case 0
  then show ?case by (auto simp: grows_def intro!: returns_ret)
next
  case (Suc k)
  have "returns vh1 (if \<not> t then ret (False, vh1) else vector_iso_loop f xs ys (Suc i) k vh1)" if "grows vh' vh1" for t vh1
    using Suc.IH [OF visits_grow_trans [OF Suc.prems that]] that by (auto simp: grows_def intro!: returns_ret)
  then show ?case using assms [OF Suc.prems] by (auto simp: returns_fail intro!: returns_then)
qed

lemma cons_iso_returns:
  assumes "\<And>a b vh1. todo h vh1 < todo h vh \<Longrightarrow> \<forall>k. fst vh1 k \<noteq> Some NIL \<Longrightarrow> returns vh1 (f a b vh1)"
    and "\<forall>k. fst vh k \<noteq> Some NIL" and "p < brk h"
  shows "returns vh (cons_isocmp h f (Ref p) b vh)"
proof -
  obtain r vh1 where Pair: "iso_visit (Ref p) b vh = (r, vh1)" by (metis surj_pair)
  show ?thesis
  proof (cases r)
    case (Inl t)
    then show ?thesis using Pair iso_visit_seen [of "Ref p" b vh t vh1] assms(2)
      by (auto simp: cons_isocmp_def grows_def intro!: returns_ret)
  next
    case (Inr k)
    note v = iso_visit_new [OF Pair [unfolded Inr] assms(2)]
    obtain seen w where w: "visit2 b (snd vh) k = (seen, w)" by fastforce
    let ?vh = "((fst vh)(visitkey (Ref p) \<mapsto> k), w)"
    have g: "grows vh ?vh" using assms(2) v(3) by (auto simp: grows_def)
    have less: "todo h vh' < todo h vh" if "grows ?vh vh'" for vh'
      using todo_grows [OF that, of h] todo_visit [OF assms(3) v(1), of k w] by linarith
    have ok: "\<forall>k. fst vh' k \<noteq> Some NIL" if "grows u vh'" for u vh' using that by (simp add: grows_def)
    have f: "returns vh' (f a c vh')" if "grows ?vh vh'" for a c vh' using assms(1) [OF less [OF that] ok [OF that]] .
    have "returns ?vh (rthen (Some (rep_cons h (Ref p))) (\<lambda>(x1, d1). rthen (Some (rep_cons h b)) (\<lambda>(x2, d2).
                  rthen (f x1 x2 ?vh) (\<lambda>(t, vh). if \<not> t then ret (False, vh) else f d1 d2 vh))))"
    proof (intro returns_bind, clarify, intro returns_bind, clarify, rule returns_then)
      fix x1 d1 x2 d2
      have r: "grows ?vh ?vh" using g by (simp add: grows_def)
      show "returns ?vh (f x1 x2 ?vh)" using f [OF r] .
      show "returns vh' ((\<lambda>(t, vh). if \<not> t then ret (False, vh) else f d1 d2 vh) (t, vh'))" if "grows ?vh vh'" for t vh'
        using f [OF that] that by (auto simp: grows_def intro!: returns_ret)
    qed
    then have "returns vh (rthen (Some (rep_cons h (Ref p))) (\<lambda>(x1, d1). rthen (Some (rep_cons h b)) (\<lambda>(x2, d2).
                  rthen (f x1 x2 ?vh) (\<lambda>(t, vh). if \<not> t then ret (False, vh) else f d1 d2 vh))))"
      using returns_step g by blast
    then show ?thesis using Pair Inr v w g by (auto simp: cons_isocmp_def intro!: returns_ret)
  qed
qed

lemma vector_iso_returns:
  assumes "\<And>a b vh1. todo h vh1 < todo h vh \<Longrightarrow> \<forall>k. fst vh1 k \<noteq> Some NIL \<Longrightarrow> returns vh1 (f a b vh1)"
    and "\<forall>k. fst vh k \<noteq> Some NIL" and "p < brk h"
  shows "returns vh (vector_isocmp K h f (Ref p) b vh)"
proof -
  obtain r vh1 where Pair: "iso_visit (Ref p) b vh = (r, vh1)" by (metis surj_pair)
  show ?thesis
  proof (cases r)
    case (Inl t)
    then show ?thesis using Pair iso_visit_seen [of "Ref p" b vh t vh1] assms(2)
      by (auto simp: vector_isocmp_def grows_def intro!: returns_ret)
  next
    case (Inr k)
    note v = iso_visit_new [OF Pair [unfolded Inr] assms(2)]
    obtain seen w where w: "visit2 b (snd vh) (ip_var K k) = (seen, w)" by fastforce
    let ?vh = "((fst vh)(visitkey (Ref p) \<mapsto> k), w)"
    have g: "grows vh ?vh" "grows ?vh ?vh" using assms(2) v(3) by (auto simp: grows_def)
    have less: "todo h vh' < todo h vh" if "grows ?vh vh'" for vh'
      using todo_grows [OF that, of h] todo_visit [OF assms(3) v(1), of k w] by linarith
    have f: "returns vh' (f a c vh')" if "grows ?vh vh'" for a c vh'
      using assms(1) [OF less [OF that]] that by (simp add: grows_def)
    have "returns ?vh (vector_iso_loop f xs ys i n ?vh)" for xs ys i n using vector_loop_returns [of ?vh f, OF f g(2)] .
    then have "returns vh (rthen (Some (rep_blk h (Ref p))) (\<lambda>xs. rthen (Some (rep_blk h b)) (\<lambda>ys.
                  if length xs \<noteq> length ys then ret (False, ?vh) else vector_iso_loop f xs ys 0 (length xs) ?vh)))"
      using returns_step [OF _ g(1)] returns_ret [OF g(1)] by (intro returns_bind) simp
    then show ?thesis using Pair Inr v w g by (auto simp: vector_isocmp_def intro!: returns_ret)
  qed
qed

lemma iso2_returns:
  assumes "heap_ok h" and "\<And>a b vh. \<forall>k. fst vh k \<noteq> Some NIL \<Longrightarrow> returns vh (ip_table K h a b vh)"
  shows "todo h vh < n \<Longrightarrow> \<forall>k. fst vh k \<noteq> Some NIL \<Longrightarrow> returns vh (arc_iso2 K h n a b vh)"
proof (induction n arbitrary: a b vh)
  case 0
  then show ?case by simp
next
  case (Suc n)
  have self: "grows vh vh" using Suc.prems(2) by (simp add: grows_def)
  have rec: "returns vh1 (arc_iso2 K h n a b vh1)" if "todo h vh1 < todo h vh" "\<forall>k. fst vh1 k \<noteq> Some NIL" for a b vh1
    using Suc.IH [of vh1] Suc.prems(1) that by simp
  have cell: "\<exists>p. a = Ref p \<and> p < brk h" if "htype h a = T_CONS \<or> htype h a = T_VECTOR"
    using that assms(1) by (cases a) (auto simp: htype_def heap_ok_def split: option.splits)
  show ?case
  proof (cases "htype h a = T_CONS \<or> htype h a = T_VECTOR")
    case True
    then obtain p where p: "a = Ref p" "p < brk h" using cell by blast
    show ?thesis using True p cons_iso_returns [OF rec Suc.prems(2) p(2)] vector_iso_returns [OF rec Suc.prems(2) p(2)] self
      by (auto intro: returns_ret)
  next
    case False
    then show ?thesis using assms(2) [OF Suc.prems(2)] self by (auto intro: returns_ret split: arc_type.splits)
  qed
qed


subsection \<open>On data without sharing it is equality\<close>

text \<open>The conses of a datum, from the first one on.\<close>

fun cells :: "heap \<Rightarrow> val \<Rightarrow> sx \<Rightarrow> val list" where
  "cells h v (XPair x y) = v # (case rep_cons h v of Inr (u, w) \<Rightarrow> cells h u x @ cells h w y | Inl _ \<Rightarrow> [])"
| "cells h v _ = []"

definition apart :: "visits \<Rightarrow> val list \<Rightarrow> bool" where
  "apart vh vs \<longleftrightarrow> distinct (map visitkey vs) \<and> (\<forall>v \<in> set vs. vh (visitkey v) = None)"

definition enters :: "visits \<Rightarrow> visits \<Rightarrow> val list \<Rightarrow> bool" where
  "enters vh vh' vs \<longleftrightarrow> dom vh' \<subseteq> dom vh \<union> visitkey ` set vs"

lemma apart_split: "apart vh (vs @ ws) \<Longrightarrow> apart vh vs"
  by (simp add: apart_def)

lemma apart_next: "apart vh (vs @ ws) \<Longrightarrow> enters vh vh' vs \<Longrightarrow> apart vh' ws"
proof -
  assume a: "apart vh (vs @ ws)" "enters vh vh' vs"
  have "vh' (visitkey w) = None" if w: "w \<in> set ws" for w
  proof -
    have "visitkey w \<notin> visitkey ` set vs" "visitkey w \<notin> dom vh" using a(1) w by (auto simp: apart_def domIff)
    then show ?thesis using a(2) by (auto simp: enters_def)
  qed
  then show ?thesis using a(1) by (simp add: apart_def)
qed

lemma apart_visit: "apart vh (v # vs) \<Longrightarrow> vh (visitkey v) = None \<and> apart (vh(visitkey v \<mapsto> k)) vs"
proof -
  assume a: "apart vh (v # vs)"
  have "visitkey w \<noteq> visitkey v" if "w \<in> set vs" for w using a imageI [OF that, of visitkey] by (auto simp: apart_def)
  then show ?thesis using a by (simp add: apart_def)
qed

lemma enters_cons:
  assumes "enters (vh(visitkey v \<mapsto> k)) vh1 vs" and "enters vh1 vh2 ws"
  shows "enters vh vh2 (v # vs @ ws)"
proof -
  have "dom vh2 \<subseteq> dom vh1 \<union> visitkey ` set ws" "dom vh1 \<subseteq> insert (visitkey v) (dom vh \<union> visitkey ` set vs)"
    using assms by (simp_all add: enters_def)
  then have "dom vh2 \<subseteq> insert (visitkey v) (dom vh \<union> visitkey ` set vs) \<union> visitkey ` set ws" by blast
  then show ?thesis by (simp add: enters_def image_Un Un_assoc)
qed

lemma datum_unique:
  "datum c lo h v x \<Longrightarrow> datum c lo h v y \<Longrightarrow> named c x \<Longrightarrow> named c y \<Longrightarrow> x = y"
proof (induction x arbitrary: v y)
  case (XPair a b)
  then show ?case by (cases y) auto
next
  case (XSym n)
  then show ?case by (cases y) auto
qed (case_tac y; auto)+

lemma visit_new: "vh (visitkey v) = None \<Longrightarrow> visit2 v vh k = (NIL, vh(visitkey v \<mapsto> (if k = NIL then Fix (visitkey v) else k)))"
  by (simp add: visit2_def Let_def)

lemma visit_old: "vh (visitkey v) = Some k \<Longrightarrow> visit2 v vh j = (k, vh)"
  by (simp add: visit2_def Let_def)

lemma atoms_compare:
  assumes "datum c lo h a x" and "datum c lo h b y" and "named c x" and "named c y" and "\<forall>u w. x \<noteq> XPair u w" and "a \<noteq> b"
  shows "arc_iso2 K h (Suc n) a b vh = ret (x = y, vh)"
  using assms by (cases x; cases y) (auto simp: htype_def iscmp_def string_iscmp_def strcmp_lexicographic)

lemma iso2_atom:
  assumes "datum c lo h a x" and "datum c lo h b y" and "named c x" and "named c y" and "npairs x < n" and "\<forall>u w. x \<noteq> XPair u w"
  shows "\<exists>vh1' vh2'. arc_iso2 K h n a b (vh1, vh2) = ret (x = y, (vh1', vh2')) \<and> enters vh1 vh1' (cells h a x) \<and> (x = y \<longrightarrow> enters vh2 vh2' (cells h b y))"
proof -
  obtain m where n: "n = Suc m" using assms(5) by (cases n) auto
  have "arc_iso2 K h n a b (vh1, vh2) = ret (x = y, (vh1, vh2))"
    using atoms_compare [OF assms(1-4,6), of K m "(vh1, vh2)"] datum_unique [OF assms(1) _ assms(3,4)] assms(2) n by (cases "a = b") auto
  then show ?thesis by (auto simp: enters_def)
qed

lemma iso2_datum:
  "datum c lo h a x \<Longrightarrow> datum c lo h b y \<Longrightarrow> named c x \<Longrightarrow> named c y \<Longrightarrow> apart vh1 (cells h a x) \<Longrightarrow> apart vh2 (cells h b y) \<Longrightarrow>
    npairs x < n \<Longrightarrow>
    \<exists>vh1' vh2'. arc_iso2 K h n a b (vh1, vh2) = ret (x = y, (vh1', vh2')) \<and> enters vh1 vh1' (cells h a x) \<and> (x = y \<longrightarrow> enters vh2 vh2' (cells h b y))"
proof (induction x arbitrary: a b y vh1 vh2 n)
  case (XPair x1 x2)
  obtain m where n: "n = Suc m" "npairs x1 < m" "npairs x2 < m" using XPair.prems(7) by (cases n) auto
  show ?case
  proof (cases "a = b")
    case True
    then show ?thesis using n datum_unique [OF XPair.prems(1) _ XPair.prems(3), of y] XPair.prems(2,4) by (auto simp: enters_def)
  next
    case ne: False
    obtain p u w where p: "a = Ref p" "mem h p = Some (OCons u w)" "datum c lo h u x1" "datum c lo h w x2" using XPair.prems(1) by auto
    show ?thesis
    proof (cases "\<exists>y1 y2. y = XPair y1 y2")
      case False
      then show ?thesis using XPair.prems(2) p n ne by (cases y) (auto simp: htype_def enters_def)
    next
      case True
      then obtain y1 y2 where y: "y = XPair y1 y2" by blast
      obtain q u' w' where q: "b = Ref q" "mem h q = Some (OCons u' w')" "datum c lo h u' y1" "datum c lo h w' y2"
        using XPair.prems(2) y by auto
      note k = apart_visit [of vh1 a "cells h u x1 @ cells h w x2" "Fix (visitkey a)"]
      note k2 = apart_visit [of vh2 b "cells h u' y1 @ cells h w' y2" "Fix (visitkey a)"]
      let ?v1 = "vh1(visitkey a \<mapsto> Fix (visitkey a))" and ?v2 = "vh2(visitkey b \<mapsto> Fix (visitkey a))"
      have a: "vh1 (visitkey a) = None" "apart ?v1 (cells h u x1 @ cells h w x2)" using k XPair.prems(5) p by simp_all
      have b: "vh2 (visitkey b) = None" "apart ?v2 (cells h u' y1 @ cells h w' y2)" using k2 XPair.prems(6) q y by simp_all
      have names: "named c x1" "named c y1" "named c x2" "named c y2" using XPair.prems(3,4) y by simp_all
      obtain v1 v2 where r1: "arc_iso2 K h m u u' (?v1, ?v2) = ret (x1 = y1, (v1, v2))" "enters ?v1 v1 (cells h u x1)"
        "x1 = y1 \<longrightarrow> enters ?v2 v2 (cells h u' y1)"
        using XPair.IH(1) [OF p(3) q(3) names(1,2) apart_split [OF a(2)] apart_split [OF b(2)] n(2)] by blast
      have step: "arc_iso2 K h n a b (vh1, vh2) = (if x1 = y1 then arc_iso2 K h m w w' (v1, v2) else ret (False, (v1, v2)))"
        using n(1) ne p(1,2) q(1,2) a(1) b(1) r1(1)
        by (simp add: htype_def cons_isocmp_def iso_visit_def visit_def visit_new visit_old)
      show ?thesis
      proof (cases "x1 = y1")
        case False
        then show ?thesis using step y r1(2) p by (auto simp: enters_def)
      next
        case True
        obtain v1' v2' where r2: "arc_iso2 K h m w w' (v1, v2) = ret (x2 = y2, (v1', v2'))" "enters v1 v1' (cells h w x2)"
          "x2 = y2 \<longrightarrow> enters v2 v2' (cells h w' y2)"
          using XPair.IH(2) [OF p(4) q(4) names(3,4) apart_next [OF a(2) r1(2)] apart_next [OF b(2)] n(3)] r1(3) True by blast
        have e1: "enters vh1 v1' (cells h a (XPair x1 x2))" using enters_cons [OF r1(2) r2(2)] p(1,2) by simp
        have e2: "x2 = y2 \<Longrightarrow> enters vh2 v2' (cells h b (XPair y1 y2))" using enters_cons [OF _ r2(3) [rule_format]] r1(3) True q(1,2) by simp
        show ?thesis using step True y r2(1) e1 e2 by simp
      qed
    qed
  qed
qed (rule iso2_atom; (assumption | simp))+

text \<open>
  Property C9. On data without sharing, made of conses, nil, fixnums, symbols, strings and characters,
  \<open>iso\<close> is equality of the data: it returns true on two values exactly when they are the same datum.
\<close>

theorem iso_data:
  assumes "chain h l as [a, b] NIL"
    and "datum c lo h a x" and "datum c lo h b y" and "named c x" and "named c y"
    and "distinct (map visitkey (cells h a x))" and "distinct (map visitkey (cells h b y))" and "npairs x < n"
  shows "arc_iso K h n l = ret (x = y)"
proof -
  obtain p q where l: "l = Ref p" "mem h p = Some (OCons a (Ref q))" "mem h q = Some (OCons b NIL)"
    using assms(1) chain_length [OF assms(1)] by (cases as rule: remdups_adj.cases) auto
  have "apart (\<lambda>_. None) (cells h a x)" "apart (\<lambda>_. None) (cells h b y)" using assms(6,7) by (simp_all add: apart_def)
  from iso2_datum [OF assms(2-5) this assms(8), of K]
  obtain vh where "arc_iso2 K h n a b (\<lambda>_. None, \<lambda>_. None) = ret (x = y, vh)" by blast
  then show ?thesis using l by (simp add: arc_iso_def pairwise.simps)
qed

definition demo_lists :: heap where
  "demo_lists = \<lparr> mem = [1 \<mapsto> OCons (Fix 7) (Ref 2), 2 \<mapsto> OStr [104, 105], 3 \<mapsto> OCons (Fix 7) (Ref 4), 4 \<mapsto> OStr [104, 105],
     5 \<mapsto> OCons (Ref 1) (Ref 6), 6 \<mapsto> OCons (Ref 3) NIL], brk = 7 \<rparr>"

definition demo_iso :: isoparams where
  "demo_iso = \<lparr> ip_iscmp = \<lambda>h a b. False, ip_table = \<lambda>h a b vh. ret (False, vh), ip_var = \<lambda>v. v \<rparr>"

theorem iso_data_witness: "arc_iso demo_iso demo_lists 2 (Ref 5) = ret True"
  using iso_data [of demo_lists "Ref 5" "[5, 6]" "Ref 1" "Ref 3" init_symtabs 0 "XPair (XInt 7) (XStr [104, 105])" "XPair (XInt 7) (XStr [104, 105])" 2 demo_iso]
  by (simp add: demo_lists_def)

definition demo_cycle :: heap where
  "demo_cycle = \<lparr> mem = [1 \<mapsto> OCons (Ref 2) (Ref 1), 2 \<mapsto> OCons (Ref 2) (Ref 1)], brk = 3 \<rparr>"


text \<open>A second cell for the same datum is enough for a different answer when the first one is shared.\<close>

definition demo_shared :: heap where
  "demo_shared = \<lparr> mem = [1 \<mapsto> OCons (Fix 7) NIL, 2 \<mapsto> OCons (Ref 1) (Ref 1), 3 \<mapsto> OCons (Fix 7) NIL,
     4 \<mapsto> OCons (Fix 7) NIL, 5 \<mapsto> OCons (Ref 3) (Ref 4)], brk = 6 \<rparr>"

lemma demo_shared_keys: "visitkey (Ref 1) \<noteq> visitkey (Ref 2)" "visitkey (Ref 3) \<noteq> visitkey (Ref 5)"
  "visitkey (Ref 4) \<noteq> visitkey (Ref 5)" "visitkey (Ref 4) \<noteq> visitkey (Ref 3)"
  by code_simp+

lemma iso_shared:
  "datum c 0 demo_shared (Ref 2) (XPair (XPair (XInt 7) XNil) (XPair (XInt 7) XNil))"
  "datum c 0 demo_shared (Ref 5) (XPair (XPair (XInt 7) XNil) (XPair (XInt 7) XNil))"
  "\<exists>vh. arc_iso2 demo_iso demo_shared (Suc (Suc (Suc n))) (Ref 2) (Ref 5) (\<lambda>_. None, \<lambda>_. None) = ret (False, vh)"
  using demo_shared_keys
  by (simp_all add: demo_shared_def htype_def cons_isocmp_def iso_visit_def visit_def visit2_def Let_def)

subsection \<open>Lists of arguments\<close>

text \<open>The pairs that \<open>pairwise\<close> looks at do not overlap.\<close>

fun pairs_of :: "'a list \<Rightarrow> ('a \<times> 'a) list" where
  "pairs_of [] = []"
| "pairs_of [x] = []"
| "pairs_of (x # y # zs) = (x, y) # pairs_of zs"

text \<open>
  \<open>is\<close> compares the first argument with the second one, the third with the fourth one
  and so on, but not the second with the third: a last odd argument is not looked at.
\<close>

lemma is_pairs:
  assumes "chain h l as vs NIL"
  shows "arc_is K h l = ret (\<forall>(a, b) \<in> set (pairs_of vs). is2 K h a b)"
proof -
  have "chain h l as vs NIL \<Longrightarrow> pairwise (\<lambda>a b u. ret (is2 K h a b, u)) h l () = ret (\<forall>(a, b) \<in> set (pairs_of vs). is2 K h a b, ())" for l as
  proof (induction vs arbitrary: l as rule: pairs_of.induct)
    case 1
    then show ?case by (cases as; subst pairwise.simps) simp_all
  next
    case (2 x)
    then show ?case using chain_length [OF 2] by (cases as; subst pairwise.simps) auto
  next
    case (3 x y zs)
    obtain p q n as' where l: "as = p # q # as'" "l = Ref p" "mem h p = Some (OCons x (Ref q))" "mem h q = Some (OCons y n)" "chain h n as' zs NIL"
      using 3(2) chain_length [OF 3(2)] by (cases as rule: remdups_adj.cases) auto
    show ?case using l 3(1) [OF l(5)] by (subst pairwise.simps) simp
  qed
  then show ?thesis using assms by (simp add: arc_is_def)
qed

lemma is_three: "chain h l as [Fix 1, Fix 1, Fix 2] NIL \<Longrightarrow> arc_is K h l = ret True"
  by (simp add: is_pairs is2_def)

text \<open>Vectors of one element are read past their end.\<close>

lemma iso_vector_overrun:
  assumes "mem h p = Some (OBlk T_VECTOR [x])" and "mem h q = Some (OBlk T_VECTOR [y])" and "p \<noteq> q"
  shows "arc_iso2 K h (Suc n) (Ref p) (Ref q) (\<lambda>_. None, \<lambda>_. None) = fail UB"
  using assms by (simp add: htype_def vector_isocmp_def iso_visit_def visit_def visit2_def Let_def)

subsection \<open>Order\<close>

text \<open>
  Arguments: the operators on numbers, the sign of floating point numbers and rationals, and the
  symbol tables.
\<close>

record cmpparams =
  cp_nums :: numops
  cp_sign :: "heap \<Rightarrow> val \<Rightarrow> int option"
  cp_syms :: symbols

definition COMPARE :: "int \<Rightarrow> val" where
  "COMPARE x = (if x > 0 then Fix 1 else if x < 0 then Fix (- 1) else Fix 0)"

definition arc_numcmp :: "cmpparams \<Rightarrow> heap \<Rightarrow> val \<Rightarrow> val \<Rightarrow> (val \<times> heap) res" where
  "arc_numcmp C h v1 v2 =
     rbind (arc_sub2 (cp_nums C) h v1 v2) (\<lambda>(diff, h).
       case n_int (cp_nums C) h diff of
         Some i \<Rightarrow> Inr (COMPARE i, h)
       | None \<Rightarrow> (case cp_sign C h diff of
           Some i \<Rightarrow> Inr (COMPARE i, h)
         | None \<Rightarrow> Inl (ArcErr ''Invalid types for numeric comparison'')))"

definition NUMERIC_P :: "heap \<Rightarrow> val \<Rightarrow> bool" where
  "NUMERIC_P h x \<longleftrightarrow> htype h x \<in> {T_FIXNUM, T_BIGNUM, T_FLONUM, T_RATIONAL, T_COMPLEX}"

fun hstring :: "heap \<Rightarrow> val \<Rightarrow> rstr res" where
  "hstring h (Ref a) = (case mem h a of Some (OStr s) \<Rightarrow> Inr s | _ \<Rightarrow> Inl UB)"
| "hstring h _ = Inl UB"

definition symname :: "symbols \<Rightarrow> val \<Rightarrow> rstr res" where
  "symname c v = (case sym2name c v of Some (Some (KStr s)) \<Rightarrow> Inr s | _ \<Rightarrow> Inl UB)"

definition arc_cmp :: "cmpparams \<Rightarrow> heap \<Rightarrow> val \<Rightarrow> val \<Rightarrow> (val \<times> heap) res" where
  "arc_cmp C h v1 v2 =
     (if \<not> (NUMERIC_P h v1 \<and> NUMERIC_P h v2) \<and> htype h v1 \<noteq> htype h v2 then Inl (ArcErr ''Invalid types for comparison'')
      else if htype h v1 = T_CHAR then
        rbind (char2rune h v1) (\<lambda>r1. rbind (char2rune h v2) (\<lambda>r2. arc_numcmp C h (Fix r1) (Fix r2)))
      else if htype h v1 \<in> {T_FIXNUM, T_FLONUM, T_BIGNUM, T_RATIONAL} then arc_numcmp C h v1 v2
      else if htype h v1 = T_STRING then
        rbind (hstring h v1) (\<lambda>s1. rbind (hstring h v2) (\<lambda>s2. Inr (Fix (arc_strcmp s1 s2), h)))
      else if htype h v1 = T_SYMBOL then
        rbind (symname (cp_syms C) v1) (\<lambda>s1. rbind (symname (cp_syms C) v2) (\<lambda>s2. Inr (Fix (arc_strcmp s1 s2), h)))
      else Inl (ArcErr ''Invalid types for comparison''))"

text \<open>\<open>pairwise2\<close> looks at every two neighbours. The predicate may allocate.\<close>

partial_function (option) pairwise2 :: "(heap \<Rightarrow> val \<Rightarrow> val \<Rightarrow> (bool \<times> heap) res) \<Rightarrow> heap \<Rightarrow> val \<Rightarrow> (bool \<times> heap) run" where
  "pairwise2 pred h lst =
     (if lst = NIL then ret (True, h)
      else case rep_cons h lst of Inl e \<Rightarrow> fail e | Inr (x, d) \<Rightarrow>
        if d = NIL then ret (True, h)
        else case car h d of Inl e \<Rightarrow> fail e | Inr y \<Rightarrow>
          (case pred h x y of Inl e \<Rightarrow> fail e | Inr (t, h) \<Rightarrow>
             if \<not> t then ret (False, h)
             else case cdr h lst of Inl e \<Rightarrow> fail e | Inr nx \<Rightarrow> pairwise2 pred h nx))"

definition cmp_sat :: "(int \<Rightarrow> bool) \<Rightarrow> cmpparams \<Rightarrow> heap \<Rightarrow> val \<Rightarrow> val \<Rightarrow> (bool \<times> heap) res" where
  "cmp_sat p C h v1 v2 = rbind (arc_cmp C h v1 v2) (\<lambda>(r, h). case r of Fix i \<Rightarrow> Inr (p i, h) | _ \<Rightarrow> Inl UB)"

definition gt2 :: "cmpparams \<Rightarrow> heap \<Rightarrow> val \<Rightarrow> val \<Rightarrow> (bool \<times> heap) res" where
  "gt2 = cmp_sat (\<lambda>i. i > 0)"

definition lt2 :: "cmpparams \<Rightarrow> heap \<Rightarrow> val \<Rightarrow> val \<Rightarrow> (bool \<times> heap) res" where
  "lt2 = cmp_sat (\<lambda>i. i < 0)"

definition arc_gt :: "cmpparams \<Rightarrow> heap \<Rightarrow> val \<Rightarrow> (bool \<times> heap) run" where
  "arc_gt C = pairwise2 (gt2 C)"

definition arc_lt :: "cmpparams \<Rightarrow> heap \<Rightarrow> val \<Rightarrow> (bool \<times> heap) run" where
  "arc_lt C = pairwise2 (lt2 C)"

text \<open>What values are ordered by: the number, the code of the character, or the code points.\<close>

definition sort_key :: "symbols \<Rightarrow> heap \<Rightarrow> val \<Rightarrow> int list option" where
  "sort_key c h v =
     (case v of
        Fix i \<Rightarrow> if \<bar>i\<bar> \<le> FIX_MAX then Some [i] else None
      | Sym k \<Rightarrow> (case symname c v of Inr s \<Rightarrow> Some s | Inl _ \<Rightarrow> None)
      | Ref a \<Rightarrow> (case mem h a of Some (OStr s) \<Rightarrow> Some s
                  | Some (OChar r) \<Rightarrow> if \<bar>r\<bar> \<le> FIX_MAX then Some [r] else None | _ \<Rightarrow> None)
      | _ \<Rightarrow> None)"

lemma key_grown: "heap_ok h \<Longrightarrow> grown h h' \<Longrightarrow> sort_key c h v = Some k \<Longrightarrow> sort_key c h' v = Some k \<and> htype h' v = htype h v"
  by (auto simp: sort_key_def grown_def heap_ok_def htype_def split: val.splits option.splits)

lemma numcmp_key:
  assumes "gmp_ok (cp_nums C)" and "heap_ok h" and "\<bar>x\<bar> \<le> FIX_MAX" and "\<bar>y\<bar> \<le> FIX_MAX"
  shows "\<exists>h'. arc_numcmp C h (Fix x) (Fix y) = Inr (Fix (sgn (x - y)), h') \<and> grown h h'"
  using sub_exact [OF assms] by (auto simp: exact_def arc_numcmp_def COMPARE_def sgn_if)

definition lex3 :: "int list \<Rightarrow> int list \<Rightarrow> int" where
  "lex3 s t = (if s = t then 0 else if ord_class.lexordp s t then - 1 else 1)"

lemma lex3_one: "sgn (x - y) = lex3 [x] [y]"
  by (auto simp: lex3_def sgn_if)

lemma cmp_key:
  assumes "gmp_ok (cp_nums C)" and "heap_ok h" and "sort_key (cp_syms C) h v1 = Some k1" and "sort_key (cp_syms C) h v2 = Some k2"
    and "htype h v1 = htype h v2"
  shows "\<exists>h'. arc_cmp C h v1 v2 = Inr (Fix (lex3 k1 k2), h') \<and> grown h h'"
proof -
  note grown_refl [OF assms(2)]
  then show ?thesis using assms(3-5) numcmp_key [OF assms(1,2)] lex3_one
    by (auto simp: sort_key_def arc_cmp_def htype_def strcmp_lexicographic lex3_def [symmetric] split: val.splits option.splits obj.splits sum.splits if_splits)
qed

lemma lex3_less: "lex3 s t < 0 \<longleftrightarrow> ord_class.lexordp s t" "lex3 s t > 0 \<longleftrightarrow> ord_class.lexordp t s"
  using lexordp_linear [of s t] lexordp_irreflexive' [of t] lexordp_antisym [of s t] by (auto simp: lex3_def)

lemma pairwise2_keys:
  assumes "gmp_ok (cp_nums C)" and "\<And>s t. p (lex3 s t) = R s t"
  shows "heap_ok h \<Longrightarrow> chain h l as vs NIL \<Longrightarrow> list_all2 (\<lambda>v k. sort_key (cp_syms C) h v = Some k \<and> htype h v = ty) vs ks \<Longrightarrow>
    \<exists>h'. pairwise2 (cmp_sat p C) h l = ret (successively R ks, h') \<and> grown h h'"
proof (induction vs arbitrary: h l as ks rule: induct_list012)
  case 1
  then show ?case by (cases as; subst pairwise2.simps) (auto intro: grown_refl)
next
  case (2 x)
  then show ?case using chain_length [OF 2(2)] by (cases as rule: remdups_adj.cases; subst pairwise2.simps) (auto simp: list_all2_Cons1 intro: grown_refl)
next
  case (3 x y zs)
  obtain a b as' n where l: "as = a # b # as'" "l = Ref a" "mem h a = Some (OCons x (Ref b))" "mem h b = Some (OCons y n)"
    using 3(4) chain_length [OF 3(4)] by (cases as rule: remdups_adj.cases) auto
  obtain k1 k2 kz where ks: "ks = k1 # k2 # kz" "sort_key (cp_syms C) h x = Some k1" "sort_key (cp_syms C) h y = Some k2" "htype h x = ty" "htype h y = ty"
    using 3(5) by (auto simp: list_all2_Cons1)
  obtain h1 where c: "arc_cmp C h x y = Inr (Fix (lex3 k1 k2), h1)" "grown h h1"
    using cmp_key [OF assms(1) 3(3) ks(2,3)] ks(4,5) by auto
  have ch: "chain h1 l as (x # y # zs) NIL"
    using chain_cong [OF 3(4)] chain_used [OF 3(3,4)] c(2) by (auto simp: grown_def)
  then have m: "mem h1 a = Some (OCons x (Ref b))" "chain h1 (Ref b) (b # as') (y # zs) NIL" using l by auto
  have "list_all2 (\<lambda>v k. sort_key (cp_syms C) h1 v = Some k \<and> htype h1 v = ty) (x # y # zs) ks"
    using 3(5) by (rule list_all2_mono) (use key_grown [OF 3(3) c(2)] in auto)
  then obtain h2 where "pairwise2 (cmp_sat p C) h1 (Ref b) = ret (successively R (k2 # kz), h2)" "grown h1 h2"
    using 3(2) [OF grown_ok [OF c(2)] m(2), of "k2 # kz"] ks(1) by auto
  then show ?case using l c m(1) ks(1) assms(2) grown_trans [OF c(2)]
    by (subst pairwise2.simps) (auto simp: cmp_sat_def car_def cdr_def)
qed

text \<open>
  Property C23. On fixnums, on characters, on strings and on symbols \<open><\<close> says whether the arguments are
  in strictly ascending order and \<open>>\<close> whether they are in strictly descending order, by value,
  code, or lexicographically by code points.
\<close>

theorem lt_gt_sorted:
  assumes "gmp_ok (cp_nums C)" and "heap_ok h" and "chain h l as vs NIL"
    and "list_all2 (\<lambda>v k. sort_key (cp_syms C) h v = Some k \<and> htype h v = ty) vs ks"
  shows "\<exists>h1 h2. arc_lt C h l = ret (sorted_wrt ord_class.lexordp ks, h1) \<and> arc_gt C h l = ret (sorted_wrt (\<lambda>s t. ord_class.lexordp t s) ks, h2)"
proof -
  have "transp (ord_class.lexordp :: int list \<Rightarrow> _)" "transp (\<lambda>s t :: int list. ord_class.lexordp t s)"
    by (auto intro!: transpI elim: lexordp_trans)
  then show ?thesis
    using pairwise2_keys [OF assms(1) _ assms(2-4), of "\<lambda>i. i < 0" ord_class.lexordp]
      pairwise2_keys [OF assms(1) _ assms(2-4), of "\<lambda>i. i > 0" "\<lambda>s t. ord_class.lexordp t s"] lex3_less
    by (auto simp: arc_lt_def arc_gt_def lt2_def gt2_def successively_conv_sorted_wrt)
qed

text \<open>Three strings in descending order.\<close>

definition demo_cmp :: cmpparams where
  "demo_cmp = \<lparr> cp_nums = demo_nums, cp_sign = \<lambda>h v. None, cp_syms = init_symtabs \<rparr>"

definition demo_names :: heap where
  "demo_names = \<lparr> mem = [1 \<mapsto> OStr [99], 2 \<mapsto> OStr [98, 97], 3 \<mapsto> OStr [98], 4 \<mapsto> OCons (Ref 1) (Ref 5), 5 \<mapsto> OCons (Ref 2) (Ref 6),
     6 \<mapsto> OCons (Ref 3) NIL], brk = 7 \<rparr>"

theorem lt_gt_sorted_witness:
  "\<exists>h1 h2. arc_lt demo_cmp demo_names (Ref 4) = ret (False, h1) \<and> arc_gt demo_cmp demo_names (Ref 4) = ret (True, h2)"
proof -
  have g: "gmp_ok (cp_nums demo_cmp)" by (simp add: demo_cmp_def demo_gmp)
  have h: "heap_ok demo_names" by (auto simp: heap_ok_def demo_names_def)
  have c: "chain demo_names (Ref 4) [4, 5, 6] [Ref 1, Ref 2, Ref 3] NIL" by (simp add: demo_names_def)
  show ?thesis using lt_gt_sorted [OF g h c, of T_STRING "[[99], [98, 97], [98]]"]
    by (simp add: demo_names_def sort_key_def htype_def)
qed

subsection \<open>Assignment by index, and length\<close>

text \<open>The argument \<open>T\<close> stores into a table. A list index is taken for a C \<open>int\<close>.\<close>

fun list_cell :: "heap \<Rightarrow> nat \<Rightarrow> val \<Rightarrow> val res" where
  "list_cell h 0 obj = Inr obj"
| "list_cell h (Suc n) obj = (if obj = NIL then Inr NIL else rbind (cdr h obj) (list_cell h n))"

definition sref_list :: "heap \<Rightarrow> val \<Rightarrow> val \<Rightarrow> val \<Rightarrow> (val \<times> heap) res" where
  "sref_list h com v ind =
     (case ind of
        Fix i \<Rightarrow>
          (let ix = signed_take_bit 31 i in
           if ix < 0 then Inl (ArcErr ''list index must be non-negative exact integer'')
           else rbind (list_cell h (nat ix) com) (\<lambda>obj.
                  if obj = NIL then Inl (ArcErr ''index %d too large for list'')
                  else rbind (scar h obj v) (\<lambda>(_, h). Inr (v, h))))
      | _ \<Rightarrow> Inl (ArcErr ''list index must be non-negative exact integer''))"

definition sref_vector :: "heap \<Rightarrow> val \<Rightarrow> val \<Rightarrow> val \<Rightarrow> (val \<times> heap) res" where
  "sref_vector h com v ind =
     (case (com, ind) of
        (Ref a, Fix i) \<Rightarrow>
          if i < 0 then Inl (ArcErr ''vector index must be non-negative exact integer'')
          else rbind (rep_blk h com) (\<lambda>vs.
            if i \<ge> int (length vs) then Inl (ArcErr ''index %d too large for vector'')
            else Inr (v, hset h a (OBlk T_VECTOR (vs[nat i := v]))))
      | _ \<Rightarrow> Inl (ArcErr ''vector index must be non-negative exact integer''))"

definition sref_string :: "heap \<Rightarrow> val \<Rightarrow> val \<Rightarrow> val \<Rightarrow> (val \<times> heap) res" where
  "sref_string h com v ind =
     (if htype h v \<noteq> T_CHAR then Inl (ArcErr ''cannot set string index to non-character'')
      else (case (com, ind) of
        (Ref a, Fix i) \<Rightarrow>
          if i < 0 then Inl (ArcErr ''string index must be non-negative exact integer'')
          else rbind (hstring h com) (\<lambda>s.
            if i \<ge> int (arc_strlen s) then Inl (ArcErr ''string index out of bounds'')
            else rbind (char2rune h v) (\<lambda>r. rbind (arc_strsetindex s (nat i) r) (\<lambda>(_, s). Inr (v, hset h a (OStr s)))))
      | _ \<Rightarrow> Inl (ArcErr ''string index must be non-negative exact integer'')))"

definition arc_sref :: "(heap \<Rightarrow> val \<Rightarrow> val \<Rightarrow> val \<Rightarrow> (val \<times> heap) res) \<Rightarrow> heap \<Rightarrow> val \<Rightarrow> val \<Rightarrow> val \<Rightarrow> (val \<times> heap) res" where
  "arc_sref T h com v ind =
     (if htype h com = T_TABLE then T h com v ind
      else if htype h com = T_STRING then sref_string h com v ind
      else if htype h com = T_CONS then sref_list h com v ind
      else if htype h com = T_VECTOR then sref_vector h com v ind
      else Inl (ArcErr ''can't set reference to object of type %d''))"

text \<open>\<open>T\<close> counts the entries of a table.\<close>

definition arc_len :: "(heap \<Rightarrow> val \<Rightarrow> int) \<Rightarrow> heap \<Rightarrow> val \<Rightarrow> int run" where
  "arc_len T h obj =
     (case htype h obj of
        T_NIL \<Rightarrow> ret 0
      | T_STRING \<Rightarrow> Some (rbind (hstring h obj) (\<lambda>s. Inr (int (arc_strlen s))))
      | T_CONS \<Rightarrow> map_option Inr (arc_list_length h obj)
      | T_VECTOR \<Rightarrow> Some (rbind (rep_blk h obj) (\<lambda>vs. Inr (int (length vs))))
      | T_TABLE \<Rightarrow> ret (T h obj)
      | _ \<Rightarrow> fail (ArcErr ''can't get length of object of type %d''))"

lemma list_cell_chain:
  "chain h l as xs NIL \<Longrightarrow> list_cell h k l = Inr (if k < length as then Ref (as ! k) else NIL)"
proof (induction k arbitrary: l as xs)
  case 0
  then show ?case by (cases as; cases xs) auto
next
  case (Suc k)
  then show ?case by (cases as; cases xs) (auto simp: cdr_def)
qed

lemma chain_cell: "chain h l as xs e \<Longrightarrow> k < length as \<Longrightarrow> \<exists>n. mem h (as ! k) = Some (OCons (xs ! k) n)"
  by (induction h l as xs e arbitrary: k rule: chain.induct) (auto simp: nth_Cons')

lemma chain_store:
  "chain h l as xs e \<Longrightarrow> distinct as \<Longrightarrow> k < length as \<Longrightarrow> mem h (as ! k) = Some (OCons x n) \<Longrightarrow>
    chain (hset h (as ! k) (OCons v n)) l as (xs[k := v]) e"
proof (induction h l as xs e arbitrary: k rule: chain.induct)
  case (2 h l a as x xs e)
  then show ?case
  proof (cases k)
    case 0
    then show ?thesis using 2 by (auto simp: hset_def elim!: chain_cong)
  next
    case (Suc j)
    then have "a \<noteq> as ! j" using 2 by auto
    then show ?thesis using 2 Suc by (auto simp: hset_def)
  qed
qed auto



text \<open>A list index of 2 to the 32 is taken for 0.\<close>

lemma sref_index_wraps: "sref_list h com v (Fix (2 ^ 32)) = sref_list h com v (Fix 0)"
  by (simp add: sref_list_def signed_take_bit_eq_take_bit_minus take_bit_eq_mod)

end
