(* ===== verification/Coerce.thy ===== *)
theory Coerce
  imports Compare
begin

text \<open>
  Conversions, \<open>arc_coerce\<close> of \<open>src/src/arcueid.c\<close> and the functions \<open>xcoerce\<close> of fixnums, characters,
  strings, symbols, conses and vectors. Conversions allocate and intern, so the state is the heap with
  the symbol tables. Conversions of floating point, complex, rational and big numbers and of tables are
  parameters. Nested lists need fuel.
\<close>

subsection \<open>Types\<close>

definition typesym2type :: "val \<Rightarrow> arc_type" where
  "typesym2type s =
     (if s = ARC_BUILTIN S_SYM then T_SYMBOL
      else if s = ARC_BUILTIN S_NUM then T_NUM
      else if s = ARC_BUILTIN S_INT then T_INT
      else if s = ARC_BUILTIN S_FIXNUM then T_FIXNUM
      else if s = ARC_BUILTIN S_BIGNUM then T_BIGNUM
      else if s = ARC_BUILTIN S_FLONUM then T_FLONUM
      else if s = ARC_BUILTIN S_RATIONAL then T_RATIONAL
      else if s = ARC_BUILTIN S_COMPLEX then T_COMPLEX
      else if s = ARC_BUILTIN S_CHAR then T_CHAR
      else if s = ARC_BUILTIN S_STRING then T_STRING
      else if s = ARC_BUILTIN S_CONS then T_CONS
      else if s = ARC_BUILTIN S_TABLE then T_TABLE
      else if s = ARC_BUILTIN S_INPUT then T_INPORT
      else if s = ARC_BUILTIN S_OUTPUT then T_OUTPORT
      else if s = ARC_BUILTIN S_EXCEPTION then T_EXCEPTION
      else if s = ARC_BUILTIN S_THREAD then T_THREAD
      else if s = ARC_BUILTIN S_VECTOR then T_VECTOR
      else if s = ARC_BUILTIN S_CONTINUATION then T_CONT
      else if s = ARC_BUILTIN S_FN then T_CLOS
      else if s = ARC_BUILTIN S_CODE then T_CODE
      else if s = ARC_BUILTIN S_ENVIRONMENT then T_ENV
      else if s = ARC_BUILTIN S_CCODE then T_CCODE
      else if s = ARC_BUILTIN S_CHAN then T_CHAN
      else T_NONE)"

type_synonym cstate = "heap \<times> symbols"

text \<open>
  The arguments: the number operators, making a flonum of an integer, reading a flonum and a complex
  number from a string, \<open>mpz_set_str\<close>, and the conversions of the other types.
\<close>

record cxparams =
  cx_nums :: numops
  cx_flonum :: "heap \<Rightarrow> int \<Rightarrow> val \<times> heap"
  cx_str2flo :: "heap \<Rightarrow> rstr \<Rightarrow> int \<Rightarrow> (val \<times> heap) res"
  cx_complex :: "heap \<Rightarrow> rstr \<Rightarrow> int \<Rightarrow> (val \<times> heap) res"
  cx_setstr :: "byte list \<Rightarrow> int \<Rightarrow> int option"
  cx_other :: "val \<Rightarrow> arc_type \<Rightarrow> val \<Rightarrow> cstate \<Rightarrow> (val \<times> cstate) run"

definition anew :: "obj \<Rightarrow> cstate \<Rightarrow> val \<times> cstate" where
  "anew ob = (\<lambda>(h, c). let (a, h) = halloc h ob in (Ref a, (h, c)))"

abbreviation cannot :: "'a run" where
  "cannot \<equiv> fail (ArcErr ''cannot coerce'')"

text \<open>Lift an operation that only changes the heap.\<close>

definition on_heap :: "symbols \<Rightarrow> (val \<times> heap) res \<Rightarrow> (val \<times> cstate) run" where
  "on_heap c r = Some (rbind r (\<lambda>(v, h). Inr (v, (h, c))))"

subsection \<open>Atoms\<close>

definition fixnum_xcoerce :: "cxparams \<Rightarrow> int \<Rightarrow> arc_type \<Rightarrow> val \<Rightarrow> cstate \<Rightarrow> (val \<times> cstate) run" where
  "fixnum_xcoerce Q i stype arg = (\<lambda>(h, c).
     if stype \<in> {T_FIXNUM, T_BIGNUM, T_RATIONAL, T_NUM, T_INT} then ret (Fix i, (h, c))
     else if stype \<in> {T_FLONUM, T_COMPLEX} then on_heap c (Inr (cx_flonum Q h i))
     else if stype = T_CHAR then
       (let ch = signed_take_bit 31 i in
        if ch < 0 \<or> ch > 0x10FFFF \<or> (ch \<ge> 0xd800 \<and> ch \<le> 0xdfff) then
          fail (ArcErr ''integer->char: expects argument of type <exact integer in [0,#x10FFFF], not in [#xD800,#xDFFF]>'')
        else ret (anew (OChar ch) (h, c)))
     else
       (let arg = (if arg = UNBOUND then Fix 10 else arg) in
        if stype = T_STRING then rthen (arc_itoa (cx_nums Q) h i arg False False) (\<lambda>s. ret (anew (OStr s) (h, c)))
        else cannot))"

definition char_xcoerce :: "val \<Rightarrow> int \<Rightarrow> arc_type \<Rightarrow> cstate \<Rightarrow> (val \<times> cstate) run" where
  "char_xcoerce obj r stype s =
     (if stype = T_CHAR then ret (obj, s)
      else if stype \<in> {T_FIXNUM, T_BIGNUM, T_INT} then ret (Fix r, s)
      else if stype = T_STRING then ret (anew (OStr [r]) s)
      else cannot)"

definition symbol_xcoerce :: "val \<Rightarrow> arc_type \<Rightarrow> cstate \<Rightarrow> (val \<times> cstate) run" where
  "symbol_xcoerce obj stype = (\<lambda>(h, c).
     if stype = T_SYMBOL then ret (obj, (h, c))
     else if stype = T_STRING then
       (case sym2name c obj of
          None \<Rightarrow> None
        | Some (Some (KStr t)) \<Rightarrow> ret (anew (OStr t) (h, c))
        | Some None \<Rightarrow> ret (UNBOUND, (h, c))
        | _ \<Rightarrow> fail UB)
     else cannot)"

subsection \<open>Numbers in strings\<close>

text \<open>\<open>strtol\<close> of the C library, on the bytes up to and with the terminator: the number and the rest.\<close>

definition c_isspace :: "int \<Rightarrow> bool" where
  "c_isspace r \<longleftrightarrow> r = 32 \<or> 9 \<le> r \<and> r \<le> 13"

definition c_digit :: "int \<Rightarrow> int \<Rightarrow> bool" where
  "c_digit base r \<longleftrightarrow> (case str2int_digit r of Some d \<Rightarrow> d < base | None \<Rightarrow> False)"

definition c_number :: "int \<Rightarrow> int list \<Rightarrow> int" where
  "c_number base ds = fold (\<lambda>r a. a * base + (case str2int_digit r of Some d \<Rightarrow> d | None \<Rightarrow> 0)) ds 0"

definition c_base :: "int \<Rightarrow> int list \<Rightarrow> int \<times> int list" where
  "c_base base s =
     (if s \<noteq> [] \<and> s ! 0 = 48 then
        (if (base = 16 \<or> base = 0) \<and> length s \<ge> 3 \<and> (s ! 1 = 120 \<or> s ! 1 = 88) \<and> c_digit 16 (s ! 2) then (16, drop 2 s)
         else (if base = 0 then 8 else base, s))
      else (if base = 0 then 10 else base, s))"

definition strtol :: "int list \<Rightarrow> int \<Rightarrow> (int \<times> int list) res" where
  "strtol nptr base =
     (if base < 0 \<or> base = 1 \<or> base > 36 then Inl UB
      else
        (let s = dropWhile c_isspace nptr;
             (neg, s) = (if s \<noteq> [] \<and> hd s = 45 then (True, tl s) else if s \<noteq> [] \<and> hd s = 43 then (False, tl s) else (False, s));
             (base, s) = c_base base s;
             ds = takeWhile (c_digit base) s;
             n = (if neg then - c_number base ds else c_number base ds) in
         if ds = [] then Inr (0, nptr)
         else Inr (max (- (2 ^ 63)) (min (2 ^ 63 - 1) n), dropWhile (c_digit base) s)))"

text \<open>The buffer for the C string has a byte for each rune and the terminator.\<close>

definition string2fixnum :: "cxparams \<Rightarrow> heap \<Rightarrow> rstr \<Rightarrow> val \<Rightarrow> (val \<times> heap) res" where
  "string2fixnum Q h s arg =
     (case arg of
        Fix base \<Rightarrow>
          (let cstr = arc_str2cstr s in
           if length cstr > arc_strlen s + 1 then Inl UB
           else rbind (strtol cstr (signed_take_bit 31 base)) (\<lambda>(n, endptr).
             if endptr \<noteq> [] \<and> hd endptr \<noteq> 0 then Inl (ArcErr ''cannot coerce'')
             else if \<bar>n\<bar> \<le> FIX_MAX then Inr (Fix n, h)
             else (case cx_setstr Q cstr base of
                     Some z \<Rightarrow> Inr (n_mkbignum (cx_nums Q) h z)
                   | None \<Rightarrow> Inl (ArcErr ''cannot coerce''))))
      | _ \<Rightarrow> Inl UB)"

definition coerce_flonum :: "cxparams \<Rightarrow> heap \<Rightarrow> rstr \<Rightarrow> int \<Rightarrow> (val \<times> heap) res" where
  "coerce_flonum Q h s base =
     rbind (cx_str2flo Q h s base) (\<lambda>(v, h).
       if v = NIL then Inl (ArcErr ''string->flonum cannot convert string to a flonum'') else Inr (v, h))"

definition coerce_num :: "cxparams \<Rightarrow> heap \<Rightarrow> rstr \<Rightarrow> val \<Rightarrow> (val \<times> heap) res" where
  "coerce_num Q h s argv =
     (case argv of
        Fix b \<Rightarrow>
          (let base = signed_take_bit 31 b; has = (\<lambda>ch. arc_strchr s ch \<noteq> NIL) in
           if s = [] then Inl UB
           else if last s = 105 \<or> last s = 106 then cx_complex Q h s base
           else if has 46 then coerce_flonum Q h s b
           else if base < 14 \<and> (has 101 \<or> has 69) then coerce_flonum Q h s b
           else if base < 25 \<and> (has 112 \<or> has 80) then coerce_flonum Q h s b
           else if has 38 then coerce_flonum Q h s b
           else if has 47 then
             (case arc_strchr s 47 of
                Fix slashpos \<Rightarrow>
                  rbind (arc_str2int (cx_nums Q) h (take (nat slashpos) s) b) (\<lambda>(numer, h).
                  rbind (arc_str2int (cx_nums Q) h (drop (nat slashpos + 1) s) b) (\<lambda>(denom, h).
                    if numer = NIL \<or> denom = NIL then Inl (ArcErr ''string->flonum cannot convert to a rational'')
                    else arc_div2 (cx_nums Q) h numer denom))
              | _ \<Rightarrow> Inl UB)
           else rbind (arc_str2int (cx_nums Q) h s base) (\<lambda>(res, h).
                  if res \<noteq> NIL then Inr (res, h) else Inl (ArcErr ''cannot coerce to numeric type'')))
      | _ \<Rightarrow> Inl UB)"

subsection \<open>Strings, lists and vectors\<close>

text \<open>The characters of a string are consed up from the last one.\<close>

fun consed_chars :: "rstr \<Rightarrow> val \<Rightarrow> heap \<Rightarrow> val \<times> heap" where
  "consed_chars [] ncons h = (ncons, h)"
| "consed_chars (r # s) ncons h =
     (let (a, h) = halloc h (OChar r); (ncons, h) = cons h (Ref a) ncons in consed_chars s ncons h)"

type_synonym coercer = "val \<Rightarrow> val \<Rightarrow> val \<Rightarrow> cstate \<Rightarrow> (val \<times> cstate) run"

definition string_xcoerce :: "cxparams \<Rightarrow> coercer \<Rightarrow> val \<Rightarrow> rstr \<Rightarrow> arc_type \<Rightarrow> val \<Rightarrow> cstate \<Rightarrow> (val \<times> cstate) run" where
  "string_xcoerce Q coerce obj s stype arg0 = (\<lambda>(h, c).
     let arg = (if arg0 = UNBOUND then Fix 10 else arg0) in
     if stype = T_STRING then ret (obj, (h, c))
     else if stype = T_SYMBOL then
       (case intern (ARC_BUILTIN S_NIL) c (KStr s) of None \<Rightarrow> None | Some (v, c) \<Rightarrow> ret (v, (h, c)))
     else if stype = T_CONS then on_heap c (Inr (consed_chars (rev s) NIL h))
     else if stype = T_FIXNUM \<or> stype = T_BIGNUM then on_heap c (string2fixnum Q h s arg)
     else if stype = T_FLONUM then
       on_heap c (rbind (case arg of Fix b \<Rightarrow> cx_str2flo Q h s b | _ \<Rightarrow> Inl UB) (\<lambda>(v, h). if v = NIL then Inl (ArcErr ''cannot coerce'') else Inr (v, h)))
     else if stype = T_COMPLEX \<or> stype = T_RATIONAL then
       on_heap c (rbind (coerce_num Q h s arg) (\<lambda>(v, h). if htype h v \<noteq> stype then Inl (ArcErr ''cannot coerce'') else Inr (v, h)))
     else if stype = T_NUM then on_heap c (coerce_num Q h s arg)
     else if stype = T_INT then
       rthen (on_heap c (coerce_num Q h s arg)) (\<lambda>(num, st). coerce num (ARC_BUILTIN S_INT) UNBOUND st)
     else cannot)"

fun cat_loop :: "(val \<Rightarrow> cstate \<Rightarrow> (val \<times> cstate) run) \<Rightarrow> nat \<Rightarrow> val \<Rightarrow> val \<Rightarrow> cstate \<Rightarrow> ((val \<times> val) \<times> cstate) run" where
  "cat_loop f 0 obj str st = None"
| "cat_loop f (Suc n) obj str st =
     (if htype (fst st) obj = T_CONS then
        rthen (Some (car (fst st) obj)) (\<lambda>x.
        rthen (f x st) (\<lambda>(t, st).
        rthen (Some (hstring (fst st) str)) (\<lambda>s1. rthen (Some (hstring (fst st) t)) (\<lambda>s2.
        case anew (OStr (arc_strcat s1 s2)) st of (str, st) \<Rightarrow>
          rthen (Some (cdr (fst st) obj)) (\<lambda>d. cat_loop f n d str st)))))
      else ret ((obj, str), st))"

definition svindex :: "heap \<Rightarrow> val \<Rightarrow> nat \<Rightarrow> val \<Rightarrow> heap res" where
  "svindex h vec i v =
     (case vec of
        Ref a \<Rightarrow> (case mem h a of
           Some (OBlk ty vs) \<Rightarrow> if i < length vs then Inr (hset h a (OBlk ty (vs[i := v]))) else Inl UB
         | _ \<Rightarrow> Inl UB)
      | _ \<Rightarrow> Inl UB)"

fun fill_loop :: "nat \<Rightarrow> val \<Rightarrow> nat \<Rightarrow> val \<Rightarrow> heap \<Rightarrow> (val \<times> heap) run" where
  "fill_loop 0 vec i obj h = None"
| "fill_loop (Suc n) vec i obj h =
     (if htype h obj = T_CONS then
        rthen (Some (car h obj)) (\<lambda>x. rthen (Some (svindex h vec i x)) (\<lambda>h. rthen (Some (cdr h obj)) (\<lambda>d. fill_loop n vec (i + 1) d h)))
      else if obj \<noteq> NIL then rthen (Some (svindex h vec i obj)) (\<lambda>h. ret (vec, h))
      else ret (vec, h))"

definition cons_xcoerce :: "cxparams \<Rightarrow> coercer \<Rightarrow> nat \<Rightarrow> val \<Rightarrow> arc_type \<Rightarrow> val \<Rightarrow> cstate \<Rightarrow> (val \<times> cstate) run" where
  "cons_xcoerce Q coerce n obj stype arg st =
     (if stype = T_CONS then ret (obj, st)
      else if stype = T_STRING then
        (case anew (OStr []) st of (str, st) \<Rightarrow>
           rthen (cat_loop (\<lambda>x. coerce x (ARC_BUILTIN S_STRING) arg) n obj str st) (\<lambda>((obj, str), st).
             if obj \<noteq> NIL then fail (ArcErr ''cannot coerce improper list'') else ret (str, st)))
      else if stype = T_VECTOR then
        (case arc_list_length (fst st) obj of
           None \<Rightarrow> None
         | Some len \<Rightarrow>
             (case arc_mkvector (fst st) (nat len) of (vec, h) \<Rightarrow>
                rthen (fill_loop n vec 0 obj h) (\<lambda>(vec, h). ret (vec, (h, snd st)))))
      else if stype = T_TABLE then cx_other Q obj stype arg st
      else cannot)"

definition vector_xcoerce :: "val \<Rightarrow> arc_type \<Rightarrow> cstate \<Rightarrow> (val \<times> cstate) run" where
  "vector_xcoerce obj stype = (\<lambda>(h, c).
     if stype = T_VECTOR then ret (obj, (h, c))
     else if stype = T_CONS then on_heap c (vector_coerce_cons h obj)
     else cannot)"

fun arc_coerce :: "cxparams \<Rightarrow> nat \<Rightarrow> coercer" where
  "arc_coerce Q 0 obj typesym arg st = None"
| "arc_coerce Q (Suc n) obj typesym arg st =
     (if obj = NIL \<and> typesym = ARC_BUILTIN S_STRING then ret (anew (OStr []) st)
      else if obj = CTRUE then ret (anew (OStr [116]) st)
      else
        (let stype = typesym2type typesym in
         case obj of
           Fix i \<Rightarrow> fixnum_xcoerce Q i stype arg st
         | Sym _ \<Rightarrow> symbol_xcoerce obj stype st
         | Ref a \<Rightarrow>
             (case mem (fst st) a of
                Some (OChar r) \<Rightarrow> char_xcoerce obj r stype st
              | Some (OStr s) \<Rightarrow> string_xcoerce Q (arc_coerce Q n) obj s stype arg st
              | Some (OCons _ _) \<Rightarrow> cons_xcoerce Q (arc_coerce Q n) n obj stype arg st
              | Some (OBlk ty _) \<Rightarrow> if ty = T_VECTOR then vector_xcoerce obj stype st else cx_other Q obj stype arg st
              | None \<Rightarrow> fail UB)
         | _ \<Rightarrow> cannot))"

definition demo_cx :: cxparams where
  "demo_cx = \<lparr> cx_nums = demo_nums, cx_flonum = \<lambda>h i. (NIL, h), cx_str2flo = \<lambda>h s b. Inr (NIL, h), cx_complex = \<lambda>h s b. Inl UB,
     cx_setstr = \<lambda>s b. None, cx_other = \<lambda>v ty arg st. cannot \<rparr>"

subsection \<open>A string and the list of its characters\<close>

lemma types: "typesym2type (ARC_BUILTIN S_STRING) = T_STRING" "typesym2type (ARC_BUILTIN S_CONS) = T_CONS"
  "typesym2type (ARC_BUILTIN S_INT) = T_INT" "typesym2type (ARC_BUILTIN S_VECTOR) = T_VECTOR"
  by (simp_all add: typesym2type_def ARC_BUILTIN_def builtin_syms_def)

lemma builtin_types: "ARC_BUILTIN x \<noteq> Ref a" "ARC_BUILTIN x \<noteq> Fix i" "ARC_BUILTIN x \<noteq> NIL"
  by (simp_all add: ARC_BUILTIN_def)

lemmas coerce_rules = types builtin_types builtin_types [symmetric] Let_def

text \<open>A list whose elements are new characters.\<close>

fun char_list :: "heap \<Rightarrow> val \<Rightarrow> rstr \<Rightarrow> bool" where
  "char_list h l [] \<longleftrightarrow> l = NIL"
| "char_list h l (r # s) \<longleftrightarrow> (\<exists>a b d. l = Ref a \<and> mem h a = Some (OCons (Ref b) d) \<and> mem h b = Some (OChar r) \<and> char_list h d s)"

lemma char_list_grown: "heap_ok h \<Longrightarrow> grown h h' \<Longrightarrow> char_list h l s \<Longrightarrow> char_list h' l s"
proof (induction s arbitrary: l)
  case (Cons r s)
  have "mem h' a = Some ob" if "mem h a = Some ob" for a ob using that Cons.prems(1,2) by (auto simp: heap_ok_def grown_def)
  then show ?case using Cons by fastforce
qed simp

lemma consed_chars_list:
  "heap_ok h \<Longrightarrow> char_list h l t \<Longrightarrow> \<exists>v h'. consed_chars s l h = (v, h') \<and> char_list h' v (rev s @ t) \<and> grown h h'"
proof (induction s arbitrary: l t h)
  case (Cons r s)
  obtain a h1 where a: "halloc h (OChar r) = (a, h1)" by fastforce
  note h1 = halloc_grown [OF Cons.prems(1) a]
  obtain v h2 where v: "cons h1 (Ref a) l = (v, h2)" by fastforce
  note h2 = cons_grown [OF grown_ok [OF conjunct1 [OF h1]] v]
  have g: "grown h h2" using h1 h2 grown_trans by blast
  have "mem h2 a = Some (OChar r)" using h1 h2 by (auto simp: grown_def heap_ok_def)
  then have "char_list h2 v (r # t)" using h2 char_list_grown [OF Cons.prems(1) g Cons.prems(2)] by auto
  from Cons.IH [OF grown_ok [OF g] this] show ?case using a v grown_trans [OF g] by auto
qed (simp add: grown_refl)

lemma anew_grown:
  assumes "heap_ok h" and "anew ob (h, c) = (v, st)"
  shows "\<exists>a h'. v = Ref a \<and> st = (h', c) \<and> mem h' a = Some ob \<and> grown h h'"
  using assms(2) halloc_grown [OF assms(1)] by (auto simp: anew_def split: prod.splits)

lemma char_to_string:
  assumes "heap_ok h" and "mem h b = Some (OChar r)"
  shows "\<exists>a h'. arc_coerce Q (Suc n) (Ref b) (ARC_BUILTIN S_STRING) arg (h, c) = ret (Ref a, (h', c)) \<and> mem h' a = Some (OStr [r]) \<and> grown h h'"
  using assms anew_grown [OF assms(1), of "OStr [r]" c] by (cases "anew (OStr [r]) (h, c)") (auto simp: coerce_rules char_xcoerce_def)

lemma cat_chars:
  "heap_ok h \<Longrightarrow> char_list h l t \<Longrightarrow> mem h a = Some (OStr s) \<Longrightarrow> length t < n \<Longrightarrow>
    \<exists>a' h'. cat_loop (\<lambda>x. arc_coerce Q (Suc m) x (ARC_BUILTIN S_STRING) arg) n l (Ref a) (h, c) = ret ((NIL, Ref a'), (h', c))
      \<and> mem h' a' = Some (OStr (s @ t)) \<and> grown h h'"
proof (induction t arbitrary: l h a s n)
  case Nil
  then show ?case by (cases n) (auto simp: htype_def grown_refl)
next
  case (Cons r t)
  obtain k where n: "n = Suc k" "length t < k" using Cons.prems(4) by (cases n) auto
  obtain p b d where l: "l = Ref p" "mem h p = Some (OCons (Ref b) d)" "mem h b = Some (OChar r)" "char_list h d t"
    using Cons.prems(2) by auto
  obtain q h1 where q: "arc_coerce Q (Suc m) (Ref b) (ARC_BUILTIN S_STRING) arg (h, c) = ret (Ref q, (h1, c))" "mem h1 q = Some (OStr [r])" "grown h h1"
    using char_to_string [OF Cons.prems(1) l(3)] by blast
  obtain v st where "anew (OStr (s @ [r])) (h1, c) = (v, st)" by (metis surj_pair)
  with anew_grown [OF grown_ok [OF q(3)]] obtain e h2 where e: "anew (OStr (s @ [r])) (h1, c) = (Ref e, (h2, c))" "mem h2 e = Some (OStr (s @ [r]))" "grown h1 h2"
    by blast
  have g: "grown h h2" using q(3) e(3) grown_trans by blast
  have m: "mem h1 a = Some (OStr s)" "mem h2 p = Some (OCons (Ref b) d)" using Cons.prems(1,3) l(2) q(3) g by (auto simp: heap_ok_def grown_def)
  obtain a' h3 where "cat_loop (\<lambda>x. arc_coerce Q (Suc m) x (ARC_BUILTIN S_STRING) arg) k d (Ref e) (h2, c) = ret ((NIL, Ref a'), (h3, c))"
      "mem h3 a' = Some (OStr ((s @ [r]) @ t))" "grown h2 h3"
    using Cons.IH [OF grown_ok [OF g] char_list_grown [OF Cons.prems(1) g l(4)] e(2) n(2)] by blast
  then show ?case using n(1) l(1,2) q(1,2) e(1) m grown_trans [OF g]
    by (auto simp: htype_def car_def cdr_def arc_strcat_def simp del: arc_coerce.simps)
qed

text \<open>
  Property C26. A string coerced to a list gives the list of its characters, and this list coerced to a
  string gives a string with the same runes; both conversions return.
\<close>

theorem string_list_roundtrip:
  assumes "heap_ok h" and "mem h a = Some (OStr s)"
  shows "\<exists>l h' b h''. arc_coerce Q (Suc n) (Ref a) (ARC_BUILTIN S_CONS) arg (h, c) = ret (l, (h', c)) \<and> char_list h' l s
    \<and> arc_coerce Q (length s + 3) l (ARC_BUILTIN S_STRING) arg' (h', c) = ret (Ref b, (h'', c)) \<and> mem h'' b = Some (OStr s) \<and> grown h h''"
proof -
  obtain l h' where l: "consed_chars (rev s) NIL h = (l, h')" "char_list h' l s" "grown h h'"
    using consed_chars_list [OF assms(1), of NIL "[]" "rev s"] by auto
  have to: "arc_coerce Q (Suc n) (Ref a) (ARC_BUILTIN S_CONS) arg (h, c) = ret (l, (h', c))"
    using assms(2) l(1) by (simp add: coerce_rules string_xcoerce_def on_heap_def)
  have "\<exists>b h''. arc_coerce Q (length s + 3) l (ARC_BUILTIN S_STRING) arg' (h', c) = ret (Ref b, (h'', c)) \<and> mem h'' b = Some (OStr s) \<and> grown h' h''"
  proof -
    obtain v st where "anew (OStr []) (h', c) = (v, st)" by (metis surj_pair)
    with anew_grown [OF grown_ok [OF l(3)]] obtain e h1 where e: "anew (OStr []) (h', c) = (Ref e, (h1, c))" "mem h1 e = Some (OStr [])" "grown h' h1" by blast
    show ?thesis
    proof (cases s)
      case Nil
      then show ?thesis using l(2) e by (auto simp: coerce_rules eval_nat_numeral)
    next
      case (Cons r t)
      then obtain p x d where p: "l = Ref p" "mem h' p = Some (OCons x d)" using l(2) by auto
      obtain b h2 where "cat_loop (\<lambda>x. arc_coerce Q (Suc (length s + 1)) x (ARC_BUILTIN S_STRING) arg') (length s + 2) l (Ref e) (h1, c) = ret ((NIL, Ref b), (h2, c))"
          "mem h2 b = Some (OStr ([] @ s))" "grown h1 h2"
        using cat_chars [OF grown_ok [OF e(3)] char_list_grown [OF grown_ok [OF l(3)] e(3) l(2)] e(2), of "length s + 2"] by fastforce
      then show ?thesis using p e(1,3) grown_trans
        by (auto simp: coerce_rules cons_xcoerce_def eval_nat_numeral simp del: cat_loop.simps)
    qed
  qed
  then show ?thesis using to l(2,3) grown_trans by blast
qed

theorem string_list_roundtrip_witness:
  "\<exists>l h' b h''. arc_coerce demo_cx 1 (Ref 2) (ARC_BUILTIN S_CONS) UNBOUND (demo_lists, init_symtabs) = ret (l, (h', init_symtabs)) \<and> char_list h' l [104, 105]
    \<and> arc_coerce demo_cx 5 l (ARC_BUILTIN S_STRING) UNBOUND (h', init_symtabs) = ret (Ref b, (h'', init_symtabs)) \<and> mem h'' b = Some (OStr [104, 105])"
proof -
  have "heap_ok demo_lists" "mem demo_lists 2 = Some (OStr [104, 105])" by (auto simp: heap_ok_def demo_lists_def)
  from string_list_roundtrip [OF this, of demo_cx 0 UNBOUND init_symtabs UNBOUND]
  show ?thesis by (auto simp del: arc_coerce.simps char_list.simps)
qed

subsection \<open>Numbers and their digits\<close>

lemma strchr_none: "arc_strchr s ch = NIL \<longleftrightarrow> ch \<notin> set s"
proof -
  have "strchr_loop s i ch = NIL \<longleftrightarrow> ch \<notin> set s" for i by (induction s arbitrary: i) auto
  then show ?thesis by (simp add: arc_strchr_def)
qed

text \<open>Digits below 18 are none of the characters that mark other numbers.\<close>

lemma plain_digits:
  assumes "2 \<le> b" and "b \<le> 18" and "\<bar>i\<bar> \<le> FIX_MAX"
  obtains s where "\<And>N h. arc_itoa N h i (Fix (int b)) False False = Some (Inr s)" and "s \<noteq> []"
    and "\<And>r. r \<in> set s \<Longrightarrow> r = 45 \<or> 48 \<le> r \<and> r \<le> 57 \<or> 97 \<le> r \<and> r < 97 + (int b - 10)"
proof
  let ?ds = "map (digit_char False) (radix_digits b (nat \<bar>i\<bar>))"
  let ?s = "if i = 0 then [48] else (if i < 0 then [45] else []) @ ?ds"
  show "arc_itoa N h i (Fix (int b)) False False = Some (Inr ?s)" for N h using itoa_form [of b i N h False False] assms by simp
  show "?s \<noteq> []" using radix_digits_nonempty [of b "nat \<bar>i\<bar>"] assms(1) by auto
  have d: "digit_char False d = 48 + int d \<and> d < 10 \<or> digit_char False d = 87 + int d \<and> 10 \<le> d" for d by (simp add: digit_char_def)
  have "48 \<le> r \<and> r \<le> 57 \<or> 97 \<le> r \<and> r < 97 + (int b - 10)" if in_ds: "r \<in> set ?ds" for r
  proof -
    obtain d where r: "d \<in> set (radix_digits b (nat \<bar>i\<bar>))" "r = digit_char False d" using in_ds by auto
    have "d < b" using radix_digits_less [OF r(1)] assms(1) by simp
    then show ?thesis using d [of d] r(2) by auto
  qed
  then show "r = 45 \<or> 48 \<le> r \<and> r \<le> 57 \<or> 97 \<le> r \<and> r < 97 + (int b - 10)" if "r \<in> set ?s" for r
    using that by (auto split: if_splits)
qed

lemma coerce_num_plain:
  assumes "s \<noteq> []" and "\<And>r. r \<in> set s \<Longrightarrow> r = 45 \<or> 48 \<le> r \<and> r \<le> 57 \<or> 97 \<le> r \<and> r < 97 + (int b - 10)" and "b \<le> 18"
    and "arc_str2int (cx_nums Q) h s (int b) = Inr (Fix i, h')"
  shows "coerce_num Q h s (Fix (int b)) = Inr (Fix i, h')"
proof -
  have l: "last s \<in> set s" using assms(1) by simp
  have no: "ch \<notin> set s" if "ch \<in> {46, 38, 47, 69, 80, 112} \<or> ch = 101 \<and> int b < 14" for ch
    using assms(2) [of ch] assms(3) that by auto
  have i: "last s \<noteq> 105" "last s \<noteq> 106" using assms(2) [OF l] assms(3) by auto
  have "signed_take_bit 31 (int b) = int b" using assms(3) by (simp add: signed_take_bit_int_eq_self)
  then show ?thesis using assms(1,4) no [of 46] no [of 38] no [of 47] no [of 69] no [of 80] no [of 112] no [of 101] i
    by (auto simp: coerce_num_def strchr_none Let_def)
qed

text \<open>
  Property C24. A fixnum coerced to a string in a base from 2 to 18 and the string coerced to an integer
  in the same base give the fixnum back; the text is not taken for a fraction, a floating point or a
  complex number, although those have letters in them.
\<close>

theorem number_roundtrip:
  assumes "gmp_ok (cx_nums Q)" and "heap_ok h" and "2 \<le> b" and "b \<le> 18" and "\<bar>i\<bar> \<le> FIX_MAX"
  shows "\<exists>a h' h''. arc_coerce Q (Suc n) (Fix i) (ARC_BUILTIN S_STRING) (Fix (int b)) (h, c) = ret (Ref a, (h', c))
    \<and> arc_coerce Q (Suc (Suc n)) (Ref a) (ARC_BUILTIN S_INT) (Fix (int b)) (h', c) = ret (Fix i, (h'', c))"
proof -
  obtain s where s: "\<And>N h. arc_itoa N h i (Fix (int b)) False False = Some (Inr s)" "s \<noteq> []"
    "\<And>r. r \<in> set s \<Longrightarrow> r = 45 \<or> 48 \<le> r \<and> r \<le> 57 \<or> 97 \<le> r \<and> r < 97 + (int b - 10)"
    using plain_digits [OF assms(3-5)] by blast
  obtain v st where "anew (OStr s) (h, c) = (v, st)" by (metis surj_pair)
  with anew_grown [OF assms(2)] obtain a h' where a: "anew (OStr s) (h, c) = (Ref a, (h', c))" "mem h' a = Some (OStr s)" "grown h h'" by blast
  obtain h'' where "arc_str2int (cx_nums Q) h' s (int b) = Inr (Fix i, h'')"
    using itoa_roundtrip [OF assms(1) grown_ok [OF a(3)] assms(3) _ assms(5), of False False] assms(4) s(1) by auto
  from coerce_num_plain [OF s(2,3) assms(4) this]
  have "coerce_num Q h' s (Fix (int b)) = Inr (Fix i, h'')" .
  then show ?thesis using a(1,2) s(1)
    by (auto simp: coerce_rules fixnum_xcoerce_def string_xcoerce_def on_heap_def)
qed

theorem number_roundtrip_witness:
  "\<exists>a h' h''. arc_coerce demo_cx 1 (Fix (- 255)) (ARC_BUILTIN S_STRING) (Fix 16) (empty_heap, init_symtabs) = ret (Ref a, (h', init_symtabs))
    \<and> arc_coerce demo_cx 2 (Ref a) (ARC_BUILTIN S_INT) (Fix 16) (h', init_symtabs) = ret (Fix (- 255), (h'', init_symtabs))"
  using number_roundtrip [of demo_cx empty_heap 16 "- 255" 0 init_symtabs]
  by (simp add: demo_cx_def demo_gmp empty_heap_ok FIX_MAX_def eval_nat_numeral del: arc_coerce.simps)

text \<open>In base 20 the digit 18 at the end is taken for the imaginary unit.\<close>

lemma digit_i_is_complex: "coerce_num Q h [49, 105] (Fix 20) = cx_complex Q h [49, 105] 20"
  by (simp add: coerce_num_def)

text \<open>Whatever the type asked for, true becomes a string; nil becomes nothing but a string.\<close>

lemma coerce_true: "arc_coerce Q (Suc n) CTRUE ty arg (h, c) = ret (anew (OStr [116]) (h, c))"
  by (simp add: coerce_rules)

lemma coerce_nil: "ty \<noteq> ARC_BUILTIN S_STRING \<Longrightarrow> arc_coerce Q (Suc n) NIL ty arg (h, c) = cannot"
  by (simp add: coerce_rules)

text \<open>A string with a character of more than one byte overruns the buffer it is converted in.\<close>

lemma fixnum_buffer_overrun: "string2fixnum Q h [0xE9] (Fix b) = Inl UB"
proof -
  have "arc_str2cstr [0xE9] = [0xC3, 0xA9, 0]" by code_simp
  then show ?thesis by (simp add: string2fixnum_def arc_strlen_def)
qed

end
