(* ===== verification/Isaac.thy ===== *)
theory Isaac
  imports Arith
begin

unbundle bit_operations_syntax

text \<open>
  The random numbers of \<open>src/src/mathfns.c\<close>: Jenkins' generator ISAAC with words of 64 bits, its seeding
  and \<open>rand\<close>. The static variables are a record. The pointers \<open>m\<close>, \<open>m2\<close> and \<open>r\<close> of the C code are
  indices; \<open>r\<close> moves with \<open>m\<close>.
\<close>

type_synonym u64 = "64 word"

record isaac =
  randrsl :: "u64 list"
  randcnt :: u64
  mm :: "u64 list"
  aa :: u64
  bb :: u64
  cc :: u64

definition RANDSIZ :: nat where
  "RANDSIZ = 256"

subsection \<open>The generator\<close>

text \<open>\<open>IND\<close> reads the word at a byte offset with the low three bits cleared.\<close>

definition IND :: "u64 list \<Rightarrow> u64 \<Rightarrow> u64" where
  "IND ws x = ws ! unat (drop_bit 3 (x AND 0x7F8))"

type_synonym rng = "u64 \<times> u64 \<times> u64 list \<times> u64 list"

definition RNGSTEP :: "(u64 \<Rightarrow> u64) \<Rightarrow> nat \<Rightarrow> nat \<Rightarrow> rng \<Rightarrow> rng" where
  "RNGSTEP mix m m2 = (\<lambda>(a, b, mm, r).
     let x = mm ! m;
         a = mix a + mm ! m2;
         y = IND mm x + a + b;
         mm = mm[m := y];
         b = IND mm (drop_bit 8 y) + x
     in (a, b, mm, r[m := b]))"

definition mixes :: "(u64 \<Rightarrow> u64) list" where
  "mixes = [\<lambda>a. NOT (a XOR push_bit 21 a), \<lambda>a. a XOR drop_bit 5 a, \<lambda>a. a XOR push_bit 12 a, \<lambda>a. a XOR drop_bit 33 a]"

text \<open>Either loop: \<open>k\<close> more rounds of four steps.\<close>

fun rng_loop :: "nat \<Rightarrow> nat \<Rightarrow> nat \<Rightarrow> rng \<Rightarrow> rng" where
  "rng_loop 0 m m2 g = g"
| "rng_loop (Suc k) m m2 g =
     (let g = RNGSTEP (mixes ! 0) m m2 g;
          g = RNGSTEP (mixes ! 1) (m + 1) (m2 + 1) g;
          g = RNGSTEP (mixes ! 2) (m + 2) (m2 + 2) g;
          g = RNGSTEP (mixes ! 3) (m + 3) (m2 + 3) g
      in rng_loop k (m + 4) (m2 + 4) g)"

definition isaac64 :: "isaac \<Rightarrow> isaac" where
  "isaac64 s =
     (let cc' = cc s + 1;
          g = rng_loop (RANDSIZ div 8) 0 (RANDSIZ div 2) (aa s, bb s + cc', mm s, randrsl s);
          (a, b, mm', r) = rng_loop (RANDSIZ div 8) (RANDSIZ div 2) 0 g
      in s \<lparr> cc := cc', bb := b, aa := a, mm := mm', randrsl := r \<rparr>)"

subsection \<open>Seeding\<close>

type_synonym octet = "u64 \<times> u64 \<times> u64 \<times> u64 \<times> u64 \<times> u64 \<times> u64 \<times> u64"

definition MIX :: "octet \<Rightarrow> octet" where
  "MIX = (\<lambda>(a, b, c, d, e, f, g, h).
     let a = a - e; f = f XOR drop_bit 9 h; h = h + a;
         b = b - f; g = g XOR push_bit 9 a; a = a + b;
         c = c - g; h = h XOR drop_bit 23 b; b = b + c;
         d = d - h; a = a XOR push_bit 15 c; c = c + d;
         e = e - a; b = b XOR drop_bit 14 d; d = d + e;
         f = f - b; c = c XOR push_bit 20 e; e = e + f;
         g = g - c; d = d XOR drop_bit 17 f; f = f + g;
         h = h - d; e = e XOR push_bit 14 g; g = g + h
     in (a, b, c, d, e, f, g, h))"

text \<open>A pass of the seeding adds \<open>src\<close>, which is \<open>randrsl\<close> or \<open>mm\<close> itself, eight words at a time.\<close>

definition seed_step :: "(u64 list \<Rightarrow> u64 list) \<Rightarrow> nat \<Rightarrow> octet \<times> u64 list \<Rightarrow> octet \<times> u64 list" where
  "seed_step src i = (\<lambda>((a, b, c, d, e, f, g, h), mm).
     let v = src mm;
         (a, b, c, d, e, f, g, h) = MIX (a + v ! i, b + v ! (i + 1), c + v ! (i + 2), d + v ! (i + 3),
           e + v ! (i + 4), f + v ! (i + 5), g + v ! (i + 6), h + v ! (i + 7))
     in ((a, b, c, d, e, f, g, h),
         mm[i := a, i + 1 := b, i + 2 := c, i + 3 := d, i + 4 := e, i + 5 := f, i + 6 := g, i + 7 := h]))"

fun seed_pass :: "(u64 list \<Rightarrow> u64 list) \<Rightarrow> nat \<Rightarrow> nat \<Rightarrow> octet \<times> u64 list \<Rightarrow> octet \<times> u64 list" where
  "seed_pass src 0 i st = st"
| "seed_pass src (Suc k) i st = seed_pass src k (i + 8) (seed_step src i st)"

definition arc_srand :: "val \<Rightarrow> isaac \<Rightarrow> (val \<times> isaac) res" where
  "arc_srand seed s =
     (case seed of
        Fix i \<Rightarrow>
          (let g = 0x9e3779b97f4a7c13;
               rsl = (randrsl s)[0 := word_of_int i];
               st = seed_pass (\<lambda>_. rsl) (RANDSIZ div 8) 0 ((g, g, g, g, g, g, g, g), replicate RANDSIZ 0);
               (_, mm') = seed_pass (\<lambda>m. m) (RANDSIZ div 8) 0 st;
               s = isaac64 (s \<lparr> randrsl := rsl, mm := mm', aa := 0, bb := 0, cc := 0 \<rparr>)
           in Inr (seed, s \<lparr> randcnt := of_nat RANDSIZ \<rparr>))
      | _ \<Rightarrow> Inl (ArcErr ''srand requires first argument be a fixnum, given object of type %d''))"

subsection \<open>Drawing\<close>

definition RAND :: "isaac \<Rightarrow> u64 \<times> isaac" where
  "RAND s =
     (let old = randcnt s; s = s \<lparr> randcnt := old - 1 \<rparr> in
      if old = 0 then (let s = isaac64 s; s = s \<lparr> randcnt := of_nat (RANDSIZ - 1) \<rparr> in (randrsl s ! unat (randcnt s), s))
      else (randrsl s ! unat (randcnt s), s))"

text \<open>The floating point quotient of two draws is the argument \<open>quot\<close>.\<close>

definition arc_rand :: "(u64 \<Rightarrow> u64 \<Rightarrow> val) \<Rightarrow> val \<Rightarrow> isaac \<Rightarrow> (val \<times> isaac) res" where
  "arc_rand quot mmax s =
     (case mmax of
        UNBOUND \<Rightarrow> (case RAND s of (r1, s) \<Rightarrow> case RAND s of (r2, s) \<Rightarrow>
          Inr (quot (r1 AND 0x1fffffffffffff) (r2 AND 0x1fffffffffffff), s))
      | Fix i \<Rightarrow>
          (let max = (word_of_int i :: u64) in
           case RAND s of (r, s) \<Rightarrow> if max = 0 then Inl UB else Inr (mkfix (sint (r mod max)), s))
      | _ \<Rightarrow> Inl (ArcErr ''rand expects fixnum argument, given type %d''))"

subsection \<open>The published generator\<close>

text \<open>
  One pass over all words with the index taken modulo the size, as ISAAC is defined.
\<close>

definition isaac_step :: "nat \<Rightarrow> rng \<Rightarrow> rng" where
  "isaac_step i = RNGSTEP (mixes ! (i mod 4)) i ((i + 128) mod 256)"

definition isaac_ref :: "isaac \<Rightarrow> isaac" where
  "isaac_ref s =
     (case fold isaac_step [0..<256] (aa s, bb s + (cc s + 1), mm s, randrsl s) of
        (a, b, mm', r) \<Rightarrow> s \<lparr> cc := cc s + 1, bb := b, aa := a, mm := mm', randrsl := r \<rparr>)"

lemma upt_four: "[m..<m + 4 * Suc k] = m # (m + 1) # (m + 2) # (m + 3) # [m + 4..<m + 4 + 4 * k]"
proof -
  have "[m..<n] = m # (m + 1) # (m + 2) # (m + 3) # [m + 4..<n]" if "m + 3 < n" for n
    using that by (simp add: upt_conv_Cons eval_nat_numeral)
  from this [of "m + 4 + 4 * k"] show ?thesis by (simp add: add.assoc del: upt_Suc)
qed

lemma partner:
  assumes "(m + 128) mod 256 = (m2 :: nat)" and "m2 + j < 256"
  shows "(m + j + 128) mod 256 = m2 + j"
proof -
  have "(m + j + 128) mod 256 = ((m + 128) mod 256 + j) mod 256" unfolding mod_add_left_eq by (simp add: ac_simps)
  then show ?thesis using assms by simp
qed

lemma rng_loop_ref:
  "4 dvd m \<Longrightarrow> m2 + 4 * k \<le> 256 \<Longrightarrow> (m + 128) mod 256 = m2 mod 256 \<Longrightarrow> rng_loop k m m2 g = fold isaac_step [m..<m + 4 * k] g"
proof (induction k arbitrary: m m2 g)
  case (Suc k)
  have m2: "m2 mod 256 = m2" "m2 + 3 < 256" using Suc.prems(2) by simp_all
  have p: "(m + j + 128) mod 256 = m2 + j" if "j < 4" for j using partner [of m m2 j] Suc.prems(3) m2 that by simp
  have q: "(m + j) mod 4 = j" if "j < 4" for j using Suc.prems(1) that by (metis mod_add_left_eq dvd_imp_mod_0 add_0 mod_less)
  have "(m + 4 + 128) mod 256 = ((m + 128) mod 256 + 4) mod 256" unfolding mod_add_left_eq by (simp add: ac_simps)
  then have "(m + 4 + 128) mod 256 = (m2 + 4) mod 256" using Suc.prems(3) m2(1) by simp
  then have "rng_loop k (m + 4) (m2 + 4) g' = fold isaac_step [m + 4..<m + 4 + 4 * k] g'" for g'
    using Suc.prems(1,2) by (intro Suc.IH) simp_all
  moreover have "isaac_step (m + j) = RNGSTEP (mixes ! j) (m + j) (m2 + j)" if "j < 4" for j
    using p [OF that] q [OF that] by (simp add: isaac_step_def)
  from this [of 0] this [of 1] this [of 2] this [of 3]
  have "isaac_step m = RNGSTEP (mixes ! 0) m m2" "isaac_step (m + 1) = RNGSTEP (mixes ! 1) (m + 1) (m2 + 1)"
    "isaac_step (m + 2) = RNGSTEP (mixes ! 2) (m + 2) (m2 + 2)" "isaac_step (m + 3) = RNGSTEP (mixes ! 3) (m + 3) (m2 + 3)"
    by simp_all
  ultimately show ?case unfolding upt_four rng_loop.simps Let_def by (simp only: fold_simps)
qed simp


subsection \<open>Bounds\<close>

lemma IND_inside: "unat (drop_bit 3 (x AND (0x7F8 :: u64))) < 256"
proof -
  have "drop_bit 3 (x AND 0x7F8) = drop_bit 3 x AND 0xFF" by (simp add: drop_bit_and)
  also have "\<dots> = take_bit 8 (drop_bit 3 x)" by (simp add: take_bit_eq_mask mask_numeral)
  finally show ?thesis using take_bit_nat_less_exp [of 8 "unat (drop_bit 3 x)"] by (simp add: unsigned_take_bit_eq)
qed

definition isaac_ok :: "isaac \<Rightarrow> bool" where
  "isaac_ok s \<longleftrightarrow> length (mm s) = RANDSIZ \<and> length (randrsl s) = RANDSIZ \<and> unat (randcnt s) \<le> RANDSIZ"

lemma RNGSTEP_lengths: "length (fst (snd (snd (RNGSTEP f m m2 g)))) = length (fst (snd (snd g)))"
  "length (snd (snd (snd (RNGSTEP f m m2 g)))) = length (snd (snd (snd g)))"
  by (simp_all add: RNGSTEP_def Let_def split_def)

lemma rng_loop_lengths: "length (fst (snd (snd (rng_loop k m m2 g)))) = length (fst (snd (snd g)))"
  "length (snd (snd (snd (rng_loop k m m2 g)))) = length (snd (snd (snd g)))"
  by (induction k arbitrary: m m2 g) (simp_all add: Let_def RNGSTEP_lengths)

lemma isaac64_lengths: "length (mm (isaac64 s)) = length (mm s)" "length (randrsl (isaac64 s)) = length (randrsl s)" "randcnt (isaac64 s) = randcnt s"
  by (simp_all add: isaac64_def Let_def split_def rng_loop_lengths)

lemma RAND_ok:
  assumes "isaac_ok s" and "RAND s = (r, s')"
  shows "isaac_ok s' \<and> unat (randcnt s') < RANDSIZ \<and> r = randrsl s' ! unat (randcnt s')"
proof (cases "randcnt s = 0")
  case True
  then show ?thesis using assms by (auto simp: RAND_def Let_def isaac_ok_def isaac64_lengths RANDSIZ_def)
next
  case False
  then have "unat (randcnt s - 1) = unat (randcnt s) - 1" "0 < unat (randcnt s)" by (simp_all add: unat_minus_one unat_gt_0)
  then show ?thesis using assms False by (auto simp: RAND_def Let_def isaac_ok_def)
qed

text \<open>
  Property C31. A random number below a positive fixnum is drawn from a slot of the results that is in
  bounds, is not negative and is less than the fixnum; the state stays in bounds.
\<close>

theorem rand_range:
  assumes "isaac_ok s" and "0 < n" and "n \<le> FIX_MAX"
  shows "\<exists>k s'. arc_rand quot (Fix n) s = Inr (Fix k, s') \<and> 0 \<le> k \<and> k < n \<and> isaac_ok s' \<and> unat (randcnt s') < RANDSIZ"
proof -
  obtain r s' where r: "RAND s = (r, s')" by fastforce
  let ?w = "word_of_int n :: u64"
  have n: "uint ?w = n" using assms(2,3) by (simp add: FIX_MAX_def uint_word_of_int_eq take_bit_int_eq_self)
  then have w: "?w \<noteq> 0" using assms(2) by auto
  have u: "uint (r mod ?w) < n" "0 \<le> uint (r mod ?w)" using n assms(2) by (simp_all add: uint_mod_distrib)
  then have "uint (r mod ?w) < 2 ^ 63" "- (2 ^ 63) \<le> uint (r mod ?w)" using assms(3) by (simp_all add: FIX_MAX_def order_trans [OF _ uint_ge_0])
  then have "sint (r mod ?w) = uint (r mod ?w)" unfolding sint_uint by (intro signed_take_bit_int_eq_self) simp_all
  moreover have "mkfix (uint (r mod ?w)) = Fix (uint (r mod ?w))" using u assms(3) fix_simps(1) by simp
  ultimately show ?thesis using r w u RAND_ok [OF assms(1) r] by (auto simp: arc_rand_def Let_def)
qed

text \<open>The words after seeding depend on the seed and on what was in \<open>randrsl\<close> before.\<close>

lemma srand_keeps_results:
  assumes "randrsl s = randrsl s'" and "arc_srand (Fix i) s = Inr (v, t)" and "arc_srand (Fix i) s' = Inr (v', t')"
  shows "mm t = mm t' \<and> randrsl t = randrsl t' \<and> randcnt t = randcnt t'"
  using assms by (auto simp: arc_srand_def isaac64_def Let_def split: prod.splits)

lemma seed_step_length: "length (snd (seed_step src j st)) = length (snd st)"
  by (simp add: seed_step_def Let_def split_def)

lemma seed_pass_length: "length (snd (seed_pass src k j st)) = length (snd st)"
  by (induction k arbitrary: j st) (simp_all add: seed_step_length)

lemma srand_ok: "isaac_ok s \<Longrightarrow> arc_srand (Fix i) s = Inr (v, t) \<Longrightarrow> isaac_ok t"
  by (auto simp: arc_srand_def Let_def split_def isaac_ok_def isaac64_lengths RANDSIZ_def seed_pass_length)

definition demo_isaac :: isaac where
  "demo_isaac = \<lparr> randrsl = replicate 256 0, randcnt = 0, mm = replicate 256 0, aa = 0, bb = 0, cc = 0 \<rparr>"

theorem rand_range_witness: "\<exists>k s'. arc_rand (\<lambda>a b. NIL) (Fix 6) demo_isaac = Inr (Fix k, s') \<and> 0 \<le> k \<and> k < 6"
  using rand_range [of demo_isaac 6 "\<lambda>a b. NIL"] by (auto simp: isaac_ok_def demo_isaac_def RANDSIZ_def FIX_MAX_def)

lemma rand_zero: "arc_rand quot (Fix 0) s = Inl UB"
  by (simp add: arc_rand_def split_def)

end
