(* ===== verification/Spec2Isabelle.thy ===== *)
theory Spec2Isabelle
  imports Values Utf HashFn HashTable Symbols Builtins Heap Strings Codegen Alloc Machine VM Ssyntax Compiler CompileInv CompileRun CompileCore Quasi Channel Arith Ports Reader Printer ReadBack Winds Threads Compare Coerce Isaac
begin

text \<open>
  A verification library for the Arcueid interpreter (a C implementation of Arc).
\<close>

end
